(* ===== verification/Boks_Prelude.thy ===== *)
theory Boks_Prelude
  imports Main "HOL-Library.AList" "HOL-Library.Code_Target_Nat" "HOL-Library.Code_Target_Int" "HOL-Library.Char_ord" "HOL-Library.List_Lexorder" "HOL-Library.Sublist"
begin

section \<open>Shared vocabulary: Go strings and numbers, and the contracts components share\<close>

text \<open>
  Go strings are byte strings, so they are modelled as HOL's \<open>string\<close>, a list of 8-bit
  characters, and every length below counts bytes as \<open>len\<close> does. This theory holds the parts of
  Go's \<open>strings\<close> and \<open>strconv\<close> packages that the modelled components use, with the lemmas about
  them, and the locales that several components instantiate. The two \<open>Code_Target\<close> theories only
  make evaluation inside the kernel use binary numbers.
\<close>

named_theorems go_string \<open>evaluation and characterisation of the modelled string functions\<close>

subsection \<open>Results\<close>

text \<open>A fallible Go function returns a value or an error; the error is the left summand.\<close>

definition is_ok :: "'e + 'a \<Rightarrow> bool" where
  "is_ok r = (case r of Inl _ \<Rightarrow> False | Inr _ \<Rightarrow> True)"

lemma is_ok_simps [simp]: "\<not> is_ok (Inl e)" "is_ok (Inr x)"
  by (simp_all add: is_ok_def)

lemma is_ok_iff: "is_ok r \<longleftrightarrow> (\<exists>x. r = Inr x)"
  by (cases r) simp_all

text \<open>Run a fallible function over a list, stopping at the first error.\<close>

fun map_res :: "('a \<Rightarrow> 'e + 'b) \<Rightarrow> 'a list \<Rightarrow> 'e + 'b list" where
  "map_res f [] = Inr []"
| "map_res f (x # xs) =
     (case f x of Inl e \<Rightarrow> Inl e
      | Inr y \<Rightarrow> (case map_res f xs of Inl e \<Rightarrow> Inl e | Inr ys \<Rightarrow> Inr (y # ys)))"

lemma map_res_Inr_iff:
  "map_res f xs = Inr ys \<longleftrightarrow> list_all2 (\<lambda>x y. f x = Inr y) xs ys"
proof (induction xs arbitrary: ys)
  case (Cons x xs)
  then show ?case
    by (auto simp: list_all2_Cons1 Cons.IH [symmetric] split: sum.splits)
qed auto

lemma map_res_map: "(\<And>x. x \<in> set xs \<Longrightarrow> f x = Inr (g x)) \<Longrightarrow> map_res f xs = Inr (map g xs)"
  by (induction xs) auto

lemma map_res_append:
  "map_res f (xs @ ys) =
     (case map_res f xs of Inl e \<Rightarrow> Inl e
      | Inr as \<Rightarrow> (case map_res f ys of Inl e \<Rightarrow> Inl e | Inr bs \<Rightarrow> Inr (as @ bs)))"
  by (induction xs) (auto split: sum.splits)

lemma map_res_is_ok: "is_ok (map_res f xs) \<longleftrightarrow> (\<forall>x\<in>set xs. is_ok (f x))"
  by (induction xs) (auto split: sum.splits)

subsection \<open>White space\<close>

text \<open>
  \<open>unicode.IsSpace\<close> accepts six ASCII bytes and nineteen further code points; they are listed by
  their UTF-8 encoding, because \<open>strings.TrimSpace\<close> decodes runes from either end of a byte string.
  No encoding is a suffix or a prefix of another, so stripping an encoding is stripping one rune.
\<close>

abbreviation byte :: "nat \<Rightarrow> char" where
  "byte n \<equiv> char_of n"

definition ascii_spaces :: "string list" where
  "ascii_spaces = map (\<lambda>n. [byte n]) [9, 10, 11, 12, 13, 32]"

definition unicode_spaces :: "string list" where
  "unicode_spaces =
     [[byte 0xC2, byte 0x85], [byte 0xC2, byte 0xA0], [byte 0xE1, byte 0x9A, byte 0x80]]
     @ map (\<lambda>n. [byte 0xE2, byte 0x80, byte n])
         [0x80, 0x81, 0x82, 0x83, 0x84, 0x85, 0x86, 0x87, 0x88, 0x89, 0x8A, 0xA8, 0xA9, 0xAF]
     @ [[byte 0xE2, byte 0x81, byte 0x9F], [byte 0xE3, byte 0x80, byte 0x80]]"

definition spaces :: "string list" where
  "spaces = ascii_spaces @ unicode_spaces"

function strip :: "string list \<Rightarrow> string \<Rightarrow> string" where
  "strip ws s =
     (case find (\<lambda>w. w \<noteq> [] \<and> prefix w s) ws of
        None \<Rightarrow> s
      | Some w \<Rightarrow> strip ws (drop (length w) s))"
  by pat_completeness auto
termination
  by (relation "measure (\<lambda>(ws, s). length s)")
    (auto simp: find_Some_iff prefix_def)

declare strip.simps [simp del]

text \<open>\<open>strings.TrimSpace\<close>\<close>

definition trim_space :: "string \<Rightarrow> string" where
  "trim_space s = rev (strip (map rev spaces) (rev (strip spaces s)))"

text \<open>A printable ASCII byte other than the blank: it neither begins nor ends a white-space rune.\<close>

definition graph :: "char \<Rightarrow> bool" where
  "graph c \<longleftrightarrow> 33 \<le> (of_char c :: nat) \<and> (of_char c :: nat) \<le> 126"

lemma strip_id: "(\<And>w. w \<in> set ws \<Longrightarrow> w = [] \<or> \<not> prefix w s) \<Longrightarrow> strip ws s = s"
proof -
  assume "\<And>w. w \<in> set ws \<Longrightarrow> w = [] \<or> \<not> prefix w s"
  then have "find (\<lambda>w. w \<noteq> [] \<and> prefix w s) ws = None" by (auto simp: find_None_iff)
  then show ?thesis by (subst strip.simps) simp
qed

lemma spaces_hd: "w \<in> set spaces \<Longrightarrow> w \<noteq> [] \<and> \<not> graph (hd w) \<and> \<not> graph (last w)"
  by (auto simp: spaces_def ascii_spaces_def unicode_spaces_def graph_def)

lemma strip_spaces_graph: "s = [] \<or> graph (hd s) \<Longrightarrow> strip spaces s = s"
  by (rule strip_id) (use spaces_hd in \<open>force simp: prefix_def\<close>)

lemma strip_rev_spaces_graph: "s = [] \<or> graph (hd s) \<Longrightarrow> strip (map rev spaces) s = s"
  by (rule strip_id) (use spaces_hd in \<open>force simp: prefix_def hd_rev\<close>)

lemma trim_space_id [go_string]: "s = [] \<or> (graph (hd s) \<and> graph (last s)) \<Longrightarrow> trim_space s = s"
  by (auto simp: trim_space_def strip_spaces_graph strip_rev_spaces_graph hd_rev)

lemma trim_graph [go_string]: "(\<And>c. c \<in> set s \<Longrightarrow> graph c) \<Longrightarrow> trim_space s = s"
  by (rule trim_space_id) (cases s; simp)

lemma strip_result: "w \<in> set ws \<Longrightarrow> w \<noteq> [] \<Longrightarrow> \<not> prefix w (strip ws s)"
proof (induction ws s rule: strip.induct)
  case (1 ws s)
  show ?case
    by (subst strip.simps) (use 1 in \<open>auto split: option.splits simp: find_None_iff\<close>)
qed

lemma strip_idem [simp]: "strip ws (strip ws s) = strip ws s"
  by (rule strip_id) (auto dest: strip_result)

lemma strip_suffix: "suffix (strip ws s) s"
proof (induction ws s rule: strip.induct)
  case (1 ws s)
  show ?case
    by (subst strip.simps)
      (use 1 in \<open>auto split: option.splits intro: suffix_order.trans simp: suffix_drop\<close>)
qed

lemma trim_idem [simp]: "trim_space (trim_space s) = trim_space s"
proof -
  define u where "u = strip spaces s"
  have t: "trim_space s = rev (strip (map rev spaces) (rev u))" by (simp add: trim_space_def u_def)
  have "prefix (trim_space s) u"
    using strip_suffix [of "map rev spaces" "rev u"] by (simp add: t suffix_to_prefix)
  moreover have "\<not> prefix w u" if "w \<in> set spaces" for w
    using strip_result [OF that, of s] spaces_hd [OF that] by (simp add: u_def)
  ultimately have "strip spaces (trim_space s) = trim_space s"
    by (intro strip_id) (meson prefix_order.trans)
  then have "trim_space (trim_space s) = rev (strip (map rev spaces) (rev (trim_space s)))"
    by (subst trim_space_def) simp
  then show ?thesis by (simp add: t)
qed

lemma trim_space_Nil [simp]: "trim_space [] = []"
  by (simp add: trim_space_id)

subsection \<open>Case\<close>

abbreviation in_range :: "char \<Rightarrow> char \<Rightarrow> char \<Rightarrow> bool" where
  "in_range lo hi c \<equiv> lo \<le> c \<and> c \<le> hi"

definition is_upper :: "char \<Rightarrow> bool" where "is_upper c \<longleftrightarrow> in_range CHR ''A'' CHR ''Z'' c"
definition is_lower :: "char \<Rightarrow> bool" where "is_lower c \<longleftrightarrow> in_range CHR ''a'' CHR ''z'' c"
definition is_digit :: "char \<Rightarrow> bool" where "is_digit c \<longleftrightarrow> in_range CHR ''0'' CHR ''9'' c"
definition is_ascii :: "char \<Rightarrow> bool" where "is_ascii c \<longleftrightarrow> (of_char c :: nat) < 128"

definition lower_byte :: "char \<Rightarrow> char" where
  "lower_byte c = (if is_upper c then char_of ((of_char c :: nat) + 32) else c)"

text \<open>
  \<open>strings.ToLower\<close>. Exactly two code points outside ASCII have an ASCII lower case: U+212A
  (KELVIN SIGN, bytes E2 84 AA) becomes \<open>k\<close> and U+0130 (bytes C4 B0) becomes \<open>i\<close>. Every other
  code point outside ASCII is mapped to some code point outside ASCII; it is kept as it is here,
  since the modelled code only ever rejects a string that still holds one.
\<close>

fun to_lower :: "string \<Rightarrow> string" where
  "to_lower [] = []"
| "to_lower (c # cs) =
     (if prefix [byte 0xE2, byte 0x84, byte 0xAA] (c # cs) then CHR ''k'' # to_lower (drop 2 cs)
      else if prefix [byte 0xC4, byte 0xB0] (c # cs) then CHR ''i'' # to_lower (drop 1 cs)
      else lower_byte c # to_lower cs)"

text \<open>
  \<open>strings.EqualFold\<close>, exact whenever one side is ASCII (every use in the code compares with a
  normalised host or a constant): simple case folding identifies the ASCII letters with their other
  case, \<open>k\<close> with U+212A and \<open>s\<close> with U+017F (bytes C5 BF).
\<close>

fun fold_case :: "string \<Rightarrow> string" where
  "fold_case [] = []"
| "fold_case (c # cs) =
     (if prefix [byte 0xE2, byte 0x84, byte 0xAA] (c # cs) then CHR ''k'' # fold_case (drop 2 cs)
      else if prefix [byte 0xC5, byte 0xBF] (c # cs) then CHR ''s'' # fold_case (drop 1 cs)
      else lower_byte c # fold_case cs)"

definition equal_fold :: "string \<Rightarrow> string \<Rightarrow> bool" where
  "equal_fold s t \<longleftrightarrow> fold_case s = fold_case t"

lemma of_char_le: "(c \<le> d) = ((of_char c :: nat) \<le> of_char d)"
  by (simp add: less_eq_char_def)

lemmas char_class_defs = is_upper_def is_lower_def is_digit_def is_ascii_def graph_def of_char_le

lemma lower_byte_id [simp]: "\<not> is_upper c \<Longrightarrow> lower_byte c = c"
  by (simp add: lower_byte_def)

lemma of_char_lower: "is_upper c \<Longrightarrow> (of_char (lower_byte c) :: nat) = of_char c + 32"
  by (simp add: lower_byte_def char_class_defs)

lemma lower_byte_ascii [simp]: "is_ascii (lower_byte c) = is_ascii c"
  by (cases "is_upper c") (auto simp: of_char_lower is_ascii_def is_upper_def of_char_le)

lemma lower_byte_not_upper [simp]: "\<not> is_upper (lower_byte c)"
  by (cases "is_upper c") (auto simp: of_char_lower is_upper_def of_char_le)

lemma to_lower_Cons_ascii [simp]: "is_ascii c \<Longrightarrow> to_lower (c # cs) = lower_byte c # to_lower cs"
  by (auto simp: is_ascii_def)

lemma fold_case_Cons_ascii [simp]: "is_ascii c \<Longrightarrow> fold_case (c # cs) = lower_byte c # fold_case cs"
  by (auto simp: is_ascii_def)

declare to_lower.simps(2) [simp del] fold_case.simps(2) [simp del]

lemma to_lower_ascii: "(\<And>c. c \<in> set s \<Longrightarrow> is_ascii c) \<Longrightarrow> to_lower s = map lower_byte s"
  by (induction s) auto

lemma to_lower_id: "(\<And>c. c \<in> set s \<Longrightarrow> is_ascii c \<and> \<not> is_upper c) \<Longrightarrow> to_lower s = s"
  by (induction s) auto

lemma fold_case_ascii: "(\<And>c. c \<in> set s \<Longrightarrow> is_ascii c) \<Longrightarrow> fold_case s = map lower_byte s"
  by (induction s) auto

lemma equal_fold_refl [simp]: "equal_fold s s"
  by (simp add: equal_fold_def)

lemma equal_fold_sym: "equal_fold s t \<Longrightarrow> equal_fold t s"
  by (simp add: equal_fold_def)

lemma to_lower_set: "c \<in> set (to_lower s) \<Longrightarrow>
    c = CHR ''k'' \<or> c = CHR ''i'' \<or> (\<exists>d \<in> set s. c = lower_byte d)"
proof (induction s rule: to_lower.induct)
  case 1 then show ?case by simp
next
  case (2 c' cs)
  then show ?case
    by (auto simp: to_lower.simps(2) split: if_splits dest!: in_set_dropD)
qed

lemma to_lower_no_upper: "c \<in> set (to_lower s) \<Longrightarrow> \<not> is_upper c"
proof -
  assume "c \<in> set (to_lower s)"
  then consider "c = CHR ''k''" | "c = CHR ''i''" | d where "c = lower_byte d"
    using to_lower_set by blast
  moreover have "\<not> is_upper CHR ''k''" "\<not> is_upper CHR ''i''" by (simp_all add: is_upper_def)
  ultimately show ?thesis by cases simp_all
qed

subsection \<open>Splitting and joining\<close>

text \<open>\<open>strings.Split\<close> with a one-byte separator, \<open>strings.Join\<close> and \<open>strings.Cut\<close>.\<close>

fun split_on :: "char \<Rightarrow> string \<Rightarrow> string list" where
  "split_on c [] = [[]]"
| "split_on c (x # xs) =
     (if x = c then [] # split_on c xs
      else (case split_on c xs of [] \<Rightarrow> [[x]] | w # ws \<Rightarrow> (x # w) # ws))"

fun join_with :: "string \<Rightarrow> string list \<Rightarrow> string" where
  "join_with sep [] = []"
| "join_with sep [w] = w"
| "join_with sep (w # ws) = w @ sep @ join_with sep ws"

definition cut :: "char \<Rightarrow> string \<Rightarrow> string \<times> string \<times> bool" where
  "cut c s = (takeWhile (\<lambda>x. x \<noteq> c) s, drop 1 (dropWhile (\<lambda>x. x \<noteq> c) s), c \<in> set s)"

text \<open>The text before and after the last occurrence, as \<open>strings.LastIndex\<close> is used.\<close>

definition rcut :: "char \<Rightarrow> string \<Rightarrow> (string \<times> string) option" where
  "rcut c s =
     (if c \<in> set s
      then Some (rev (drop 1 (dropWhile (\<lambda>x. x \<noteq> c) (rev s))), rev (takeWhile (\<lambda>x. x \<noteq> c) (rev s)))
      else None)"

lemma split_on_not_Nil [simp]: "split_on c s \<noteq> []"
  by (induction s) (auto split: list.splits)

lemma split_on_single [go_string]: "c \<notin> set s \<Longrightarrow> split_on c s = [s]"
  by (induction s) auto

lemma split_on_append [go_string]:
  "c \<notin> set s \<Longrightarrow> split_on c (s @ c # t) = s # split_on c t"
  by (induction s) auto

lemma split_on_notin: "w \<in> set (split_on c s) \<Longrightarrow> c \<notin> set w"
  by (induction s arbitrary: w) (auto split: if_splits list.splits)

lemma set_split_on: "w \<in> set (split_on c s) \<Longrightarrow> set w \<subseteq> set s"
proof (induction s arbitrary: w)
  case (Cons x xs)
  then show ?case by (fastforce split: if_splits list.splits)
qed simp

lemma split_join [go_string]:
  "ws \<noteq> [] \<Longrightarrow> (\<And>w. w \<in> set ws \<Longrightarrow> c \<notin> set w) \<Longrightarrow> split_on c (join_with [c] ws) = ws"
  by (induction "[c]" ws rule: join_with.induct) (auto simp: split_on_single split_on_append)

lemma join_split [simp]: "join_with [c] (split_on c s) = s"
proof (induction s)
  case (Cons x xs)
  obtain w ws where "split_on c xs = w # ws" by (meson list.exhaust split_on_not_Nil)
  with Cons show ?case by (cases ws) auto
qed simp

lemma split_on_inj: "split_on c s = split_on c t \<Longrightarrow> s = t"
  by (metis join_split)

lemma join_Cons: "ws \<noteq> [] \<Longrightarrow> join_with sep (w # ws) = w @ sep @ join_with sep ws"
  by (cases ws) auto

lemma set_join: "set (join_with sep ws) \<subseteq> set sep \<union> (\<Union>w\<in>set ws. set w)"
  by (induction sep ws rule: join_with.induct) auto

lemma cut_found [go_string]: "c \<notin> set a \<Longrightarrow> cut c (a @ c # b) = (a, b, True)"
  by (simp add: cut_def takeWhile_append dropWhile_append)

lemma cut_none [go_string]: "c \<notin> set s \<Longrightarrow> cut c s = (s, [], False)"
proof -
  assume c: "c \<notin> set s"
  then have "\<forall>x\<in>set s. x \<noteq> c" by blast
  then have "dropWhile (\<lambda>x. x \<noteq> c) s = []" "takeWhile (\<lambda>x. x \<noteq> c) s = s"
    by (simp_all only: dropWhile_eq_Nil_conv takeWhile_eq_all_conv)
  with c show ?thesis by (simp add: cut_def del: dropWhile_eq_Nil_conv takeWhile_eq_all_conv)
qed

lemma rcut_found [go_string]: "c \<notin> set b \<Longrightarrow> rcut c (a @ c # b) = Some (a, b)"
  using cut_found [of c "rev b" "rev a"] by (auto simp: rcut_def cut_def)

lemma rcut_None_iff [simp]: "rcut c s = None \<longleftrightarrow> c \<notin> set s"
  by (simp add: rcut_def)

lemma rcut_Some: "rcut c s = Some (a, b) \<longleftrightarrow> s = a @ c # b \<and> c \<notin> set b"
proof
  assume *: "rcut c s = Some (a, b)"
  then have "c \<in> set s" by (auto simp: rcut_def split: if_splits)
  then obtain a' b' where "s = a' @ c # b'" "c \<notin> set b'" by (meson split_list_last)
  with * show "s = a @ c # b \<and> c \<notin> set b" by (simp add: rcut_found)
qed (simp add: rcut_found)

subsection \<open>Decimal numbers\<close>

text \<open>
  \<open>strconv.Itoa\<close> and \<open>strconv.Atoi\<close> on a platform whose \<open>int\<close> has 64 bits: an optional sign,
  then digits only, and a value that fits.
\<close>

definition digit_char :: "nat \<Rightarrow> char" where
  "digit_char d = char_of (48 + d)"

definition digit_val :: "char \<Rightarrow> nat" where
  "digit_val c = of_char c - 48"

fun show_nat :: "nat \<Rightarrow> string" where
  "show_nat n = (if n < 10 then [digit_char n] else show_nat (n div 10) @ [digit_char (n mod 10)])"

declare show_nat.simps [simp del]

definition itoa :: "int \<Rightarrow> string" where
  "itoa n = (if n < 0 then CHR ''-'' # show_nat (nat (- n)) else show_nat (nat n))"

definition read_digits :: "string \<Rightarrow> nat" where
  "read_digits s = foldl (\<lambda>n c. 10 * n + digit_val c) 0 s"

definition parse_nat :: "string \<Rightarrow> nat option" where
  "parse_nat s = (if s \<noteq> [] \<and> list_all is_digit s then Some (read_digits s) else None)"

definition atoi :: "string \<Rightarrow> int option" where
  "atoi s =
     (case s of [] \<Rightarrow> None
      | c # cs \<Rightarrow>
          (if c = CHR ''-'' then
             (case parse_nat cs of None \<Rightarrow> None
              | Some n \<Rightarrow> if n \<le> 2 ^ 63 then Some (- int n) else None)
           else (case parse_nat (if c = CHR ''+'' then cs else s) of None \<Rightarrow> None
              | Some n \<Rightarrow> if n < 2 ^ 63 then Some (int n) else None)))"

lemma of_char_digit [simp]: "d < 10 \<Longrightarrow> (of_char (digit_char d) :: nat) = 48 + d"
  by (simp add: digit_char_def)

lemma digit_val_char [simp]: "d < 10 \<Longrightarrow> digit_val (digit_char d) = d"
  by (simp add: digit_val_def)

lemma is_digit_char [simp]: "d < 10 \<Longrightarrow> is_digit (digit_char d)"
  by (simp add: char_class_defs)

lemma is_digit_graph: "is_digit c \<Longrightarrow> graph c"
  by (simp add: char_class_defs)

lemma is_digit_not_upper: "is_digit c \<Longrightarrow> \<not> is_upper c"
  by (simp add: char_class_defs)

lemma is_digit_ascii: "is_digit c \<Longrightarrow> is_ascii c"
  by (simp add: char_class_defs)

lemma show_nat_digits: "list_all is_digit (show_nat n)"
proof (induction n rule: show_nat.induct)
  case (1 n)
  then show ?case by (subst show_nat.simps) simp
qed

lemma show_nat_not_Nil [simp]: "show_nat n \<noteq> []"
  by (subst show_nat.simps) simp

lemma show_nat_set: "c \<in> set (show_nat n) \<Longrightarrow> is_digit c"
  using show_nat_digits by (auto simp: list_all_iff)

lemma read_show_nat [simp]: "read_digits (show_nat n) = n"
proof (induction n rule: show_nat.induct)
  case (1 n)
  show ?case
  proof (cases "n < 10")
    case True
    then show ?thesis by (subst show_nat.simps) (simp add: read_digits_def)
  next
    case False
    with 1 have "read_digits (show_nat (n div 10)) = n div 10" by simp
    with False show ?thesis by (subst show_nat.simps) (simp add: read_digits_def)
  qed
qed

lemma parse_show_nat [simp]: "parse_nat (show_nat n) = Some n"
  by (simp add: parse_nat_def show_nat_digits)

lemma hd_show_nat: "is_digit (hd (show_nat n))"
  by (rule show_nat_set [OF hd_in_set]) simp

lemma atoi_digits: "is_digit c \<Longrightarrow> atoi (c # cs) =
    (case parse_nat (c # cs) of None \<Rightarrow> None | Some n \<Rightarrow> if n < 2 ^ 63 then Some (int n) else None)"
  by (auto simp: atoi_def is_digit_def of_char_le)

lemma atoi_show_nat [go_string]: "n < 2 ^ 63 \<Longrightarrow> atoi (show_nat n) = Some (int n)"
proof -
  assume n: "n < 2 ^ 63"
  obtain c cs where "show_nat n = c # cs" by (meson list.exhaust show_nat_not_Nil)
  with n hd_show_nat [of n] parse_show_nat [of n] show ?thesis by (simp add: atoi_digits)
qed

lemma itoa_nonneg: "0 \<le> n \<Longrightarrow> itoa n = show_nat (nat n)"
  by (simp add: itoa_def)

lemma atoi_itoa [go_string]: "0 \<le> n \<Longrightarrow> n < 2 ^ 63 \<Longrightarrow> atoi (itoa n) = Some n"
  by (simp add: itoa_nonneg atoi_show_nat)

lemma itoa_set: "0 \<le> n \<Longrightarrow> c \<in> set (itoa n) \<Longrightarrow> is_digit c"
  by (simp add: itoa_nonneg show_nat_set)

lemma itoa_not_Nil [simp]: "itoa n \<noteq> []"
  by (simp add: itoa_def)

lemma trim_show_nat [go_string]: "trim_space (show_nat n) = show_nat n"
  using show_nat_set [OF last_in_set [OF show_nat_not_Nil]]
  by (auto intro!: trim_space_id simp: is_digit_graph hd_show_nat)

subsection \<open>Go maps\<close>

text \<open>
  A Go map is an association list. \<open>map_ok\<close> states that its keys are distinct, as they are by
  construction, and that every entry satisfies a property.
\<close>

definition map_ok :: "('k \<Rightarrow> 'v \<Rightarrow> bool) \<Rightarrow> ('k \<times> 'v) list \<Rightarrow> bool" where
  "map_ok P m \<longleftrightarrow> distinct (map fst m) \<and> (\<forall>k v. map_of m k = Some v \<longrightarrow> P k v)"

lemma map_ok_Nil [simp]: "map_ok P []"
  by (simp add: map_ok_def)

lemma map_ok_get: "map_ok P m \<Longrightarrow> map_of m k = Some v \<Longrightarrow> P k v"
  by (simp add: map_ok_def)

lemma map_ok_distinct: "map_ok P m \<Longrightarrow> distinct (map fst m)"
  by (simp add: map_ok_def)

lemma map_ok_update: "map_ok P m \<Longrightarrow> P k v \<Longrightarrow> map_ok P (AList.update k v m)"
  by (simp add: map_ok_def distinct_update update_conv' del: map_of_eq_Some_iff)

lemma map_ok_delete: "map_ok P m \<Longrightarrow> map_ok P (AList.delete k m)"
  by (simp add: map_ok_def distinct_delete delete_conv' del: map_of_eq_Some_iff)

lemma map_ok_keys: "distinct (map fst m) \<Longrightarrow> (\<forall>k\<in>fst ` set m. P k (the (map_of m k))) \<longleftrightarrow> map_ok P m"
  by (force simp: map_ok_def)

subsection \<open>The contract of a printer and its parser\<close>

text \<open>
  Several components print a value and parse it back: addresses, rules, port specifications,
  scoped names. What they promise is one contract: parsing what was printed gives the value back.
\<close>

locale print_parse =
  fixes print :: "'a \<Rightarrow> 'b" and parse :: "'b \<Rightarrow> 'a option" and wf :: "'a \<Rightarrow> bool"
  assumes parse_print: "wf x \<Longrightarrow> parse (print x) = Some x"
begin

lemma print_inj: "wf x \<Longrightarrow> wf y \<Longrightarrow> print x = print y \<Longrightarrow> x = y"
  by (metis parse_print option.inject)

lemma print_inj_on: "inj_on print {x. wf x}"
  by (auto intro: inj_onI print_inj)

lemma print_eq_iff: "wf x \<Longrightarrow> wf y \<Longrightarrow> print x = print y \<longleftrightarrow> x = y"
  using print_inj by blast

end

text \<open>When the parser yields only printable values, printing is a canonical form of the input.\<close>

locale canonical_parse = print_parse +
  assumes parse_wf: "parse s = Some x \<Longrightarrow> wf x"
begin

lemma canonical: "parse s = Some x \<Longrightarrow> parse (print x) = Some x"
  using parse_wf parse_print by blast

lemma same_canonical: "parse s = Some x \<Longrightarrow> parse t = Some y \<Longrightarrow> print x = print y \<longleftrightarrow> x = y"
  using parse_wf print_eq_iff by blast

end

end
