(* ===== verification/Boks_Text.thy ===== *)
theory Boks_Text
  imports Boks_Prelude
begin

section \<open>Searching and replacing in texts\<close>

text \<open>
  What the credential code uses of Go's \<open>strings\<close>, \<open>fmt\<close> and \<open>encoding/base64\<close>: containment and
  counting of a substring, replacement of one or several substrings, a format with one verb, and the
  base64 text of a byte string, with the lemmas on them that the components share.
\<close>

lemma map_res_of_map: "map_res f (map g xs) = map_res (\<lambda>x. f (g x)) xs"
  by (induction xs) (simp_all split: sum.split)

subsection \<open>Containment and counting\<close>

fun contains_sub :: "string \<Rightarrow> string \<Rightarrow> bool" where
  "contains_sub sub [] = (sub = [])"
| "contains_sub sub (c # cs) = (prefix sub (c # cs) \<or> contains_sub sub cs)"

definition contains_any :: "string \<Rightarrow> string \<Rightarrow> bool" where
  "contains_any s chars = list_ex (\<lambda>c. c \<in> set chars) s"

text \<open>The occurrences of a substring that do not overlap; the substring is not empty.\<close>

function count_sub :: "string \<Rightarrow> string \<Rightarrow> nat" where
  "count_sub sub s =
     (if s = [] then 0
      else if prefix sub s then Suc (count_sub sub (drop (max 1 (length sub)) s))
      else count_sub sub (tl s))"
  by pat_completeness auto
termination by (relation "measure (\<lambda>(_, s). length s)") auto

declare count_sub.simps [simp del]

lemma contains_sub_iff: "contains_sub sub s \<longleftrightarrow> (\<exists>a b. s = a @ sub @ b)"
proof (induction s)
  case (Cons c cs)
  show ?case
  proof
    assume "contains_sub sub (c # cs)"
    then consider "prefix sub (c # cs)" | a b where "cs = a @ sub @ b" using Cons by auto
    then show "\<exists>a b. c # cs = a @ sub @ b"
    proof cases
      case 1
      then show ?thesis by (auto simp: prefix_def intro: exI [of _ "[]"])
    next
      case 2
      then show ?thesis by (metis append_Cons)
    qed
  next
    assume "\<exists>a b. c # cs = a @ sub @ b"
    then obtain a b where ab: "c # cs = a @ sub @ b" by blast
    show "contains_sub sub (c # cs)"
    proof (cases a)
      case Nil
      then have "prefix sub (c # cs)" using ab by simp
      then show ?thesis by simp
    next
      case (Cons d ds)
      then show ?thesis using ab \<open>contains_sub sub cs = _\<close> by auto
    qed
  qed
qed auto

lemma contains_any_iff: "contains_any s chars \<longleftrightarrow> (\<exists>c\<in>set s. c \<in> set chars)"
  by (auto simp: contains_any_def list_ex_iff)

lemma count_single: "count_sub [c] s = count_list s c"
proof (induction s)
  case (Cons d s)
  then show ?case by (subst count_sub.simps) (auto simp: prefix_def)
qed (simp add: count_sub.simps)

lemma count_pos: "sub \<noteq> [] \<Longrightarrow> count_sub sub s \<noteq> 0 \<Longrightarrow> contains_sub sub s"
proof (induction sub s rule: count_sub.induct)
  case (1 sub s)
  show ?case
  proof (cases "s = [] \<or> prefix sub s")
    case True
    then show ?thesis using 1(3,4) by (cases s) (auto simp: count_sub.simps)
  next
    case False
    then have "count_sub sub (tl s) \<noteq> 0" using 1(4) by (subst (asm) count_sub.simps) simp
    then show ?thesis using 1(2,3) False by (cases s) auto
  qed
qed

subsection \<open>Replacement\<close>

text \<open>
  A replacer: at each place the first pair whose first text occurs there is applied, and the search goes
  on behind it. The texts that are looked for are not empty.
\<close>

fun first_pair :: "(string \<times> string) list \<Rightarrow> string \<Rightarrow> (string \<times> string) option" where
  "first_pair [] s = None"
| "first_pair ((old, new) # ps) s = (if old \<noteq> [] \<and> prefix old s then Some (old, new) else first_pair ps s)"

lemma first_pair_Some: "first_pair ps s = Some (old, new) \<Longrightarrow> old \<noteq> [] \<and> prefix old s \<and> (old, new) \<in> set ps"
  by (induction ps s rule: first_pair.induct) (auto split: if_splits)

function replace_pairs :: "(string \<times> string) list \<Rightarrow> string \<Rightarrow> string" where
  "replace_pairs ps s =
     (case s of [] \<Rightarrow> []
      | c # cs \<Rightarrow> (case first_pair ps s of
            Some (old, new) \<Rightarrow> new @ replace_pairs ps (drop (length old) s)
          | None \<Rightarrow> c # replace_pairs ps cs))"
  by pat_completeness auto
termination by (relation "measure (\<lambda>(_, s). length s)") (auto dest!: first_pair_Some)

declare replace_pairs.simps [simp del]

definition replace_all :: "string \<Rightarrow> string \<Rightarrow> string \<Rightarrow> string" where
  "replace_all old new s = replace_pairs [(old, new)] s"

lemma replace_pairs_Nil [simp]: "replace_pairs ps [] = []"
  by (simp add: replace_pairs.simps)

lemma replace_pairs_none:
  "(\<And>old new. (old, new) \<in> set ps \<Longrightarrow> old \<noteq> [] \<Longrightarrow> \<not> contains_sub old s) \<Longrightarrow> replace_pairs ps s = s"
proof (induction s)
  case (Cons c cs)
  have "first_pair ps (c # cs) = None"
    using Cons.prems first_pair_Some [of ps "c # cs"] by (cases "first_pair ps (c # cs)") fastforce+
  moreover have "replace_pairs ps cs = cs" using Cons by simp
  ultimately show ?case by (simp add: replace_pairs.simps)
qed simp

lemma replace_pairs_hit:
  assumes "first_pair ps (old @ s) = Some (old, new)"
  shows "replace_pairs ps (old @ s) = new @ replace_pairs ps s"
proof -
  obtain c cs where "old = c # cs" using first_pair_Some [OF assms] by (cases old) auto
  then show ?thesis using assms by (subst replace_pairs.simps) simp
qed

lemma replace_all_once:
  assumes "old \<noteq> []" "\<not> contains_sub old b" "\<And>u v. a = u @ v \<Longrightarrow> v \<noteq> [] \<Longrightarrow> \<not> prefix old (v @ old @ b)"
  shows "replace_all old new (a @ old @ b) = a @ new @ b"
  using assms(3)
proof (induction a)
  case Nil
  have "replace_pairs [(old, new)] b = b" by (rule replace_pairs_none) (use assms(2) in auto)
  then show ?case using assms(1) replace_pairs_hit [of "[(old, new)]" old b new] by (simp add: replace_all_def)
next
  case (Cons c a)
  have "\<not> prefix old (c # a @ old @ b)" using Cons.prems [of "[]" "c # a"] by simp
  moreover have "replace_all old new (a @ old @ b) = a @ new @ b"
    using Cons.IH Cons.prems by (metis append_Cons)
  ultimately show ?case by (simp add: replace_all_def replace_pairs.simps [of _ "c # _"])
qed

subsection \<open>A format with one verb\<close>

text \<open>
  \<open>fmt.Sprintf\<close> with one argument and a format that has one \<open>%s\<close> and no other percent sign, which is
  what the credential rules are checked for.
\<close>

fun sprintf_s :: "string \<Rightarrow> string \<Rightarrow> string" where
  "sprintf_s [] v = []"
| "sprintf_s (c # cs) v =
     (if c = CHR ''%'' \<and> cs \<noteq> [] \<and> hd cs = CHR ''s'' then v @ tl cs else c # sprintf_s cs v)"

lemma sprintf_s_split: "CHR ''%'' \<notin> set a \<Longrightarrow> sprintf_s (a @ ''%s'' @ b) v = a @ v @ b"
  by (induction a) auto

subsection \<open>Base64\<close>

definition b64_char :: "nat \<Rightarrow> char" where
  "b64_char n = ''ABCDEFGHIJKLMNOPQRSTUVWXYZabcdefghijklmnopqrstuvwxyz0123456789+/'' ! n"

fun base64_encode :: "string \<Rightarrow> string" where
  "base64_encode [] = []"
| "base64_encode [a] =
     (let n = of_char a * 65536 :: nat in [b64_char (n div 262144), b64_char (n div 4096 mod 64), CHR ''='', CHR ''=''])"
| "base64_encode [a, b] =
     (let n = of_char a * 65536 + of_char b * 256 :: nat
      in [b64_char (n div 262144), b64_char (n div 4096 mod 64), b64_char (n div 64 mod 64), CHR ''=''])"
| "base64_encode (a # b # c # s) =
     (let n = of_char a * 65536 + of_char b * 256 + of_char c :: nat
      in [b64_char (n div 262144), b64_char (n div 4096 mod 64), b64_char (n div 64 mod 64), b64_char (n mod 64)]
         @ base64_encode s)"

definition b64_val :: "char \<Rightarrow> nat" where
  "b64_val c = (let n = of_char c :: nat in
     if is_upper c then n - 65 else if is_lower c then n - 71 else if is_digit c then n + 4
     else if c = CHR ''+'' then 62 else if c = CHR ''/'' then 63 else 0)"

fun base64_decode :: "string \<Rightarrow> string" where
  "base64_decode (w # x # y # z # s) =
     (let n = b64_val w * 262144 + b64_val x * 4096 + b64_val y * 64 + b64_val z
      in (if y = CHR ''='' then [char_of (n div 65536)]
          else if z = CHR ''='' then [char_of (n div 65536), char_of (n div 256 mod 256)]
          else [char_of (n div 65536), char_of (n div 256 mod 256), char_of (n mod 256)]) @ base64_decode s)"
| "base64_decode _ = []"

lemma b64_all: "list_all (\<lambda>n. b64_val (b64_char n) = n \<and> b64_char n \<noteq> CHR ''='' \<and> graph (b64_char n)) [0..<64]"
  by code_simp

lemma b64_char_simps [simp]:
  assumes "n < 64"
  shows "b64_val (b64_char n) = n" "b64_char n \<noteq> CHR ''=''" "graph (b64_char n)"
  using assms b64_all by (auto simp: list_all_iff)

text \<open>The inverse, which says that nothing of the encoded bytes is lost.\<close>

lemma b64_val_pad [simp]: "b64_val CHR ''='' = 0"
  by code_simp

lemma sextets:
  "w * 262144 + x * 4096 + y * 64 + z = (k::nat)" if "k = q * 64 + z" "q = p * 64 + y" "p = w * 64 + x"
  using that by simp

lemma decode_quad:
  assumes "k < 16777216"
  shows "b64_val (b64_char (k div 262144)) * 262144 + b64_val (b64_char (k div 4096 mod 64)) * 4096 +
      b64_val (b64_char (k div 64 mod 64)) * 64 + b64_val (b64_char (k mod 64)) = k"
proof -
  have "k div 262144 < 64" using assms by (simp add: less_mult_imp_div_less)
  moreover have "k div 4096 = k div 64 div 64" "k div 262144 = k div 64 div 64 div 64" by (simp_all flip: div_mult2_eq)
  then have "k div 262144 * 262144 + k div 4096 mod 64 * 4096 + k div 64 mod 64 * 64 + k mod 64 = k"
    by (intro sextets [of _ "k div 64" _ "k div 64 div 64"]) (simp_all only: div_mult_mod_eq)
  ultimately show ?thesis by simp
qed

lemma octets:
  assumes "b < 256" "c < (256::nat)"
  shows "(a * 65536 + b * 256 + c) div 65536 = a" "(a * 65536 + b * 256 + c) div 256 mod 256 = b"
    "(a * 65536 + b * 256 + c) mod 256 = c"
proof -
  let ?k = "a * 65536 + b * 256 + c"
  have k: "?k = (a * 256 + b) * 256 + c" by simp
  have d: "?k div 256 = a * 256 + b" unfolding k using assms by simp
  show "?k div 256 mod 256 = b" unfolding d using assms by simp
  have "?k div 65536 = ?k div 256 div 256" by (simp flip: div_mult2_eq)
  then show "?k div 65536 = a" unfolding d using assms by simp
  show "?k mod 256 = c" unfolding k using assms by (simp only: mod_mult_self3) simp
qed

text \<open>The value of the padding is that of the sextets it stands for when the missing bytes are zero.\<close>

lemma padding:
  "a * 65536 mod 64 = (0::nat)" "a * 65536 div 64 mod 64 = (0::nat)" "(a * 65536 + b * 256) mod 64 = (0::nat)"
proof -
  have "a * 65536 = a * 1024 * 64" "a * 65536 + b * 256 = (a * 1024 + b * 4) * 64" by simp_all
  moreover have "a * 1024 = a * 16 * 64" by simp
  ultimately show "a * 65536 mod 64 = 0" "a * 65536 div 64 mod 64 = 0" "(a * 65536 + b * 256) mod 64 = 0"
    by (metis mod_mult_self2_is_0 nonzero_mult_div_cancel_right zero_neq_numeral)+
qed

theorem base64_round_trip: "base64_decode (base64_encode s) = s"
proof (induction s rule: base64_encode.induct)
  case (2 a)
  let ?k = "of_char a * 65536 :: nat"
  have "?k < 16777216" using nat_of_char_less_256 [of a] by linarith
  from decode_quad [OF this] octets(1) [of 0 0 "of_char a"] show ?case
    by (simp only: padding base64_encode.simps base64_decode.simps Let_def) simp
next
  case (3 a b)
  let ?k = "of_char a * 65536 + of_char b * 256 :: nat"
  have "?k < 16777216" using nat_of_char_less_256 [of a] nat_of_char_less_256 [of b] by linarith
  from decode_quad [OF this] octets(1,2) [of "of_char b" 0 "of_char a"] show ?case
    by (simp only: padding base64_encode.simps base64_decode.simps Let_def) simp
next
  case (4 a b c s)
  let ?k = "of_char a * 65536 + of_char b * 256 + of_char c :: nat"
  have "?k < 16777216"
    using nat_of_char_less_256 [of a] nat_of_char_less_256 [of b] nat_of_char_less_256 [of c] by linarith
  from decode_quad [OF this] octets [of "of_char b" "of_char c" "of_char a"] 4 show ?case
    by (simp only: base64_encode.simps base64_decode.simps Let_def append.simps) simp
qed simp

end
