(* ===== verification/Kit_Size.thy ===== *)
theory Kit_Size
  imports Boks_Text "HOL-Library.Word"
begin

section \<open>Sizes with a unit: \<open>parseByteSize\<close> of \<open>internal/kit\<close> and \<open>parseMemory\<close> of \<open>internal/cli\<close>\<close>

text \<open>
  Two readings of a number with a binary unit. Both cut the unit off by the length of its lower case, which differs
  from the length of what was written for the code points below; the size of a kit is checked for
  overflow, that of the command line is a product of 64-bit words. The texts are UTF-8, as the YAML reader
  of a kit gives them.
\<close>

subsection \<open>The length of a lower case\<close>

text \<open>The code points whose lower case has another number of bytes, by their UTF-8 encoding.\<close>

definition resized :: "(string \<times> nat) list" where
  "resized =
     [([byte 0xC4, byte 0xB0], 1), ([byte 0xC8, byte 0xBA], 3), ([byte 0xC8, byte 0xBE], 3), ([byte 0xE1, byte 0xBA, byte 0x9E], 2),
      ([byte 0xE2, byte 0x84, byte 0xA6], 2), ([byte 0xE2, byte 0x84, byte 0xAA], 1), ([byte 0xE2, byte 0x84, byte 0xAB], 2)]
     @ map (\<lambda>n. ([byte 0xE2, byte 0xB1, byte n], 2)) [0xA2, 0xA4, 0xAD, 0xAE, 0xAF, 0xB0, 0xBE, 0xBF]
     @ map (\<lambda>n. ([byte 0xEA, byte 0x9E, byte n], 2)) [0x8D, 0xAA, 0xAB, 0xAC, 0xAD, 0xAE, 0xB0, 0xB1, 0xB2]
     @ [([byte 0xEA, byte 0x9F, byte 0x85], 2)]"

function lower_length :: "string \<Rightarrow> nat" where
  "lower_length s =
     (if s = [] then 0
      else (case find (\<lambda>(w, _). prefix w s) resized of
          Some (w, n) \<Rightarrow> n + lower_length (drop (max 1 (length w)) s)
        | None \<Rightarrow> 1 + lower_length (tl s)))"
  by pat_completeness auto
termination by (relation "measure length") auto

declare lower_length.simps [simp del]

subsection \<open>Units\<close>

definition size_units :: "(string \<times> int) list" where
  "size_units =
     [(''b'', 1), (''k'', 2 ^ 10), (''kb'', 2 ^ 10), (''kib'', 2 ^ 10), (''m'', 2 ^ 20), (''mb'', 2 ^ 20), (''mib'', 2 ^ 20),
      (''g'', 2 ^ 30), (''gb'', 2 ^ 30), (''gib'', 2 ^ 30), (''t'', 2 ^ 40), (''tb'', 2 ^ 40), (''tib'', 2 ^ 40)]"

datatype size_error = Size_empty | Size_unit | Size_not_number | Size_too_large | Size_too_small int | Size_slice_panics

text \<open>
  The number and the unit of a trimmed text. The slice comes before the unit is looked up, and a
  negative bound makes it panic.
\<close>

definition size_parts :: "string \<Rightarrow> size_error + string \<times> int" where
  "size_parts trimmed =
     (let rest = dropWhile is_digit trimmed
      in if rest = [] then Inr (trimmed, 1)
         else if length trimmed < lower_length rest then Inl Size_slice_panics
         else (case map_of size_units (to_lower rest) of
             None \<Rightarrow> Inl Size_unit
           | Some m \<Rightarrow> Inr (take (length trimmed - lower_length rest) trimmed, m)))"

definition parse_byte_size :: "string \<Rightarrow> size_error + int" where
  "parse_byte_size text =
     (let trimmed = trim_space text
      in if trimmed = [] then Inl Size_empty
         else (case size_parts trimmed of
             Inl e \<Rightarrow> Inl e
           | Inr (digits, m) \<Rightarrow>
               (case atoi digits of
                  None \<Rightarrow> Inl Size_not_number
                | Some v \<Rightarrow>
                    if v < 0 then Inl Size_not_number
                    else if m \<noteq> 1 \<and> 2 ^ 62 div m < v then Inl Size_too_large
                    else Inr (v * m))))"

text \<open>The memory of a guest in MiB: the product wraps, and Go's division truncates.\<close>

definition mib_of :: "64 word \<Rightarrow> size_error + int" where
  "mib_of w =
     (let bytes = sint w; mib = (if bytes < 0 then - (- bytes div 2 ^ 20) else bytes div 2 ^ 20)
      in if mib < 64 then Inl (Size_too_small mib) else Inr mib)"

definition parse_memory :: "string \<Rightarrow> size_error + int" where
  "parse_memory text =
     (let trimmed = trim_space text
      in if trimmed = [] then Inl Size_empty
         else (case size_parts trimmed of
             Inl e \<Rightarrow> Inl e
           | Inr (digits, m) \<Rightarrow>
               (case atoi digits of
                  None \<Rightarrow> Inl Size_not_number
                | Some v \<Rightarrow> if v \<le> 0 then Inl Size_not_number else mib_of (word_of_int (v * m)))))"

subsection \<open>Lemmas\<close>

lemma lower_length_Nil [simp]: "lower_length [] = 0"
  by (simp add: lower_length.simps)

lemma resized_not_ascii: "(w, n) \<in> set resized \<Longrightarrow> \<exists>c cs. w = c # cs \<and> \<not> is_ascii c"
  by (auto simp: resized_def is_ascii_def)

lemma lower_length_ascii [simp]: "is_ascii c \<Longrightarrow> lower_length (c # cs) = 1 + lower_length cs"
proof -
  assume "is_ascii c"
  then have "find (\<lambda>(w, _). prefix w (c # cs)) resized = None"
    by (auto simp: find_None_iff dest!: resized_not_ascii)
  then show ?thesis by (subst lower_length.simps) simp
qed

lemma lower_length_ascii_text: "list_all is_ascii s \<Longrightarrow> lower_length s = length s"
  by (induction s) auto

lemma size_units_simps: "map_of size_units u = Some m \<Longrightarrow> m \<in> {1, 2 ^ 10, 2 ^ 20, 2 ^ 30, 2 ^ 40} \<and> u \<noteq> [] \<and> list_all is_lower u"
  by (auto simp: size_units_def is_lower_def of_char_le split: if_splits)

lemma is_lower_ascii: "is_lower c \<Longrightarrow> is_ascii c"
  by (simp add: char_class_defs)

lemma size_unit_text: "list_all is_digit d \<Longrightarrow> map_of size_units u = Some m \<Longrightarrow> size_parts (d @ u) = Inr (d, m)"
proof -
  assume d: "list_all is_digit d" and u: "map_of size_units u = Some m"
  have low: "u \<noteq> []" "list_all is_lower u" using size_units_simps [OF u] by auto
  then obtain c cs where cs: "u = c # cs" "is_lower c" by (cases u) auto
  have "dropWhile is_digit (d @ u) = u"
    using d cs by (auto simp: dropWhile_append list_all_iff char_class_defs)
  moreover have "lower_length u = length u"
    by (rule lower_length_ascii_text) (use low is_lower_ascii in \<open>auto simp: list_all_iff\<close>)
  moreover have "to_lower u = u"
    by (rule to_lower_id) (use low in \<open>auto simp: list_all_iff char_class_defs\<close>)
  ultimately show ?thesis using low u by (simp add: size_parts_def)
qed

lemma size_parts_digits:
  assumes "size_parts t = Inr (d, m)" "atoi d = Some v"
  shows "m \<in> {1, 2 ^ 10, 2 ^ 20, 2 ^ 30, 2 ^ 40} \<and> prefix d t"
  using assms size_units_simps [of "to_lower (dropWhile is_digit t)" m]
  by (auto simp: size_parts_def Let_def take_is_prefix split: if_splits option.splits)

lemma atoi_range: "atoi s = Some v \<Longrightarrow> - (2 ^ 63) \<le> v \<and> v < 2 ^ 63"
  by (auto simp: atoi_def split: list.splits if_splits option.splits)

lemma shifted_bound: "m \<in> {1, 2 ^ 10, 2 ^ 20, 2 ^ 30, 2 ^ 40 :: int} \<Longrightarrow> 0 \<le> v \<Longrightarrow> m \<noteq> 1 \<Longrightarrow> v \<le> 2 ^ 62 div m \<Longrightarrow> v * m \<le> 2 ^ 62"
  by auto

lemma byte_size_shown:
  assumes u: "map_of size_units u = Some m"
  shows "parse_byte_size (show_nat n @ u) =
    (if 2 ^ 63 \<le> int n then Inl Size_not_number else if m \<noteq> 1 \<and> 2 ^ 62 div m < int n then Inl Size_too_large else Inr (int n * m))"
proof -
  have low: "u \<noteq> []" "list_all is_lower u" using size_units_simps [OF u] by auto
  have "graph c" if "c \<in> set (show_nat n @ u)" for c
    using that low(2) show_nat_set is_digit_graph by (fastforce simp: list_all_iff is_lower_def graph_def of_char_le)
  then have trim: "trim_space (show_nat n @ u) = show_nat n @ u" by (rule trim_graph)
  have parts: "size_parts (show_nat n @ u) = Inr (show_nat n, m)"
    by (rule size_unit_text [OF show_nat_digits u])
  have atoi: "atoi (show_nat n) = (if int n < 2 ^ 63 then Some (int n) else None)"
  proof -
    obtain c cs where "show_nat n = c # cs" "is_digit c" by (metis list.exhaust_sel show_nat_not_Nil hd_show_nat)
    then show ?thesis using parse_show_nat [of n] by (simp add: atoi_digits)
  qed
  show ?thesis by (simp add: parse_byte_size_def Let_def trim parts atoi)
qed

text \<open>
  A text that is a number with a unit, in any case: the digits, the unit as written and the number of
  bytes it stands for.
\<close>

definition sized :: "string \<Rightarrow> string \<Rightarrow> string \<Rightarrow> int \<Rightarrow> bool" where
  "sized text d u m \<longleftrightarrow> trim_space text = d @ u \<and> list_all is_digit d \<and>
     (u = [] \<and> m = 1 \<or> list_all is_ascii u \<and> map_of size_units (to_lower u) = Some m)"

lemma no_empty_unit [simp]: "map_of size_units [] = None"
  by (simp add: size_units_def)

lemma unit_lower: "map_of size_units (to_lower u) = Some m \<Longrightarrow> u \<noteq> [] \<and> list_all is_lower (to_lower u)"
  using size_units_simps [of "to_lower u" m] by auto

lemma unit_hd: "map_of size_units (to_lower u) = Some m \<Longrightarrow> \<not> is_digit (hd u) \<and> hd u \<noteq> CHR ''+'' \<and> hd u \<noteq> CHR ''-''"
proof -
  assume u: "map_of size_units (to_lower u) = Some m"
  then obtain c cs where c: "u = c # cs" "list_all is_lower (to_lower (c # cs))" using unit_lower by (cases u) auto
  have "is_lower (lower_byte c)" if "is_ascii c" using c(2) that by simp
  then show ?thesis
    by (cases "is_ascii c") (auto simp: c(1) lower_byte_def char_class_defs split: if_splits)
qed

lemma sized_parts:
  assumes "sized text d u m"
  shows "dropWhile is_digit (trim_space text) = u" "takeWhile is_digit (trim_space text) = d"
    "size_parts (trim_space text) = Inr (d, m)"
proof -
  have t: "trim_space text = d @ u" "list_all is_digit d" using assms by (auto simp: sized_def)
  have hd: "u = [] \<or> \<not> is_digit (hd u)" using assms unit_hd by (auto simp: sized_def)
  then have "dropWhile is_digit u = u" "takeWhile is_digit u = []" by (cases u; simp)+
  then show rest: "dropWhile is_digit (trim_space text) = u" and "takeWhile is_digit (trim_space text) = d"
    using t by (simp_all add: dropWhile_append takeWhile_append list_all_iff)
  show "size_parts (trim_space text) = Inr (d, m)"
  proof (cases "u = []")
    case True
    then have "m = 1" using assms unit_lower by (auto simp: sized_def)
    then show ?thesis using True t rest by (simp add: size_parts_def)
  next
    case False
    then have "list_all is_ascii u" "map_of size_units (to_lower u) = Some m" using assms by (auto simp: sized_def)
    then show ?thesis using False t(1) rest by (simp add: size_parts_def lower_length_ascii_text)
  qed
qed

text \<open>
  A unit that is not ASCII and still has a lower case in the table is longer than its lower case, so the
  cut leaves a part of it to the digits, which then are no number.
\<close>

lemma lower_length_kelvin: "lower_length (byte 0xE2 # byte 0x84 # byte 0xAA # s) = 1 + lower_length s"
  by (subst lower_length.simps) (simp add: resized_def)

lemma lower_length_dotted: "lower_length (byte 0xC4 # byte 0xB0 # s) = 1 + lower_length s"
  by (subst lower_length.simps) (simp add: resized_def)

lemma lower_length_ascii_case:
  "list_all is_ascii (to_lower s) \<Longrightarrow> lower_length s \<le> length s \<and> (\<not> list_all is_ascii s \<longrightarrow> lower_length s < length s)"
proof (induction s rule: to_lower.induct)
  case (2 c cs)
  consider r where "c # cs = byte 0xE2 # byte 0x84 # byte 0xAA # r" | r where "c # cs = byte 0xC4 # byte 0xB0 # r"
    | "to_lower (c # cs) = lower_byte c # to_lower cs" "\<not> prefix [byte 0xE2, byte 0x84, byte 0xAA] (c # cs)"
      "\<not> prefix [byte 0xC4, byte 0xB0] (c # cs)"
    by (cases "prefix [byte 0xE2, byte 0x84, byte 0xAA] (c # cs)"; cases "prefix [byte 0xC4, byte 0xB0] (c # cs)")
      (auto simp: to_lower.simps(2) prefix_def)
  then show ?case
  proof cases
    case (1 r)
    then have "lower_length r \<le> length r" using 2 by (auto simp: to_lower.simps(2))
    then show ?thesis by (simp add: 1 lower_length_kelvin)
  next
    case (2 r)
    then have "lower_length r \<le> length r" using "2.IH" "2.prems" by (auto simp: to_lower.simps(2))
    then show ?thesis by (simp add: 2 lower_length_dotted)
  next
    case 3
    then have "is_ascii c" "list_all is_ascii (to_lower cs)" using 2(4) by simp_all
    then show ?thesis using 2(3) 3 by auto
  qed
qed simp

lemma atoi_stray:
  assumes "list_all is_digit d" "\<not> is_digit c" "c \<noteq> CHR ''+''" "c \<noteq> CHR ''-''"
  shows "atoi (d @ c # cs) = None"
  using assms by (cases d) (auto simp: atoi_def parse_nat_def is_digit_def of_char_le)

lemma size_parts_sized:
  assumes "size_parts (trim_space text) = Inr (d, m)" "atoi d = Some v"
  shows "\<exists>u. sized text d u m"
proof -
  define t where "t = trim_space text"
  define rest where "rest = dropWhile is_digit t"
  define d0 where "d0 = takeWhile is_digit t"
  have t: "t = d0 @ rest" "list_all is_digit d0" by (simp_all add: rest_def d0_def list_all_iff) (meson set_takeWhileD)
  show ?thesis
  proof (cases "rest = []")
    case True
    then have "d = t" "m = 1" using assms(1) by (auto simp: size_parts_def t_def [symmetric] rest_def [symmetric])
    then show ?thesis using True t by (intro exI [of _ "[]"]) (simp add: sized_def t_def [symmetric])
  next
    case False
    then have unit: "map_of size_units (to_lower rest) = Some m" "d = take (length t - lower_length rest) t"
      using assms(1) by (auto simp: size_parts_def Let_def t_def [symmetric] rest_def [symmetric] split: if_splits option.splits)
    have low: "list_all is_ascii (to_lower rest)"
      using unit_lower [OF unit(1)] is_lower_ascii by (auto simp: list_all_iff)
    have "list_all is_ascii rest"
    proof (rule ccontr)
      assume "\<not> list_all is_ascii rest"
      then have "lower_length rest < length rest" using lower_length_ascii_case [OF low] by simp
      then have "d = d0 @ take (length rest - lower_length rest) rest" by (simp add: unit(2) t(1))
      moreover have "take (length rest - lower_length rest) rest = hd rest # take (length rest - lower_length rest - 1) (tl rest)"
        using False \<open>lower_length rest < length rest\<close> by (cases rest) (simp_all add: take_Cons')
      ultimately have "atoi d = None" using atoi_stray [OF t(2)] unit_hd [OF unit(1)] by simp
      then show False using assms(2) by simp
    qed
    moreover from this have "d = d0" by (simp add: unit(2) lower_length_ascii_text t(1))
    ultimately show ?thesis using t unit(1) by (intro exI [of _ rest]) (simp add: sized_def t_def [symmetric])
  qed
qed

lemma size_parts_error: "size_parts t = Inl e \<longleftrightarrow>
    (let u = dropWhile is_digit t
     in u \<noteq> [] \<and> (e = Size_slice_panics \<and> length t < lower_length u \<or>
          e = Size_unit \<and> lower_length u \<le> length t \<and> map_of size_units (to_lower u) = None))"
  by (auto simp: size_parts_def Let_def split: option.splits)

text \<open>The outcomes of a size in terms of its parts.\<close>

lemma byte_size_Inr: "parse_byte_size text = Inr n \<longleftrightarrow>
    (\<exists>d u m v. sized text d u m \<and> atoi d = Some v \<and> (m \<noteq> 1 \<longrightarrow> v \<le> 2 ^ 62 div m) \<and> n = v * m)" (is "?l \<longleftrightarrow> ?r")
proof
  assume ?l
  then obtain d m v where "size_parts (trim_space text) = Inr (d, m)" "atoi d = Some v" "n = v * m" "m \<noteq> 1 \<longrightarrow> v \<le> 2 ^ 62 div m"
    by (auto simp: parse_byte_size_def Let_def not_less split: if_splits sum.splits option.splits prod.splits)
  then show ?r using size_parts_sized by blast
next
  assume ?r
  then obtain d u m v where s: "sized text d u m" "atoi d = Some v" "m \<noteq> 1 \<longrightarrow> v \<le> 2 ^ 62 div m" "n = v * m" by blast
  have "d \<noteq> []" "0 \<le> v" using s(1,2) by (auto simp: sized_def atoi_def is_digit_def of_char_le split: list.splits if_splits option.splits)
  then have "trim_space text \<noteq> []" using s(1) by (simp add: sized_def)
  then show ?l using s sized_parts(3) [OF s(1)] \<open>0 \<le> v\<close> by (auto simp: parse_byte_size_def)
qed

lemma byte_size_too_large: "parse_byte_size text = Inl Size_too_large \<longleftrightarrow>
    (\<exists>d u m v. sized text d u m \<and> atoi d = Some v \<and> m \<noteq> 1 \<and> 2 ^ 62 div m < v)" (is "?l \<longleftrightarrow> ?r")
proof
  assume l: ?l
  then obtain d m v where "size_parts (trim_space text) = Inr (d, m)" "atoi d = Some v" "m \<noteq> 1" "2 ^ 62 div m < v"
    using size_parts_error [of "trim_space text" Size_too_large]
    by (auto simp: parse_byte_size_def Let_def split: if_splits sum.splits option.splits prod.splits)
  then show ?r using size_parts_sized by blast
next
  assume ?r
  then obtain d u m v where s: "sized text d u m" "atoi d = Some v" "m \<noteq> 1" "2 ^ 62 div m < v" by blast
  have "d \<noteq> []" "0 \<le> v" using s(1,2) by (auto simp: sized_def atoi_def is_digit_def of_char_le split: list.splits if_splits option.splits)
  then have "trim_space text \<noteq> []" using s(1) by (simp add: sized_def)
  then show ?l using s sized_parts(3) [OF s(1)] \<open>0 \<le> v\<close> by (auto simp: parse_byte_size_def)
qed

lemma byte_size_parts_error:
  assumes "e \<in> {Size_unit, Size_slice_panics}"
  shows "parse_byte_size text = Inl e \<longleftrightarrow> trim_space text \<noteq> [] \<and> size_parts (trim_space text) = Inl e"
  using assms by (auto simp: parse_byte_size_def Let_def split: sum.splits option.splits)

subsection \<open>Properties\<close>

text \<open>
  C39: a size of a kit is read exactly. The sizes accepted are the texts that, trimmed, are digits
  followed by nothing or by a unit in any case, with a number below \<open>2 ^ 63\<close> that is at most
  \<open>2 ^ 62\<close> divided by the unit if the unit is more than a byte; the size is their product, so it
  does not wrap. A text that is such a number and beyond that bound is refused as too large, a blank one
  as empty, one that goes on after its digits with something else as a unit nobody knows, except that one whose
  lower case is longer than the whole text makes the program panic; no other error than these and that
  of something that is no number occurs.
\<close>

theorem byte_size_exact:
  "(\<forall>n. parse_byte_size text = Inr n \<longleftrightarrow>
      (\<exists>d u m v. sized text d u m \<and> atoi d = Some v \<and> (m \<noteq> 1 \<longrightarrow> v \<le> 2 ^ 62 div m) \<and> n = v * m)) \<and>
   (\<forall>n. parse_byte_size text = Inr n \<longrightarrow> 0 \<le> n \<and> n < 2 ^ 63) \<and>
   (parse_byte_size text = Inl Size_empty \<longleftrightarrow> trim_space text = []) \<and>
   (parse_byte_size text = Inl Size_too_large \<longleftrightarrow>
      (\<exists>d u m v. sized text d u m \<and> atoi d = Some v \<and> m \<noteq> 1 \<and> 2 ^ 62 div m < v)) \<and>
   (let u = dropWhile is_digit (trim_space text); panics = length (trim_space text) < lower_length u
    in (parse_byte_size text = Inl Size_unit \<longleftrightarrow> u \<noteq> [] \<and> \<not> panics \<and> map_of size_units (to_lower u) = None) \<and>
       (parse_byte_size text = Inl Size_slice_panics \<longleftrightarrow> panics)) \<and>
   (\<forall>k. parse_byte_size text \<noteq> Inl (Size_too_small k))"
proof -
  have range: "0 \<le> n \<and> n < 2 ^ 63" if n: "parse_byte_size text = Inr n" for n
  proof -
    obtain d u m v where s: "sized text d u m" "atoi d = Some v" "m \<noteq> 1 \<longrightarrow> v \<le> 2 ^ 62 div m" "n = v * m"
      using iffD1 [OF byte_size_Inr n] by blast
    have m: "m \<in> {1, 2 ^ 10, 2 ^ 20, 2 ^ 30, 2 ^ 40}" using size_parts_digits [OF sized_parts(3) [OF s(1)] s(2)] by simp
    have v: "0 \<le> v" using s(1,2) by (auto simp: sized_def atoi_def is_digit_def of_char_le split: list.splits if_splits option.splits)
    show ?thesis
      by (cases "m = 1") (use s v m atoi_range [OF s(2)] shifted_bound [OF m v] in auto)
  qed
  have empty: "parse_byte_size text = Inl Size_empty \<longleftrightarrow> trim_space text = []"
    using size_parts_error [of "trim_space text" Size_empty]
    by (auto simp: parse_byte_size_def Let_def split: sum.splits option.splits prod.splits)
  have small: "parse_byte_size text \<noteq> Inl (Size_too_small k)" for k
    using size_parts_error [of "trim_space text" "Size_too_small k"]
    by (auto simp: parse_byte_size_def Let_def split: sum.splits option.splits prod.splits)
  have unit: "parse_byte_size text = Inl Size_unit \<longleftrightarrow> dropWhile is_digit (trim_space text) \<noteq> [] \<and>
      \<not> length (trim_space text) < lower_length (dropWhile is_digit (trim_space text)) \<and>
      map_of size_units (to_lower (dropWhile is_digit (trim_space text))) = None"
    using byte_size_parts_error [of Size_unit "text"] size_parts_error [of "trim_space text" Size_unit]
    by (cases "trim_space text = []") (auto simp: Let_def not_less)
  have panics: "parse_byte_size text = Inl Size_slice_panics \<longleftrightarrow>
      length (trim_space text) < lower_length (dropWhile is_digit (trim_space text))"
    using byte_size_parts_error [of Size_slice_panics "text"] size_parts_error [of "trim_space text" Size_slice_panics]
    by (cases "dropWhile is_digit (trim_space text)") (auto simp: Let_def simp del: dropWhile_eq_Nil_conv)
  show ?thesis unfolding Let_def
    by (intro conjI allI impI byte_size_Inr byte_size_too_large empty small unit panics) (use range in blast)+
qed

theorem byte_size_exact_witness: "parse_byte_size '' 4096MiB'' = Inr 4294967296"
proof -
  have "sized '' 4096MiB'' ''4096'' ''MiB'' (2 ^ 20)" "atoi ''4096'' = Some 4096" by code_simp+
  then have "\<exists>d u m v. sized '' 4096MiB'' d u m \<and> atoi d = Some v \<and> (m \<noteq> 1 \<longrightarrow> v \<le> 2 ^ 62 div m) \<and> 4294967296 = v * m"
    by (intro exI [of _ "''4096''"] exI [of _ "''MiB''"] exI [of _ "2 ^ 20"] exI [of _ 4096]) simp
  then show ?thesis by (rule conjunct1 [OF byte_size_exact [of "'' 4096MiB''"], THEN spec, THEN iffD2])
qed

text \<open>
  The size of the command line does wrap: a number of tebibytes beyond \<open>2 ^ 24\<close> comes back as the memory of its low 64 bits,
  so a size no machine has is accepted as a small one.
\<close>

theorem memory_wraps:
  assumes "0 < n" "n < 2 ^ 63 - 2 ^ 24"
  shows "parse_memory (show_nat (2 ^ 24 + n) @ ''t'') = parse_memory (show_nat n @ ''t'')"
proof -
  have read: "parse_memory (show_nat k @ ''t'') = mib_of (word_of_int (int k * 2 ^ 40))" if "0 < k" "k < 2 ^ 63" for k
  proof -
    have "trim_space (show_nat k @ ''t'') = show_nat k @ ''t''"
    proof (rule trim_graph)
      have "graph CHR ''t''" by (simp add: char_class_defs)
      then show "graph c" if "c \<in> set (show_nat k @ ''t'')" for c using that show_nat_set is_digit_graph by auto
    qed
    moreover have "size_parts (show_nat k @ ''t'') = Inr (show_nat k, 2 ^ 40)"
      by (rule size_unit_text [OF show_nat_digits]) (simp add: size_units_def)
    ultimately show ?thesis using that by (simp add: parse_memory_def atoi_show_nat)
  qed
  have wrap: "(word_of_int (int (2 ^ 24 + n) * 2 ^ 40) :: 64 word) = word_of_int (int n * 2 ^ 40)"
  proof -
    have "int (2 ^ 24 + n) * 2 ^ 40 = int n * 2 ^ 40 + 2 ^ 64" by (simp add: algebra_simps)
    then show ?thesis by (simp only: word_of_int_eq_iff) (simp add: take_bit_eq_mod)
  qed
  have "0 < 2 ^ 24 + n" "2 ^ 24 + n < 2 ^ 63" "n < 2 ^ 63" using assms by simp_all
  then show ?thesis by (simp only: read wrap assms(1))
qed

theorem memory_wraps_witness: "parse_memory (show_nat (2 ^ 24 + 1) @ ''t'') = Inr 1048576"
proof -
  have "parse_memory ''1t'' = Inr 1048576" "show_nat 1 = ''1''" by code_simp+
  then show ?thesis using memory_wraps [of 1] by simp
qed

text \<open>A unit of two code points whose lower case is longer makes the slice panic.\<close>

theorem size_panics:
  "parse_byte_size [byte 0xC8, byte 0xBA] = Inl Size_slice_panics \<and> parse_memory [byte 0xC8, byte 0xBA] = Inl Size_slice_panics"
  by code_simp

end
