(* ===== verification/Http_Header.thy ===== *)
theory Http_Header
  imports Boks_Prelude
begin

section \<open>HTTP headers\<close>

text \<open>
  Package \<open>net/http\<close>'s \<open>Header\<close>: a map from canonical names to lists of values, and the removal of the
  headers that concern one connection only (\<open>stripHopByHop\<close> of \<open>internal/proxy/proxy.go\<close>).
\<close>

type_synonym header = "(string \<times> string list) list"

subsection \<open>Names\<close>

text \<open>The bytes of a header name; a name with any other byte has no canonical form but itself.\<close>

definition token_char :: "char \<Rightarrow> bool" where
  "token_char c \<longleftrightarrow> is_digit c \<or> is_upper c \<or> is_lower c \<or> c \<in> set ''!#$%&*+-.^_`|~'' \<or> c = CHR 0x27"

definition upper_byte :: "char \<Rightarrow> char" where
  "upper_byte c = (if is_lower c then char_of (of_char c - 32 :: nat) else c)"

fun canon_from :: "bool \<Rightarrow> string \<Rightarrow> string" where
  "canon_from up [] = []"
| "canon_from up (c # cs) = (if up then upper_byte c else lower_byte c) # canon_from (c = CHR ''-'') cs"

definition canonical_name :: "string \<Rightarrow> string" where
  "canonical_name s = (if list_all token_char s then canon_from True s else s)"

subsection \<open>Operations\<close>

definition h_values :: "string \<Rightarrow> header \<Rightarrow> string list" where
  "h_values k h = (case map_of h (canonical_name k) of None \<Rightarrow> [] | Some vs \<Rightarrow> vs)"

definition h_get :: "string \<Rightarrow> header \<Rightarrow> string" where
  "h_get k h = (case h_values k h of [] \<Rightarrow> [] | v # _ \<Rightarrow> v)"

definition h_set :: "string \<Rightarrow> string \<Rightarrow> header \<Rightarrow> header" where
  "h_set k v h = AList.update (canonical_name k) [v] h"

definition h_add :: "string \<Rightarrow> string \<Rightarrow> header \<Rightarrow> header" where
  "h_add k v h = AList.update (canonical_name k) (h_values k h @ [v]) h"

definition h_del :: "string \<Rightarrow> header \<Rightarrow> header" where
  "h_del k h = AList.delete (canonical_name k) h"

definition hop_by_hop :: "string list" where
  "hop_by_hop = [''Connection'', ''Proxy-Connection'', ''Keep-Alive'', ''Proxy-Authenticate'',
     ''Proxy-Authorization'', ''Te'', ''Trailer'', ''Transfer-Encoding'', ''Upgrade'']"

text \<open>The names a \<open>Connection\<close> header lists.\<close>

definition connection_tokens :: "header \<Rightarrow> string list" where
  "connection_tokens h = filter (\<lambda>t. t \<noteq> []) (map trim_space (concat (map (split_on CHR '','') (h_values ''Connection'' h))))"

definition strip_hop_by_hop :: "header \<Rightarrow> header" where
  "strip_hop_by_hop h = foldl (\<lambda>h k. h_del k h) h (connection_tokens h @ hop_by_hop)"

text \<open>What the proxy removes from a request before it leaves: see \<open>handleHTTP\<close> and its siblings.\<close>

definition outbound_header :: "header \<Rightarrow> header" where
  "outbound_header h = h_del ''Proxy-Connection'' (h_del ''Proxy-Authorization'' (strip_hop_by_hop h))"

subsection \<open>Lemmas\<close>

lemma upper_iff: "is_upper c \<longleftrightarrow> 65 \<le> (of_char c :: nat) \<and> (of_char c :: nat) \<le> 90"
  by (simp add: is_upper_def less_eq_char_def)

lemma lower_iff: "is_lower c \<longleftrightarrow> 97 \<le> (of_char c :: nat) \<and> (of_char c :: nat) \<le> 122"
  by (simp add: is_lower_def less_eq_char_def)

lemma case_bytes:
  "is_upper c \<Longrightarrow> is_lower (lower_byte c)" "is_lower c \<Longrightarrow> is_upper (upper_byte c)"
  "\<not> is_upper c \<Longrightarrow> lower_byte c = c" "\<not> is_lower c \<Longrightarrow> upper_byte c = c"
  "is_upper c \<Longrightarrow> \<not> is_lower c" "\<not> is_upper CHR ''-''" "\<not> is_lower CHR ''-''"
  by (auto simp: lower_byte_def upper_byte_def upper_iff lower_iff)

lemma canon_bytes:
  "lower_byte (lower_byte c) = lower_byte c" "upper_byte (upper_byte c) = upper_byte c"
  "token_char c \<Longrightarrow> token_char (lower_byte c)" "token_char c \<Longrightarrow> token_char (upper_byte c)"
  "lower_byte c = CHR ''-'' \<longleftrightarrow> c = CHR ''-''" "upper_byte c = CHR ''-'' \<longleftrightarrow> c = CHR ''-''"
  using case_bytes case_bytes(5) [of "upper_byte c"] case_bytes(5) [of "lower_byte c"]
  by (cases "is_upper c"; cases "is_lower c"; force simp: token_char_def)+

lemma canon_from_token: "list_all token_char s \<Longrightarrow> list_all token_char (canon_from up s)"
  by (induction up s rule: canon_from.induct) (auto simp: canon_bytes)

lemma canon_from_idem: "canon_from up (canon_from up s) = canon_from up s"
  by (induction up s rule: canon_from.induct) (auto simp: canon_bytes)

lemma canonical_idem [simp]: "canonical_name (canonical_name s) = canonical_name s"
  by (simp add: canonical_name_def canon_from_token canon_from_idem)

lemma h_values_canonical: "canonical_name a = canonical_name b \<Longrightarrow> h_values a h = h_values b h"
  by (simp add: h_values_def)

lemma h_values_set: "h_values a (h_set b v h) = (if canonical_name a = canonical_name b then [v] else h_values a h)"
  by (simp add: h_values_def h_set_def update_conv')

lemma h_values_add: "h_values a (h_add b v h) = (if canonical_name a = canonical_name b then h_values a h @ [v] else h_values a h)"
  by (auto simp: h_values_def h_add_def update_conv')

lemma h_values_del: "h_values a (h_del b h) = (if canonical_name a = canonical_name b then [] else h_values a h)"
  by (simp add: h_values_def h_del_def delete_conv')

lemmas h_values_simps = h_values_set h_values_add h_values_del

lemma h_values_dels: "h_values a (foldl (\<lambda>h k. h_del k h) h ks) =
    (if canonical_name a \<in> canonical_name ` set ks then [] else h_values a h)"
  by (induction ks arbitrary: h) (auto simp: h_values_del)

text \<open>
  What is left after the removal: nothing under a hop-by-hop name or a name \<open>Connection\<close> lists, in any
  spelling, and everything else as it was.
\<close>

lemma h_values_strip: "h_values a (strip_hop_by_hop h) =
    (if canonical_name a \<in> canonical_name ` set (connection_tokens h @ hop_by_hop) then [] else h_values a h)"
  unfolding strip_hop_by_hop_def by (rule h_values_dels)

lemma h_values_outbound: "h_values a (outbound_header h) =
    (if canonical_name a \<in> canonical_name ` set (connection_tokens h @ hop_by_hop) then [] else h_values a h)"
  by (auto simp: outbound_header_def h_values_del h_values_strip hop_by_hop_def)

lemma strip_headers_idem: "h_values a (strip_hop_by_hop (strip_hop_by_hop h)) = h_values a (strip_hop_by_hop h)"
proof -
  have "connection_tokens (strip_hop_by_hop h) = []"
    by (simp add: connection_tokens_def h_values_strip hop_by_hop_def)
  then show ?thesis by (auto simp: h_values_strip)
qed

end
