(* ===== verification/Netip.thy ===== *)
theory Netip
  imports Boks_Prelude "HOL-Library.Word"
begin

section \<open>IP addresses and prefixes, as Go's \<open>net/netip\<close> reads and writes them\<close>

text \<open>
  The policy, port and network components take every address through Go's standard package
  \<open>net/netip\<close>. This theory holds what they use of it: the address values with their zone, the
  text form in both directions, prefixes, and the normalisations \<open>Unmap\<close> and \<open>WithZone("")\<close>. The
  results shared with the rest are that text and value agree and that masking keeps membership.
\<close>

unbundle bit_operations_syntax

subsection \<open>Numbers in a fixed base\<close>

fun digs :: "nat \<Rightarrow> nat \<Rightarrow> nat \<Rightarrow> nat list" where
  "digs b 0 n = []"
| "digs b (Suc k) n = digs b k (n div b) @ [n mod b]"

definition undigs :: "nat \<Rightarrow> nat list \<Rightarrow> nat" where
  "undigs b ds = foldl (\<lambda>n d. n * b + d) 0 ds"

lemma undigs_snoc [simp]: "undigs b (ds @ [d]) = undigs b ds * b + d"
  by (simp add: undigs_def)

lemma undigs_Nil [simp]: "undigs b [] = 0"
  by (simp add: undigs_def)

lemma length_digs [simp]: "length (digs b k n) = k"
  by (induction b k n rule: digs.induct) auto

lemma digs_bound: "0 < b \<Longrightarrow> d \<in> set (digs b k n) \<Longrightarrow> d < b"
  by (induction b k n rule: digs.induct) auto

lemma undigs_zeros: "undigs b (replicate k 0) = 0"
  by (induction k) (simp_all flip: replicate_append_same)

lemma undigs_digs: "n < b ^ k \<Longrightarrow> undigs b (digs b k n) = n"
proof (induction b k n rule: digs.induct)
  case (2 b k n)
  then have "n div b < b ^ k" by (simp add: less_mult_imp_div_less mult.commute)
  with 2 show ?case by simp
qed auto

lemma undigs_bound: "(\<And>d. d \<in> set ds \<Longrightarrow> d < b) \<Longrightarrow> undigs b ds < b ^ length ds"
proof (induction ds rule: rev_induct)
  case (snoc d ds)
  then have "undigs b ds + 1 \<le> b ^ length ds" by (simp add: Suc_le_eq)
  then have "(undigs b ds + 1) * b \<le> b ^ length ds * b" by (rule mult_le_mono1)
  moreover have "d < b" using snoc.prems by simp
  ultimately show ?case by (simp add: algebra_simps)
qed simp

lemma digs_undigs: "(\<And>d. d \<in> set ds \<Longrightarrow> d < b) \<Longrightarrow> digs b (length ds) (undigs b ds) = ds"
proof (induction ds rule: rev_induct)
  case (snoc d ds)
  then have d: "d < b" by simp
  then have "(undigs b ds * b + d) div b = undigs b ds"
    by (subst add.commute) (simp add: div_mult_self3)
  with d snoc show ?case by simp
qed simp

subsection \<open>Addresses\<close>

text \<open>
  \<open>Addr_none\<close> is the zero \<open>netip.Addr\<close>, the invalid address; an IPv6 address carries its zone,
  empty when it has none.
\<close>

datatype addr = Addr_none | A4 "32 word" | A6 "128 word" string

definition addr_valid :: "addr \<Rightarrow> bool" where
  "addr_valid a \<longleftrightarrow> a \<noteq> Addr_none"

definition is4 :: "addr \<Rightarrow> bool" where
  "is4 a = (case a of A4 _ \<Rightarrow> True | _ \<Rightarrow> False)"

definition is6 :: "addr \<Rightarrow> bool" where
  "is6 a = (case a of A6 _ _ \<Rightarrow> True | _ \<Rightarrow> False)"

definition is4in6 :: "addr \<Rightarrow> bool" where
  "is4in6 a = (case a of A6 w _ \<Rightarrow> unat w div 2 ^ 32 = 0xFFFF | _ \<Rightarrow> False)"

definition unmap :: "addr \<Rightarrow> addr" where
  "unmap a = (case a of A6 w _ \<Rightarrow> if is4in6 a then A4 (of_nat (unat w mod 2 ^ 32)) else a | _ \<Rightarrow> a)"

definition with_zone :: "string \<Rightarrow> addr \<Rightarrow> addr" where
  "with_zone z a = (case a of A6 w _ \<Rightarrow> A6 w z | _ \<Rightarrow> a)"

definition addr_zone :: "addr \<Rightarrow> string" where
  "addr_zone a = (case a of A6 _ z \<Rightarrow> z | _ \<Rightarrow> [])"

text \<open>The normal form every policy decision uses: no zone, and IPv4 wherever it is IPv4.\<close>

definition plain :: "addr \<Rightarrow> addr" where
  "plain a = unmap (with_zone [] a)"

lemmas addr_defs = addr_valid_def is4_def is6_def is4in6_def unmap_def with_zone_def plain_def

lemma plain_idem [simp]: "plain (plain a) = plain a"
  by (auto simp: addr_defs split: addr.splits)

lemma plain_valid [simp]: "addr_valid (plain a) = addr_valid a"
  by (auto simp: addr_defs split: addr.splits)

lemma plain_not_4in6 [simp]: "\<not> is4in6 (plain a)"
  by (auto simp: addr_defs split: addr.splits)

lemma plain_zone [simp]: "addr_zone (plain a) = []"
  by (auto simp: addr_defs addr_zone_def split: addr.splits)

lemma plain_fixed: "\<not> is4in6 a \<Longrightarrow> addr_zone a = [] \<Longrightarrow> plain a = a"
  by (auto simp: addr_defs addr_zone_def split: addr.splits)

subsection \<open>Text of an address\<close>

definition hex_char :: "nat \<Rightarrow> char" where
  "hex_char d = (if d < 10 then char_of (48 + d) else char_of (87 + d))"

definition is_hex :: "char \<Rightarrow> bool" where
  "is_hex c \<longleftrightarrow> is_digit c \<or> in_range CHR ''a'' CHR ''f'' c \<or> in_range CHR ''A'' CHR ''F'' c"

definition hex_val :: "char \<Rightarrow> nat" where
  "hex_val c =
     (if is_digit c then of_char c - 48
      else if in_range CHR ''a'' CHR ''f'' c then of_char c - 87
      else of_char c - 55)"

fun show_hex :: "nat \<Rightarrow> string" where
  "show_hex n = (if n < 16 then [hex_char n] else show_hex (n div 16) @ [hex_char (n mod 16)])"

declare show_hex.simps [simp del]

definition read_hex :: "string \<Rightarrow> nat" where
  "read_hex s = foldl (\<lambda>n c. 16 * n + hex_val c) 0 s"

definition string4 :: "nat \<Rightarrow> string" where
  "string4 n = join_with ''.'' (map show_nat (digs 256 4 n))"

text \<open>
  The run of zero groups written as \<open>::\<close>: the longest of length two or more, the first of these.
\<close>

definition zero_run :: "nat list \<Rightarrow> nat \<Rightarrow> nat" where
  "zero_run gs i = length (takeWhile (\<lambda>g. g = 0) (drop i gs))"

definition best_run :: "nat list \<Rightarrow> (nat \<times> nat) option" where
  "best_run gs =
     foldl (\<lambda>best i.
         let l = zero_run gs i
         in if 2 \<le> l \<and> (case best of None \<Rightarrow> True | Some (a, b) \<Rightarrow> b - a < l)
            then Some (i, i + l) else best)
       None [0..<8]"

definition string6 :: "nat list \<Rightarrow> string" where
  "string6 gs =
     (case best_run gs of
        None \<Rightarrow> join_with '':'' (map show_hex gs)
      | Some (a, b) \<Rightarrow>
          join_with '':'' (map show_hex (take a gs)) @ ''::''
          @ join_with '':'' (map show_hex (drop b gs)))"

definition zone_suffix :: "string \<Rightarrow> string" where
  "zone_suffix z = (if z = [] then [] else CHR ''%'' # z)"

fun addr_string :: "addr \<Rightarrow> string" where
  "addr_string Addr_none = ''invalid IP''"
| "addr_string (A4 w) = string4 (unat w)"
| "addr_string (A6 w z) =
     (if is4in6 (A6 w z) then ''::ffff:'' @ string4 (unat w mod 2 ^ 32)
      else string6 (digs 65536 8 (unat w))) @ zone_suffix z"

subsection \<open>Parsing\<close>

text \<open>One decimal field: digits, no leading zero, at most 255.\<close>

definition parse_octet :: "string \<Rightarrow> nat option" where
  "parse_octet s =
     (case parse_nat s of None \<Rightarrow> None
      | Some n \<Rightarrow> if n \<le> 255 \<and> (hd s = CHR ''0'' \<longrightarrow> length s = 1) then Some n else None)"

definition parse_v4_fields :: "string \<Rightarrow> nat list option" where
  "parse_v4_fields s =
     (let ws = split_on CHR ''.'' s
      in if length ws = 4 \<and> list_all (\<lambda>w. parse_octet w \<noteq> None) ws
         then Some (map (\<lambda>w. the (parse_octet w)) ws) else None)"

text \<open>
  The group loop of \<open>parseIPv6\<close>. The first argument is the number of 16-bit groups still free, the
  second the groups read so far, the third the position of the \<open>::\<close> when one was seen. The result
  holds the groups, that position and the text left over.
\<close>

fun v6_loop :: "nat \<Rightarrow> nat list \<Rightarrow> nat option \<Rightarrow> string \<Rightarrow> (nat list \<times> nat option \<times> string) option"
where
  "v6_loop 0 gs ell s = Some (gs, ell, s)"
| "v6_loop (Suc k) gs ell s =
     (let ds = takeWhile is_hex s; rest = dropWhile is_hex s
      in if 4 < length ds \<or> ds = [] then None
         else (case rest of
             [] \<Rightarrow> Some (gs @ [read_hex ds], ell, [])
           | c # cs \<Rightarrow>
               if c = CHR ''.'' then
                 (if (ell = None \<and> length gs \<noteq> 6) \<or> k = 0 then None
                  else (case parse_v4_fields s of
                      None \<Rightarrow> None
                    | Some f \<Rightarrow> Some (gs @ [f ! 0 * 256 + f ! 1, f ! 2 * 256 + f ! 3], ell, [])))
               else if c \<noteq> CHR '':'' \<or> cs = [] then None
               else if hd cs = CHR '':'' then
                 (if ell \<noteq> None then None
                  else if tl cs = [] then Some (gs @ [read_hex ds], Some (length gs + 1), [])
                  else v6_loop k (gs @ [read_hex ds]) (Some (length gs + 1)) (tl cs))
               else v6_loop k (gs @ [read_hex ds]) ell cs))"

definition v6_finish :: "nat list \<times> nat option \<times> string \<Rightarrow> nat list option" where
  "v6_finish r =
     (case r of (gs, ell, s) \<Rightarrow>
        if s \<noteq> [] then None
        else (case ell of
            None \<Rightarrow> if length gs < 8 then None else Some gs
          | Some e \<Rightarrow>
              if length gs < 8 then Some (take e gs @ replicate (8 - length gs) 0 @ drop e gs)
              else None))"

definition parse_v6 :: "string \<Rightarrow> addr option" where
  "parse_v6 inp =
     (let (s, zone, has_zone) = cut CHR ''%'' inp;
          lead = prefix ''::'' s;
          body = (if lead then drop 2 s else s)
      in if has_zone \<and> zone = [] then None
         else if lead \<and> body = [] then Some (A6 0 zone)
         else (case v6_loop 8 [] (if lead then Some 0 else None) body of
             None \<Rightarrow> None
           | Some r \<Rightarrow>
               (case v6_finish r of
                  None \<Rightarrow> None
                | Some gs \<Rightarrow> Some (A6 (of_nat (undigs 65536 gs)) zone))))"

definition parse_addr :: "string \<Rightarrow> addr option" where
  "parse_addr s =
     (case find (\<lambda>c. c \<in> {CHR ''.'', CHR '':'', CHR ''%''}) s of
        None \<Rightarrow> None
      | Some c \<Rightarrow>
          if c = CHR ''.'' then
            (case parse_v4_fields s of None \<Rightarrow> None | Some f \<Rightarrow> Some (A4 (of_nat (undigs 256 f))))
          else if c = CHR '':'' then parse_v6 s
          else None)"

subsection \<open>Text and value agree\<close>

lemma is_hex_char [simp]: "d < 16 \<Longrightarrow> is_hex (hex_char d)"
  by (auto simp: is_hex_def hex_char_def char_class_defs)

lemma hex_val_char [simp]: "d < 16 \<Longrightarrow> hex_val (hex_char d) = d"
  by (auto simp: hex_val_def hex_char_def char_class_defs)

lemma show_hex_all: "list_all is_hex (show_hex n)"
proof (induction n rule: show_hex.induct)
  case (1 n)
  then show ?case by (subst show_hex.simps) simp
qed

lemma show_hex_set: "c \<in> set (show_hex n) \<Longrightarrow> is_hex c"
  using show_hex_all by (auto simp: list_all_iff)

lemma show_hex_not_Nil [simp]: "show_hex n \<noteq> []"
  by (subst show_hex.simps) simp

lemma read_show_hex [simp]: "read_hex (show_hex n) = n"
proof (induction n rule: show_hex.induct)
  case (1 n)
  show ?case
  proof (cases "n < 16")
    case True
    then show ?thesis by (subst show_hex.simps) (simp add: read_hex_def)
  next
    case False
    with 1 have "read_hex (show_hex (n div 16)) = n div 16" by simp
    with False show ?thesis by (subst show_hex.simps) (simp add: read_hex_def)
  qed
qed

lemma length_show_hex: "n < 16 ^ k \<Longrightarrow> 0 < k \<Longrightarrow> length (show_hex n) \<le> k"
proof (induction k arbitrary: n)
  case (Suc k)
  show ?case
  proof (cases "n < 16")
    case True
    then show ?thesis by (subst show_hex.simps) simp
  next
    case False
    then have "n div 16 < 16 ^ k" "0 < k" using Suc.prems by (auto intro: Nat.gr0I)
    with Suc.IH False show ?thesis by (subst show_hex.simps) simp
  qed
qed simp

lemma is_hex_sep: "\<not> is_hex CHR '':''" "\<not> is_hex CHR ''.''" "\<not> is_hex CHR ''%''"
  by (simp_all add: is_hex_def char_class_defs)

lemma takeWhile_show_hex:
  "\<not> is_hex c \<Longrightarrow> takeWhile is_hex (show_hex n @ c # s) = show_hex n"
  "\<not> is_hex c \<Longrightarrow> dropWhile is_hex (show_hex n @ c # s) = c # s"
  "takeWhile is_hex (show_hex n) = show_hex n"
  "dropWhile is_hex (show_hex n) = []"
  by (auto simp: show_hex_set takeWhile_append dropWhile_append dest: show_hex_set)

lemma hd_show_hex: "is_hex (hd (show_hex n))"
  by (rule show_hex_set [OF hd_in_set]) simp

lemma show_hex_hd_colon: "hd (show_hex n @ s) \<noteq> CHR '':''"
  using hd_show_hex [of n] is_hex_sep by (metis hd_append2 show_hex_not_Nil)

lemma v6_loop_group:
  assumes "h < 65536" "s = [] \<or> hd s \<noteq> CHR '':''"
  shows "v6_loop (Suc k) gs ell (show_hex h @ CHR '':'' # s) =
    (if s = [] then None else v6_loop k (gs @ [h]) ell s)"
  using assms length_show_hex [of h 4] by (auto simp: takeWhile_show_hex is_hex_sep)

lemma v6_loop_last: "h < 65536 \<Longrightarrow> v6_loop (Suc k) gs ell (show_hex h) = Some (gs @ [h], ell, [])"
  using length_show_hex [of h 4] by (simp add: takeWhile_show_hex)

lemma v6_loop_ellipsis:
  "h < 65536 \<Longrightarrow> v6_loop (Suc k) gs None (show_hex h @ CHR '':'' # CHR '':'' # s) =
    (if s = [] then Some (gs @ [h], Some (length gs + 1), [])
     else v6_loop k (gs @ [h]) (Some (length gs + 1)) s)"
  using length_show_hex [of h 4] by (simp add: takeWhile_show_hex is_hex_sep)

declare v6_loop.simps(2) [simp del]

lemma hd_join_hex: "hs \<noteq> [] \<Longrightarrow> hd (join_with '':'' (map show_hex hs) @ s) \<noteq> CHR '':''"
  using show_hex_hd_colon [of _ "[]"] by (cases hs; cases "tl hs") (auto simp: join_Cons)

lemma join_hex_not_Nil: "hs \<noteq> [] \<Longrightarrow> join_with '':'' (map show_hex hs) \<noteq> []"
  by (cases hs; cases "tl hs") (auto simp: join_Cons)

lemma v6_loop_groups:
  "hs \<noteq> [] \<Longrightarrow> length hs \<le> k \<Longrightarrow> (\<And>h. h \<in> set hs \<Longrightarrow> h < 65536) \<Longrightarrow>
   v6_loop k gs ell (join_with '':'' (map show_hex hs)) = Some (gs @ hs, ell, [])"
proof (induction hs arbitrary: k gs)
  case (Cons h hs)
  then obtain k' where k: "k = Suc k'" by (cases k) auto
  show ?case
  proof (cases "hs = []")
    case True
    with Cons.prems k show ?thesis by (simp add: v6_loop_last)
  next
    case False
    with Cons.prems k hd_join_hex [of hs "[]"] show ?thesis
      by (simp add: join_Cons v6_loop_group join_hex_not_Nil Cons.IH)
  qed
qed simp

lemma v6_loop_groups_ellipsis:
  "hs \<noteq> [] \<Longrightarrow> length hs \<le> k \<Longrightarrow> (\<And>h. h \<in> set hs \<Longrightarrow> h < 65536) \<Longrightarrow>
   v6_loop k gs None (join_with '':'' (map show_hex hs) @ CHR '':'' # CHR '':'' # s) =
     (if s = [] then Some (gs @ hs, Some (length gs + length hs), [])
      else v6_loop (k - length hs) (gs @ hs) (Some (length gs + length hs)) s)"
proof (induction hs arbitrary: k gs)
  case (Cons h hs)
  then obtain k' where k: "k = Suc k'" by (cases k) auto
  show ?case
  proof (cases "hs = []")
    case True
    with Cons.prems k show ?thesis by (simp add: v6_loop_ellipsis)
  next
    case False
    with Cons.prems k hd_join_hex [of hs] show ?thesis
      by (simp add: join_Cons v6_loop_group join_hex_not_Nil Cons.IH)
  qed
qed simp

lemma best_run_Some:
  assumes "best_run gs = Some (a, b)" "length gs = 8"
  shows "a + 2 \<le> b \<and> b \<le> 8 \<and> gs = take a gs @ replicate (b - a) 0 @ drop b gs"
proof -
  define ok where "ok = (\<lambda>r :: (nat \<times> nat) option.
    case r of None \<Rightarrow> True | Some (a, b) \<Rightarrow> a + 2 \<le> b \<and> b \<le> 8 \<and> (\<exists>n. n = b - a \<and> n \<le> zero_run gs a))"
  have step: "ok (foldl f r is)"
    if "ok r" "\<And>r i. ok r \<Longrightarrow> i \<in> set is \<Longrightarrow> ok (f r i)" for f :: "(nat \<times> nat) option \<Rightarrow> nat \<Rightarrow> (nat \<times> nat) option" and r "is"
    using that by (induction "is" arbitrary: r) auto
  have run: "i + zero_run gs i \<le> 8" if "i < 8" for i
    using that length_takeWhile_le [of "\<lambda>g. g = 0" "drop i gs"] assms(2) by (simp add: zero_run_def)
  have "ok (best_run gs)"
    unfolding best_run_def
    by (rule step) (use run in \<open>auto simp: ok_def Let_def split: option.splits\<close>)
  then have *: "a + 2 \<le> b" "b \<le> 8" "b - a \<le> zero_run gs a" using assms(1) by (auto simp: ok_def)
  have "take (zero_run gs a) (drop a gs) = replicate (zero_run gs a) 0"
    by (simp add: zero_run_def takeWhile_eq_take [symmetric])
      (metis (mono_tags, lifting) replicate_length_same set_takeWhileD)
  then have "take (b - a) (drop a gs) = replicate (b - a) 0"
    using *(3) by (metis min.absorb1 take_replicate take_take)
  moreover have "drop (b - a) (drop a gs) = drop b gs" using * by simp
  ultimately have "drop a gs = replicate (b - a) 0 @ drop b gs" by (metis append_take_drop_id)
  with * show ?thesis by (metis append_take_drop_id)
qed

lemma parse_octet_show [simp]: "n < 256 \<Longrightarrow> parse_octet (show_nat n) = Some n"
proof -
  assume n: "n < 256"
  have "length (show_nat n) = 1" if "hd (show_nat n) = CHR ''0''"
  proof (rule ccontr)
    assume "length (show_nat n) \<noteq> 1"
    then have big: "10 \<le> n" by (subst (asm) show_nat.simps) (auto split: if_splits)
    have "0 < n \<Longrightarrow> hd (show_nat n) \<noteq> CHR ''0''" for n
    proof (induction n rule: show_nat.induct)
      case (1 n)
      have "digit_char n \<noteq> CHR ''0''" if "n < 10"
        using arg_cong [of "digit_char n" "CHR ''0''" "of_char :: char \<Rightarrow> nat"] of_char_digit [OF that] "1.prems"
        by auto
      with 1 show ?case by (subst show_nat.simps) auto
    qed
    with big that show False by auto
  qed
  with n show ?thesis by (simp add: parse_octet_def)
qed

lemma dot_not_show_nat: "CHR ''.'' \<notin> set (show_nat n)" "CHR '':'' \<notin> set (show_nat n)"
  "CHR ''%'' \<notin> set (show_nat n)" "CHR ''/'' \<notin> set (show_nat n)"
  by (auto dest!: show_nat_set simp: char_class_defs)

lemma digs_not_Nil: "digs b (Suc k) n \<noteq> []"
  by simp

lemma parse_v4_string [simp]: "parse_v4_fields (string4 n) = Some (digs 256 4 n)"
proof -
  have "split_on CHR ''.'' (string4 n) = map show_nat (digs 256 4 n)"
    unfolding string4_def by (rule split_join) (auto simp: dot_not_show_nat simp flip: length_0_conv)
  moreover have "\<forall>d\<in>set (digs 256 4 n). parse_octet (show_nat d) = Some d"
    using digs_bound [of 256 _ 4 n] by simp
  ultimately show ?thesis
    by (auto simp: parse_v4_fields_def list_all_iff intro: map_idI)
qed

lemma digs_4: "digs b 4 n = [n div b div b div b mod b, n div b div b mod b, n div b mod b, n mod b]"
  by (simp add: eval_nat_numeral)

lemma two_digits: "m div b mod b * b + m mod b = m mod (b * b)" for m b :: nat
  by (simp add: mod_mult2_eq)

lemma string4_split: "\<exists>d ds. d < 256 \<and> string4 n = show_nat d @ CHR ''.'' # ds"
proof -
  obtain d ds where ds: "digs 256 4 n = d # ds" "ds \<noteq> []"
    by (simp add: digs_4)
  then have "d < 256" using digs_bound [of 256 d 4 n] by simp
  with ds show ?thesis by (auto simp: string4_def join_Cons)
qed

lemma string4_set: "c \<in> set (string4 n) \<Longrightarrow> c = CHR ''.'' \<or> is_digit c"
  using set_join [of "''.''" "map show_nat (digs 256 4 n)"] by (auto simp: string4_def dest: show_nat_set)

lemma find_sep: "(\<And>c. c \<in> set w \<Longrightarrow> is_hex c) \<Longrightarrow> x \<in> {CHR ''.'', CHR '':'', CHR ''%''} \<Longrightarrow>
    find (\<lambda>c. c \<in> {CHR ''.'', CHR '':'', CHR ''%''}) (w @ x # s) = Some x"
  by (induction w) (use is_hex_sep in auto)

lemma find_sep_nat: "x \<in> {CHR ''.'', CHR '':'', CHR ''%''} \<Longrightarrow>
    find (\<lambda>c. c \<in> {CHR ''.'', CHR '':'', CHR ''%''}) (show_nat n @ x # s) = Some x"
  by (rule find_sep) (auto dest: show_nat_set simp: is_hex_def)

lemma parse_addr_A4: "parse_addr (addr_string (A4 w)) = Some (A4 w)"
proof -
  obtain d ds where "string4 (unat w) = show_nat d @ CHR ''.'' # ds" using string4_split by blast
  then have "parse_addr (string4 (unat w)) =
      (case parse_v4_fields (string4 (unat w)) of None \<Rightarrow> None | Some f \<Rightarrow> Some (A4 (of_nat (undigs 256 f))))"
    using find_sep_nat [of "CHR ''.''" d ds] by (simp add: parse_addr_def)
  moreover have "unat w < 256 ^ 4" using unsigned_less [of w, where 'a = nat] by simp
  ultimately show ?thesis by (simp add: undigs_digs)
qed

lemma v6_loop_v4: "v6_loop (Suc (Suc k)) [g] (Some e) (string4 n) =
    Some ([g, n div 65536 mod 65536, n mod 65536], Some e, [])"
proof -
  obtain d ds where *: "string4 n = show_nat d @ CHR ''.'' # ds" "d < 256" using string4_split by blast
  have hex: "\<forall>c\<in>set (show_nat d). is_hex c" by (auto dest: show_nat_set simp: is_hex_def)
  have tw: "takeWhile is_hex (string4 n) = show_nat d" "dropWhile is_hex (string4 n) = CHR ''.'' # ds"
    using hex is_hex_sep by (auto simp: *)
  have len: "length (show_nat d) \<le> 3" using *(2) 
    by (subst show_nat.simps, subst show_nat.simps, subst show_nat.simps) (auto split: if_splits)
  have "digs 256 4 n ! 0 * 256 + digs 256 4 n ! 1 = n div 65536 mod 65536"
    "digs 256 4 n ! 2 * 256 + digs 256 4 n ! 3 = n mod 65536"
    using two_digits [of "n div 65536" 256] two_digits [of n 256]
    by (simp_all add: digs_4 div_mult2_eq [symmetric])
  then show ?thesis using len by (simp add: v6_loop.simps(2) Let_def tw)
qed

lemma string4_pos: "string4 n \<noteq> []"
  using string4_split [of n] by auto

lemma four_in_six_groups:
  "n div 2 ^ 32 = 0xFFFF \<Longrightarrow>
   undigs 65536 [0, 0, 0, 0, 0, 65535, n mod 2 ^ 32 div 65536 mod 65536, n mod 2 ^ 32 mod 65536] = n"
  using two_digits [of "n mod 2 ^ 32" 65536] div_mult_mod_eq [of n "2 ^ 32"]
  by (simp add: undigs_def)

lemma parse_v6_body:
  assumes "CHR ''%'' \<notin> set s" 
    "v6_loop 8 [] (if prefix ''::'' s then Some 0 else None) (if prefix ''::'' s then drop 2 s else s) = Some r"
    "v6_finish r = Some gs" "s \<noteq> ''::''"
  shows "parse_v6 (s @ zone_suffix z) = Some (A6 (of_nat (undigs 65536 gs)) z)"
proof -
  have "cut CHR ''%'' (s @ zone_suffix z) = (s, z, z \<noteq> [])"
    using assms(1) by (cases "z = []") (auto simp: zone_suffix_def cut_found cut_none)
  moreover have "prefix ''::'' s \<Longrightarrow> drop 2 s \<noteq> []"
    using assms(4) by (auto simp: prefix_def)
  ultimately show ?thesis using assms(2,3) by (simp add: parse_v6_def Let_def)
qed

lemma v6_finish_3: "v6_finish ([g, h, k], Some 0, []) = Some [0, 0, 0, 0, 0, g, h, k]"
  by (simp add: v6_finish_def eval_nat_numeral)

lemma parse_4in6:
  assumes "is4in6 (A6 w z)"
  shows "parse_addr (addr_string (A6 w z)) = Some (A6 w z)"
proof -
  define n where "n = unat w mod 2 ^ 32"
  let ?s = "''::ffff:'' @ string4 n"
  have ffff: "show_hex 65535 = ''ffff''"
    using char_of_char [of "CHR ''f''", where 'a = nat]
    by (simp add: show_hex.simps hex_char_def)
  have "v6_loop 8 [] (Some 0) (show_hex 65535 @ CHR '':'' # string4 n) =
      v6_loop 7 [65535] (Some 0) (string4 n)"
  proof -
    have "hd (string4 n) \<noteq> CHR '':''"
      using string4_set [of "hd (string4 n)" n] string4_pos [of n] by (auto simp: char_class_defs)
    then have "v6_loop (Suc 7) [] (Some 0) (show_hex 65535 @ CHR '':'' # string4 n) =
        v6_loop 7 ([] @ [65535]) (Some 0) (string4 n)"
      using string4_pos [of n] by (subst v6_loop_group) auto
    then show ?thesis by simp
  qed
  also have "\<dots> = Some ([65535, n div 65536 mod 65536, n mod 65536], Some 0, [])"
    using v6_loop_v4 [of 5 65535 0 n] by simp
  finally have loop: "v6_loop 8 [] (Some 0) (drop 2 ?s) = \<dots>" by (simp add: ffff)
  have "CHR ''%'' \<notin> set (string4 n)" using string4_set [of "CHR ''%''" n] by (auto simp: char_class_defs)
  then have "parse_v6 (?s @ zone_suffix z) = Some (A6 (of_nat (undigs 65536
      [0, 0, 0, 0, 0, 65535, n div 65536 mod 65536, n mod 65536])) z)"
    using loop v6_finish_3 [of 65535] by (intro parse_v6_body) auto
  also have "\<dots> = Some (A6 w z)"
    using assms four_in_six_groups [of "unat w"] by (simp add: is4in6_def n_def)
  finally have "parse_v6 (?s @ zone_suffix z) = Some (A6 w z)" .
  moreover have "parse_addr (?s @ zone_suffix z) = parse_v6 (?s @ zone_suffix z)"
    by (simp add: parse_addr_def)
  ultimately show ?thesis using assms by (simp add: n_def)
qed

lemma join_hex_set: "c \<in> set (join_with '':'' (map show_hex hs)) \<Longrightarrow> c = CHR '':'' \<or> is_hex c"
  using set_join [of "'':''" "map show_hex hs"] by (auto dest: show_hex_set)

lemma string6_set: "c \<in> set (string6 gs) \<Longrightarrow> c = CHR '':'' \<or> is_hex c"
  by (auto simp: string6_def dest!: join_hex_set split: option.splits)

lemma string6_loop:
  assumes "length gs = 8" "\<And>g. g \<in> set gs \<Longrightarrow> g < 65536" "s = string6 gs"
  shows "\<exists>r. v6_loop 8 [] (if prefix ''::'' s then Some 0 else None)
      (if prefix ''::'' s then drop 2 s else s) = Some r \<and> v6_finish r = Some gs \<or>
    s = ''::'' \<and> gs = replicate 8 0"
proof (cases "best_run gs")
  case None
  then have s: "s = join_with '':'' (map show_hex gs)" using assms by (simp add: string6_def)
  moreover have "gs \<noteq> []" using assms(1) by auto
  ultimately have "\<not> prefix ''::'' s" using hd_join_hex [of gs "[]"] by (auto simp: prefix_def)
  then show ?thesis using s assms v6_loop_groups [of gs 8 "[]" None] \<open>gs \<noteq> []\<close>
    by (simp add: v6_finish_def)
next
  case (Some ab)
  obtain a b where ab: "ab = (a, b)" by (cases ab)
  note run = best_run_Some [OF Some [unfolded ab] assms(1)]
  define pre post where "pre = take a gs" and "post = drop b gs"
  have s: "s = join_with '':'' (map show_hex pre) @ CHR '':'' # CHR '':'' # join_with '':'' (map show_hex post)"
    using assms(3) Some ab by (simp add: string6_def pre_def post_def)
  have gs: "gs = pre @ replicate (8 - length (pre @ post)) 0 @ post"
    and len: "length pre = a" "length post = 8 - b" "length pre + length post \<le> 6"
    using run assms(1) by (auto simp: pre_def post_def)
  have small: "g \<in> set pre \<Longrightarrow> g < 65536" "g \<in> set post \<Longrightarrow> g < 65536" for g
    using assms(2) by (auto simp: pre_def post_def dest: in_set_takeD in_set_dropD)
  have post_loop: "v6_loop (8 - length pre) pre (Some (length pre)) (join_with '':'' (map show_hex post))
      = Some (pre @ post, Some (length pre), [])" if "post \<noteq> []"
    using v6_loop_groups [OF that, of "8 - length pre"] small len by simp
  have fin: "v6_finish (pre @ post, Some (length pre), []) = Some gs"
    using gs len by (simp add: v6_finish_def)
  show ?thesis
  proof (cases "pre = []")
    case True
    then have p: "prefix ''::'' s" "drop 2 s = join_with '':'' (map show_hex post)" by (simp_all add: s)
    show ?thesis
    proof (cases "post = []")
      case True
      with \<open>pre = []\<close> gs s show ?thesis by simp
    next
      case False
      with p post_loop fin \<open>pre = []\<close> show ?thesis by simp
    qed
  next
    case False
    have hd_s: "hd s \<noteq> CHR '':''" unfolding s by (rule hd_join_hex [OF False])
    then have "\<not> prefix ''::'' s"
      using hd_s by (auto simp: prefix_def)
    moreover have "v6_loop 8 [] None s = Some (pre @ post, Some (length pre), [])"
      using v6_loop_groups_ellipsis [OF False, of 8 "[]"] small len post_loop join_hex_not_Nil [of post]
      by (cases "post = []") (simp_all add: s)
    ultimately show ?thesis using fin by simp
  qed
qed

lemma string6_colons:
  assumes "length gs = 8" "string6 gs = ''::''"
  shows "gs = replicate 8 0"
proof (cases "best_run gs")
  case None
  moreover have "gs \<noteq> []" using assms(1) by auto
  ultimately show ?thesis using assms(2) hd_join_hex [of gs "[]"] by (simp add: string6_def)
next
  case (Some ab)
  obtain a b where ab: "ab = (a, b)" by (cases ab)
  note run = best_run_Some [OF Some [unfolded ab] assms(1)]
  have "length (string6 gs) = 2" using assms(2) by simp
  then have "join_with '':'' (map show_hex (take a gs)) = []" "join_with '':'' (map show_hex (drop b gs)) = []"
    by (auto simp: string6_def Some ab)
  then have "take a gs = []" "drop b gs = []" using join_hex_not_Nil by blast+
  moreover from this assms(1) run have "a = 0" "b = 8" by auto
  ultimately show ?thesis using run by simp
qed

lemma parse_string6:
  assumes "length gs = 8" "\<And>g. g \<in> set gs \<Longrightarrow> g < 65536"
  shows "parse_v6 (string6 gs @ zone_suffix z) = Some (A6 (of_nat (undigs 65536 gs)) z)"
proof -
  have pc: "CHR ''%'' \<notin> set (string6 gs)"
    using string6_set [of "CHR ''%''" gs] is_hex_sep by auto
  show ?thesis
  proof (cases "string6 gs = ''::''")
    case False
    then obtain r where "v6_loop 8 [] (if prefix ''::'' (string6 gs) then Some 0 else None)
        (if prefix ''::'' (string6 gs) then drop 2 (string6 gs) else string6 gs) = Some r"
        "v6_finish r = Some gs"
      using string6_loop [OF assms refl] by meson
    with pc False show ?thesis by (intro parse_v6_body)
  next
    case True
    note 2 = True string6_colons [OF assms(1) True]
    have "cut CHR ''%'' (''::'' @ zone_suffix z) = (''::'', z, z \<noteq> [])"
      using cut_found [of "CHR ''%''" "''::''" z] cut_none [of "CHR ''%''" "''::''"]
      by (auto simp: zone_suffix_def)
    then have "parse_v6 (''::'' @ zone_suffix z) = Some (A6 0 z)" by (simp add: parse_v6_def)
    moreover have "undigs 65536 gs = 0" unfolding 2(2) by (rule undigs_zeros)
    ultimately show ?thesis by (simp only: 2(1) semiring_1_class.of_nat_0)
  qed
qed

lemma find_in_string6: "length gs = 8 \<Longrightarrow>
    find (\<lambda>c. c \<in> {CHR ''.'', CHR '':'', CHR ''%''}) (string6 gs @ s) = Some CHR '':''"
proof -
  assume len: "length gs = 8"
  have colon: "CHR '':'' \<in> set (string6 gs)"
  proof (cases "best_run gs")
    case None
    from len obtain g h hs where "gs = g # h # hs"
      by (cases gs; cases "tl gs") auto
    with None show ?thesis by (auto simp: string6_def join_Cons)
  qed (auto simp: string6_def split: option.splits)
  then obtain w t where *: "string6 gs = w @ CHR '':'' # t" "CHR '':'' \<notin> set w"
    by (meson split_list_first)
  have "is_hex c" if "c \<in> set w" for c
    using that * string6_set [of c gs] by auto
  then show ?thesis using * find_sep [of w "CHR '':''" "t @ s"] by simp
qed

lemma join_count: "length ws \<le> Suc (length (filter (\<lambda>x. x = c) (join_with [c] ws)))"
  by (induction "[c]" ws rule: join_with.induct) auto

lemma addr_string_colons: "is6 a \<Longrightarrow> 2 \<le> length (filter (\<lambda>c. c = CHR '':'') (addr_string a))"
proof -
  have "2 \<le> length (filter (\<lambda>c. c = CHR '':'') (string6 (digs 65536 8 n)))" for n
    using join_count [of "map show_hex (digs 65536 8 n)" "CHR '':''"]
    by (auto simp: string6_def split: option.split)
  then show "is6 a \<Longrightarrow> ?thesis" by (auto simp: is6_def trans_le_add1 split: addr.splits)
qed

lemma parse_addr_A6: "parse_addr (addr_string (A6 w z)) = Some (A6 w z)"
proof (cases "is4in6 (A6 w z)")
  case True
  then show ?thesis by (rule parse_4in6)
next
  case False
  let ?gs = "digs 65536 8 (unat w)"
  have "unat w < 65536 ^ 8" using unsigned_less [of w, where 'a = nat] by simp
  then have "undigs 65536 ?gs = unat w" by (rule undigs_digs)
  moreover have "parse_addr (string6 ?gs @ zone_suffix z) = parse_v6 (string6 ?gs @ zone_suffix z)"
    using find_in_string6 [of ?gs] by (simp add: parse_addr_def)
  ultimately show ?thesis
    using False parse_string6 [of ?gs z] digs_bound [of 65536 _ 8 "unat w"] by simp
qed

lemma parse_addr_string: "addr_valid a \<Longrightarrow> parse_addr (addr_string a) = Some a"
  by (cases a) (simp_all only: parse_addr_A4 parse_addr_A6 addr_valid_def simp_thms)

lemma parse_addr_valid: "parse_addr s = Some a \<Longrightarrow> addr_valid a"
  by (auto simp: parse_addr_def parse_v6_def addr_valid_def Let_def split: option.splits if_splits prod.splits)

interpretation addr_text: canonical_parse addr_string parse_addr addr_valid
  by unfold_locales (auto simp: parse_addr_string parse_addr_valid)

subsection \<open>Prefixes\<close>

text \<open>A prefix is an address with a number of leading bits; the zero \<open>netip.Prefix\<close> is not used.\<close>

record ip_prefix =
  pfx_addr :: addr
  pfx_bits :: nat

definition bit_len :: "addr \<Rightarrow> nat" where
  "bit_len a = (case a of Addr_none \<Rightarrow> 0 | A4 _ \<Rightarrow> 32 | A6 _ _ \<Rightarrow> 128)"

definition top_mask :: "nat \<Rightarrow> 'a::len word" where
  "top_mask n = NOT (mask (LENGTH('a) - n))"

definition mask_addr :: "nat \<Rightarrow> addr \<Rightarrow> addr" where
  "mask_addr n a =
     (case a of Addr_none \<Rightarrow> Addr_none
      | A4 w \<Rightarrow> A4 (w AND top_mask n)
      | A6 w _ \<Rightarrow> A6 (w AND top_mask n) [])"

definition masked :: "ip_prefix \<Rightarrow> ip_prefix" where
  "masked p = p\<lparr>pfx_addr := mask_addr (pfx_bits p) (pfx_addr p)\<rparr>"

definition prefix_contains :: "ip_prefix \<Rightarrow> addr \<Rightarrow> bool" where
  "prefix_contains p a \<longleftrightarrow>
     addr_zone a = [] \<and>
     (case (pfx_addr p, a) of
        (A4 v, A4 w) \<Rightarrow> drop_bit (32 - pfx_bits p) (v XOR w) = 0
      | (A6 v _, A6 w _) \<Rightarrow> (v XOR w) AND top_mask (pfx_bits p) = 0
      | _ \<Rightarrow> False)"

definition prefix_string :: "ip_prefix \<Rightarrow> string" where
  "prefix_string p = addr_string (pfx_addr p) @ ''/'' @ show_nat (pfx_bits p)"

definition parse_prefix :: "string \<Rightarrow> ip_prefix option" where
  "parse_prefix s =
     (case rcut CHR ''/'' s of None \<Rightarrow> None
      | Some (ip, bits) \<Rightarrow>
          (case parse_addr ip of None \<Rightarrow> None
           | Some a \<Rightarrow>
               if addr_zone a \<noteq> [] then None
               else if 1 < length bits \<and> \<not> (in_range CHR ''1'' CHR ''9'' (hd bits)) then None
               else (case atoi bits of None \<Rightarrow> None
                 | Some n \<Rightarrow>
                     if n < 0 \<or> int (bit_len a) < n then None
                     else Some \<lparr>pfx_addr = a, pfx_bits = nat n\<rparr>)))"

definition prefix_ok :: "ip_prefix \<Rightarrow> bool" where
  "prefix_ok p \<longleftrightarrow> addr_valid (pfx_addr p) \<and> addr_zone (pfx_addr p) = [] \<and> pfx_bits p \<le> bit_len (pfx_addr p)"

lemma hd_show_nat_pos: "0 < n \<Longrightarrow> in_range CHR ''1'' CHR ''9'' (hd (show_nat n))"
proof (induction n rule: show_nat.induct)
  case (1 n)
  have "in_range CHR ''1'' CHR ''9'' (digit_char n)" if "n < 10"
    using that "1.prems" by (simp add: of_char_le)
  with 1 show ?case by (subst (1 2) show_nat.simps) auto
qed

lemma length_show_nat_digit: "n < 10 \<Longrightarrow> length (show_nat n) = 1"
  by (subst show_nat.simps) simp

lemma parse_prefix_string: "prefix_ok p \<Longrightarrow> parse_prefix (prefix_string p) = Some p"
proof -
  assume ok: "prefix_ok p"
  have "pfx_bits p \<le> 128" using ok by (auto simp: prefix_ok_def bit_len_def split: addr.splits)
  moreover have "length (show_nat (pfx_bits p)) > 1 \<Longrightarrow> in_range CHR ''1'' CHR ''9'' (hd (show_nat (pfx_bits p)))"
    using hd_show_nat_pos [of "pfx_bits p"] length_show_nat_digit [of "pfx_bits p"] by fastforce
  ultimately show ?thesis using ok
    by (simp add: parse_prefix_def prefix_string_def rcut_found dot_not_show_nat prefix_ok_def
        parse_addr_string atoi_show_nat)
qed

lemma parse_prefix_ok: "parse_prefix s = Some p \<Longrightarrow> prefix_ok p"
  by (auto simp: parse_prefix_def prefix_ok_def parse_addr_valid split: option.splits if_splits prod.splits)

interpretation prefix_text: canonical_parse prefix_string parse_prefix prefix_ok
  by unfold_locales (auto simp: parse_prefix_string parse_prefix_ok)

lemma masked_ok [simp]: "prefix_ok p \<Longrightarrow> prefix_ok (masked p)"
  by (auto simp: prefix_ok_def masked_def mask_addr_def addr_valid_def addr_zone_def bit_len_def
      split: addr.splits)

lemma masked_idem [simp]: "masked (masked p) = masked p"
  by (auto simp: masked_def mask_addr_def word_bw_assocs split: addr.splits)

lemma top_mask_xor: "drop_bit (LENGTH('a) - n) (v XOR w) = 0 \<longleftrightarrow> v AND top_mask n = w AND top_mask n"
  for v w :: "'a::len word"
proof
  assume *: "drop_bit (LENGTH('a) - n) (v XOR w) = 0"
  have "bit v i = bit w i" if "LENGTH('a) - n \<le> i" "i < LENGTH('a)" for i
    using arg_cong [OF *, of "\<lambda>x. bit x (i - (LENGTH('a) - n))"] that by (simp add: bit_simps)
  then show "v AND top_mask n = w AND top_mask n"
    by (intro bit_word_eqI) (auto simp: top_mask_def bit_simps)
next
  assume *: "v AND top_mask n = w AND top_mask n"
  have "bit v i = bit w i" if "LENGTH('a) - n \<le> i" for i
    using arg_cong [OF *, of "\<lambda>x. bit x i"] that bit_imp_le_length [of v i] bit_imp_le_length [of w i]
    by (auto simp: top_mask_def bit_simps)
  then show "drop_bit (LENGTH('a) - n) (v XOR w) = 0"
    by (intro bit_word_eqI) (auto simp: bit_simps)
qed

lemma mask_xor: "(v XOR w) AND m = 0 \<longleftrightarrow> v AND m = w AND m" for v w :: "'a::len word"
  by (auto simp: bit_eq_iff bit_simps)

text \<open>Both tests of \<open>Contains\<close> compare the leading bits.\<close>

lemma prefix_contains_iff:
  "prefix_contains p a \<longleftrightarrow> addr_valid a \<and> addr_zone a = [] \<and> is4 a = is4 (pfx_addr p) \<and>
     addr_valid (pfx_addr p) \<and> mask_addr (pfx_bits p) (pfx_addr p) = mask_addr (pfx_bits p) a"
  using top_mask_xor [where 'a = 32] 
  by (auto simp: prefix_contains_def mask_addr_def addr_valid_def is4_def mask_xor split: addr.splits)

lemma masked_contains [simp]: "prefix_contains (masked p) a = prefix_contains p a"
proof -
  have "mask_addr n (mask_addr n b) = mask_addr n b" for n b
    by (auto simp: mask_addr_def word_bw_assocs split: addr.splits)
  moreover have "is4 (mask_addr n b) = is4 b" "addr_valid (mask_addr n b) = addr_valid b" for n b
    by (auto simp: mask_addr_def is4_def addr_valid_def split: addr.splits)
  ultimately show ?thesis by (simp add: prefix_contains_iff masked_def)
qed

end
