(* ===== verification/Policy_Target.thy ===== *)
theory Policy_Target
  imports Netip
begin

section \<open>Destinations: \<open>internal/policy/target.go\<close>\<close>

text \<open>
  A decision is made about a \<open>Target\<close>: a normalised host, the address it denotes when it is a
  literal, and a port. The guest controls the text, so what matters is that normalisation is a
  canonical form: every spelling of a destination gives one target.
\<close>

subsection \<open>Data\<close>

record target =
  t_host :: string
  t_addr :: addr
  t_port :: int

datatype host_error =
    Empty_host | Host_too_long | Host_not_ascii | Empty_label | Label_too_long | Bad_host_char

datatype target_error =
    Port_range int | Bad_host host_error | Empty_destination | Unclosed_bracket
  | Text_after_bracket | Port_not_number string

definition target_is_ip :: "target \<Rightarrow> bool" where
  "target_is_ip t = addr_valid (t_addr t)"

definition target_string :: "target \<Rightarrow> string" where
  "target_string t =
     (if target_is_ip t \<and> is6 (t_addr t) \<and> \<not> is4in6 (t_addr t)
      then ''['' @ t_host t @ '']:'' @ itoa (t_port t)
      else t_host t @ '':'' @ itoa (t_port t))"

subsection \<open>Normalisation\<close>

definition label_char :: "char \<Rightarrow> bool" where
  "label_char c \<longleftrightarrow> in_range CHR ''a'' CHR ''z'' c \<or> in_range CHR ''0'' CHR ''9'' c
     \<or> c = CHR ''-'' \<or> c = CHR ''_''"

text \<open>The checks of one label, then of all of them from left to right.\<close>

fun check_labels :: "string list \<Rightarrow> host_error option" where
  "check_labels [] = None"
| "check_labels (l # ls) =
     (if l = [] then Some Empty_label
      else if 63 < length l then Some Label_too_long
      else if \<not> list_all label_char l then Some Bad_host_char
      else check_labels ls)"

definition valid_hostname :: "string \<Rightarrow> host_error option" where
  "valid_hostname h =
     (if 253 < length h then Some Host_too_long
      else if \<not> list_all is_ascii h then Some Host_not_ascii
      else check_labels (split_on CHR ''.'' h))"

text \<open>
  \<open>normalizeHost\<close>: the surroundings are removed, one trailing dot is dropped and case is folded; what
  is left is an address literal or has to be a hostname.
\<close>

definition host_value :: "string \<Rightarrow> host_error + string \<times> addr" where
  "host_value h =
     (case parse_addr h of
        Some a \<Rightarrow> (let a = unmap (with_zone [] a) in Inr (addr_string a, a))
      | None \<Rightarrow> (case valid_hostname h of Some e \<Rightarrow> Inl e | None \<Rightarrow> Inr (h, Addr_none)))"

definition normalize_host :: "string \<Rightarrow> host_error + string \<times> addr" where
  "normalize_host host =
     (let h = trim_space host;
          h = (if prefix ''['' h \<and> suffix '']'' h \<and> 2 < length h then butlast (tl h) else h)
      in if h = [] then Inl Empty_host
         else (let h = (if suffix ''.'' h \<and> \<not> suffix ''..'' h then butlast h else h)
               in host_value (to_lower h)))"

definition new_target :: "string \<Rightarrow> int \<Rightarrow> target_error + target" where
  "new_target host port =
     (if port < 1 \<or> 65535 < port then Inl (Port_range port)
      else (case normalize_host host of
          Inl e \<Rightarrow> Inl (Bad_host e)
        | Inr (h, a) \<Rightarrow> Inr \<lparr>t_host = h, t_addr = a, t_port = port\<rparr>))"

text \<open>
  \<open>splitHostPort\<close>: a bracketed host may be followed by a port; text with exactly one colon is host
  and port; any other text is a host alone.
\<close>

definition split_host_port :: "string \<Rightarrow> target_error + string \<times> string" where
  "split_host_port hostport =
     (let s = trim_space hostport
      in if s = [] then Inl Empty_destination
         else if prefix ''['' s then
           (case cut CHR '']'' s of (before, rest, found) \<Rightarrow>
              if \<not> found then Inl Unclosed_bracket
              else if rest = [] then Inr (tl before, [])
              else if prefix '':'' rest then Inr (tl before, tl rest)
              else Inl Text_after_bracket)
         else if length (filter (\<lambda>c. c = CHR '':'') s) = 1 then
           (case cut CHR '':'' s of (h, p, _) \<Rightarrow> Inr (h, p))
         else Inr (s, []))"

definition parse_target :: "string \<Rightarrow> int \<Rightarrow> target_error + target" where
  "parse_target hostport default_port =
     (case split_host_port hostport of
        Inl e \<Rightarrow> Inl e
      | Inr (host, port_text) \<Rightarrow>
          if port_text = [] then new_target host default_port
          else (case atoi port_text of
              None \<Rightarrow> Inl (Port_not_number port_text)
            | Some port \<Rightarrow> new_target host port))"

definition probe_target :: "string \<Rightarrow> target option" where
  "probe_target spec =
     (case split_host_port spec of
        Inl _ \<Rightarrow> None
      | Inr (host, port) \<Rightarrow>
          if sublist ''*'' host \<or> sublist ''/'' host then None
          else (case (if port = [] then Some 443 else atoi port) of
              None \<Rightarrow> None
            | Some p \<Rightarrow> (case new_target host p of Inl _ \<Rightarrow> None | Inr t \<Rightarrow> Some t)))"

definition target_from_addr :: "addr \<Rightarrow> nat \<Rightarrow> target" where
  "target_from_addr a port =
     (let a = unmap (with_zone [] a)
      in \<lparr>t_host = addr_string a, t_addr = a, t_port = int port\<rparr>)"

text \<open>\<open>net.JoinHostPort\<close> brackets a host that holds a colon or a percent sign.\<close>

definition join_host_port :: "string \<Rightarrow> string \<Rightarrow> string" where
  "join_host_port h p =
     (if CHR '':'' \<in> set h \<or> CHR ''%'' \<in> set h then ''['' @ h @ '']:'' @ p else h @ '':'' @ p)"

definition host_port_string :: "target \<Rightarrow> string" where
  "host_port_string t = join_host_port (t_host t) (itoa (t_port t))"

subsection \<open>The invariant of a target\<close>

definition host_ok :: "string \<Rightarrow> addr \<Rightarrow> bool" where
  "host_ok h a \<longleftrightarrow>
     (if addr_valid a then h = addr_string a \<and> plain a = a
      else valid_hostname h = None \<and> parse_addr h = None)"

definition target_ok :: "target \<Rightarrow> bool" where
  "target_ok t \<longleftrightarrow> host_ok (t_host t) (t_addr t) \<and> 1 \<le> t_port t \<and> t_port t \<le> 65535"

lemma host_value_ok: "host_value h = Inr (h', a) \<Longrightarrow> host_ok h' a"
  by (auto simp: host_value_def host_ok_def Let_def parse_addr_valid
      addr_valid_def [of Addr_none] simp flip: plain_def split: option.splits)

lemma normalize_host_ok: "normalize_host h = Inr (h', a) \<Longrightarrow> host_ok h' a"
  by (auto simp: normalize_host_def Let_def host_value_ok split: if_splits)

lemma new_target_ok: "new_target h p = Inr t \<Longrightarrow> target_ok t"
  by (auto simp: new_target_def target_ok_def normalize_host_ok split: if_splits sum.splits)

lemma parse_target_ok: "parse_target s p = Inr t \<Longrightarrow> target_ok t"
  by (auto simp: parse_target_def new_target_ok split: if_splits sum.splits option.splits prod.splits)

lemma probe_target_ok: "probe_target s = Some t \<Longrightarrow> target_ok t"
  by (auto simp: probe_target_def new_target_ok split: if_splits sum.splits option.splits prod.splits)

lemma target_from_addr_ok:
  "addr_valid a \<Longrightarrow> 1 \<le> p \<Longrightarrow> p \<le> 65535 \<Longrightarrow> target_ok (target_from_addr a p)"
  by (auto simp: target_from_addr_def target_ok_def host_ok_def Let_def simp flip: plain_def)

subsection \<open>What a normalised host looks like\<close>

lemma check_labels_None:
  "check_labels ls = None \<longleftrightarrow> (\<forall>l\<in>set ls. l \<noteq> [] \<and> length l \<le> 63 \<and> list_all label_char l)"
  by (induction ls) auto

lemma label_char_graph: "label_char c \<Longrightarrow> graph c \<and> is_ascii c \<and> \<not> is_upper c \<and> c \<noteq> CHR ''.''
    \<and> c \<noteq> CHR ''['' \<and> c \<noteq> CHR '']'' \<and> c \<noteq> CHR '':'' \<and> c \<noteq> CHR ''*'' \<and> c \<noteq> CHR ''/'' \<and> c \<noteq> CHR ''%''"
  by (auto simp: label_char_def char_class_defs)

definition host_char :: "char \<Rightarrow> bool" where
  "host_char c \<longleftrightarrow> label_char c \<or> c = CHR ''.'' \<or> c = CHR '':''"

lemma host_char_graph: "host_char c \<Longrightarrow> graph c \<and> is_ascii c \<and> \<not> is_upper c
    \<and> c \<noteq> CHR ''['' \<and> c \<noteq> CHR '']'' \<and> c \<noteq> CHR ''*'' \<and> c \<noteq> CHR ''/'' \<and> c \<noteq> CHR ''%'' \<and> c \<noteq> CHR '',''"
  using label_char_graph [of c] by (auto simp: host_char_def char_class_defs label_char_def)

lemma valid_hostname_chars: "valid_hostname h = None \<Longrightarrow> c \<in> set h \<Longrightarrow> label_char c \<or> c = CHR ''.''"
proof -
  assume *: "valid_hostname h = None" "c \<in> set h"
  then have "c \<in> set (join_with ''.'' (split_on CHR ''.'' h))" by simp
  then have "c = CHR ''.'' \<or> (\<exists>w\<in>set (split_on CHR ''.'' h). c \<in> set w)"
    using set_join [of "''.''" "split_on CHR ''.'' h"] by auto
  then show ?thesis using *(1)
    by (auto simp: valid_hostname_def check_labels_None list_all_iff split: if_splits)
qed

lemma last_label: "w \<noteq> [] \<Longrightarrow> last w = CHR ''.'' \<Longrightarrow> [] \<in> set (split_on CHR ''.'' w)"
proof -
  assume "w \<noteq> []" "last w = CHR ''.''"
  then obtain v where "w = v @ CHR ''.'' # []" by (metis append_butlast_last_id)
  moreover have "split_on c (v @ [c]) = split_on c v @ [[]]" for c :: char and v
  proof (induction v)
    case (Cons x v)
    then show ?case by (cases "split_on c v") auto
  qed simp
  ultimately show ?thesis by simp
qed

lemma valid_hostname_last: "valid_hostname h = None \<Longrightarrow> h \<noteq> [] \<and> last h \<noteq> CHR ''.''"
proof -
  assume "valid_hostname h = None"
  then have *: "[] \<notin> set (split_on CHR ''.'' h)"
    by (auto simp: valid_hostname_def check_labels_None split: if_splits)
  then have "h \<noteq> []" by auto
  with * last_label show ?thesis by blast
qed

lemma show_hex_not_upper: "c \<in> set (show_hex n) \<Longrightarrow> label_char c"
proof (induction n rule: show_hex.induct)
  case (1 n)
  have digit: "label_char (hex_char d)" if "d < 16" for d
    using that by (auto simp: label_char_def hex_char_def of_char_le)
  from 1 show ?case
    by (subst (asm) (2) show_hex.simps) (auto simp: digit split: if_splits)
qed

lemma is_digit_label: "is_digit c \<Longrightarrow> label_char c"
  by (simp add: label_char_def is_digit_def)

lemma addr_string_set: "addr_valid a \<Longrightarrow> addr_zone a = [] \<Longrightarrow> c \<in> set (addr_string a) \<Longrightarrow> host_char c"
proof (cases a)
  case (A6 w z)
  assume *: "addr_zone a = []" "c \<in> set (addr_string a)"
  then have z: "z = []" using A6 by (simp add: addr_zone_def)
  have hex: "c \<in> set (join_with '':'' (map show_hex hs)) \<Longrightarrow> host_char c" for hs
    using set_join [of "'':''" "map show_hex hs"] show_hex_not_upper by (auto simp: host_char_def)
  from * z A6 show ?thesis
    by (auto simp: zone_suffix_def string6_def dest!: string4_set hex
        split: if_splits option.splits)
      (auto simp: host_char_def is_digit_label label_char_def is_digit_def)
qed (auto simp: host_char_def is_digit_label addr_valid_def dest!: string4_set)

lemma last_join: "w \<noteq> [] \<Longrightarrow> join_with sep (vs @ [w]) \<noteq> [] \<and> last (join_with sep (vs @ [w])) = last w"
  by (induction vs) (simp_all add: join_Cons last_append)

lemma string4_last: "last (string4 n) \<noteq> CHR ''.''"
proof -
  have "last (string4 n) = last (show_nat (n mod 256))"
    using last_join [of "show_nat (n mod 256)" "''.''"
        "map show_nat [n div 256 div 256 div 256 mod 256, n div 256 div 256 mod 256, n div 256 mod 256]"]
    by (simp add: string4_def digs_4)
  then show ?thesis using last_in_set [OF show_nat_not_Nil, of "n mod 256"] dot_not_show_nat(1) by metis
qed

lemma addr_string_last: "addr_valid a \<Longrightarrow> addr_zone a = [] \<Longrightarrow>
    addr_string a \<noteq> [] \<and> last (addr_string a) \<noteq> CHR ''.''"
proof (cases a)
  case (A6 w z)
  assume *: "addr_valid a" "addr_zone a = []"
  then have z: "z = []" using A6 by (simp add: addr_zone_def)
  have "c \<in> set (string6 gs) \<Longrightarrow> c \<noteq> CHR ''.''" for c gs
    using string6_set is_hex_sep by fastforce
  moreover have "string6 (digs 65536 8 n) \<noteq> []" for n
    using find_in_string6 [of "digs 65536 8 n" "[]"] by auto
  ultimately have "last (string6 (digs 65536 8 n)) \<noteq> CHR ''.''" "string6 (digs 65536 8 n) \<noteq> []" for n
    using last_in_set by blast+
  then show ?thesis using z A6 string4_last by (simp add: zone_suffix_def string4_pos)
qed (auto simp: string4_last string4_pos addr_valid_def)

text \<open>A normalised host is left alone by every step of the normalisation.\<close>

lemma host_ok_shape: 
  assumes "host_ok h a"
  shows "h \<noteq> []" "last h \<noteq> CHR ''.''" "\<forall>c\<in>set h. host_char c"
proof -
  have "h \<noteq> [] \<and> last h \<noteq> CHR ''.'' \<and> (\<forall>c\<in>set h. host_char c)"
  proof (cases "addr_valid a")
    case True
    then have h: "h = addr_string a" "plain a = a" using assms by (auto simp: host_ok_def)
    then have "addr_zone a = []" by (metis plain_zone)
    with True h(1) addr_string_last [of a] addr_string_set [of a] show ?thesis by simp
  next
    case False
    then have "valid_hostname h = None" using assms by (auto simp: host_ok_def)
    with valid_hostname_last valid_hostname_chars show ?thesis by (auto simp: host_char_def)
  qed
  then show "h \<noteq> []" "last h \<noteq> CHR ''.''" "\<forall>c\<in>set h. host_char c" by auto
qed

lemma host_ok_trim: 
  assumes "host_ok h a"
  shows "trim_space h = h" "to_lower h = h" "\<not> prefix ''['' h" "\<not> suffix ''.'' h"
proof -
  note shape = host_ok_shape [OF assms]
  show "trim_space h = h"
    using shape(1,3) host_char_graph by (simp add: trim_space_id)
  show "to_lower h = h"
    using shape(3) host_char_graph by (blast intro: to_lower_id)
  show "\<not> prefix ''['' h" using shape(3) host_char_graph [of "CHR ''[''"] by (auto simp: prefix_def)
  show "\<not> suffix ''.'' h" using shape by (auto simp: suffix_def)
qed

lemma host_ok_parse: "host_ok h a \<Longrightarrow> parse_addr h = (if addr_valid a then Some a else None)"
  by (auto simp: host_ok_def parse_addr_string)

lemma host_value_fixed: "host_ok h a \<Longrightarrow> host_value h = Inr (h, a)"
proof (cases "addr_valid a")
  case True
  assume "host_ok h a"
  then have "unmap (with_zone [] a) = a" "addr_string a = h" "parse_addr h = Some a"
    using True by (simp_all add: host_ok_def plain_def parse_addr_string)
  then show ?thesis by (simp add: host_value_def)
next
  case False
  assume "host_ok h a"
  with False show ?thesis by (simp add: host_ok_def addr_valid_def host_value_def)
qed

lemma graph_lower [simp]: "graph (lower_byte c) = graph c"
  by (cases "is_upper c") (auto simp: of_char_lower graph_def is_upper_def of_char_le)

lemma lower_not_letter: "lower_byte c = d \<Longrightarrow> \<not> is_lower d \<Longrightarrow> c = d"
  by (cases "is_upper c") (auto simp: is_lower_def is_upper_def of_char_le of_char_lower)

lemma recased:
  assumes "host_ok h a" "map lower_byte s = h"
  shows "s \<noteq> []" "last s \<noteq> CHR ''.''" "to_lower s = h" "\<forall>c\<in>set s. graph c \<and> c \<noteq> CHR ''['' \<and> c \<noteq> CHR '']''"
proof -
  note shape = host_ok_shape [OF assms(1)]
  show "s \<noteq> []" using shape(1) assms(2) by auto
  then show "last s \<noteq> CHR ''.''" using shape(2) assms(2) lower_byte_id [of "CHR ''.''"]
    by (auto simp: last_map is_upper_def)
  have "is_ascii c" if "c \<in> set s" for c
    using shape(3) assms(2) host_char_graph [of "lower_byte c"] that by auto
  then show "to_lower s = h" using assms(2) by (simp add: to_lower_ascii)
  have br: "lower_byte CHR ''['' = CHR ''[''" "lower_byte CHR '']'' = CHR '']''"
    by (simp_all add: is_upper_def)
  show "\<forall>c\<in>set s. graph c \<and> c \<noteq> CHR ''['' \<and> c \<noteq> CHR '']''"
    using shape(3) assms(2) host_char_graph [of "lower_byte c" for c] br by fastforce
qed

text \<open>Every way to write a bare host reaches the last step with the same text.\<close>

lemma normalize_spellings:
  assumes "s \<noteq> []" "\<forall>c\<in>set s. graph c \<and> c \<noteq> CHR ''['' \<and> c \<noteq> CHR '']''" "last s \<noteq> CHR ''.''"
  shows "normalize_host s = host_value (to_lower s)"
    "normalize_host (s @ ''.'') = host_value (to_lower s)"
    "normalize_host (''['' @ s @ '']'') = host_value (to_lower s)"
proof -
  have dots: "graph CHR ''.''" "graph CHR ''[''" "graph CHR '']''" by (simp_all add: graph_def)
  have trim: "trim_space s = s" "trim_space (s @ ''.'') = s @ ''.''"
      "trim_space (''['' @ s @ '']'') = ''['' @ s @ '']''"
    using assms(1,2) dots by (simp_all add: trim_space_id)
  obtain x xs where "s = x # xs" "x \<noteq> CHR ''[''" using assms(1,2) by (cases s) auto
  then have bracket: "\<not> prefix ''['' s" "\<not> prefix ''['' (s @ ''.'')" by simp_all
  have dot: "\<not> suffix ''.'' s" "\<not> suffix ''..'' (s @ ''.'')"
    using assms(3) by (auto simp: suffix_def)
  show "normalize_host s = host_value (to_lower s)"
    using assms(1) trim bracket dot by (simp add: normalize_host_def)
  show "normalize_host (s @ ''.'') = host_value (to_lower s)"
    using assms(1) trim bracket dot by (simp add: normalize_host_def suffix_def)
  have "2 < length (''['' @ s @ '']'')" using assms(1) by (cases s) auto
  moreover have "suffix '']'' (''['' @ s @ '']'')" by (simp add: suffix_def)
  ultimately show "normalize_host (''['' @ s @ '']'') = host_value (to_lower s)"
    using assms(1) trim dot by (simp add: normalize_host_def butlast_append)
qed

lemma normalize_host_fixed: "host_ok h a \<Longrightarrow> normalize_host h = Inr (h, a)"
proof -
  assume ok: "host_ok h a"
  have "\<forall>c\<in>set h. graph c \<and> c \<noteq> CHR ''['' \<and> c \<noteq> CHR '']''"
    using host_ok_shape(3) [OF ok] host_char_graph by blast
  then show ?thesis
    using normalize_spellings(1) [OF host_ok_shape(1) [OF ok] _ host_ok_shape(2) [OF ok]]
    by (simp add: host_ok_trim(2) [OF ok] host_value_fixed [OF ok])
qed

text \<open>The three shapes of a destination text, for hosts and ports made of printable characters.\<close>

definition clean :: "string \<Rightarrow> bool" where
  "clean h \<longleftrightarrow> h \<noteq> [] \<and> list_all (\<lambda>c. graph c \<and> c \<noteq> CHR ''['' \<and> c \<noteq> CHR '']'') h"

lemma clean_trim: "clean h \<Longrightarrow> list_all graph p \<Longrightarrow> trim_space (h @ p) = h @ p"
  by (rule trim_graph) (auto simp: clean_def list_all_iff)

lemma clean_not_bracket: "clean h \<Longrightarrow> \<not> prefix ''['' (h @ p)"
  by (cases h) (auto simp: clean_def)

lemma split_alone:
  assumes "clean h" "length (filter (\<lambda>c. c = CHR '':'') h) \<noteq> 1"
  shows "split_host_port h = Inr (h, [])"
  using assms clean_trim [of h "[]"] clean_not_bracket [of h "[]"]
  by (simp add: split_host_port_def clean_def)

lemma split_plain:
  assumes "clean h" "CHR '':'' \<notin> set h" "list_all graph p" "CHR '':'' \<notin> set p"
  shows "split_host_port (h @ '':'' @ p) = Inr (h, p)"
proof -
  have "trim_space (h @ '':'' @ p) = h @ '':'' @ p"
    using assms(1,3) by (intro clean_trim) (simp_all add: graph_def)
  moreover have "filter (\<lambda>c. c = CHR '':'') h = []" "filter (\<lambda>c. c = CHR '':'') p = []"
    using assms(2,4) by (auto simp: filter_empty_conv)
  ultimately show ?thesis
    using cut_found [OF assms(2), of p] clean_not_bracket [OF assms(1)]
    by (simp add: split_host_port_def)
qed

lemma split_bracketed:
  assumes "clean h" "list_all graph p"
  shows "split_host_port (''['' @ h @ '']:'' @ p) = Inr (h, p)"
proof -
  have "trim_space (''['' @ h @ '']:'' @ p) = ''['' @ h @ '']:'' @ p"
  proof (rule trim_graph)
    fix c assume "c \<in> set (''['' @ h @ '']:'' @ p)"
    then consider "c = CHR ''[''" | "c \<in> set h" | "c = CHR '']''" | "c = CHR '':''" | "c \<in> set p" by auto
    then show "graph c" using assms by cases (auto simp: clean_def list_all_iff graph_def)
  qed
  moreover have "CHR '']'' \<notin> set (CHR ''['' # h)"
    using assms(1) by (auto simp: clean_def list_all_iff)
  then have "cut CHR '']'' (''['' @ h @ '']:'' @ p) = (CHR ''['' # h, CHR '':'' # p, True)"
    using cut_found [of "CHR '']''" "CHR ''['' # h" "CHR '':'' # p"] by simp
  ultimately show ?thesis by (simp add: split_host_port_def)
qed

lemma host_ok_clean: "host_ok h a \<Longrightarrow> clean h"
  using host_ok_shape [of h a] host_char_graph by (auto simp: clean_def list_all_iff)

lemma itoa_port_text: "1 \<le> p \<Longrightarrow> list_all graph (itoa p) \<and> CHR '':'' \<notin> set (itoa p)"
  using itoa_set [of p] itoa_set [of p "CHR '':''"] by (auto simp: list_all_iff is_digit_graph is_digit_def)

lemma colon_in_host: "host_ok h a \<Longrightarrow> CHR '':'' \<in> set h \<longleftrightarrow> is6 a"
proof (cases "addr_valid a")
  case False
  assume "host_ok h a"
  with False have "valid_hostname h = None" by (simp add: host_ok_def)
  then have "CHR '':'' \<notin> set h" using valid_hostname_chars [of h "CHR '':''"] by (auto simp: label_char_def)
  with False show ?thesis by (simp add: addr_valid_def is6_def)
next
  case True
  assume ok: "host_ok h a"
  then have *: "h = addr_string a" "\<not> is4in6 a" "addr_zone a = []"
    using True plain_not_4in6 [of a] plain_zone [of a] by (simp_all add: host_ok_def)
  show ?thesis
  proof (cases a)
    case (A6 w z)
    have "find (\<lambda>c. c \<in> {CHR ''.'', CHR '':'', CHR ''%''}) (string6 (digs 65536 8 (unat w)) @ []) = Some CHR '':''"
      by (rule find_in_string6) simp
    then have "CHR '':'' \<in> set (string6 (digs 65536 8 (unat w)))"
      by (auto simp: find_Some_iff) (metis nth_mem)
    with * A6 show ?thesis by (simp add: is6_def addr_zone_def)
  qed (use * in \<open>auto simp: is6_def addr_valid_def dest!: string4_set simp: is_digit_def\<close>)
qed

lemma host_no_percent: "host_ok h a \<Longrightarrow> CHR ''%'' \<notin> set h"
  using host_ok_shape(3) [of h a] host_char_graph by blast

subsection \<open>Properties\<close>

text \<open>
  Normalisation is a canonical form. Whatever the guest wrote, the host it is normalised to is
  left unchanged by a second normalisation, with the same address.
\<close>

theorem normalize_host_idem:
  "normalize_host h = Inr (h', a) \<Longrightarrow> normalize_host h' = Inr (h', a)"
  by (rule normalize_host_fixed) (rule normalize_host_ok)

theorem normalize_host_idem_witness: "normalize_host ''github.com'' = Inr (''github.com'', Addr_none)"
proof -
  have "normalize_host '' [GitHub.com.] '' = Inr (''github.com'', Addr_none)" by code_simp
  then show ?thesis by (rule normalize_host_idem)
qed

text \<open>
  Spelling does not matter. If \<open>h\<close> is a normalised host, then writing it in any mixture of cases,
  with the trailing dot of the DNS root, or in brackets, gives the same host and address.
\<close>

theorem normalize_host_spellings:
  assumes "normalize_host h = Inr (h, a)" "map lower_byte s = h"
  shows "normalize_host s = Inr (h, a) \<and> normalize_host (s @ ''.'') = Inr (h, a)
    \<and> normalize_host (''['' @ s @ '']'') = Inr (h, a)"
proof -
  have ok: "host_ok h a" by (rule normalize_host_ok [OF assms(1)])
  note s = recased [OF ok assms(2)]
  show ?thesis
    using normalize_spellings [OF s(1) s(4) s(2)] s(3) host_value_fixed [OF ok] by simp
qed

theorem normalize_host_spellings_witness:
  "normalize_host ''GitHub.COM.'' = Inr (''github.com'', Addr_none)"
proof -
  have "normalize_host ''github.com'' = Inr (''github.com'', Addr_none)" by code_simp
  moreover have "map lower_byte ''GitHub.COM'' = ''github.com''" by code_simp
  ultimately show ?thesis using normalize_host_spellings [of "''github.com''" Addr_none "''GitHub.COM''"] by simp
qed

text \<open>
  An IPv4 address cannot be dodged by writing it as an IPv6 one. The text of any valid address,
  IPv4-mapped or scoped to a zone, bare or in brackets, is normalised to its plain form: without a
  zone, and as IPv4 when it is IPv4-mapped.
\<close>

theorem normalize_host_address:
  assumes "addr_valid a" "list_all label_char (addr_zone a)"
  shows "normalize_host (addr_string a) = Inr (addr_string (plain a), plain a)
    \<and> normalize_host (''['' @ addr_string a @ '']'') = Inr (addr_string (plain a), plain a)"
proof -
  define b where "b = with_zone [] a"
  have b: "addr_valid b" "addr_zone b = []" "addr_string a = addr_string b @ zone_suffix (addr_zone a)"
    using assms(1) by (auto simp: b_def addr_valid_def with_zone_def addr_zone_def is4in6_def
        zone_suffix_def split: addr.splits)
  have ch: "graph c \<and> is_ascii c \<and> \<not> is_upper c \<and> c \<noteq> CHR ''['' \<and> c \<noteq> CHR '']''"
    if "c \<in> set (addr_string a)" for c
    using that assms(2) b addr_string_set [of b c] host_char_graph [of c] label_char_graph [of c]
    by (auto simp: zone_suffix_def list_all_iff char_class_defs split: if_splits)
  have last: "last (addr_string a) \<noteq> CHR ''.''" "addr_string a \<noteq> []"
    using addr_string_last [OF b(1,2)] assms(2) label_char_graph [of "last (addr_zone a)"]
    by (auto simp: b(3) zone_suffix_def list_all_iff)
  have low: "to_lower (addr_string a) = addr_string a" using ch by (blast intro: to_lower_id)
  have "host_value (addr_string a) = Inr (addr_string (plain a), plain a)"
    using assms(1) by (simp add: host_value_def parse_addr_string plain_def Let_def)
  then show ?thesis
    using normalize_spellings [of "addr_string a"] ch last low by simp
qed

theorem normalize_host_address_witness:
  "normalize_host ''[::ffff:127.0.0.1%eth0]'' = Inr (''127.0.0.1'', A4 0x7F000001)"
proof -
  let ?a = "A6 0xFFFF7F000001 ''eth0''"
  have "addr_valid ?a" "list_all label_char (addr_zone ?a)" by code_simp+
  moreover have "addr_string ?a = ''::ffff:127.0.0.1%eth0''" "plain ?a = A4 0x7F000001"
    "addr_string (A4 0x7F000001) = ''127.0.0.1''" by code_simp+
  ultimately show ?thesis using normalize_host_address [of ?a] by simp
qed

text \<open>
  A target is printed unambiguously. Both texts of a target, the one for messages and the one
  handed to a dialer, are parsed back to the same target, whatever the default port.
\<close>

theorem parse_target_string:
  assumes "target_ok t"
  shows "parse_target (target_string t) d = Inr t \<and> parse_target (host_port_string t) d = Inr t"
proof -
  have ok: "host_ok (t_host t) (t_addr t)" and p: "1 \<le> t_port t" "t_port t \<le> 65535"
    using assms by (auto simp: target_ok_def)
  have same: "target_string t = host_port_string t"
  proof -
    have "\<not> is4in6 (t_addr t)" using ok plain_not_4in6 [of "t_addr t"]
      by (auto simp: host_ok_def is4in6_def addr_valid_def split: if_splits addr.splits)
    moreover have "is6 (t_addr t) \<Longrightarrow> addr_valid (t_addr t)" by (auto simp: is6_def addr_valid_def)
    ultimately show ?thesis using colon_in_host [OF ok] host_no_percent [OF ok]
      by (auto simp: target_string_def host_port_string_def join_host_port_def target_is_ip_def)
  qed
  have "split_host_port (host_port_string t) = Inr (t_host t, itoa (t_port t))"
    using split_plain [OF host_ok_clean [OF ok]] split_bracketed [OF host_ok_clean [OF ok]]
      host_no_percent [OF ok] itoa_port_text [OF p(1)]
    by (simp add: host_port_string_def join_host_port_def)
  then have "parse_target (host_port_string t) d = Inr t"
    using p normalize_host_fixed [OF ok] by (simp add: parse_target_def atoi_itoa new_target_def)
  with same show ?thesis by simp
qed

theorem parse_target_string_witness:
  "parse_target ''[::1]:443'' 80 = Inr \<lparr>t_host = ''::1'', t_addr = A6 1 [], t_port = 443\<rparr>"
proof -
  let ?t = "\<lparr>t_host = ''::1'', t_addr = A6 1 [], t_port = 443\<rparr>"
  have "target_ok ?t" by code_simp
  moreover have "target_string ?t = ''[::1]:443''" by code_simp
  ultimately show ?thesis using parse_target_string [of ?t 80] by simp
qed

text \<open>
  Letters outside ASCII are not all rejected: the lower case of U+212A KELVIN SIGN is the ASCII
  letter k, and case is folded before the check, so a host spelled with it denotes the ASCII host.
\<close>

theorem kelvin_host:
  "normalize_host ([byte 0xE2, byte 0x84, byte 0xAA] @ ''ernel.org'') = Inr (''kernel.org'', Addr_none)"
  by code_simp

end
