(* ===== verification/Policy_Pattern.thy ===== *)
theory Policy_Pattern
  imports Policy_Target
begin

section \<open>Host patterns and port sets: \<open>internal/policy/pattern.go\<close>\<close>

text \<open>
  A rule names its destinations by a host pattern and a set of ports. This theory holds both, their
  parsers and printers, and what matching means: hostname patterns and address patterns never meet,
  a wildcard covers whole labels and never the apex, a port set is the union of its ranges.
\<close>

subsection \<open>Host patterns\<close>

datatype pattern_kind = Pat_any | Pat_exact | Pat_suffix | Pat_addr | Pat_prefix

record pattern =
  p_kind :: pattern_kind
  p_host :: string
  p_addr :: addr
  p_prefix :: ip_prefix
  p_text :: string

text \<open>The zero value of the Go structure.\<close>

definition no_prefix :: ip_prefix where
  "no_prefix = \<lparr>pfx_addr = Addr_none, pfx_bits = 0\<rparr>"

definition zero_pattern :: pattern where
  "zero_pattern = \<lparr>p_kind = Pat_any, p_host = [], p_addr = Addr_none, p_prefix = no_prefix, p_text = []\<rparr>"

datatype pattern_error =
  Empty_pattern | Bad_cidr string | Pattern_host host_error | Wildcard_on_address | Star_not_leftmost

definition parse_pattern :: "string \<Rightarrow> pattern_error + pattern" where
  "parse_pattern s =
     (let text = trim_space s
      in if text = [] then Inl Empty_pattern
         else if text = ''*'' then Inr (zero_pattern\<lparr>p_kind := Pat_any, p_text := ''*''\<rparr>)
         else if text = ''**'' then Inr (zero_pattern\<lparr>p_kind := Pat_any, p_text := ''*''\<rparr>)
         else if CHR ''/'' \<in> set text then
           (case parse_prefix (to_lower text) of
              None \<Rightarrow> Inl (Bad_cidr s)
            | Some p \<Rightarrow>
                (let p = masked p
                 in Inr (zero_pattern\<lparr>p_kind := Pat_prefix, p_prefix := p, p_text := prefix_string p\<rparr>)))
         else if prefix ''*.'' text then
           (let rest = drop 2 text
            in if CHR ''*'' \<in> set rest then Inl Star_not_leftmost
               else (case normalize_host rest of
                   Inl e \<Rightarrow> Inl (Pattern_host e)
                 | Inr (host, a) \<Rightarrow>
                     if addr_valid a then Inl Wildcard_on_address
                     else Inr (zero_pattern\<lparr>p_kind := Pat_suffix, p_host := host, p_text := ''*.'' @ host\<rparr>)))
         else if CHR ''*'' \<in> set text then Inl Star_not_leftmost
         else (case normalize_host text of
             Inl e \<Rightarrow> Inl (Pattern_host e)
           | Inr (host, a) \<Rightarrow>
               if addr_valid a
               then Inr (zero_pattern\<lparr>p_kind := Pat_addr, p_addr := a, p_host := host, p_text := host\<rparr>)
               else Inr (zero_pattern\<lparr>p_kind := Pat_exact, p_host := host, p_text := host\<rparr>)))"

definition pattern_match :: "pattern \<Rightarrow> target \<Rightarrow> bool" where
  "pattern_match p t =
     (case p_kind p of
        Pat_any \<Rightarrow> True
      | Pat_exact \<Rightarrow> \<not> target_is_ip t \<and> t_host t = p_host p
      | Pat_suffix \<Rightarrow> \<not> target_is_ip t \<and> suffix (CHR ''.'' # p_host p) (t_host t)
      | Pat_addr \<Rightarrow> target_is_ip t \<and> t_addr t = p_addr p
      | Pat_prefix \<Rightarrow> target_is_ip t \<and> prefix_contains (p_prefix p) (t_addr t))"

definition is_any :: "pattern \<Rightarrow> bool" where
  "is_any p \<longleftrightarrow> p_kind p = Pat_any"

definition is_single_label :: "pattern \<Rightarrow> bool" where
  "is_single_label p \<longleftrightarrow> p_kind p = Pat_exact \<and> CHR ''.'' \<notin> set (p_host p)"

definition matches_name_only :: "pattern \<Rightarrow> bool" where
  "matches_name_only p \<longleftrightarrow> p_kind p = Pat_exact \<or> p_kind p = Pat_suffix"

definition pattern_string :: "pattern \<Rightarrow> string" where
  "pattern_string p = p_text p"

subsection \<open>The invariant of a pattern\<close>

text \<open>A parsed pattern sets the field its kind uses, and the text determined by it.\<close>

definition pattern_ok :: "pattern \<Rightarrow> bool" where
  "pattern_ok p \<longleftrightarrow>
     (case p_kind p of
        Pat_any \<Rightarrow> p_host p = [] \<and> p_addr p = Addr_none \<and> p_prefix p = no_prefix \<and> p_text p = ''*''
      | Pat_exact \<Rightarrow> host_ok (p_host p) Addr_none \<and> p_addr p = Addr_none \<and> p_prefix p = no_prefix
          \<and> p_text p = p_host p
      | Pat_suffix \<Rightarrow> host_ok (p_host p) Addr_none \<and> p_addr p = Addr_none \<and> p_prefix p = no_prefix
          \<and> p_text p = ''*.'' @ p_host p
      | Pat_addr \<Rightarrow> host_ok (p_host p) (p_addr p) \<and> addr_valid (p_addr p) \<and> p_prefix p = no_prefix
          \<and> p_text p = p_host p
      | Pat_prefix \<Rightarrow> prefix_ok (p_prefix p) \<and> masked (p_prefix p) = p_prefix p
          \<and> p_host p = [] \<and> p_addr p = Addr_none \<and> p_text p = prefix_string (p_prefix p))"

lemma normalize_host_name: "normalize_host h = Inr (h', a) \<Longrightarrow> \<not> addr_valid a \<Longrightarrow> host_ok h' Addr_none"
  using normalize_host_ok [of h h' a] by (simp add: addr_valid_def)

lemma parse_pattern_ok: "parse_pattern s = Inr p \<Longrightarrow> pattern_ok p"
  by (auto simp: parse_pattern_def Let_def pattern_ok_def zero_pattern_def
      dest: normalize_host_ok parse_prefix_ok intro: normalize_host_name
      split: if_splits sum.splits option.splits prod.splits)

lemma prefix_string_chars:
  assumes "prefix_ok p" "c \<in> set (prefix_string p)"
  shows "host_char c \<or> c = CHR ''/''"
  using assms addr_string_set [of "pfx_addr p" c] show_nat_set [of c "pfx_bits p"]
  by (auto simp: prefix_string_def prefix_ok_def host_char_def is_digit_label)

lemma prefix_string_fixed:
  assumes "prefix_ok p"
  shows "trim_space (prefix_string p) = prefix_string p" "to_lower (prefix_string p) = prefix_string p"
    "CHR ''/'' \<in> set (prefix_string p)" "CHR ''*'' \<notin> set (prefix_string p)"
proof -
  have "graph c \<and> is_ascii c \<and> \<not> is_upper c \<and> c \<noteq> CHR ''*''" if "c \<in> set (prefix_string p)" for c
    using prefix_string_chars [OF assms that] host_char_graph [of c] by (auto simp: char_class_defs)
  then show "trim_space (prefix_string p) = prefix_string p" "to_lower (prefix_string p) = prefix_string p"
    "CHR ''*'' \<notin> set (prefix_string p)"
    by (auto intro!: trim_space_id to_lower_id)
  show "CHR ''/'' \<in> set (prefix_string p)" by (simp add: prefix_string_def)
qed

lemma host_ok_no_star: "host_ok h a \<Longrightarrow> CHR ''*'' \<notin> set h \<and> CHR ''/'' \<notin> set h"
  using host_ok_shape(3) [of h a] host_char_graph by blast

lemma parse_pattern_host:
  assumes "host_ok h a"
  shows "parse_pattern h = Inr (if addr_valid a
      then zero_pattern\<lparr>p_kind := Pat_addr, p_addr := a, p_host := h, p_text := h\<rparr>
      else zero_pattern\<lparr>p_kind := Pat_exact, p_host := h, p_text := h\<rparr>)"
proof -
  have "h \<noteq> ''*''" "h \<noteq> ''**''" "\<not> prefix ''*.'' h"
    using host_ok_no_star [OF assms] by (auto simp: prefix_def)
  then show ?thesis
    using host_ok_no_star [OF assms] host_ok_trim(1) [OF assms] host_ok_shape(1) [OF assms]
      normalize_host_fixed [OF assms]
    by (simp add: parse_pattern_def)
qed

lemma parse_pattern_wildcard:
  assumes "host_ok h Addr_none"
  shows "parse_pattern (''*.'' @ h) = Inr (zero_pattern\<lparr>p_kind := Pat_suffix, p_host := h, p_text := ''*.'' @ h\<rparr>)"
proof -
  have "graph (last h)" using host_ok_shape [OF assms] host_char_graph by auto
  moreover have "graph CHR ''*''" by (simp add: graph_def)
  ultimately have "trim_space (''*.'' @ h) = ''*.'' @ h"
    using host_ok_shape(1) [OF assms] by (simp add: trim_space_id)
  then show ?thesis
    using host_ok_no_star [OF assms] host_ok_shape(1) [OF assms] normalize_host_fixed [OF assms]
    by (simp add: parse_pattern_def addr_valid_def)
qed

lemma parse_pattern_any: "parse_pattern ''*'' = Inr (zero_pattern\<lparr>p_text := ''*''\<rparr>)"
  by (simp add: parse_pattern_def trim_space_id graph_def zero_pattern_def)

lemma parse_pattern_prefix:
  assumes "prefix_ok p" "masked p = p"
  shows "parse_pattern (prefix_string p) =
    Inr (zero_pattern\<lparr>p_kind := Pat_prefix, p_prefix := p, p_text := prefix_string p\<rparr>)"
proof -
  note fixed = prefix_string_fixed [OF assms(1)]
  from fixed(3,4) have "prefix_string p \<noteq> ''*''" "prefix_string p \<noteq> ''**''" "prefix_string p \<noteq> []"
    by auto
  with fixed assms show ?thesis by (simp add: parse_pattern_def parse_prefix_string)
qed

lemma parse_pattern_text: "pattern_ok p \<Longrightarrow> parse_pattern (p_text p) = Inr p"
proof -
  assume ok: "pattern_ok p"
  have eq: "\<lbrakk>p_kind p = p_kind q; p_host p = p_host q; p_addr p = p_addr q; p_prefix p = p_prefix q;
      p_text p = p_text q\<rbrakk> \<Longrightarrow> p = q" for q by simp
  show ?thesis
  proof (cases "p_kind p")
    case Pat_any
    with ok have "p = zero_pattern\<lparr>p_text := ''*''\<rparr>" "p_text p = ''*''"
      by (auto intro: eq simp: pattern_ok_def zero_pattern_def)
    then show ?thesis by (simp only: parse_pattern_any)
  next
    case Pat_exact
    with ok have "host_ok (p_host p) Addr_none" "p_text p = p_host p"
      "p = zero_pattern\<lparr>p_kind := Pat_exact, p_host := p_host p, p_text := p_host p\<rparr>"
      by (auto intro: eq simp: pattern_ok_def zero_pattern_def)
    then show ?thesis using parse_pattern_host by (simp add: addr_valid_def)
  next
    case Pat_suffix
    with ok have "host_ok (p_host p) Addr_none" "p_text p = ''*.'' @ p_host p"
      "p = zero_pattern\<lparr>p_kind := Pat_suffix, p_host := p_host p, p_text := ''*.'' @ p_host p\<rparr>"
      by (auto intro: eq simp: pattern_ok_def zero_pattern_def)
    then show ?thesis using parse_pattern_wildcard by simp
  next
    case Pat_addr
    with ok have "host_ok (p_host p) (p_addr p)" "addr_valid (p_addr p)" "p_text p = p_host p"
      "p = zero_pattern\<lparr>p_kind := Pat_addr, p_addr := p_addr p, p_host := p_host p, p_text := p_host p\<rparr>"
      by (auto intro: eq simp: pattern_ok_def zero_pattern_def)
    then show ?thesis using parse_pattern_host by simp
  next
    case Pat_prefix
    with ok have "prefix_ok (p_prefix p)" "masked (p_prefix p) = p_prefix p"
      "p_text p = prefix_string (p_prefix p)"
      "p = zero_pattern\<lparr>p_kind := Pat_prefix, p_prefix := p_prefix p, p_text := prefix_string (p_prefix p)\<rparr>"
      by (auto intro: eq simp: pattern_ok_def zero_pattern_def)
    then show ?thesis using parse_pattern_prefix by simp
  qed
qed

subsection \<open>Port sets\<close>

record port_range =
  r_lo :: int
  r_hi :: int

type_synonym port_set = "port_range list"

datatype port_error = Not_a_number string | Out_of_range int | Backwards string

definition parse_port :: "string \<Rightarrow> port_error + int" where
  "parse_port s =
     (case atoi (trim_space s) of
        None \<Rightarrow> Inl (Not_a_number s)
      | Some n \<Rightarrow> if n < 1 \<or> 65535 < n then Inl (Out_of_range n) else Inr n)"

definition parse_port_part :: "string \<Rightarrow> port_error + port_range" where
  "parse_port_part part0 =
     (let part = trim_space part0;
          (lo, hi0, found) = cut CHR ''-'' part;
          hi = (if found then hi0 else lo)
      in (case parse_port lo of
            Inl e \<Rightarrow> Inl e
          | Inr l \<Rightarrow> (case parse_port hi of
                Inl e \<Rightarrow> Inl e
              | Inr h \<Rightarrow> if h < l then Inl (Backwards part) else Inr \<lparr>r_lo = l, r_hi = h\<rparr>)))"

definition parse_ports :: "string \<Rightarrow> port_error + port_set" where
  "parse_ports s0 =
     (let s = trim_space s0
      in if s = [] \<or> s = ''*'' then Inr []
         else map_res parse_port_part (split_on CHR '','' s))"

definition ports_any :: "port_set \<Rightarrow> bool" where
  "ports_any s \<longleftrightarrow> length s = 0"

fun in_ranges :: "port_set \<Rightarrow> int \<Rightarrow> bool" where
  "in_ranges [] port = False"
| "in_ranges (r # rs) port = (if r_lo r \<le> port \<and> port \<le> r_hi r then True else in_ranges rs port)"

definition ports_match :: "port_set \<Rightarrow> int \<Rightarrow> bool" where
  "ports_match s port = (if ports_any s then True else in_ranges s port)"

definition range_string :: "port_range \<Rightarrow> string" where
  "range_string r = (if r_lo r = r_hi r then itoa (r_lo r) else itoa (r_lo r) @ ''-'' @ itoa (r_hi r))"

definition ports_string :: "port_set \<Rightarrow> string" where
  "ports_string s = (if ports_any s then ''*'' else join_with '','' (map range_string s))"

definition range_ok :: "port_range \<Rightarrow> bool" where
  "range_ok r \<longleftrightarrow> 1 \<le> r_lo r \<and> r_lo r \<le> r_hi r \<and> r_hi r \<le> 65535"

definition ports_ok :: "port_set \<Rightarrow> bool" where
  "ports_ok s = list_all range_ok s"

lemma parse_port_itoa: "1 \<le> n \<Longrightarrow> n \<le> 65535 \<Longrightarrow> parse_port (itoa n) = Inr n"
  by (simp add: parse_port_def itoa_nonneg trim_show_nat atoi_show_nat)

lemma itoa_no_sep: "0 \<le> n \<Longrightarrow> CHR ''-'' \<notin> set (itoa n) \<and> CHR '','' \<notin> set (itoa n) \<and> CHR '':'' \<notin> set (itoa n)"
  using itoa_set [of n "CHR ''-''"] itoa_set [of n "CHR '',''"] itoa_set [of n "CHR '':''"]
  by (auto simp: is_digit_def)

lemma range_string_chars: "range_ok r \<Longrightarrow> c \<in> set (range_string r) \<Longrightarrow> is_digit c \<or> c = CHR ''-''"
  using itoa_set [of "r_lo r" c] itoa_set [of "r_hi r" c]
  by (auto simp: range_string_def range_ok_def split: if_splits)

lemma range_string_ends: "range_ok r \<Longrightarrow>
    range_string r \<noteq> [] \<and> is_digit (hd (range_string r)) \<and> is_digit (last (range_string r))"
  using itoa_set [of "r_lo r"] itoa_set [of "r_hi r"] itoa_not_Nil
  by (auto simp: range_string_def range_ok_def)

lemma parse_range_string: "range_ok r \<Longrightarrow> parse_port_part (range_string r) = Inr r"
proof -
  assume ok: "range_ok r"
  have "trim_space (range_string r) = range_string r"
    using range_string_ends [OF ok] by (simp add: trim_space_id is_digit_graph)
  moreover have "cut CHR ''-'' (range_string r) =
      (itoa (r_lo r), if r_lo r = r_hi r then [] else itoa (r_hi r), r_lo r \<noteq> r_hi r)"
    using ok itoa_no_sep [of "r_lo r"] by (auto simp: range_string_def range_ok_def cut_found cut_none)
  ultimately show ?thesis using ok
    by (auto simp: parse_port_part_def range_ok_def parse_port_itoa)
qed

lemma ports_string_chars: "ports_ok s \<Longrightarrow> c \<in> set (ports_string s) \<Longrightarrow>
    is_digit c \<or> c = CHR ''-'' \<or> c = CHR '','' \<or> c = CHR ''*''"
  using set_join [of "'',''" "map range_string s"] range_string_chars
  by (auto simp: ports_string_def ports_ok_def list_all_iff split: if_splits)

lemma ports_string_graph: "ports_ok s \<Longrightarrow> c \<in> set (ports_string s) \<Longrightarrow> graph c \<and> c \<noteq> CHR '':''"
  using ports_string_chars [of s c] by (auto simp: char_class_defs)

lemma ports_string_not_Nil: "ports_ok s \<Longrightarrow> ports_string s \<noteq> []"
  by (cases s; cases "tl s") (auto simp: ports_string_def ports_any_def ports_ok_def join_Cons dest: range_string_ends)

lemma parse_ports_string: "ports_ok s \<Longrightarrow> parse_ports (ports_string s) = Inr s"
proof (cases "s = []")
  case True
  then show ?thesis by (simp add: ports_string_def ports_any_def parse_ports_def trim_space_id graph_def)
next
  case False
  assume ok: "ports_ok s"
  have "trim_space (ports_string s) = ports_string s"
    using ports_string_graph [OF ok] by (blast intro: trim_graph)
  moreover have "CHR '','' \<notin> set (range_string r)" "range_string r \<noteq> ''*''" if "r \<in> set s" for r
    using range_string_chars [of r "CHR '',''"] range_string_chars [of r "CHR ''*''"] ok that
    by (auto simp: ports_ok_def list_all_iff is_digit_def)
  then have split: "split_on CHR '','' (ports_string s) = map range_string s"
    using False by (auto simp: ports_string_def ports_any_def intro!: split_join)
  moreover have "ports_string s \<noteq> ''*''"
  proof
    assume "ports_string s = ''*''"
    then have "map range_string s = [''*'']" using split by (simp add: split_on_single)
    then show False using \<open>\<And>r. r \<in> set s \<Longrightarrow> range_string r \<noteq> ''*''\<close> by (cases s) auto
  qed
  moreover have "map_res parse_port_part (map range_string s) = Inr s"
    using ok by (auto simp: map_res_Inr_iff list_all2_conv_all_nth ports_ok_def list_all_length parse_range_string)
  ultimately show ?thesis using ports_string_not_Nil [OF ok] by (simp add: parse_ports_def)
qed

lemma parse_port_part_ok: "parse_port_part s = Inr r \<Longrightarrow> range_ok r"
  by (auto simp: parse_port_part_def parse_port_def range_ok_def Let_def
      split: sum.splits option.splits if_splits prod.splits)

lemma parse_ports_ok: "parse_ports s = Inr ps \<Longrightarrow> ports_ok ps"
  by (auto simp: parse_ports_def Let_def map_res_Inr_iff list_all2_conv_all_nth ports_ok_def list_all_length
      parse_port_part_ok split: if_splits)

subsection \<open>Patterns and port sets as canonical text\<close>

interpretation pattern_text: canonical_parse pattern_string
    "\<lambda>s. case parse_pattern s of Inl _ \<Rightarrow> None | Inr p \<Rightarrow> Some p" pattern_ok
  by unfold_locales (auto simp: pattern_string_def parse_pattern_text parse_pattern_ok split: sum.splits)

interpretation ports_text: canonical_parse ports_string
    "\<lambda>s. case parse_ports s of Inl _ \<Rightarrow> None | Inr p \<Rightarrow> Some p" ports_ok
  by unfold_locales (auto simp: parse_ports_string parse_ports_ok split: sum.splits)

subsection \<open>What a pattern covers\<close>

lemma in_ranges_iff: "in_ranges s p \<longleftrightarrow> (\<exists>r\<in>set s. r_lo r \<le> p \<and> p \<le> r_hi r)"
  by (induction s) auto

lemma ports_match_iff: "ports_match s p \<longleftrightarrow> s = [] \<or> (\<exists>r\<in>set s. r_lo r \<le> p \<and> p \<le> r_hi r)"
  by (simp add: ports_match_def ports_any_def in_ranges_iff)

lemma mapped_prefix_only_mapped:
  assumes "prefix_contains p a" "is4in6 (pfx_addr p)" "96 \<le> pfx_bits p"
  shows "is4in6 a"
proof -
  obtain v z where v: "pfx_addr p = A6 v z" "unat v div 2 ^ 32 = 0xFFFF"
    using assms(2) by (auto simp: is4in6_def split: addr.splits)
  then obtain w y where w: "a = A6 w y" "v AND top_mask (pfx_bits p) = w AND top_mask (pfx_bits p)"
    using assms(1) by (auto simp: prefix_contains_def mask_xor split: addr.splits)
  have "bit v i = bit w i" if "32 \<le> i" "i < 128" for i
  proof -
    have "\<not> i < 128 - pfx_bits p" using that assms(3) by arith
    then show ?thesis using arg_cong [OF w(2), of "\<lambda>x. bit x i"] that by (simp add: top_mask_def bit_simps)
  qed
  then have "bit v i = bit w i" if "32 \<le> i" for i
    using that bit_imp_le_length [of v i] bit_imp_le_length [of w i] by auto
  then have "drop_bit 32 v = drop_bit 32 w" by (intro bit_word_eqI) (simp add: bit_simps)
  then have "unat (drop_bit 32 v) = unat (drop_bit 32 w)" by simp
  then have "drop_bit 32 (unat v) = drop_bit 32 (unat w)" by (simp only: unat_drop_bit_eq)
  then have "unat v div 2 ^ 32 = unat w div 2 ^ 32" by (simp only: drop_bit_eq_div)
  then show ?thesis using v w(1) by (simp add: is4in6_def)
qed

lemma split_append: "split_on c (s @ c # t) = split_on c s @ split_on c t"
proof (induction s)
  case (Cons x s)
  then show ?case by (cases "split_on c s") auto
qed simp

lemma suffix_labels: "suffix (CHR ''.'' # h) s \<longleftrightarrow>
    (\<exists>pre. pre \<noteq> [] \<and> split_on CHR ''.'' s = pre @ split_on CHR ''.'' h)"
proof
  assume "suffix (CHR ''.'' # h) s"
  then obtain u where "s = u @ CHR ''.'' # h" by (auto simp: suffix_def)
  then show "\<exists>pre. pre \<noteq> [] \<and> split_on CHR ''.'' s = pre @ split_on CHR ''.'' h"
    by (intro exI [of _ "split_on CHR ''.'' u"]) (simp add: split_append)
next
  assume "\<exists>pre. pre \<noteq> [] \<and> split_on CHR ''.'' s = pre @ split_on CHR ''.'' h"
  then obtain pre where pre: "pre \<noteq> []" "split_on CHR ''.'' s = pre @ split_on CHR ''.'' h" by blast
  have "join_with sep (pre @ ws) = join_with sep pre @ sep @ join_with sep ws" if "ws \<noteq> []" for sep ws
    using pre(1) that by (induction sep pre rule: join_with.induct) (auto simp: join_Cons)
  then have "s = join_with ''.'' pre @ ''.'' @ h"
    using join_split [of "CHR ''.''" s] pre(2) by simp
  then show "suffix (CHR ''.'' # h) s" by (auto simp: suffix_def)
qed

subsection \<open>Properties\<close>

text \<open>
  The text of a pattern is canonical. A pattern that was parsed prints as text that parses to
  the very same pattern, so a rule shown to the user can be typed back.
\<close>

theorem parse_pattern_string: "parse_pattern s = Inr p \<Longrightarrow> parse_pattern (pattern_string p) = Inr p"
  unfolding pattern_string_def by (rule parse_pattern_text) (rule parse_pattern_ok)

theorem parse_pattern_string_witness: "parse_pattern ''10.0.0.0/8'' =
    Inr (zero_pattern\<lparr>p_kind := Pat_prefix, p_text := ''10.0.0.0/8'',
      p_prefix := \<lparr>pfx_addr = A4 0x0A000000, pfx_bits = 8\<rparr>\<rparr>)"
proof -
  let ?p = "zero_pattern\<lparr>p_kind := Pat_prefix, p_text := ''10.0.0.0/8'',
      p_prefix := \<lparr>pfx_addr = A4 0x0A000000, pfx_bits = 8\<rparr>\<rparr>"
  have "parse_pattern '' 10.1.2.3/8'' = Inr ?p" by code_simp
  from parse_pattern_string [OF this] show ?thesis by (simp add: pattern_string_def)
qed

text \<open>
  Names and addresses never meet. For a pattern that was parsed and is not the catch-all, one
  that can match only names matches no address literal, and one that cannot matches no hostname.
\<close>

theorem pattern_families_disjoint:
  assumes "parse_pattern s = Inr p" "\<not> is_any p" "pattern_match p t"
  shows "target_is_ip t \<longleftrightarrow> \<not> matches_name_only p"
  using assms(2,3)
  by (auto simp: is_any_def pattern_match_def matches_name_only_def split: pattern_kind.splits)

theorem pattern_families_disjoint_witness:
  "\<exists>p t. parse_pattern ''*.example.com'' = Inr p \<and> pattern_match p t \<and>
     (target_is_ip t \<longleftrightarrow> \<not> matches_name_only p)"
proof -
  let ?p = "zero_pattern\<lparr>p_kind := Pat_suffix, p_host := ''example.com'', p_text := ''*.example.com''\<rparr>"
  let ?t = "\<lparr>t_host = ''a.b.example.com'', t_addr = Addr_none, t_port = 443\<rparr>"
  have "parse_pattern ''*.example.com'' = Inr ?p" "\<not> is_any ?p" "pattern_match ?p ?t" by code_simp+
  from this pattern_families_disjoint [OF this] show ?thesis by blast
qed

text \<open>
  A wildcard covers whole labels and not the apex. A parsed wildcard pattern matches a hostname
  exactly when the labels of the hostname are at least one further label followed by the labels of
  the pattern's suffix; \<open>notexample.com\<close> and \<open>example.com\<close> itself are not covered.
\<close>

theorem wildcard_labels:
  assumes "parse_pattern s = Inr p" "p_kind p = Pat_suffix" "\<not> target_is_ip t"
  shows "(pattern_match p t \<longleftrightarrow>
      (\<exists>pre. pre \<noteq> [] \<and> split_on CHR ''.'' (t_host t) = pre @ split_on CHR ''.'' (p_host p)))
    \<and> (t_host t = p_host p \<longrightarrow> \<not> pattern_match p t)"
proof -
  have match: "pattern_match p t \<longleftrightarrow> suffix (CHR ''.'' # p_host p) (t_host t)"
    using assms(2,3) by (simp add: pattern_match_def)
  then have "t_host t = p_host p \<longrightarrow> \<not> pattern_match p t"
    by (metis length_Cons not_less_eq_eq order_refl suffix_length_le)
  with match show ?thesis by (simp add: suffix_labels)
qed

theorem wildcard_labels_witness:
  "\<exists>p. parse_pattern ''*.example.com'' = Inr p \<and>
    \<not> pattern_match p \<lparr>t_host = ''example.com'', t_addr = Addr_none, t_port = 443\<rparr>"
proof -
  let ?p = "zero_pattern\<lparr>p_kind := Pat_suffix, p_host := ''example.com'', p_text := ''*.example.com''\<rparr>"
  let ?t = "\<lparr>t_host = ''example.com'', t_addr = Addr_none, t_port = 443\<rparr>"
  have p: "parse_pattern ''*.example.com'' = Inr ?p" "p_kind ?p = Pat_suffix" "\<not> target_is_ip ?t"
    by code_simp+
  show ?thesis using wildcard_labels [OF p] p(1) by auto
qed

text \<open>
  A port set is what it says. A parsed port set prints as text that parses to the same set, its
  ranges lie within 1 to 65535 and run forwards, and it matches exactly the ports of its ranges, or
  every port when it has none.
\<close>

theorem parse_ports_correct:
  assumes "parse_ports s = Inr ps"
  shows "parse_ports (ports_string ps) = Inr ps \<and>
    {p. ports_match ps p} = (if ps = [] then UNIV else (\<Union>r\<in>set ps. {r_lo r..r_hi r})) \<and>
    (ps = [] \<or> {p. ports_match ps p} \<subseteq> {1..65535})"
proof -
  have ok: "ports_ok ps" by (rule parse_ports_ok [OF assms])
  have "{p. ports_match ps p} = (if ps = [] then UNIV else (\<Union>r\<in>set ps. {r_lo r..r_hi r}))"
    by (auto simp: ports_match_iff)
  moreover have "ps \<noteq> [] \<Longrightarrow> {p. ports_match ps p} \<subseteq> {1..65535}"
    using ok by (fastforce simp: ports_match_iff ports_ok_def list_all_iff range_ok_def)
  ultimately show ?thesis using parse_ports_string [OF ok] by simp
qed

theorem parse_ports_correct_witness: "parse_ports ''80,8000-8100'' =
    Inr [\<lparr>r_lo = 80, r_hi = 80\<rparr>, \<lparr>r_lo = 8000, r_hi = 8100\<rparr>]"
proof -
  have "parse_ports ''80 , 8000 - 8100'' = Inr [\<lparr>r_lo = 80, r_hi = 80\<rparr>, \<lparr>r_lo = 8000, r_hi = 8100\<rparr>]"
    by code_simp
  moreover have "ports_string [\<lparr>r_lo = 80, r_hi = 80\<rparr>, \<lparr>r_lo = 8000, r_hi = 8100\<rparr>] = ''80,8000-8100''"
    by code_simp
  ultimately show ?thesis
    using parse_ports_correct [of "''80 , 8000 - 8100''"] by simp
qed

text \<open>
  A prefix written in IPv4-mapped form covers nothing. Targets are unmapped before they are
  matched, while the prefix is not, so such a pattern, in a deny rule for instance, matches no
  target the program builds.
\<close>

theorem mapped_prefix_matches_nothing:
  assumes "parse_pattern s = Inr p" "p_kind p = Pat_prefix" "is4in6 (pfx_addr (p_prefix p))"
    "96 \<le> pfx_bits (p_prefix p)" "target_ok t"
  shows "\<not> pattern_match p t"
proof
  assume "pattern_match p t"
  then have m: "prefix_contains (p_prefix p) (t_addr t)" "addr_valid (t_addr t)"
    using assms(2) by (auto simp: pattern_match_def target_is_ip_def)
  then have "is4in6 (t_addr t)" using mapped_prefix_only_mapped assms(3,4) by blast
  moreover have "plain (t_addr t) = t_addr t" using assms(5) m(2) by (simp add: target_ok_def host_ok_def)
  ultimately show False by (metis plain_not_4in6)
qed

theorem mapped_prefix_matches_nothing_witness:
  "\<exists>p. parse_pattern ''::ffff:10.0.0.0/104'' = Inr p \<and>
    \<not> pattern_match p \<lparr>t_host = ''10.1.2.3'', t_addr = A4 0x0A010203, t_port = 443\<rparr>"
proof -
  let ?p = "zero_pattern\<lparr>p_kind := Pat_prefix, p_text := ''::ffff:10.0.0.0/104'',
      p_prefix := \<lparr>pfx_addr = A6 0xFFFF0A000000 [], pfx_bits = 104\<rparr>\<rparr>"
  let ?t = "\<lparr>t_host = ''10.1.2.3'', t_addr = A4 0x0A010203, t_port = 443\<rparr>"
  have p: "parse_pattern ''::ffff:10.0.0.0/104'' = Inr ?p" "p_kind ?p = Pat_prefix"
    "is4in6 (pfx_addr (p_prefix ?p))" "96 \<le> pfx_bits (p_prefix ?p)" "target_ok ?t" by code_simp+
  show ?thesis using mapped_prefix_matches_nothing [OF p] p(1) by blast
qed

end
