(* ===== verification/Policy_Core.thy ===== *)
theory Policy_Core
  imports Policy_Pattern
begin

section \<open>The decision: \<open>internal/policy/policy.go\<close>\<close>

text \<open>
  A policy is a list of rules and a default. This theory holds rules with their parser and printer,
  the two evaluation functions the enforcement points call, and what makes a deny rule something
  that can be reasoned about without reading the rest of the policy.
\<close>

subsection \<open>Data\<close>

datatype action = Deny | Allow

fun action_string :: "action \<Rightarrow> string" where
  "action_string Allow = ''allow''"
| "action_string Deny = ''deny''"

definition parse_action :: "string \<Rightarrow> action option" where
  "parse_action s =
     (let w = to_lower (trim_space s)
      in if w = ''allow'' then Some Allow else if w = ''deny'' then Some Deny else None)"

record rule =
  rl_action :: action
  rl_host :: pattern
  rl_ports :: port_set
  rl_why :: string
  rl_scope :: string

definition with_scope :: "string \<Rightarrow> rule \<Rightarrow> rule" where
  "with_scope scope r = r\<lparr>rl_scope := scope\<rparr>"

definition warn_single_label :: "rule \<Rightarrow> bool" where
  "warn_single_label r = is_single_label (rl_host r)"

datatype rule_error = Rule_dest target_error | Rule_pattern pattern_error | Rule_ports port_error

definition parse_rule :: "action \<Rightarrow> string \<Rightarrow> rule_error + rule" where
  "parse_rule a spec =
     (case split_host_port spec of
        Inl e \<Rightarrow> Inl (Rule_dest e)
      | Inr (host, ports) \<Rightarrow>
          (case parse_pattern host of
             Inl e \<Rightarrow> Inl (Rule_pattern e)
           | Inr p \<Rightarrow>
               (case parse_ports ports of
                  Inl e \<Rightarrow> Inl (Rule_ports e)
                | Inr ps \<Rightarrow> Inr \<lparr>rl_action = a, rl_host = p, rl_ports = ps, rl_why = [], rl_scope = []\<rparr>)))"

definition rule_match :: "rule \<Rightarrow> target \<Rightarrow> bool" where
  "rule_match r t \<longleftrightarrow> pattern_match (rl_host r) t \<and> ports_match (rl_ports r) (t_port t)"

definition rule_spec :: "rule \<Rightarrow> string" where
  "rule_spec r =
     (if ports_any (rl_ports r) then pattern_string (rl_host r)
      else (let host = pattern_string (rl_host r);
                host = (if CHR '':'' \<in> set host then ''['' @ host @ '']'' else host)
            in host @ '':'' @ ports_string (rl_ports r)))"

definition rule_string :: "rule \<Rightarrow> string" where
  "rule_string r = action_string (rl_action r) @ '' '' @ rule_spec r"

record policy =
  pol_name :: string
  pol_default :: action
  pol_rules :: "rule list"

record verdict =
  v_allowed :: bool
  v_rule :: string
  v_scope :: string
  v_reason :: string

text \<open>
  The verb \<open>%q\<close> of \<open>fmt\<close> on the texts it is applied to here, which are printable ASCII: the text in
  double quotes, with a backslash before a double quote or a backslash.
\<close>

definition quoted :: "string \<Rightarrow> string" where
  "quoted s =
     CHR 0x22 # concat (map (\<lambda>c. if c = CHR 0x22 \<or> c = CHR 0x5C then [CHR 0x5C, c] else [c]) s) @ [CHR 0x22]"

subsection \<open>Evaluation\<close>

text \<open>The loop over the rules: the first one with this action that covers the target.\<close>

fun first_rule :: "action \<Rightarrow> target \<Rightarrow> rule list \<Rightarrow> rule option" where
  "first_rule a t [] = None"
| "first_rule a t (r # rs) = (if rl_action r = a \<and> rule_match r t then Some r else first_rule a t rs)"

definition deny_verdict :: "rule \<Rightarrow> verdict" where
  "deny_verdict r =
     \<lparr>v_allowed = False, v_rule = rule_spec r, v_scope = rl_scope r,
      v_reason = ''denied by rule '' @ quoted (rule_spec r)\<rparr>"

definition evaluate :: "policy \<Rightarrow> target \<Rightarrow> verdict" where
  "evaluate p t =
     (case first_rule Deny t (pol_rules p) of
        Some r \<Rightarrow> deny_verdict r
      | None \<Rightarrow>
          (case first_rule Allow t (pol_rules p) of
             Some r \<Rightarrow>
               \<lparr>v_allowed = True, v_rule = rule_spec r, v_scope = rl_scope r,
                v_reason = ''allowed by rule '' @ quoted (rule_spec r)\<rparr>
           | None \<Rightarrow>
               (if pol_default p = Allow
                then \<lparr>v_allowed = True, v_rule = [], v_scope = ''default'',
                      v_reason = ''allowed by default (policy '' @ quoted (pol_name p) @ '' allows anything not denied)''\<rparr>
                else \<lparr>v_allowed = False, v_rule = [], v_scope = ''default'',
                      v_reason = ''denied by default (policy '' @ quoted (pol_name p) @ '' allows only listed destinations)''\<rparr>)))"

definition evaluate_deny :: "policy \<Rightarrow> target \<Rightarrow> verdict" where
  "evaluate_deny p t =
     (case first_rule Deny t (pol_rules p) of
        Some r \<Rightarrow> deny_verdict r
      | None \<Rightarrow> \<lparr>v_allowed = True, v_rule = [], v_scope = [],
                 v_reason = ''no deny rule matched the resolved address''\<rparr>)"

definition with_rules :: "rule list \<Rightarrow> policy \<Rightarrow> policy" where
  "with_rules rs p = p\<lparr>pol_rules := pol_rules p @ rs\<rparr>"

subsection \<open>The decision as a predicate\<close>

text \<open>
  What a policy promises, without the loops: a target is denied by a rule when some deny rule covers
  it, and permitted when none does and an allow rule, or the default, lets it through.
\<close>

definition covers :: "action \<Rightarrow> rule list \<Rightarrow> target \<Rightarrow> bool" where
  "covers a rs t \<longleftrightarrow> list_ex (\<lambda>r. rl_action r = a \<and> rule_match r t) rs"

definition permits :: "policy \<Rightarrow> target \<Rightarrow> bool" where
  "permits p t \<longleftrightarrow> \<not> covers Deny (pol_rules p) t \<and> (covers Allow (pol_rules p) t \<or> pol_default p = Allow)"

lemma covers_iff: "covers a rs t \<longleftrightarrow> (\<exists>r\<in>set rs. rl_action r = a \<and> rule_match r t)"
  by (auto simp: covers_def list_ex_iff)

lemma covers_simps [simp]:
  "\<not> covers a [] t"
  "covers a (r # rs) t \<longleftrightarrow> (rl_action r = a \<and> rule_match r t) \<or> covers a rs t"
  "covers a (rs @ rs') t \<longleftrightarrow> covers a rs t \<or> covers a rs' t"
  by (auto simp: covers_def)

lemma covers_first_rule: "covers a rs t \<longleftrightarrow> first_rule a t rs \<noteq> None"
  by (induction rs) auto

lemma first_rule_None: "first_rule a t rs = None \<longleftrightarrow> \<not> covers a rs t"
  by (simp add: covers_first_rule)

lemma first_rule_Some: "first_rule a t rs = Some r \<Longrightarrow> r \<in> set rs \<and> rl_action r = a \<and> rule_match r t"
  by (induction rs) (auto split: if_splits)

lemma first_rule_append: "first_rule a t (rs @ rs') =
    (case first_rule a t rs of None \<Rightarrow> first_rule a t rs' | Some r \<Rightarrow> Some r)"
  by (induction rs) auto

lemma deny_verdict_allowed [simp]: "\<not> v_allowed (deny_verdict r)"
  by (simp add: deny_verdict_def)

lemma evaluate_allowed: "v_allowed (evaluate p t) \<longleftrightarrow> permits p t"
  by (simp add: evaluate_def permits_def covers_first_rule split: option.split)

lemma evaluate_deny_allowed: "v_allowed (evaluate_deny p t) \<longleftrightarrow> \<not> covers Deny (pol_rules p) t"
  by (simp add: evaluate_deny_def covers_first_rule split: option.split)

lemma with_rules_simps [simp]:
  "pol_rules (with_rules rs p) = pol_rules p @ rs" "pol_default (with_rules rs p) = pol_default p"
  "pol_name (with_rules rs p) = pol_name p"
  by (simp_all add: with_rules_def)

subsection \<open>The invariant of a rule\<close>

definition rule_ok :: "rule \<Rightarrow> bool" where
  "rule_ok r \<longleftrightarrow> pattern_ok (rl_host r) \<and> ports_ok (rl_ports r)"

lemma parse_rule_ok: "parse_rule a s = Inr r \<Longrightarrow> rule_ok r \<and> rl_action r = a \<and> rl_why r = [] \<and> rl_scope r = []"
  by (auto simp: parse_rule_def rule_ok_def parse_pattern_ok parse_ports_ok
      split: sum.splits prod.splits)

lemma with_scope_simps [simp]:
  "rl_action (with_scope s r) = rl_action r" "rl_host (with_scope s r) = rl_host r"
  "rl_ports (with_scope s r) = rl_ports r" "rule_match (with_scope s r) t = rule_match r t"
  "rule_ok (with_scope s r) = rule_ok r" "rule_spec (with_scope s r) = rule_spec r"
  "rl_scope (with_scope s r) = s"
  by (simp_all add: with_scope_def rule_match_def rule_ok_def rule_spec_def)

lemma pattern_text_chars:
  assumes "pattern_ok p" "c \<in> set (p_text p)"
  shows "host_char c \<or> c = CHR ''/'' \<or> c = CHR ''*''"
  using assms host_ok_shape(3) prefix_string_chars
  by (auto simp: pattern_ok_def host_char_def label_char_def split: pattern_kind.splits)

lemma pattern_text_graph: "pattern_ok p \<Longrightarrow> c \<in> set (p_text p) \<Longrightarrow> graph c \<and> c \<noteq> CHR ''['' \<and> c \<noteq> CHR '']''"
  using pattern_text_chars [of p c] host_char_graph [of c] by (auto simp: graph_def)

lemma pattern_text_not_Nil: "pattern_ok p \<Longrightarrow> p_text p \<noteq> []"
  using host_ok_shape(1) by (auto simp: pattern_ok_def prefix_string_def split: pattern_kind.splits)

lemma pattern_text_clean: "pattern_ok p \<Longrightarrow> clean (p_text p)"
  using pattern_text_graph [of p] pattern_text_not_Nil [of p] by (auto simp: clean_def list_all_iff)

text \<open>A colon in the text of a pattern means an IPv6 address, which has more than one.\<close>

lemma pattern_text_colon:
  assumes "pattern_ok p" "CHR '':'' \<in> set (p_text p)"
  shows "length (filter (\<lambda>c. c = CHR '':'') (p_text p)) \<noteq> 1"
proof (cases "p_kind p")
  case Pat_addr
  with assms have "host_ok (p_host p) (p_addr p)" "p_text p = p_host p" "addr_valid (p_addr p)"
    by (auto simp: pattern_ok_def)
  with assms(2) have "is6 (p_addr p)" "p_text p = addr_string (p_addr p)"
    using colon_in_host [of "p_host p" "p_addr p"] by (auto simp: host_ok_def)
  then show ?thesis using addr_string_colons [of "p_addr p"] by simp
next
  case Pat_prefix
  with assms have ok: "prefix_ok (p_prefix p)"
    and t: "p_text p = addr_string (pfx_addr (p_prefix p)) @ ''/'' @ show_nat (pfx_bits (p_prefix p))"
    by (auto simp: pattern_ok_def prefix_string_def)
  then have "CHR '':'' \<in> set (addr_string (pfx_addr (p_prefix p)))"
    using assms(2) dot_not_show_nat(2) by auto
  then have "is6 (pfx_addr (p_prefix p))"
    using ok string4_set by (auto simp: prefix_ok_def is6_def addr_valid_def is_digit_def split: addr.splits dest!: string4_set)
  then show ?thesis using addr_string_colons [of "pfx_addr (p_prefix p)"] t by simp
qed (use assms colon_in_host [of "p_host p" Addr_none] in \<open>auto simp: pattern_ok_def is6_def\<close>)

lemma parse_rule_spec:
  assumes "rule_ok r"
  shows "parse_rule a (rule_spec r) =
    Inr \<lparr>rl_action = a, rl_host = rl_host r, rl_ports = rl_ports r, rl_why = [], rl_scope = []\<rparr>"
proof -
  have ok: "pattern_ok (rl_host r)" "ports_ok (rl_ports r)" using assms by (auto simp: rule_ok_def)
  have pt: "list_all graph (ports_string (rl_ports r))" "CHR '':'' \<notin> set (ports_string (rl_ports r))"
    using ports_string_graph [OF ok(2)] by (auto simp: list_all_iff)
  have one: "length (filter (\<lambda>c. c = CHR '':'') (p_text (rl_host r))) \<noteq> 1"
  proof
    assume one: "length (filter (\<lambda>c. c = CHR '':'') (p_text (rl_host r))) = 1"
    then have "filter (\<lambda>c. c = CHR '':'') (p_text (rl_host r)) \<noteq> []" by auto
    then have "CHR '':'' \<in> set (p_text (rl_host r))" by (simp add: filter_empty_conv)
    then show False using pattern_text_colon [OF ok(1)] one by simp
  qed
  have "split_host_port (rule_spec r) = Inr (p_text (rl_host r),
      if ports_any (rl_ports r) then [] else ports_string (rl_ports r))"
    using split_plain [OF pattern_text_clean [OF ok(1)] _ pt]
      split_bracketed [OF pattern_text_clean [OF ok(1)] pt(1)]
      split_alone [OF pattern_text_clean [OF ok(1)] one]
    by (auto simp: rule_spec_def pattern_string_def Let_def)
  moreover have "parse_ports (if ports_any (rl_ports r) then [] else ports_string (rl_ports r)) = Inr (rl_ports r)"
    using parse_ports_string [OF ok(2)] by (simp add: ports_any_def parse_ports_def)
  ultimately show ?thesis using parse_pattern_text [OF ok(1)] by (simp add: parse_rule_def)
qed

text \<open>The rule \<open>*.b.com:443\<close>, for the examples.\<close>

definition rule_ex :: "action \<Rightarrow> rule" where
  "rule_ex a =
     \<lparr>rl_action = a, rl_host = zero_pattern\<lparr>p_kind := Pat_suffix, p_host := ''b.com'', p_text := ''*.b.com''\<rparr>,
      rl_ports = [\<lparr>r_lo = 443, r_hi = 443\<rparr>], rl_why = [], rl_scope = ''global''\<rparr>"

subsection \<open>Properties\<close>

text \<open>
  C1: the decision. A target is allowed exactly when no deny rule covers it and either an allow rule
  covers it or the policy allows by default; whatever the order, the number or the scope of the
  rules. The check made again on a resolved address denies exactly when a deny rule covers it.
\<close>

theorem evaluate_deny_first:
  "(v_allowed (evaluate p t) \<longleftrightarrow>
      (\<forall>r\<in>set (pol_rules p). rule_match r t \<longrightarrow> rl_action r \<noteq> Deny) \<and>
      ((\<exists>r\<in>set (pol_rules p). rule_match r t \<and> rl_action r = Allow) \<or> pol_default p = Allow)) \<and>
   (v_allowed (evaluate_deny p t) \<longleftrightarrow>
      (\<forall>r\<in>set (pol_rules p). rule_match r t \<longrightarrow> rl_action r \<noteq> Deny))"
  by (auto simp: evaluate_allowed evaluate_deny_allowed permits_def covers_iff)

theorem evaluate_deny_first_witness:
  "v_allowed (evaluate \<lparr>pol_name = ''x'', pol_default = Allow, pol_rules = []\<rparr>
     \<lparr>t_host = ''a'', t_addr = Addr_none, t_port = 1\<rparr>)"
  using evaluate_deny_first [of "\<lparr>pol_name = ''x'', pol_default = Allow, pol_rules = []\<rparr>"] by simp

text \<open>
  A deny cannot be unsaid. When a policy denies a target by a rule, adding rules of any kind
  leaves the verdict as it was, down to the rule and the scope it names; and the order in which two
  policies hold the same rules makes no difference to what they allow.
\<close>

theorem deny_is_final:
  assumes "\<not> v_allowed (evaluate_deny p t)"
  shows "evaluate (with_rules rs p) t = evaluate p t \<and> \<not> v_allowed (evaluate p t) \<and>
    evaluate_deny (with_rules rs p) t = evaluate p t \<and>
    (set (pol_rules q) = set (pol_rules p) \<longrightarrow> \<not> v_allowed (evaluate q t))"
proof -
  have d: "covers Deny (pol_rules p) t" using assms by (simp add: evaluate_deny_allowed)
  then obtain r where "first_rule Deny t (pol_rules p) = Some r" by (auto simp: covers_first_rule)
  then have "evaluate (with_rules rs p) t = evaluate p t" "evaluate_deny (with_rules rs p) t = evaluate p t"
    by (simp_all add: evaluate_def evaluate_deny_def first_rule_append)
  moreover have "\<not> v_allowed (evaluate q t)" if "set (pol_rules q) = set (pol_rules p)" for q
    using d that by (simp add: evaluate_allowed permits_def covers_iff)
  ultimately show ?thesis using d by (simp add: evaluate_allowed permits_def)
qed

theorem deny_is_final_witness:
  "\<exists>p t. \<not> v_allowed (evaluate_deny p t) \<and>
     \<not> v_allowed (evaluate p t) \<and> evaluate (with_rules [rule_ex Allow] p) t = evaluate p t"
proof -
  let ?p = "\<lparr>pol_name = ''open'', pol_default = Allow, pol_rules = [rule_ex Deny]\<rparr>"
  let ?t = "\<lparr>t_host = ''a.b.com'', t_addr = Addr_none, t_port = 443\<rparr>"
  have d: "\<not> v_allowed (evaluate_deny ?p ?t)" by code_simp
  show ?thesis using d deny_is_final [OF d, of "[rule_ex Allow]" ?p] by blast
qed

text \<open>
  The verdict names what a user would type. When rules built by the parser decide a target by a
  rule, the text the verdict reports parses, with the verdict's action, to a rule that covers the
  target; and a rule printed and parsed again is the same rule up to its explanation and scope.
\<close>

theorem verdict_names_rule:
  assumes "list_all rule_ok (pol_rules p)" "v_scope (evaluate p t) \<noteq> ''default'' \<or> v_rule (evaluate p t) \<noteq> []"
  shows "\<exists>r r'. r \<in> set (pol_rules p) \<and> v_rule (evaluate p t) = rule_spec r \<and>
    parse_rule (if v_allowed (evaluate p t) then Allow else Deny) (v_rule (evaluate p t)) = Inr r' \<and>
    rule_match r' t \<and> r' = r\<lparr>rl_why := [], rl_scope := []\<rparr>"
proof -
  have named: "\<exists>r r'. r \<in> set (pol_rules p) \<and> rule_spec q = rule_spec r \<and>
      parse_rule a (rule_spec q) = Inr r' \<and> rule_match r' t \<and> r' = r\<lparr>rl_why := [], rl_scope := []\<rparr>"
    if "first_rule a t (pol_rules p) = Some q" for a q
  proof -
    have q: "q \<in> set (pol_rules p)" "rl_action q = a" "rule_match q t" using first_rule_Some [OF that] by auto
    then have "parse_rule a (rule_spec q) = Inr (q\<lparr>rl_why := [], rl_scope := []\<rparr>)"
      using parse_rule_spec [of q a] assms(1) by (auto simp: list_all_iff)
    moreover have "rule_match (q\<lparr>rl_why := [], rl_scope := []\<rparr>) t" using q(3) by (simp add: rule_match_def)
    ultimately show ?thesis using q(1) by blast
  qed
  show ?thesis
    using assms(2) named [of Deny] named [of Allow]
    by (auto simp: evaluate_def deny_verdict_def split: option.splits if_splits)
qed

theorem verdict_names_rule_witness:
  "\<exists>p t r. list_all rule_ok (pol_rules p) \<and>
     v_rule (evaluate p t) = rule_spec r \<and> r \<in> set (pol_rules p) \<and> \<not> v_allowed (evaluate p t)"
proof -
  let ?p = "\<lparr>pol_name = ''open'', pol_default = Allow, pol_rules = [rule_ex Deny]\<rparr>"
  let ?t = "\<lparr>t_host = ''a.b.com'', t_addr = Addr_none, t_port = 443\<rparr>"
  have *: "list_all rule_ok (pol_rules ?p)"
    "v_scope (evaluate ?p ?t) \<noteq> ''default'' \<or> v_rule (evaluate ?p ?t) \<noteq> []" by code_simp+
  have "\<not> v_allowed (evaluate ?p ?t)" by code_simp
  with *(1) verdict_names_rule [OF *] show ?thesis by blast
qed

end
