(* ===== verification/Secret_Rules.thy ===== *)
theory Secret_Rules
  imports Boks_Text Http_Header Policy_Core
begin

section \<open>Injection rules: \<open>internal/secret/secret.go\<close>\<close>

text \<open>
  Where a credential is attached and how: a rule names a domain and a header, and either a format with
  one \<open>%s\<close> or one of two schemes. Its checks, the value it renders, and the two compact forms the
  command line gives it in. A secret is the string it wraps; its textual forms are the redacted text.
\<close>

subsection \<open>Values\<close>

record secret_value =
  sv_raw :: string

definition new_value :: "string \<Rightarrow> secret_value" where
  "new_value s = \<lparr>sv_raw = s\<rparr>"

definition reveal :: "secret_value \<Rightarrow> string" where
  "reveal v = sv_raw v"

definition value_is_zero :: "secret_value \<Rightarrow> bool" where
  "value_is_zero v \<longleftrightarrow> sv_raw v = []"

definition redacted :: string where
  "redacted = ''[redacted]''"

definition value_string :: "secret_value \<Rightarrow> string" where
  "value_string v = redacted"

definition value_go_string :: "secret_value \<Rightarrow> string" where
  "value_go_string v = ''secret.Value('' @ redacted @ '')''"

definition value_marshal_text :: "secret_value \<Rightarrow> string" where
  "value_marshal_text v = redacted"

lemma reveal_new [simp]: "reveal (new_value s) = s" "value_is_zero (new_value s) \<longleftrightarrow> s = []"
  by (simp_all add: reveal_def new_value_def value_is_zero_def)

subsection \<open>Rules\<close>

text \<open>A scheme is a text; two of its values mean something.\<close>

record inject =
  in_domain :: pattern
  in_header :: string
  in_format :: string
  in_scheme :: string
  in_username :: string

definition zero_inject :: inject where
  "zero_inject = \<lparr>in_domain = zero_pattern, in_header = [], in_format = [], in_scheme = [], in_username = []\<rparr>"

abbreviation scheme_bearer :: string where "scheme_bearer \<equiv> ''bearer''"
abbreviation scheme_basic :: string where "scheme_basic \<equiv> ''basic''"

datatype header_error = No_header_name | Bad_header_char string char

definition header_char :: "char \<Rightarrow> bool" where
  "header_char c \<longleftrightarrow> is_lower c \<or> is_upper c \<or> is_digit c \<or> c \<in> set ''-_.''"

definition valid_header_name :: "string \<Rightarrow> header_error option" where
  "valid_header_name s =
     (if s = [] then Some No_header_name
      else (case find (\<lambda>c. \<not> header_char c) s of None \<Rightarrow> None | Some c \<Rightarrow> Some (Bad_header_char s c)))"

definition inject_header :: "inject \<Rightarrow> string" where
  "inject_header r = (if in_header r \<noteq> [] then in_header r else ''Authorization'')"

definition effective_format :: "inject \<Rightarrow> string" where
  "effective_format r =
     (if in_scheme r = scheme_bearer then ''Bearer %s''
      else if in_scheme r = scheme_basic then ''Basic %s''
      else if in_format r = [] then ''%s'' else in_format r)"

datatype inject_error =
    No_domain | Catch_all_domain | Format_and_scheme | Unknown_scheme string | Username_with_scheme string
  | Username_without_scheme | Not_one_verb string | Other_verb string | Format_newline string
  | Bad_header header_error

definition check_header :: "inject \<Rightarrow> inject_error option" where
  "check_header r = map_option Bad_header (valid_header_name (inject_header r))"

definition newline :: string where "newline = [CHR 0x0D, CHR 0x0A]"

definition validate_inject :: "inject \<Rightarrow> inject_error option" where
  "validate_inject r =
     (if pattern_string (in_domain r) = [] then Some No_domain
      else if is_any (in_domain r) then Some Catch_all_domain
      else if in_format r \<noteq> [] \<and> in_scheme r \<noteq> [] then Some Format_and_scheme
      else if in_scheme r \<noteq> [] then
        (if in_scheme r \<noteq> scheme_bearer \<and> in_scheme r \<noteq> scheme_basic then Some (Unknown_scheme (in_scheme r))
         else if in_username r \<noteq> [] \<and> in_scheme r \<noteq> scheme_basic then Some (Username_with_scheme (in_scheme r))
         else check_header r)
      else if in_username r \<noteq> [] then Some Username_without_scheme
      else let f = effective_format r in
        if count_sub ''%s'' f \<noteq> 1 then Some (Not_one_verb f)
        else if count_sub ''%'' f \<noteq> 1 then Some (Other_verb f)
        else if contains_any f newline then Some (Format_newline f)
        else check_header r)"

definition header_value :: "inject \<Rightarrow> secret_value \<Rightarrow> string" where
  "header_value r v =
     (let raw = (if in_scheme r = scheme_basic then base64_encode (in_username r @ '':'' @ reveal v) else reveal v)
      in sprintf_s (effective_format r) raw)"

definition inject_string :: "inject \<Rightarrow> string" where
  "inject_string r =
     pattern_string (in_domain r) @ [CHR '' '', char_of (226 :: nat), char_of (134 :: nat), char_of (146 :: nat), CHR '' ''] @
     inject_header r @ '': '' @ effective_format r @
     (if in_scheme r = scheme_basic \<and> in_username r \<noteq> [] then ''  (user '' @ in_username r @ '')'' else [])"

subsection \<open>The compact form\<close>

datatype parse_inject_error =
    No_at | No_rule_service | No_equals | Attach_empty | Bearer_field
  | Inject_pattern pattern_error | Inject_rule inject_error

definition parse_attachment :: "string \<Rightarrow> parse_inject_error + inject" where
  "parse_attachment attach =
     (if attach = [] then Inl Attach_empty
      else (case cut CHR '':'' attach of (head, tail, has_tail) \<Rightarrow>
        (let word = to_lower (trim_space head)
         in if word = scheme_bearer then
              (if has_tail then Inl Bearer_field else Inr (zero_inject\<lparr>in_scheme := scheme_bearer\<rparr>))
            else if word = scheme_basic then
              Inr (zero_inject\<lparr>in_scheme := scheme_basic, in_username := trim_space tail\<rparr>)
            else Inr (zero_inject\<lparr>in_header := trim_space head, in_format := (if has_tail then tail else [])\<rparr>))))"

definition inject_for :: "inject \<Rightarrow> string \<Rightarrow> parse_inject_error + inject" where
  "inject_for template h =
     (case parse_pattern h of
        Inl e \<Rightarrow> Inl (Inject_pattern e)
      | Inr p \<Rightarrow>
          (let r = template\<lparr>in_domain := p\<rparr>
           in case validate_inject r of Some e \<Rightarrow> Inl (Inject_rule e) | None \<Rightarrow> Inr r))"

definition parse_inject :: "string \<Rightarrow> parse_inject_error + string \<times> inject list" where
  "parse_inject spec =
     (case cut CHR ''@'' spec of (service, rest, at) \<Rightarrow>
        if \<not> at then Inl No_at
        else if trim_space service = [] then Inl No_rule_service
        else (case cut CHR ''='' rest of (hosts, attach, eq) \<Rightarrow>
          if \<not> eq then Inl No_equals
          else (case parse_attachment (trim_space attach) of
              Inl e \<Rightarrow> Inl e
            | Inr template \<Rightarrow>
                (case map_res (inject_for template) (split_on CHR '','' hosts) of
                   Inl e \<Rightarrow> Inl e
                 | Inr rules \<Rightarrow> Inr (trim_space service, rules)))))"

datatype guest_error = No_guest_equals | No_guest_service | No_guest_placeholder

definition parse_guest_credential :: "string \<Rightarrow> guest_error + string \<times> string \<times> string" where
  "parse_guest_credential spec =
     (case cut CHR ''='' spec of (service, rest, ok) \<Rightarrow>
        if \<not> ok then Inl No_guest_equals
        else if trim_space service = [] then Inl No_guest_service
        else (case cut CHR ''='' rest of (name, val, named) \<Rightarrow>
          let (env, placeholder) = (if named then (trim_space name, val) else ([], rest))
          in if placeholder = [] then Inl No_guest_placeholder else Inr (trim_space service, env, placeholder)))"

subsection \<open>What the checks establish\<close>

lemma valid_header_name_iff: "valid_header_name s = None \<longleftrightarrow> s \<noteq> [] \<and> list_all header_char s"
  by (auto simp: valid_header_name_def find_None_iff find_Some_iff list_all_iff split: option.split)

lemma header_char_token: "header_char c \<Longrightarrow> token_char c"
  by (auto simp: header_char_def token_char_def)

lemma verb_split:
  assumes "count_sub ''%s'' f = 1" "count_sub ''%'' f = 1"
  obtains a b where "f = a @ ''%s'' @ b" "CHR ''%'' \<notin> set a" "CHR ''%'' \<notin> set b"
proof -
  obtain a b where f: "f = a @ ''%s'' @ b" using count_pos [of "''%s''" f] assms(1) by (auto simp: contains_sub_iff)
  have "count_list a CHR ''%'' = 0" "count_list b CHR ''%'' = 0"
    using assms(2) by (simp_all add: count_single f)
  then show ?thesis using that f by (simp add: count_list_0_iff)
qed

lemma effective_format_split:
  assumes "validate_inject r = None"
  obtains a b where "effective_format r = a @ ''%s'' @ b" "CHR ''%'' \<notin> set (a @ b)" "set newline \<inter> set (a @ b) = {}"
proof -
  consider "effective_format r = ''Bearer '' @ ''%s'' @ []" | "effective_format r = ''Basic '' @ ''%s'' @ []"
    | "count_sub ''%s'' (effective_format r) = 1" "count_sub ''%'' (effective_format r) = 1"
      "\<not> contains_any (effective_format r) newline"
    using assms by (auto simp: validate_inject_def effective_format_def Let_def split: if_splits)
  then show ?thesis
  proof cases
    case 1
    then show ?thesis by (rule that) (simp_all add: newline_def)
  next
    case 2
    then show ?thesis by (rule that) (simp_all add: newline_def)
  next
    case 3
    then obtain a b where ab: "effective_format r = a @ ''%s'' @ b" "CHR ''%'' \<notin> set a" "CHR ''%'' \<notin> set b"
      by (elim verb_split)
    then show ?thesis using that [of a b] 3(3) by (auto simp: contains_any_iff)
  qed
qed

lemma graph_pad [simp]: "graph CHR ''=''"
  by (simp add: char_class_defs)

lemma base64_graph: "c \<in> set (base64_encode s) \<Longrightarrow> graph c"
proof (induction s rule: base64_encode.induct)
  case (2 a)
  have "of_char a * 65536 div 262144 < (64::nat)" using nat_of_char_less_256 [of a] by linarith
  then show ?case using 2 by (auto simp: Let_def)
next
  case (3 a b)
  have "(of_char a * 65536 + of_char b * 256) div 262144 < (64::nat)"
    using nat_of_char_less_256 [of a] nat_of_char_less_256 [of b] by linarith
  then show ?case using 3 by (auto simp: Let_def)
next
  case (4 a b c s)
  have "(of_char a * 65536 + of_char b * 256 + of_char c) div 262144 < (64::nat)"
    using nat_of_char_less_256 [of a] nat_of_char_less_256 [of b] nat_of_char_less_256 [of c] by linarith
  then show ?case using 4 by (auto simp: Let_def)
qed simp

lemma validate_inject_header: "validate_inject r = None \<Longrightarrow> valid_header_name (inject_header r) = None"
  by (auto simp: validate_inject_def check_header_def Let_def split: if_splits)

lemma validate_inject_domain: "validate_inject r = None \<Longrightarrow> \<not> is_any (in_domain r) \<and> pattern_string (in_domain r) \<noteq> []"
  by (auto simp: validate_inject_def split: if_splits)

lemma inject_for_Inr:
  "inject_for t h = Inr r \<longleftrightarrow> (\<exists>p. parse_pattern h = Inr p \<and> r = t\<lparr>in_domain := p\<rparr> \<and> validate_inject r = None)"
  by (auto simp: inject_for_def Let_def split: sum.splits option.splits)

lemma parse_inject_Inr:
  "parse_inject spec = Inr (service, rules) \<longleftrightarrow>
     (\<exists>s hosts attach t. spec = s @ ''@'' @ hosts @ ''='' @ attach \<and> CHR ''@'' \<notin> set s \<and> CHR ''='' \<notin> set hosts \<and>
        trim_space s = service \<and> service \<noteq> [] \<and> parse_attachment (trim_space attach) = Inr t \<and>
        map_res (inject_for t) (split_on CHR '','' hosts) = Inr rules)"
  (is "?l = ?r")
proof
  have cut: "\<exists>u v. s = u @ c # v \<and> c \<notin> set u \<and> cut c s = (u, v, True)" if "c \<in> set s" for c s
    using split_list_first [OF that] cut_found by fast
  assume l: ?l
  then have "CHR ''@'' \<in> set spec" by (auto simp: parse_inject_def cut_def split: if_splits)
  then obtain s rest where 1: "spec = s @ CHR ''@'' # rest" "CHR ''@'' \<notin> set s" by (metis cut)
  then have "CHR ''='' \<in> set rest" using l by (auto simp: parse_inject_def cut_found cut_def [of _ rest] split: if_splits)
  then obtain hosts attach where 2: "rest = hosts @ CHR ''='' # attach" "CHR ''='' \<notin> set hosts" by (metis cut)
  from l show ?r
    by (intro exI [of _ s] exI [of _ hosts] exI [of _ attach])
      (auto simp: parse_inject_def 1 2 cut_found split: if_splits sum.splits)
next
  assume ?r
  then show ?l by (auto simp: parse_inject_def cut_found)
qed

lemma parse_attachment_keeps: "parse_attachment a = Inr t \<Longrightarrow> in_domain t = zero_pattern"
  by (auto simp: parse_attachment_def zero_inject_def Let_def split: if_splits prod.splits)

lemma parse_inject_Inr_ok:
  assumes "parse_inject spec = Inr (service, rules)"
  shows "service \<noteq> [] \<and> rules \<noteq> [] \<and>
    (\<forall>r\<in>set rules. validate_inject r = None \<and> pattern_ok (in_domain r) \<and> \<not> is_any (in_domain r)) \<and>
    (\<exists>t. \<forall>r\<in>set rules. r = t\<lparr>in_domain := in_domain r\<rparr>)"
proof -
  obtain hosts t where t: "service \<noteq> []" "map_res (inject_for t) (split_on CHR '','' hosts) = Inr rules"
    using assms by (auto simp: parse_inject_Inr)
  have "length rules = length (split_on CHR '','' hosts)" and rules: "list_all2 (\<lambda>h r. inject_for t h = Inr r) (split_on CHR '','' hosts) rules"
    using t(2) by (simp_all add: map_res_Inr_iff list_all2_lengthD)
  have all: "\<exists>h. inject_for t h = Inr r" if "r \<in> set rules" for r
    using rules that by (induction rule: list_all2_induct) auto
  have "service \<noteq> []" by (rule t)
  moreover have "rules \<noteq> []" using \<open>length rules = _\<close> by auto
  moreover have "\<forall>r\<in>set rules. validate_inject r = None \<and> pattern_ok (in_domain r) \<and> \<not> is_any (in_domain r)"
  proof
    fix r assume "r \<in> set rules"
    then obtain h where "inject_for t h = Inr r" using all by blast
    then obtain p where "parse_pattern h = Inr p" "in_domain r = p" "validate_inject r = None" by (auto simp: inject_for_Inr)
    then show "validate_inject r = None \<and> pattern_ok (in_domain r) \<and> \<not> is_any (in_domain r)"
      using validate_inject_domain parse_pattern_ok by blast
  qed
  moreover have "\<exists>t. \<forall>r\<in>set rules. r = t\<lparr>in_domain := in_domain r\<rparr>"
  proof (intro exI ballI)
    fix r assume "r \<in> set rules"
    then obtain h where "inject_for t h = Inr r" using all by blast
    then show "r = t\<lparr>in_domain := in_domain r\<rparr>" by (auto simp: inject_for_Inr)
  qed
  ultimately show ?thesis by blast
qed

subsection \<open>Properties\<close>

text \<open>
  One header stays one header. A rule that passes its checks renders the secret, or for basic
  authentication the base64 text of the user and the secret, between two fixed texts without a newline,
  under a header name of letters, digits, dashes, underscores and dots; so the only newline a header
  can have is one of a secret that is not base64 encoded. The base64 text decodes to what it holds.
\<close>

theorem header_value_shape:
  assumes "validate_inject r = None"
  shows "\<exists>a b payload. effective_format r = a @ ''%s'' @ b \<and> header_value r v = a @ payload @ b \<and>
     set newline \<inter> set (a @ b) = {} \<and>
     (if in_scheme r = scheme_basic
      then base64_decode payload = in_username r @ '':'' @ reveal v \<and> set newline \<inter> set payload = {}
      else payload = reveal v) \<and>
     inject_header r \<noteq> [] \<and> list_all token_char (inject_header r)"
proof -
  obtain a b where ab: "effective_format r = a @ ''%s'' @ b" "CHR ''%'' \<notin> set (a @ b)" "set newline \<inter> set (a @ b) = {}"
    using effective_format_split [OF assms] by blast
  let ?p = "if in_scheme r = scheme_basic then base64_encode (in_username r @ '':'' @ reveal v) else reveal v"
  have "header_value r v = a @ ?p @ b" using ab sprintf_s_split [of a b ?p] by (simp add: header_value_def Let_def)
  moreover have "set newline \<inter> set (base64_encode s) = {}" for s
    using base64_graph [of "CHR 0x0D" s] base64_graph [of "CHR 0x0A" s] by (auto simp: newline_def char_class_defs)
  moreover have "inject_header r \<noteq> []" "list_all token_char (inject_header r)"
    using validate_inject_header [OF assms] header_char_token by (auto simp: valid_header_name_iff list_all_iff)
  ultimately show ?thesis using ab by (intro exI [of _ a] exI [of _ b] exI [of _ ?p]) (auto simp: base64_round_trip)
qed

definition inject_ex :: inject where
  "inject_ex = zero_inject\<lparr>in_domain := zero_pattern\<lparr>p_kind := Pat_exact, p_host := ''a.b'', p_text := ''a.b''\<rparr>,
     in_scheme := scheme_basic, in_username := ''me''\<rparr>"

theorem header_value_shape_witness:
  "\<exists>a b payload. header_value inject_ex (new_value ''key'') = a @ payload @ b \<and> base64_decode payload = ''me:key''"
proof -
  have "validate_inject inject_ex = None" by code_simp
  from header_value_shape [OF this, of "new_value ''key''"] show ?thesis by (fastforce simp: inject_ex_def zero_inject_def)
qed

text \<open>
  What the compact form of a rule means. Parsing yields a service and one valid rule per host, all
  with the attachment that was written and none with a catch-all domain; and a rule with a header and a
  format is written and read back, whatever the hosts, when the format does not end in a space.
\<close>

theorem parse_inject_correct:
  assumes "parse_inject spec = Inr (service, rules)"
  shows "service \<noteq> [] \<and> rules \<noteq> [] \<and>
    (\<forall>r\<in>set rules. validate_inject r = None \<and> pattern_ok (in_domain r) \<and> \<not> is_any (in_domain r)) \<and>
    (\<exists>t. \<forall>r\<in>set rules. r = t\<lparr>in_domain := in_domain r\<rparr>)"
  by (rule parse_inject_Inr_ok) (rule assms)

definition parse_inject_ex :: "inject list" where
  "parse_inject_ex = map (\<lambda>h. zero_inject\<lparr>in_domain := zero_pattern\<lparr>p_kind := Pat_exact, p_host := h, p_text := h\<rparr>,
      in_header := ''X-Key'', in_format := ''t %s''\<rparr>) [''a.b'', ''c'']"

lemma parse_inject_ex_run: "parse_inject ''s@a.b,C=X-Key:t %s'' = Inr (''s'', parse_inject_ex)"
  by code_simp

theorem parse_inject_correct_witness:
  "list_all (\<lambda>r. validate_inject r = None \<and> pattern_ok (in_domain r) \<and> \<not> is_any (in_domain r)) parse_inject_ex"
  using parse_inject_correct [OF parse_inject_ex_run] unfolding list_all_iff by (elim conjE)

text \<open>
  A rule that is written out is read back. For every service, every list of domains that are not
  catch-alls, every header name and every valid format whose last character is visible, the compact form
  parses to exactly these rules.
\<close>

theorem inject_round_trip:
  assumes "trim_space service = service" "service \<noteq> []" "CHR ''@'' \<notin> set service"
    "ps \<noteq> []" "\<forall>p\<in>set ps. pattern_ok p \<and> \<not> is_any p"
    "valid_header_name hdr = None" "to_lower hdr \<noteq> scheme_bearer" "to_lower hdr \<noteq> scheme_basic"
    "count_sub ''%s'' fmt = 1" "count_sub ''%'' fmt = 1" "\<not> contains_any fmt newline" "graph (last fmt)"
  shows "parse_inject (service @ ''@'' @ join_with '','' (map pattern_string ps) @ ''='' @ hdr @ '':'' @ fmt) =
    Inr (service, map (\<lambda>p. zero_inject\<lparr>in_domain := p, in_header := hdr, in_format := fmt\<rparr>) ps)"
proof -
  let ?t = "zero_inject\<lparr>in_header := hdr, in_format := fmt\<rparr>"
  have graph: "graph c \<and> c \<noteq> CHR '':''" if "header_char c" for c
    using that by (auto simp: header_char_def char_class_defs)
  have hdr: "hdr \<noteq> []" "\<And>c. c \<in> set hdr \<Longrightarrow> graph c \<and> c \<noteq> CHR '':''"
    using assms(6) graph by (auto simp: valid_header_name_iff list_all_iff)
  have fmt: "fmt \<noteq> []" using assms(9) by (auto simp: count_sub.simps)
  have "trim_space (hdr @ '':'' @ fmt) = hdr @ '':'' @ fmt"
    by (rule trim_space_id) (use hdr fmt assms(12) in auto)
  moreover have colon: "CHR '':'' \<notin> set hdr" using hdr(2) by blast
  moreover have "trim_space hdr = hdr" by (rule trim_graph) (use hdr in auto)
  then have "parse_attachment (hdr @ '':'' @ fmt) = Inr ?t"
    using colon hdr(1) assms(7,8) cut_found [of "CHR '':''" hdr fmt] by (simp add: parse_attachment_def Let_def)
  moreover have sep: "c \<noteq> CHR '','' \<and> c \<noteq> CHR ''=''" if "p \<in> set ps" "c \<in> set (p_text p)" for p c
    using assms(5) that pattern_text_chars [of p c] by (auto simp: host_char_def label_char_def char_class_defs)
  have "split_on CHR '','' (join_with '','' (map pattern_string ps)) = map pattern_string ps"
    by (rule split_join) (use assms(4) sep in \<open>auto simp: pattern_string_def\<close>)
  moreover have "map_res (inject_for ?t) (map pattern_string ps) = Inr (map (\<lambda>p. ?t\<lparr>in_domain := p\<rparr>) ps)"
  proof -
    have valid: "inject_for ?t (pattern_string p) = Inr (?t\<lparr>in_domain := p\<rparr>)" if "p \<in> set ps" for p
    proof -
      have "parse_pattern (p_text p) = Inr p" "p_text p \<noteq> []" "\<not> is_any p"
        using that assms(5) parse_pattern_text pattern_text_not_Nil by auto
      moreover have "validate_inject (?t\<lparr>in_domain := p\<rparr>) = None"
        using calculation assms(6,9,10,11) fmt hdr
        by (simp add: validate_inject_def zero_inject_def effective_format_def check_header_def inject_header_def pattern_string_def)
      ultimately show ?thesis by (simp add: inject_for_def pattern_string_def)
    qed
    then have "map_res (\<lambda>p. inject_for ?t (pattern_string p)) ps = Inr (map (\<lambda>p. ?t\<lparr>in_domain := p\<rparr>) ps)"
      by (rule map_res_map)
    then show ?thesis by (simp add: map_res_of_map)
  qed
  moreover have "CHR ''='' \<notin> set (join_with '','' (map pattern_string ps))"
    using set_join [of "'',''" "map pattern_string ps"] sep by (fastforce simp: pattern_string_def)
  ultimately show ?thesis
    using assms(1-3) unfolding parse_inject_Inr
    by (intro exI [of _ service] exI [of _ "join_with '','' (map pattern_string ps)"] exI [of _ "hdr @ '':'' @ fmt"] exI [of _ ?t])
      (simp add: zero_inject_def)
qed

theorem inject_round_trip_witness: "parse_inject ''s@a.b=X-Key:t %s'' = Inr (''s'', [hd parse_inject_ex])"
proof -
  let ?p = "zero_pattern\<lparr>p_kind := Pat_exact, p_host := ''a.b'', p_text := ''a.b''\<rparr>"
  have "pattern_ok ?p \<and> \<not> is_any ?p" "valid_header_name ''X-Key'' = None" "to_lower ''X-Key'' = ''x-key''"
    "count_sub ''%s'' ''t %s'' = 1" "count_sub ''%'' ''t %s'' = 1" "\<not> contains_any ''t %s'' newline" "graph (last ''t %s'')"
    "trim_space ''s'' = ''s''" by code_simp+
  then show ?thesis
    using inject_round_trip [of "''s''" "[?p]" "''X-Key''" "''t %s''"] by (simp add: parse_inject_ex_def pattern_string_def)
qed

text \<open>A space at the end of a format is lost: the text behind the equals sign is trimmed as a whole.\<close>

theorem format_space_lost: "parse_inject ''s@a.b=X:%s '' = parse_inject ''s@a.b=X:%s'' \<and> is_ok (parse_inject ''s@a.b=X:%s '')"
  by code_simp

end
