(* ===== verification/Secret_Credential.thy ===== *)
theory Secret_Credential
  imports Secret_Rules "HOL-Library.AList"
begin

section \<open>Credentials: \<open>internal/secret/secret.go\<close> and \<open>internal/secret/oauth.go\<close>\<close>

text \<open>
  A credential is a service, the rules its secret is attached by, and for an OAuth credential the
  description of its token endpoint, its resource hosts and its sentinels. From a list of credentials
  follow the hosts whose traffic is read, the placeholders a guest is given, and the credential a token
  request is for. A template of a credential file is executed by a parameter, which yields nothing where
  Go's \<open>text/template\<close> reports an error.
\<close>

subsection \<open>OAuth descriptions\<close>

record endpoint =
  ep_host :: string
  ep_path :: string

definition endpoint_url :: "endpoint \<Rightarrow> string" where
  "endpoint_url e = ''https://'' @ ep_host e @ ep_path e"

record sentinels =
  se_access :: string
  se_refresh :: string

record response_fields =
  rf_access :: string
  rf_refresh :: string
  rf_expires :: string

definition access_field :: "response_fields \<Rightarrow> string" where
  "access_field f = (if rf_access f \<noteq> [] then rf_access f else ''access_token'')"

definition refresh_field :: "response_fields \<Rightarrow> string" where
  "refresh_field f = (if rf_refresh f \<noteq> [] then rf_refresh f else ''refresh_token'')"

definition expires_field :: "response_fields \<Rightarrow> string" where
  "expires_field f = (if rf_expires f \<noteq> [] then rf_expires f else ''expires_in'')"

record credential_file =
  cf_path :: string
  cf_template :: string

record oauth =
  oa_endpoint :: endpoint
  oa_client :: string
  oa_encoding :: string
  oa_hosts :: "pattern list"
  oa_headers :: "string list"
  oa_sentinels :: sentinels
  oa_env :: string
  oa_file :: credential_file
  oa_fields :: response_fields
  oa_scopes :: "string list"
  oa_subscription :: string

definition oauth_headers :: "oauth \<Rightarrow> string list" where
  "oauth_headers o' = (if oa_headers o' = [] then [''Authorization''] else oa_headers o')"

definition oauth_encoding :: "oauth \<Rightarrow> string" where
  "oauth_encoding o' = (if oa_encoding o' = [] then ''json'' else oa_encoding o')"

text \<open>What a credential file's template is given; times are counted in nanoseconds.\<close>

record file_data =
  fd_access :: string
  fd_refresh :: string
  fd_expires_ms :: int
  fd_expires_s :: int
  fd_scopes :: "string list"
  fd_subscription :: string

definition sentinel_lifetime :: int where
  "sentinel_lifetime = 365 * 24 * 60 * 60 * 1000000000"

definition render_file :: "(string \<Rightarrow> file_data \<Rightarrow> string option) \<Rightarrow> int \<Rightarrow> oauth \<Rightarrow> string option" where
  "render_file exec now o' =
     (let expiry = now + sentinel_lifetime
      in exec (cf_template (oa_file o'))
           \<lparr>fd_access = se_access (oa_sentinels o'), fd_refresh = se_refresh (oa_sentinels o'),
            fd_expires_ms = expiry div 1000000, fd_expires_s = expiry div 1000000000,
            fd_scopes = oa_scopes o', fd_subscription = oa_subscription o'\<rparr>)"

datatype sentinel_error = No_sentinel string | Short_sentinel string nat | Newline_sentinel string

definition valid_sentinel :: "string \<Rightarrow> string \<Rightarrow> sentinel_error option" where
  "valid_sentinel which s =
     (if s = [] then Some (No_sentinel which)
      else if length s < 16 then Some (Short_sentinel which (length s))
      else if contains_any s newline then Some (Newline_sentinel which)
      else None)"

datatype oauth_error =
    No_endpoint_host | Endpoint_is_url string | Bad_endpoint_path string | No_resource_hosts | Catch_all_resource
  | Empty_resource | Unknown_encoding string | Oauth_header header_error | Oauth_sentinel sentinel_error
  | Same_sentinels | Relative_file string | No_template | Bad_template

fun first_some :: "('a \<Rightarrow> 'e option) \<Rightarrow> 'a list \<Rightarrow> 'e option" where
  "first_some f [] = None"
| "first_some f (x # xs) = (case f x of None \<Rightarrow> first_some f xs | Some e \<Rightarrow> Some e)"

definition check_resource :: "pattern \<Rightarrow> oauth_error option" where
  "check_resource h =
     (if is_any h then Some Catch_all_resource else if pattern_string h = [] then Some Empty_resource else None)"

definition check_file :: "(string \<Rightarrow> file_data \<Rightarrow> string option) \<Rightarrow> int \<Rightarrow> oauth \<Rightarrow> oauth_error option" where
  "check_file exec now o' =
     (if cf_path (oa_file o') = [] then None
      else if \<not> prefix ''/'' (cf_path (oa_file o')) then Some (Relative_file (cf_path (oa_file o')))
      else if cf_template (oa_file o') = [] then Some No_template
      else if render_file exec now o' = None then Some Bad_template
      else None)"

definition check_sentinels :: "sentinels \<Rightarrow> oauth_error option" where
  "check_sentinels s =
     (case valid_sentinel ''access'' (se_access s) of
        Some e \<Rightarrow> Some (Oauth_sentinel e)
      | None \<Rightarrow>
          if se_refresh s = [] then None
          else (case valid_sentinel ''refresh'' (se_refresh s) of
              Some e \<Rightarrow> Some (Oauth_sentinel e)
            | None \<Rightarrow> if se_refresh s = se_access s then Some Same_sentinels else None))"

definition validate_oauth :: "(string \<Rightarrow> file_data \<Rightarrow> string option) \<Rightarrow> int \<Rightarrow> oauth \<Rightarrow> oauth_error option" where
  "validate_oauth exec now o' =
     (if ep_host (oa_endpoint o') = [] then Some No_endpoint_host
      else if contains_any (ep_host (oa_endpoint o')) ''/ '' then Some (Endpoint_is_url (ep_host (oa_endpoint o')))
      else if \<not> prefix ''/'' (ep_path (oa_endpoint o')) then Some (Bad_endpoint_path (ep_path (oa_endpoint o')))
      else if oa_hosts o' = [] then Some No_resource_hosts
      else (case first_some check_resource (oa_hosts o') of Some e \<Rightarrow> Some e | None \<Rightarrow>
        if oa_encoding o' \<notin> {[], ''json'', ''form''} then Some (Unknown_encoding (oa_encoding o'))
        else (case first_some valid_header_name (oauth_headers o') of Some e \<Rightarrow> Some (Oauth_header e) | None \<Rightarrow>
          (case check_sentinels (oa_sentinels o') of Some e \<Rightarrow> Some e | None \<Rightarrow> check_file exec now o'))))"

definition matches_resource :: "oauth option \<Rightarrow> target \<Rightarrow> bool" where
  "matches_resource oo t = (case oo of None \<Rightarrow> False | Some o' \<Rightarrow> list_ex (\<lambda>h. pattern_match h t) (oa_hosts o'))"

definition matches_token_endpoint :: "oauth option \<Rightarrow> target \<Rightarrow> bool" where
  "matches_token_endpoint oo t = (case oo of None \<Rightarrow> False | Some o' \<Rightarrow> equal_fold (t_host t) (ep_host (oa_endpoint o')))"

definition oauth_domains :: "oauth option \<Rightarrow> string list" where
  "oauth_domains oo =
     (case oo of None \<Rightarrow> [] | Some o' \<Rightarrow> map pattern_string (oa_hosts o') @ [ep_host (oa_endpoint o')])"

subsection \<open>Credentials\<close>

record credential =
  cr_service :: string
  cr_description :: string
  cr_env :: string
  cr_managed :: bool
  cr_placeholder :: string
  cr_inject :: "inject list"
  cr_oauth :: "oauth option"

definition new_credential :: "string \<Rightarrow> credential" where
  "new_credential service =
     \<lparr>cr_service = service, cr_description = [], cr_env = [], cr_managed = False, cr_placeholder = [],
      cr_inject = [], cr_oauth = None\<rparr>"

datatype credential_error =
    No_service | No_rules string | Bad_oauth string oauth_error | Placeholder_newline string
  | Bad_inject string inject_error

definition validate_credential ::
    "(string \<Rightarrow> file_data \<Rightarrow> string option) \<Rightarrow> int \<Rightarrow> credential \<Rightarrow> credential_error option" where
  "validate_credential exec now c =
     (if cr_service c = [] then Some No_service
      else if cr_inject c = [] \<and> cr_oauth c = None then Some (No_rules (cr_service c))
      else (case Option.bind (cr_oauth c) (validate_oauth exec now) of
          Some e \<Rightarrow> Some (Bad_oauth (cr_service c) e)
        | None \<Rightarrow>
            if contains_any (cr_placeholder c) newline then Some (Placeholder_newline (cr_service c))
            else map_option (Bad_inject (cr_service c)) (first_some validate_inject (cr_inject c))))"

definition credential_domains :: "credential \<Rightarrow> string list" where
  "credential_domains c = map (\<lambda>r. pattern_string (in_domain r)) (cr_inject c) @ oauth_domains (cr_oauth c)"

definition credential_hosts :: "credential list \<Rightarrow> string list" where
  "credential_hosts cs = sort (remdups (concat (map credential_domains cs)))"

definition placeholder_key :: "credential \<Rightarrow> string" where
  "placeholder_key c = (if cr_env c = [] then cr_service c else cr_env c)"

definition placeholders :: "credential list \<Rightarrow> (string \<times> string) list" where
  "placeholders cs =
     foldl (\<lambda>m c. if cr_placeholder c = [] then m else AList.update (placeholder_key c) (cr_placeholder c) m) [] cs"

record rendered_file =
  rn_service :: string
  rn_path :: string
  rn_content :: string

definition credential_file_of ::
    "(string \<Rightarrow> file_data \<Rightarrow> string option) \<Rightarrow> int \<Rightarrow> credential \<Rightarrow> string + rendered_file list" where
  "credential_file_of exec now c =
     (case cr_oauth c of
        None \<Rightarrow> Inr []
      | Some o' \<Rightarrow>
          if cf_path (oa_file o') = [] then Inr []
          else (case render_file exec now o' of
              None \<Rightarrow> Inl (cr_service c)
            | Some content \<Rightarrow> Inr [\<lparr>rn_service = cr_service c, rn_path = cf_path (oa_file o'), rn_content = content\<rparr>]))"

definition credential_files ::
    "(string \<Rightarrow> file_data \<Rightarrow> string option) \<Rightarrow> int \<Rightarrow> credential list \<Rightarrow> string + rendered_file list" where
  "credential_files exec now cs =
     (case map_res (credential_file_of exec now) cs of
        Inl e \<Rightarrow> Inl e
      | Inr fs \<Rightarrow> Inr (sort_key rn_path (concat fs)))"

subsection \<open>From the command line\<close>

datatype credentials_error = Inject_spec string parse_inject_error | Guest_spec string guest_error | Guest_without_rule string

definition add_rules :: "string \<Rightarrow> inject list \<Rightarrow> (string \<times> credential) list \<Rightarrow> (string \<times> credential) list" where
  "add_rules service rules m =
     (let c = (case map_of m service of None \<Rightarrow> new_credential service | Some c \<Rightarrow> c)
      in AList.update service (c\<lparr>cr_inject := cr_inject c @ rules\<rparr>) m)"

fun inject_specs :: "string list \<Rightarrow> (string \<times> credential) list \<Rightarrow> credentials_error + (string \<times> credential) list" where
  "inject_specs [] m = Inr m"
| "inject_specs (spec # specs) m =
     (case parse_inject spec of
        Inl e \<Rightarrow> Inl (Inject_spec spec e)
      | Inr (service, rules) \<Rightarrow> inject_specs specs (add_rules service rules m))"

fun guest_specs :: "string list \<Rightarrow> (string \<times> credential) list \<Rightarrow> credentials_error + (string \<times> credential) list" where
  "guest_specs [] m = Inr m"
| "guest_specs (spec # specs) m =
     (case parse_guest_credential spec of
        Inl e \<Rightarrow> Inl (Guest_spec spec e)
      | Inr (service, env, placeholder) \<Rightarrow>
          (case map_of m service of
             None \<Rightarrow> Inl (Guest_without_rule spec)
           | Some c \<Rightarrow>
               guest_specs specs
                 (AList.update service (c\<lparr>cr_env := env, cr_placeholder := placeholder, cr_managed := True\<rparr>) m)))"

definition parse_credentials :: "string list \<Rightarrow> string list \<Rightarrow> credentials_error + credential list" where
  "parse_credentials rules_in guest =
     (case inject_specs rules_in [] of
        Inl e \<Rightarrow> Inl e
      | Inr m \<Rightarrow> (case guest_specs guest m of Inl e \<Rightarrow> Inl e | Inr m \<Rightarrow> Inr (map snd m)))"

subsection \<open>The questions the proxy asks\<close>

text \<open>The checks of \<open>NewInjector\<close> on the credentials, with what the provider can do.\<close>

datatype injector_error =
  No_provider | Injector_credential credential_error | Defined_twice string | No_oauth_store string

fun check_credentials ::
    "(string \<Rightarrow> file_data \<Rightarrow> string option) \<Rightarrow> int \<Rightarrow> string set \<Rightarrow> credential list \<Rightarrow> injector_error option" where
  "check_credentials exec now seen [] = None"
| "check_credentials exec now seen (c # cs) =
     (case validate_credential exec now c of
        Some e \<Rightarrow> Some (Injector_credential e)
      | None \<Rightarrow>
          if cr_service c \<in> seen then Some (Defined_twice (cr_service c))
          else check_credentials exec now (insert (cr_service c) seen) cs)"

definition check_injector ::
    "(string \<Rightarrow> file_data \<Rightarrow> string option) \<Rightarrow> int \<Rightarrow> bool \<Rightarrow> bool \<Rightarrow> credential list \<Rightarrow> injector_error option" where
  "check_injector exec now provider oauth_store cs =
     (if \<not> provider \<and> cs \<noteq> [] then Some No_provider
      else (case check_credentials exec now {} cs of
          Some e \<Rightarrow> Some e
        | None \<Rightarrow>
            (if oauth_store then None
             else map_option (\<lambda>c. No_oauth_store (cr_service c)) (find (\<lambda>c. cr_oauth c \<noteq> None) cs))))"

definition handles :: "credential list \<Rightarrow> target \<Rightarrow> bool" where
  "handles cs t =
     list_ex (\<lambda>c. list_ex (\<lambda>r. pattern_match (in_domain r) t) (cr_inject c) \<or>
        matches_resource (cr_oauth c) t \<or> matches_token_endpoint (cr_oauth c) t) cs"

definition token_endpoint_for :: "credential list \<Rightarrow> target \<Rightarrow> string \<Rightarrow> credential option" where
  "token_endpoint_for cs t path =
     find (\<lambda>c. matches_token_endpoint (cr_oauth c) t \<and> path = ep_path (oa_endpoint (the (cr_oauth c)))) cs"

subsection \<open>Lemmas\<close>

lemma first_some_None: "first_some f xs = None \<longleftrightarrow> (\<forall>x\<in>set xs. f x = None)"
  by (induction xs) (auto split: option.split)

lemma validate_credential_None:
  "validate_credential exec now c = None \<longleftrightarrow>
     cr_service c \<noteq> [] \<and> (cr_inject c \<noteq> [] \<or> cr_oauth c \<noteq> None) \<and>
     Option.bind (cr_oauth c) (validate_oauth exec now) = None \<and> \<not> contains_any (cr_placeholder c) newline \<and>
     (\<forall>r\<in>set (cr_inject c). validate_inject r = None)"
  by (auto simp: validate_credential_def first_some_None split: option.splits)

lemma validate_oauth_hosts:
  "validate_oauth exec now o' = None \<Longrightarrow> oa_hosts o' \<noteq> [] \<and> (\<forall>p\<in>set (oa_hosts o'). \<not> is_any p \<and> pattern_string p \<noteq> [])"
  by (auto simp: validate_oauth_def first_some_None check_resource_def split: if_splits option.splits)

lemma check_credentials_None:
  "check_credentials exec now seen cs = None \<longleftrightarrow>
     (\<forall>c\<in>set cs. validate_credential exec now c = None) \<and> distinct (map cr_service cs) \<and> seen \<inter> cr_service ` set cs = {}"
  by (induction cs arbitrary: seen) (auto split: option.splits)

text \<open>The list of credentials that is being built, by service.\<close>

definition service_map :: "(string \<times> credential) list \<Rightarrow> bool" where
  "service_map m \<longleftrightarrow> map_ok (\<lambda>s c. cr_service c = s \<and> s \<noteq> [] \<and> cr_oauth c = None \<and> cr_inject c \<noteq> [] \<and>
     (\<forall>r\<in>set (cr_inject c). validate_inject r = None)) m"

lemma add_rules_ok:
  assumes "service_map m" "parse_inject spec = Inr (service, rules)"
  shows "service_map (add_rules service rules m)"
proof -
  show ?thesis
    using assms(1) parse_inject_Inr_ok [OF assms(2)] unfolding service_map_def add_rules_def Let_def
    by (intro map_ok_update) (auto simp: new_credential_def dest: map_ok_get split: option.split)
qed

lemma inject_specs_ok: "inject_specs specs m = Inr m' \<Longrightarrow> service_map m \<Longrightarrow> service_map m'"
  by (induction specs m rule: inject_specs.induct) (auto split: sum.splits dest: add_rules_ok)

lemma guest_specs_ok: "guest_specs specs m = Inr m' \<Longrightarrow> service_map m \<Longrightarrow> service_map m'"
proof (induction specs m rule: guest_specs.induct)
  case (2 spec specs m)
  then obtain service env p c where g: "parse_guest_credential spec = Inr (service, env, p)" "map_of m service = Some c"
    and rest: "guest_specs specs (AList.update service (c\<lparr>cr_env := env, cr_placeholder := p, cr_managed := True\<rparr>) m) = Inr m'"
    by (auto split: sum.splits option.splits)
  have "service_map (AList.update service (c\<lparr>cr_env := env, cr_placeholder := p, cr_managed := True\<rparr>) m)"
    using 2(3) g(2) unfolding service_map_def by (intro map_ok_update) (auto dest: map_ok_get)
  then show ?case using 2(1) [OF g(1) refl refl g(2) rest] by simp
qed simp

lemma guest_specs_rules:
  "guest_specs specs m = Inr m' \<Longrightarrow> map fst m' = map fst m \<and> (\<forall>s. map_option cr_inject (map_of m' s) = map_option cr_inject (map_of m s))"
proof (induction specs m rule: guest_specs.induct)
  case (2 spec specs m)
  then obtain service env p c where g: "parse_guest_credential spec = Inr (service, env, p)" "map_of m service = Some c"
    and rest: "guest_specs specs (AList.update service (c\<lparr>cr_env := env, cr_placeholder := p, cr_managed := True\<rparr>) m) = Inr m'"
    by (auto split: sum.splits option.splits)
  have "service \<in> fst ` set m" using g(2) by (metis domI dom_map_of_conv_image_fst)
  then show ?case using 2(1) [OF g(1) refl refl g(2) rest] g(2) by (auto simp: update_keys update_conv')
qed simp

text \<open>The rules of a service are those of the specifications that name it, in order.\<close>

definition rules_of :: "string \<Rightarrow> string list \<Rightarrow> inject list" where
  "rules_of service specs =
     concat (map (\<lambda>spec. case parse_inject spec of Inr (s, rules) \<Rightarrow> if s = service then rules else [] | Inl _ \<Rightarrow> []) specs)"

definition rules_at :: "string \<Rightarrow> (string \<times> credential) list \<Rightarrow> inject list" where
  "rules_at service m = (case map_of m service of None \<Rightarrow> [] | Some c \<Rightarrow> cr_inject c)"

lemma inject_specs_rules:
  "inject_specs specs m = Inr m' \<Longrightarrow> rules_at service m' = rules_at service m @ rules_of service specs"
proof (induction specs m rule: inject_specs.induct)
  case (2 spec specs m)
  then obtain s rules where p: "parse_inject spec = Inr (s, rules)" "inject_specs specs (add_rules s rules m) = Inr m'"
    by (auto split: sum.splits)
  have "rules_at service (add_rules s rules m) = rules_at service m @ (if s = service then rules else [])"
    by (auto simp: rules_at_def add_rules_def update_conv' new_credential_def Let_def split: option.split)
  then show ?case using 2(1) [OF p(1) refl p(2)] p(1) by (simp add: rules_of_def)
qed (simp add: rules_of_def)

lemma fold_case_host: "list_all host_char h \<Longrightarrow> fold_case h = h"
proof -
  assume "list_all host_char h"
  then have "is_ascii c \<and> \<not> is_upper c" if "c \<in> set h" for c
    using that by (auto simp: list_all_iff host_char_def label_char_def char_class_defs)
  then show ?thesis by (simp add: fold_case_ascii map_idI)
qed

lemma equal_fold_host: "host_ok h a \<Longrightarrow> host_ok h' a' \<Longrightarrow> equal_fold h h' \<longleftrightarrow> h = h'"
  using host_ok_shape(3) [of h a] host_ok_shape(3) [of h' a'] by (simp add: equal_fold_def fold_case_host list_all_iff)

lemma endpoint_pattern:
  assumes "host_ok h Addr_none" "target_ok t"
  shows "equal_fold (t_host t) h \<longleftrightarrow> (\<exists>p. parse_pattern h = Inr p \<and> pattern_match p t)"
proof -
  have t: "host_ok (t_host t) (t_addr t)" using assms(2) by (simp add: target_ok_def)
  have no: "\<not> addr_valid Addr_none" by (simp add: addr_valid_def)
  have "\<not> target_is_ip t" if "t_host t = h"
    using host_ok_parse [OF assms(1)] host_ok_parse [OF t] that no by (auto simp: target_is_ip_def split: if_splits)
  then show ?thesis
    using equal_fold_host [OF t assms(1)] parse_pattern_host [OF assms(1)] no by (auto simp: pattern_match_def)
qed

subsection \<open>Properties\<close>

text \<open>
  The hosts that are listed are the hosts that are read. The proxy terminates TLS for a target exactly
  when one of the domains the command line prints for these credentials, read as a pattern, covers it.
\<close>

theorem listed_hosts_are_read:
  assumes "\<forall>c\<in>set cs. (\<forall>r\<in>set (cr_inject c). pattern_ok (in_domain r)) \<and>
      (\<forall>o'. cr_oauth c = Some o' \<longrightarrow> list_all pattern_ok (oa_hosts o') \<and> host_ok (ep_host (oa_endpoint o')) Addr_none)"
    "target_ok t"
  shows "handles cs t \<longleftrightarrow> (\<exists>d\<in>set (credential_hosts cs). \<exists>p. parse_pattern d = Inr p \<and> pattern_match p t)"
proof -
  define covers where "covers d \<longleftrightarrow> (\<exists>p. parse_pattern d = Inr p \<and> pattern_match p t)" for d
  have rule: "covers (pattern_string p) \<longleftrightarrow> pattern_match p t" if "pattern_ok p" for p
    using that parse_pattern_text [of p] by (auto simp: pattern_string_def covers_def)
  have host: "covers h \<longleftrightarrow> equal_fold (t_host t) h" if "host_ok h Addr_none" for h
    unfolding covers_def using endpoint_pattern [OF that assms(2)] by simp
  have dom: "(\<exists>d\<in>set (credential_domains c). covers d) \<longleftrightarrow>
      list_ex (\<lambda>r. pattern_match (in_domain r) t) (cr_inject c) \<or> matches_resource (cr_oauth c) t \<or> matches_token_endpoint (cr_oauth c) t"
    if "c \<in> set cs" for c
  proof -
    have "(\<exists>r\<in>set (cr_inject c). covers (pattern_string (in_domain r))) \<longleftrightarrow> list_ex (\<lambda>r. pattern_match (in_domain r) t) (cr_inject c)"
      using assms(1) that rule by (auto simp: list_ex_iff)
    moreover have "(\<exists>d\<in>set (oauth_domains (cr_oauth c)). covers d) \<longleftrightarrow>
        matches_resource (cr_oauth c) t \<or> matches_token_endpoint (cr_oauth c) t"
    proof (cases "cr_oauth c")
      case (Some o')
      then have ok: "\<forall>p\<in>set (oa_hosts o'). pattern_ok p" "host_ok (ep_host (oa_endpoint o')) Addr_none"
        using assms(1) that by (auto simp: list_all_iff)
      have "(\<exists>p\<in>set (oa_hosts o'). covers (pattern_string p)) \<longleftrightarrow> list_ex (\<lambda>h. pattern_match h t) (oa_hosts o')"
        using ok(1) rule by (auto simp: list_ex_iff)
      then show ?thesis
        by (simp add: Some oauth_domains_def matches_resource_def matches_token_endpoint_def host [OF ok(2)] bex_Un disj_commute)
    qed (simp add: oauth_domains_def matches_resource_def matches_token_endpoint_def)
    ultimately show ?thesis by (simp add: credential_domains_def bex_Un)
  qed
  have "(\<exists>d\<in>set (credential_hosts cs). covers d) \<longleftrightarrow> (\<exists>c\<in>set cs. \<exists>d\<in>set (credential_domains c). covers d)"
    by (auto simp: credential_hosts_def)
  also have "\<dots> \<longleftrightarrow> handles cs t" using dom by (auto simp: handles_def list_ex_iff)
  finally show ?thesis by (simp add: covers_def)
qed

definition oauth_ex :: oauth where
  "oauth_ex =
     \<lparr>oa_endpoint = \<lparr>ep_host = ''auth.b'', ep_path = ''/token''\<rparr>, oa_client = ''cli'', oa_encoding = [],
      oa_hosts = [zero_pattern\<lparr>p_kind := Pat_exact, p_host := ''api.b'', p_text := ''api.b''\<rparr>], oa_headers = [],
      oa_sentinels = \<lparr>se_access = ''sentinel-access-0'', se_refresh = ''sentinel-refresh-0''\<rparr>, oa_env = [],
      oa_file = \<lparr>cf_path = [], cf_template = []\<rparr>, oa_fields = \<lparr>rf_access = [], rf_refresh = [], rf_expires = []\<rparr>,
      oa_scopes = [], oa_subscription = []\<rparr>"

definition credentials_ex :: "credential list" where
  "credentials_ex = [(new_credential ''b'')\<lparr>cr_oauth := Some oauth_ex\<rparr>, (new_credential ''a'')\<lparr>cr_inject := [inject_ex]\<rparr>]"

theorem listed_hosts_are_read_witness:
  "handles credentials_ex (target_from_addr (A4 0x01020304) 443) \<longleftrightarrow>
     (\<exists>d\<in>set (credential_hosts credentials_ex). \<exists>p. parse_pattern d = Inr p \<and> pattern_match p (target_from_addr (A4 0x01020304) 443))"
proof (rule listed_hosts_are_read)
  have "\<not> addr_valid Addr_none" by code_simp
  moreover have "valid_hostname ''auth.b'' = None \<and> parse_addr ''auth.b'' = None" "valid_hostname ''api.b'' = None \<and> parse_addr ''api.b'' = None"
    "valid_hostname ''a.b'' = None \<and> parse_addr ''a.b'' = None"
    by code_simp+
  ultimately show "\<forall>c\<in>set credentials_ex. (\<forall>r\<in>set (cr_inject c). pattern_ok (in_domain r)) \<and>
      (\<forall>o'. cr_oauth c = Some o' \<longrightarrow> list_all pattern_ok (oa_hosts o') \<and> host_ok (ep_host (oa_endpoint o')) Addr_none)"
    by (simp add: credentials_ex_def new_credential_def oauth_ex_def inject_ex_def zero_inject_def pattern_ok_def zero_pattern_def
        host_ok_def)
  show "target_ok (target_from_addr (A4 0x01020304) 443)" by (rule target_from_addr_ok) code_simp+
qed

lemma parsed_entries:
  assumes "parse_credentials rules_in guest = Inr cs"
  shows "distinct (map cr_service cs)"
    and "c \<in> set cs \<Longrightarrow> cr_service c \<noteq> [] \<and> cr_oauth c = None \<and> cr_inject c \<noteq> [] \<and> cr_inject c = rules_of (cr_service c) rules_in \<and>
      (\<forall>r\<in>set (cr_inject c). validate_inject r = None)"
proof -
  obtain m0 m where m: "inject_specs rules_in [] = Inr m0" "guest_specs guest m0 = Inr m" "cs = map snd m"
    using assms by (auto simp: parse_credentials_def split: sum.splits)
  have sm: "service_map m"
    using inject_specs_ok [OF m(1)] guest_specs_ok [OF m(2)] by (simp add: service_map_def)
  then have dist: "distinct (map fst m)" by (simp add: service_map_def map_ok_distinct)
  have entry: "cr_service c = s \<and> s \<noteq> [] \<and> cr_oauth c = None \<and> cr_inject c \<noteq> [] \<and>
      (\<forall>r\<in>set (cr_inject c). validate_inject r = None) \<and> cr_inject c = rules_of s rules_in" if "(s, c) \<in> set m" for s c
  proof -
    have get: "map_of m s = Some c" using dist that by simp
    then have "map_option cr_inject (map_of m0 s) = Some (cr_inject c)"
      using guest_specs_rules [OF m(2)] by (metis option.map(2))
    then have "rules_at s m0 = cr_inject c" by (auto simp: rules_at_def)
    then have "cr_inject c = rules_of s rules_in" using inject_specs_rules [OF m(1), of s] by (simp add: rules_at_def)
    then show ?thesis using sm get unfolding service_map_def by (auto dest: map_ok_get)
  qed
  then have "map cr_service cs = map fst m" by (auto simp: m(3))
  then show "distinct (map cr_service cs)" using dist by simp
  show "c \<in> set cs \<Longrightarrow> cr_service c \<noteq> [] \<and> cr_oauth c = None \<and> cr_inject c \<noteq> [] \<and> cr_inject c = rules_of (cr_service c) rules_in \<and>
      (\<forall>r\<in>set (cr_inject c). validate_inject r = None)"
    using entry by (fastforce simp: m(3))
qed

text \<open>
  What the command line accepts. The credentials have one entry per service, each with exactly the rules
  its specifications give, in order; every rule is valid; and an injector takes the credentials over such
  a list except when a placeholder holds a newline, which only the injector looks for.
\<close>

theorem parsed_credentials:
  assumes "parse_credentials rules_in guest = Inr cs"
  shows "distinct (map cr_service cs) \<and>
     (\<forall>c\<in>set cs. cr_service c \<noteq> [] \<and> cr_oauth c = None \<and> cr_inject c \<noteq> [] \<and> cr_inject c = rules_of (cr_service c) rules_in \<and>
        (\<forall>r\<in>set (cr_inject c). validate_inject r = None)) \<and>
     (check_injector exec now True os cs = None \<longleftrightarrow> (\<forall>c\<in>set cs. \<not> contains_any (cr_placeholder c) newline))"
proof -
  have "distinct (map cr_service cs)" by (rule parsed_entries(1) [OF assms])
  moreover have all: "\<forall>c\<in>set cs. cr_service c \<noteq> [] \<and> cr_oauth c = None \<and> cr_inject c \<noteq> [] \<and>
      cr_inject c = rules_of (cr_service c) rules_in \<and> (\<forall>r\<in>set (cr_inject c). validate_inject r = None)"
    using parsed_entries(2) [OF assms] by blast
  moreover have "check_credentials exec now {} cs = None \<longleftrightarrow> (\<forall>c\<in>set cs. \<not> contains_any (cr_placeholder c) newline)"
    using calculation by (auto simp: check_credentials_None validate_credential_None)
  moreover have "find (\<lambda>c. cr_oauth c \<noteq> None) cs = None" using all by (simp add: find_None_iff)
  then have "check_injector exec now True os cs = None \<longleftrightarrow> check_credentials exec now {} cs = None"
    by (simp add: check_injector_def split: option.split)
  ultimately show ?thesis by (intro conjI) (assumption, assumption, simp only: simp_thms)
qed

theorem parsed_credentials_witness:
  "\<exists>c. parse_credentials [''s@a.b,C=X-Key:t %s''] [] = Inr [c] \<and> cr_inject c = rules_of (cr_service c) [''s@a.b,C=X-Key:t %s'']"
proof -
  have "\<exists>c. parse_credentials [''s@a.b,C=X-Key:t %s''] [] = Inr [c]"
    by (simp add: parse_credentials_def parse_inject_ex_run add_rules_def new_credential_def Let_def)
  then show ?thesis using parsed_credentials by fastforce
qed

end
