(* ===== verification/Secret_Tokens.thy ===== *)
theory Secret_Tokens
  imports Secret_Credential Complex_Main
begin

section \<open>Token exchanges: \<open>oauth.go\<close>, \<open>acquire.go\<close> and \<open>tokenrequest.go\<close> of \<open>internal/secret\<close>\<close>

text \<open>
  What Boks reads and writes at a token endpoint: the response it takes tokens from, the one it
  composes of sentinels, the masking of a response that is passed to the guest, the refresh request, and
  the question whose request a guest's token request is. A JSON text is decoded and encoded by two
  parameters; the object of a decoded text lists its fields in the order they appear.
\<close>

subsection \<open>Tokens\<close>

text \<open>Times and durations count nanoseconds; the zero time is \<open>None\<close>.\<close>

record tokens =
  tk_access :: secret_value
  tk_refresh :: secret_value
  tk_expiry :: "int option"

definition zero_tokens :: tokens where
  "zero_tokens = \<lparr>tk_access = new_value [], tk_refresh = new_value [], tk_expiry = None\<rparr>"

definition tokens_zero :: "tokens \<Rightarrow> bool" where
  "tokens_zero t \<longleftrightarrow> value_is_zero (tk_access t)"

definition expired :: "int \<Rightarrow> int \<Rightarrow> tokens \<Rightarrow> bool" where
  "expired now skew t = (case tk_expiry t of None \<Rightarrow> False | Some e \<Rightarrow> \<not> now + skew < e)"

definition default_skew :: int where
  "default_skew = 2 * 60 * 1000000000"

subsection \<open>JSON documents\<close>

datatype json =
  J_null | J_bool bool | J_num rat | J_str string | J_list "json list" | J_obj "(string \<times> json) list"

text \<open>A field that appears twice has its last value in a Go map.\<close>

definition j_field :: "string \<Rightarrow> (string \<times> json) list \<Rightarrow> json option" where
  "j_field k kvs = map_of (rev kvs) k"

definition j_text :: "json option \<Rightarrow> string" where
  "j_text v = (case v of Some (J_str s) \<Rightarrow> s | _ \<Rightarrow> [])"

subsection \<open>Reading a token response\<close>

text \<open>
  A number of seconds becomes a 64 bit duration: it is truncated, and the product with a second wraps
  around. A number no 64 bit integer holds is converted as amd64 does it.
\<close>

definition float_to_int64 :: "rat \<Rightarrow> int" where
  "float_to_int64 q = (if q < 2 ^ 63 then \<lfloor>q\<rfloor> else - (2 ^ 63))"

definition wrap64 :: "int \<Rightarrow> int" where
  "wrap64 n = (n + 2 ^ 63) mod 2 ^ 64 - 2 ^ 63"

definition token_expiry :: "json option \<Rightarrow> int \<Rightarrow> int option" where
  "token_expiry v now =
     (case v of Some (J_num q) \<Rightarrow> if 0 < q then Some (now + wrap64 (float_to_int64 q * 1000000000)) else None | _ \<Rightarrow> None)"

text \<open>A text that decodes into a Go map: an object, or \<open>null\<close>, which leaves the map empty.\<close>

definition object_of :: "json option \<Rightarrow> (string \<times> json) list option" where
  "object_of d = (case d of Some (J_obj kvs) \<Rightarrow> Some kvs | Some J_null \<Rightarrow> Some [] | _ \<Rightarrow> None)"

datatype token_error = Not_an_object | No_access_field string

definition parse_token_response ::
    "(string \<Rightarrow> json option) \<Rightarrow> string \<Rightarrow> response_fields \<Rightarrow> int \<Rightarrow> token_error + tokens" where
  "parse_token_response decode body rf now =
     (case object_of (decode body) of
        None \<Rightarrow> Inl Not_an_object
      | Some raw \<Rightarrow>
          (let access = j_text (j_field (access_field rf) raw)
           in if access = [] then Inl (No_access_field (access_field rf))
              else Inr \<lparr>tk_access = new_value access,
                        tk_refresh = new_value (j_text (j_field (refresh_field rf) raw)),
                        tk_expiry = token_expiry (j_field (expires_field rf) raw) now\<rparr>))"

subsection \<open>The response Boks composes\<close>

definition j_put :: "string \<Rightarrow> json \<Rightarrow> (string \<times> json) list \<Rightarrow> (string \<times> json) list" where
  "j_put k v kvs = AList.update k v kvs"

definition token_response :: "oauth \<Rightarrow> json" where
  "token_response o' =
     (let f = oa_fields o';
          payload = j_put ''token_type'' (J_str ''Bearer'')
            (j_put (expires_field f) (J_num (of_int (sentinel_lifetime div 1000000000)))
              (j_put (access_field f) (J_str (se_access (oa_sentinels o'))) []));
          payload = (if se_refresh (oa_sentinels o') = [] then payload
            else j_put (refresh_field f) (J_str (se_refresh (oa_sentinels o'))) payload);
          payload = (if oa_scopes o' = [] then payload else j_put ''scope'' (J_str (join_with '' '' (oa_scopes o'))) payload)
      in J_obj payload)"

subsection \<open>Masking a response\<close>

definition refresh_sentinel :: "oauth \<Rightarrow> string" where
  "refresh_sentinel o' =
     (if se_refresh (oa_sentinels o') \<noteq> [] then se_refresh (oa_sentinels o') else se_access (oa_sentinels o'))"

definition mask_pairs :: "oauth \<Rightarrow> tokens \<Rightarrow> (string \<times> string) list" where
  "mask_pairs o' t =
     (reveal (tk_access t), se_access (oa_sentinels o')) #
     (if reveal (tk_refresh t) = [] then [] else [(reveal (tk_refresh t), refresh_sentinel o')])"

text \<open>Field names are masked like texts, and a field that then appears twice keeps one value.\<close>

primrec mask_strings :: "(string \<times> string) list \<Rightarrow> json \<Rightarrow> json" where
  "mask_strings ps J_null = J_null"
| "mask_strings ps (J_bool b) = J_bool b"
| "mask_strings ps (J_num q) = J_num q"
| "mask_strings ps (J_str s) = J_str (replace_pairs ps s)"
| "mask_strings ps (J_list xs) = J_list (map (mask_strings ps) xs)"
| "mask_strings ps (J_obj kvs) =
     J_obj (foldl (\<lambda>m kv. j_put (replace_pairs ps (fst kv)) (snd kv) m) [] (map (map_prod id (mask_strings ps)) kvs))"

datatype leak = Leak_access | Leak_refresh

definition find_leak :: "string \<Rightarrow> string \<Rightarrow> string \<Rightarrow> leak option" where
  "find_leak body access refresh =
     (if access \<noteq> [] \<and> contains_sub access body then Some Leak_access
      else if refresh \<noteq> [] \<and> contains_sub refresh body then Some Leak_refresh
      else None)"

datatype mask_error = Mask_not_json | Mask_nothing | Mask_leak leak

definition mask_token_response ::
    "(string \<Rightarrow> json option) \<Rightarrow> (json \<Rightarrow> string) \<Rightarrow> oauth \<Rightarrow> string \<Rightarrow> tokens \<Rightarrow> mask_error + string" where
  "mask_token_response decode encode o' body t =
     (case decode body of
        None \<Rightarrow> Inl Mask_not_json
      | Some doc \<Rightarrow>
          if reveal (tk_access t) = [] then Inl Mask_nothing
          else (let masked = encode (mask_strings (mask_pairs o' t) doc)
                in case find_leak masked (reveal (tk_access t)) (reveal (tk_refresh t)) of
                     Some l \<Rightarrow> Inl (Mask_leak l)
                   | None \<Rightarrow> Inr masked))"

subsection \<open>Sentinels in a request\<close>

definition carries_sentinel :: "oauth \<Rightarrow> header \<Rightarrow> bool" where
  "carries_sentinel o' h =
     list_ex (\<lambda>name. list_ex (contains_sub (se_access (oa_sentinels o'))) (h_values name h)) (oauth_headers o')"

definition swap_sentinel :: "oauth \<Rightarrow> secret_value \<Rightarrow> string \<Rightarrow> string" where
  "swap_sentinel o' access v =
     (if contains_sub (se_access (oa_sentinels o')) v
      then replace_all (se_access (oa_sentinels o')) (reveal access) v else v)"

definition substitute_in :: "oauth \<Rightarrow> secret_value \<Rightarrow> string \<Rightarrow> header \<times> bool \<Rightarrow> header \<times> bool" where
  "substitute_in o' access name s =
     (let (h, replaced) = s; vs = h_values name h
      in if list_ex (contains_sub (se_access (oa_sentinels o'))) vs
         then (foldl (\<lambda>h v. h_add name v h) (h_del name h) (map (swap_sentinel o' access) vs), True)
         else (h, replaced))"

definition substitute :: "oauth \<Rightarrow> secret_value \<Rightarrow> header \<Rightarrow> header \<times> bool" where
  "substitute o' access h = foldl (\<lambda>s name. substitute_in o' access name s) (h, False) (oauth_headers o')"

subsection \<open>Forms\<close>

text \<open>\<open>url.QueryEscape\<close>, \<open>url.Values.Encode\<close> and \<open>url.ParseQuery\<close>.\<close>

definition hex_digit :: "nat \<Rightarrow> char" where
  "hex_digit n = ''0123456789ABCDEF'' ! n"

definition unreserved :: "char \<Rightarrow> bool" where
  "unreserved c \<longleftrightarrow> is_upper c \<or> is_lower c \<or> is_digit c \<or> c \<in> set ''-_.~''"

definition escape_byte :: "char \<Rightarrow> string" where
  "escape_byte c =
     (if unreserved c then [c]
      else if c = CHR '' '' then ''+''
      else [CHR ''%'', hex_digit (of_char c div 16), hex_digit (of_char c mod 16)])"

definition query_escape :: "string \<Rightarrow> string" where
  "query_escape s = concat (map escape_byte s)"

definition unhex :: "char \<Rightarrow> nat option" where
  "unhex c = (let n = of_char c :: nat in
     if is_digit c then Some (n - 48)
     else if in_range CHR ''A'' CHR ''F'' c then Some (n - 55)
     else if in_range CHR ''a'' CHR ''f'' c then Some (n - 87) else None)"

fun query_unescape :: "string \<Rightarrow> string option" where
  "query_unescape [] = Some []"
| "query_unescape (c # cs) =
     (if c = CHR ''%'' then
        (case cs of
           x # y # rest \<Rightarrow>
             (case (unhex x, unhex y) of
                (Some a, Some b) \<Rightarrow> map_option (\<lambda>r. char_of (16 * a + b) # r) (query_unescape rest)
              | _ \<Rightarrow> None)
         | _ \<Rightarrow> None)
      else map_option (\<lambda>r. (if c = CHR ''+'' then CHR '' '' else c) # r) (query_unescape cs))"

text \<open>A form with a part that does not parse is rejected by the caller, so the parts after it do not matter.\<close>

definition parse_pair :: "string \<Rightarrow> (string \<times> string) option" where
  "parse_pair part =
     (case cut CHR ''='' part of (k, v, _) \<Rightarrow>
        (case (query_unescape k, query_unescape v) of (Some k, Some v) \<Rightarrow> Some (k, v) | _ \<Rightarrow> None))"

definition parse_query :: "string \<Rightarrow> (string \<times> string) list option" where
  "parse_query s =
     (let parts = split_on CHR ''&'' s
      in if list_ex (\<lambda>p. CHR '';'' \<in> set p) parts then None
         else those (map parse_pair (filter (\<lambda>p. p \<noteq> []) parts)))"

definition form_get :: "string \<Rightarrow> (string \<times> string) list \<Rightarrow> string" where
  "form_get k kvs = (case map_of kvs k of None \<Rightarrow> [] | Some v \<Rightarrow> v)"

definition encode_form :: "(string \<times> string) list \<Rightarrow> string" where
  "encode_form kvs = join_with ''&'' (map (\<lambda>(k, v). query_escape k @ ''='' @ query_escape v) (sort_key fst kvs))"

subsection \<open>The refresh request\<close>

record refresh_request =
  rq_url :: string
  rq_content_type :: string
  rq_body :: string

definition refresh_fields :: "oauth \<Rightarrow> string \<Rightarrow> (string \<times> string) list" where
  "refresh_fields o' refresh =
     [(''grant_type'', ''refresh_token''), (''refresh_token'', refresh)] @
     (if oa_client o' = [] then [] else [(''client_id'', oa_client o')])"

definition refresh_request_of :: "(json \<Rightarrow> string) \<Rightarrow> oauth \<Rightarrow> string \<Rightarrow> refresh_request" where
  "refresh_request_of encode o' refresh =
     (let rf = refresh_fields o' refresh
      in if oauth_encoding o' = ''form''
         then \<lparr>rq_url = endpoint_url (oa_endpoint o'), rq_content_type = ''application/x-www-form-urlencoded'',
               rq_body = encode_form rf\<rparr>
         else \<lparr>rq_url = endpoint_url (oa_endpoint o'), rq_content_type = ''application/json'',
               rq_body = encode (J_obj (map (map_prod id J_str) rf))\<rparr>)"

text \<open>What the exchange over HTTPS yields, and what \<open>HTTPRefresher.Refresh\<close> makes of it.\<close>

datatype http_outcome = Http_failed | Http_unreadable | Http_answer nat string

datatype refresh_error = Refresh_no_token | Refresh_failed | Refresh_rejected nat | Refresh_status nat | Refresh_body token_error

definition http_refresh ::
    "(string \<Rightarrow> json option) \<Rightarrow> (json \<Rightarrow> string) \<Rightarrow> (refresh_request \<Rightarrow> http_outcome) \<Rightarrow> int \<Rightarrow> oauth \<Rightarrow> secret_value
       \<Rightarrow> refresh_error + tokens" where
  "http_refresh decode encode http now o' refresh =
     (if value_is_zero refresh then Inl Refresh_no_token
      else (case http (refresh_request_of encode o' (reveal refresh)) of
          Http_failed \<Rightarrow> Inl Refresh_failed
        | Http_unreadable \<Rightarrow> Inl Refresh_failed
        | Http_answer status body \<Rightarrow>
            if status \<noteq> 200 then (if status = 400 \<or> status = 401 then Inl (Refresh_rejected status) else Inl (Refresh_status status))
            else (case parse_token_response decode (take (2 ^ 20) body) (oa_fields o') now of
                Inl e \<Rightarrow> Inl (Refresh_body e) | Inr t \<Rightarrow> Inr t)))"

subsection \<open>Whose request it is\<close>

datatype token_request_kind = Request_foreign | Request_refresh | Request_login

text \<open>\<open>mime.ParseMediaType\<close> as far as the comparison needs it: the type without its parameters.\<close>

definition media_type :: "string \<Rightarrow> string" where
  "media_type s = to_lower (trim_space (fst (cut CHR '';'' s)))"

text \<open>
  Decoding into a structure of texts: a field matches its name in any case, \<open>null\<close> leaves it, another
  kind of value is an error, and the last match counts.
\<close>

fun decode_fields :: "(string \<times> json) list \<Rightarrow> string \<times> string \<times> string \<Rightarrow> (string \<times> string \<times> string) option" where
  "decode_fields [] f = Some f"
| "decode_fields ((k, v) # kvs) (grant, refresh, client) =
     (if equal_fold k ''grant_type'' \<or> equal_fold k ''refresh_token'' \<or> equal_fold k ''client_id'' then
        (case v of
           J_null \<Rightarrow> decode_fields kvs (grant, refresh, client)
         | J_str s \<Rightarrow>
             decode_fields kvs
               (if equal_fold k ''grant_type'' then (s, refresh, client)
                else if equal_fold k ''refresh_token'' then (grant, s, client) else (grant, refresh, s))
         | _ \<Rightarrow> None)
      else decode_fields kvs (grant, refresh, client))"

definition token_request_fields :: "(string \<Rightarrow> json option) \<Rightarrow> string \<Rightarrow> string \<Rightarrow> string \<times> string \<times> string" where
  "token_request_fields decode content_type body =
     (if media_type content_type = ''application/x-www-form-urlencoded'' then
        (case parse_query body of
           None \<Rightarrow> ([], [], [])
         | Some form \<Rightarrow> (form_get ''grant_type'' form, form_get ''refresh_token'' form, form_get ''client_id'' form))
      else (case Option.bind (object_of (decode body)) (\<lambda>kvs. decode_fields kvs ([], [], [])) of
          None \<Rightarrow> ([], [], [])
        | Some f \<Rightarrow> f))"

definition classify_token_request ::
    "(string \<Rightarrow> json option) \<Rightarrow> credential \<Rightarrow> string \<Rightarrow> string \<Rightarrow> token_request_kind" where
  "classify_token_request decode c content_type body =
     (case cr_oauth c of
        None \<Rightarrow> Request_foreign
      | Some o' \<Rightarrow>
          (case token_request_fields decode content_type body of (grant, refresh, client) \<Rightarrow>
            if grant = ''refresh_token'' \<and> refresh \<noteq> [] \<and> se_refresh (oa_sentinels o') \<noteq> [] \<and> refresh = se_refresh (oa_sentinels o')
            then Request_refresh
            else if grant = ''authorization_code'' \<and> client \<noteq> [] \<and> client = oa_client o' then Request_login
            else Request_foreign))"

definition prepare_relay :: "header \<Rightarrow> header" where
  "prepare_relay h = h_set ''Accept-Encoding'' ''identity'' h"

subsection \<open>Lemmas on documents\<close>

lemma map_of_rev_distinct: "distinct (map fst kvs) \<Longrightarrow> map_of (rev kvs) = map_of kvs"
proof
  fix k assume "distinct (map fst kvs)"
  then have "map_of (rev kvs) k = Some v \<longleftrightarrow> map_of kvs k = Some v" for v
    by (simp add: map_of_eq_Some_iff flip: rev_map)
  then show "map_of (rev kvs) k = map_of kvs k" by (metis option.exhaust)
qed

lemma distinct_put: "distinct (map fst kvs) \<Longrightarrow> distinct (map fst (j_put k v kvs))"
  by (simp add: j_put_def distinct_update)

lemma j_field_put: "distinct (map fst kvs) \<Longrightarrow> j_field k (j_put k' v kvs) = (if k = k' then Some v else j_field k kvs)"
proof -
  assume d: "distinct (map fst kvs)"
  then have "j_field k (j_put k' v kvs) = map_of (j_put k' v kvs) k"
    unfolding j_field_def by (simp only: map_of_rev_distinct distinct_put)
  then show ?thesis using d by (simp add: j_put_def update_conv' j_field_def map_of_rev_distinct)
qed

lemma j_field_Nil [simp]: "j_field k [] = None"
  by (simp add: j_field_def)

lemma j_field_Cons: "j_field k ((k', v) # kvs) = (case j_field k kvs of None \<Rightarrow> if k = k' then Some v else None | Some w \<Rightarrow> Some w)"
  by (simp add: j_field_def map_of_append map_add_def split: option.split)

lemma j_field_puts:
  assumes "distinct (map fst m)" "\<And>k v. (k, v) \<in> set kvs \<Longrightarrow> f k = k"
  shows "j_field k (foldl (\<lambda>m kv. j_put (f (fst kv)) (snd kv) m) m kvs) =
    (case j_field k kvs of None \<Rightarrow> j_field k m | Some v \<Rightarrow> Some v)"
  using assms
proof (induction kvs arbitrary: m)
  case (Cons kv kvs)
  obtain k' v where kv: "kv = (k', v)" by (cases kv)
  have "f k' = k'" using Cons.prems(2) [of k' v] kv by simp
  moreover have "j_field k (foldl (\<lambda>m kv. j_put (f (fst kv)) (snd kv) m) (j_put k' v m) kvs) =
      (case j_field k kvs of None \<Rightarrow> j_field k (j_put k' v m) | Some v \<Rightarrow> Some v)"
    by (rule Cons.IH) (use Cons.prems in \<open>auto simp: distinct_put\<close>)
  ultimately show ?case
    using Cons.prems(1) by (auto simp: kv j_field_put j_field_Cons split: option.split)
qed simp

lemma j_field_map: "j_field k (map (map_prod id f) kvs) = map_option f (j_field k kvs)"
  by (induction kvs) (auto simp: j_field_Cons split: option.split)

lemma j_field_masked:
  assumes "\<And>k v. (k, v) \<in> set kvs \<Longrightarrow> replace_pairs ps k = k" "mask_strings ps (J_obj kvs) = J_obj m"
  shows "j_field k m = map_option (mask_strings ps) (j_field k kvs)"
proof -
  have "m = foldl (\<lambda>m kv. j_put (replace_pairs ps (fst kv)) (snd kv) m) [] (map (map_prod id (mask_strings ps)) kvs)"
    using assms(2) by simp
  also have "j_field k \<dots> = j_field k (map (map_prod id (mask_strings ps)) kvs)"
    by (subst j_field_puts) (use assms(1) in \<open>auto split: option.split\<close>)
  finally show ?thesis by (simp only: j_field_map)
qed

lemma map_of_sort_key: "distinct (map fst kvs) \<Longrightarrow> map_of (sort_key fst kvs) = map_of kvs"
proof
  fix k assume d: "distinct (map fst kvs)"
  then have "distinct (map fst (sort_key fst kvs))"
    by (simp add: distinct_map)
  then have "map_of (sort_key fst kvs) k = Some v \<longleftrightarrow> map_of kvs k = Some v" for v
    using d by (simp add: map_of_eq_Some_iff)
  then show "map_of (sort_key fst kvs) k = map_of kvs k" by (metis option.exhaust)
qed

text \<open>What the two parameters owe each other: an object that is written and read has the same fields.\<close>

definition reads_back :: "(string \<Rightarrow> json option) \<Rightarrow> (json \<Rightarrow> string) \<Rightarrow> (string \<times> json) list \<Rightarrow> bool" where
  "reads_back decode encode kvs \<longleftrightarrow>
     (\<exists>kvs'. decode (encode (J_obj kvs)) = Some (J_obj kvs') \<and> (\<forall>k. j_field k kvs' = j_field k kvs))"

lemma wrap64_id: "- (2 ^ 63) \<le> n \<Longrightarrow> n < 2 ^ 63 \<Longrightarrow> wrap64 n = n"
  by (simp add: wrap64_def)

lemma parse_token_response_Inr:
  "parse_token_response decode body rf now = Inr t \<longleftrightarrow>
     (\<exists>raw. object_of (decode body) = Some raw \<and>
        reveal (tk_access t) = j_text (j_field (access_field rf) raw) \<and> reveal (tk_access t) \<noteq> [] \<and>
        reveal (tk_refresh t) = j_text (j_field (refresh_field rf) raw) \<and>
        tk_expiry t = token_expiry (j_field (expires_field rf) raw) now)"
proof -
  have eq: "t = \<lparr>tk_access = new_value a, tk_refresh = new_value r, tk_expiry = e\<rparr> \<longleftrightarrow>
      reveal (tk_access t) = a \<and> reveal (tk_refresh t) = r \<and> tk_expiry t = e" for a r e
    by (cases t; cases "tk_access t"; cases "tk_refresh t") (auto simp: reveal_def new_value_def)
  show ?thesis
    by (cases "object_of (decode body)") (auto simp: parse_token_response_def Let_def eq eq_commute [of _ t])
qed

subsection \<open>Lemmas on forms\<close>

lemma hex_digits: "list_all (\<lambda>n. unhex (hex_digit n) = Some n) [0..<16]"
  by code_simp

lemma unhex_digit: "n < 16 \<Longrightarrow> unhex (hex_digit n) = Some n"
  using hex_digits by (simp add: list_all_iff)

lemma query_unescape_byte:
  assumes "query_unescape s = Some r"
  shows "query_unescape (escape_byte c @ s) = Some (c # r)"
proof -
  have c: "of_char c div 16 < (16::nat)" "16 * (of_char c div 16) + of_char c mod 16 = (of_char c :: nat)"
    using nat_of_char_less_256 [of c] by (linarith, simp)
  have "unreserved c \<Longrightarrow> c \<noteq> CHR ''%'' \<and> c \<noteq> CHR ''+''"
    by (auto simp: unreserved_def char_class_defs)
  then show ?thesis using assms c by (auto simp: escape_byte_def unhex_digit)
qed

lemma query_round_trip: "query_unescape (query_escape s) = Some s"
  unfolding query_escape_def by (induction s) (simp_all add: query_unescape_byte)

lemma hex_chars: "list_all (\<lambda>n. is_digit (hex_digit n) \<or> is_upper (hex_digit n)) [0..<16]"
  by code_simp

lemma escape_byte_chars: "d \<in> set (escape_byte c) \<Longrightarrow> unreserved d \<or> d = CHR ''%'' \<or> d = CHR ''+''"
proof -
  have "is_digit (hex_digit n) \<or> is_upper (hex_digit n)" if "n < 16" for n using that hex_chars by (simp add: list_all_iff)
  moreover have "of_char c div 16 < (16::nat)" using nat_of_char_less_256 [of c] by linarith
  moreover have "of_char c mod 16 < (16::nat)" by simp
  ultimately have "unreserved (hex_digit (of_char c div 16))" "unreserved (hex_digit (of_char c mod 16))"
    unfolding unreserved_def by blast+
  then show "d \<in> set (escape_byte c) \<Longrightarrow> unreserved d \<or> d = CHR ''%'' \<or> d = CHR ''+''"
    by (auto simp: escape_byte_def split: if_splits)
qed

lemma query_escape_chars: "d \<in> set (query_escape s) \<Longrightarrow> d \<noteq> CHR ''&'' \<and> d \<noteq> CHR ''='' \<and> d \<noteq> CHR '';''"
  using escape_byte_chars unfolding query_escape_def by (fastforce simp: unreserved_def char_class_defs)

lemma parse_pair_escape: "parse_pair (query_escape k @ ''='' @ query_escape v) = Some (k, v)"
proof -
  have "CHR ''='' \<notin> set (query_escape k)" using query_escape_chars by blast
  then show ?thesis by (simp add: parse_pair_def cut_found query_round_trip)
qed

lemma parse_encoded_form: "kvs \<noteq> [] \<Longrightarrow> parse_query (encode_form kvs) = Some (sort_key fst kvs)"
proof -
  assume "kvs \<noteq> []"
  let ?ps = "map (\<lambda>(k, v). query_escape k @ ''='' @ query_escape v) (sort_key fst kvs)"
  have ne: "sort_key fst kvs \<noteq> []" using \<open>kvs \<noteq> []\<close> by (metis length_0_conv length_sort)
  have chars: "CHR ''&'' \<notin> set p \<and> CHR '';'' \<notin> set p \<and> p \<noteq> []" if "p \<in> set ?ps" for p
    using that query_escape_chars by fastforce
  have "split_on CHR ''&'' (encode_form kvs) = ?ps"
    unfolding encode_form_def by (rule split_join) (use ne chars in auto)
  moreover have "\<not> list_ex (\<lambda>p. CHR '';'' \<in> set p) ?ps" using chars by (fastforce simp: list_ex_iff)
  moreover have "filter (\<lambda>p. p \<noteq> []) ?ps = ?ps" by (rule filter_True) (use chars in blast)
  moreover have "those (map parse_pair (map (\<lambda>(k, v). query_escape k @ ''='' @ query_escape v) xs)) = Some xs" for xs
    using parse_pair_escape by (induction xs) auto
  ultimately show ?thesis by (simp add: parse_query_def Let_def)
qed

subsection \<open>Lemmas on headers\<close>

lemma h_values_adds: "h_values a (foldl (\<lambda>h v. h_add name v h) h vs) =
    (if canonical_name a = canonical_name name then h_values a h @ vs else h_values a h)"
  by (induction vs arbitrary: h) (auto simp: h_values_add)

lemma swap_absent: "\<not> contains_sub (se_access (oa_sentinels o')) v \<Longrightarrow> swap_sentinel o' access v = v"
  by (simp add: swap_sentinel_def)

lemma substitute_in_eq: "substitute_in o' access name (h, r) =
    (if list_ex (contains_sub (se_access (oa_sentinels o'))) (h_values name h)
     then (foldl (\<lambda>h v. h_add name v h) (h_del name h) (map (swap_sentinel o' access) (h_values name h)), True) else (h, r))"
  by (simp add: substitute_in_def Let_def)

lemma substitute_in_values:
  "h_values a (fst (substitute_in o' access name (h, r))) =
     (if canonical_name a = canonical_name name then map (swap_sentinel o' access) (h_values a h) else h_values a h)"
proof (cases "list_ex (contains_sub (se_access (oa_sentinels o'))) (h_values name h)")
  case True
  then show ?thesis
    using h_values_canonical [of a name h] by (simp add: substitute_in_eq h_values_adds h_values_del)
next
  case False
  then have "map (swap_sentinel o' access) (h_values name h) = h_values name h"
    by (intro map_idI) (auto simp: list_ex_iff swap_absent)
  then show ?thesis
    using False h_values_canonical [of a name h] by (simp add: substitute_in_eq)
qed

lemma substitute_fold_values:
  "distinct (map canonical_name names) \<Longrightarrow>
   h_values a (fst (foldl (\<lambda>s name. substitute_in o' access name s) (h, r) names)) =
     (if canonical_name a \<in> canonical_name ` set names then map (swap_sentinel o' access) (h_values a h) else h_values a h)"
proof (induction names arbitrary: h r)
  case (Cons name names)
  obtain h' r' where s: "substitute_in o' access name (h, r) = (h', r')" by (cases "substitute_in o' access name (h, r)")
  have "h_values a h' = (if canonical_name a = canonical_name name then map (swap_sentinel o' access) (h_values a h) else h_values a h)"
    using substitute_in_values [of a o' access name h r] s by simp
  then show ?case using Cons.IH [of h' r'] Cons.prems s by auto
qed simp

lemma substitute_fold_flag:
  "distinct (map canonical_name names) \<Longrightarrow>
   snd (foldl (\<lambda>s name. substitute_in o' access name s) (h, r) names) =
     (r \<or> list_ex (\<lambda>name. list_ex (contains_sub (se_access (oa_sentinels o'))) (h_values name h)) names)"
proof (induction names arbitrary: h r)
  case (Cons name names)
  obtain h' r' where s: "substitute_in o' access name (h, r) = (h', r')" by (cases "substitute_in o' access name (h, r)")
  have "h_values n h' = h_values n h" if "n \<in> set names" for n
    using substitute_in_values [of n o' access name h r] s Cons.prems that by (auto simp: image_iff)
  then have "list_ex (\<lambda>n. list_ex (contains_sub (se_access (oa_sentinels o'))) (h_values n h')) names =
      list_ex (\<lambda>n. list_ex (contains_sub (se_access (oa_sentinels o'))) (h_values n h)) names"
    by (simp add: list_ex_iff)
  moreover have "r' = (r \<or> list_ex (contains_sub (se_access (oa_sentinels o'))) (h_values name h))"
    using s by (simp add: substitute_in_eq split: if_splits)
  ultimately show ?case using Cons.IH [of h' r'] Cons.prems s by auto
qed simp

subsection \<open>Properties\<close>

text \<open>
  How long a token lasts. A lifetime of up to 9223372036 seconds, its fraction dropped, is counted from
  the moment the response is read; beyond that the product with a second does not fit a duration, and the
  first such number makes the token one that expired long ago.
\<close>

theorem token_expiry_bounds:
  assumes "decode body = Some (J_obj raw)" "j_text (j_field (access_field rf) raw) \<noteq> []"
    "j_field (expires_field rf) raw = Some (J_num q)" "0 < q"
  shows "\<exists>t. parse_token_response decode body rf now = Inr t \<and>
    (q < 9223372037 \<longrightarrow> tk_expiry t = Some (now + \<lfloor>q\<rfloor> * 1000000000)) \<and>
    (q = 9223372037 \<longrightarrow> (\<exists>e. tk_expiry t = Some e \<and> e < now))"
proof -
  let ?t = "\<lparr>tk_access = new_value (j_text (j_field (access_field rf) raw)),
      tk_refresh = new_value (j_text (j_field (refresh_field rf) raw)),
      tk_expiry = Some (now + wrap64 (float_to_int64 q * 1000000000))\<rparr>"
  have "parse_token_response decode body rf now = Inr ?t"
    using assms by (simp add: parse_token_response_def object_of_def token_expiry_def Let_def)
  moreover have "wrap64 (float_to_int64 q * 1000000000) = \<lfloor>q\<rfloor> * 1000000000" if "q < 9223372037"
  proof -
    have q: "\<lfloor>q\<rfloor> < 9223372037" "0 \<le> \<lfloor>q\<rfloor>" using that assms(4) by (simp_all add: floor_less_iff)
    have "0 \<le> \<lfloor>q\<rfloor> * 1000000000" using q(2) by (intro mult_nonneg_nonneg) simp_all
    then have "- (2 ^ 63) \<le> \<lfloor>q\<rfloor> * 1000000000" by (rule order_trans [rotated]) simp
    moreover have "\<lfloor>q\<rfloor> \<le> 9223372036" using q(1) by linarith
    then have "\<lfloor>q\<rfloor> * 1000000000 \<le> 9223372036 * 1000000000" by (rule mult_right_mono) simp
    then have "\<lfloor>q\<rfloor> * 1000000000 < 2 ^ 63" by (rule le_less_trans) simp
    moreover have "q < 2 ^ 63" using that by simp
    ultimately show ?thesis by (simp only: float_to_int64_def if_True wrap64_id)
  qed
  moreover have "wrap64 (float_to_int64 9223372037 * 1000000000) < 0"
    by (simp add: float_to_int64_def wrap64_def)
  ultimately show ?thesis by (intro exI [of _ ?t]) auto
qed

theorem token_expiry_bounds_witness:
  "\<exists>t. parse_token_response (\<lambda>_. Some (J_obj [(''access_token'', J_str ''t''), (''expires_in'', J_num 3600)])) []
     \<lparr>rf_access = [], rf_refresh = [], rf_expires = []\<rparr> 5 = Inr t \<and> tk_expiry t = Some 3600000000005"
  using token_expiry_bounds [of "\<lambda>_. Some (J_obj [(''access_token'', J_str ''t''), (''expires_in'', J_num 3600)])" "[]"
      "[(''access_token'', J_str ''t''), (''expires_in'', J_num 3600)]" "\<lparr>rf_access = [], rf_refresh = [], rf_expires = []\<rparr>" 3600 5]
  by (auto simp: access_field_def expires_field_def j_field_Cons j_text_def)

text \<open>
  C14: a response that is passed to the guest after masking. It holds neither token anywhere in its text; and
  where no field is named by a token and the access token is no part of the refresh token, a client
  that reads it finds the two sentinels where the tokens were, and the lifetime the origin gave.
\<close>

theorem masked_response:
  assumes "parse_token_response decode body (oa_fields o') now = Inr t"
    "mask_token_response decode encode o' body t = Inr out"
    "decode body = Some (J_obj raw)" "\<forall>k v. (k, v) \<in> set raw \<longrightarrow> replace_pairs (mask_pairs o' t) k = k"
    "\<not> contains_sub (reveal (tk_access t)) (reveal (tk_refresh t))" "se_access (oa_sentinels o') \<noteq> []"
    "\<forall>m. mask_strings (mask_pairs o' t) (J_obj raw) = J_obj m \<longrightarrow> reads_back decode encode m"
  shows "\<not> contains_sub (reveal (tk_access t)) out \<and>
    (reveal (tk_refresh t) = [] \<or> \<not> contains_sub (reveal (tk_refresh t)) out) \<and>
    parse_token_response decode out (oa_fields o') now =
      Inr \<lparr>tk_access = new_value (se_access (oa_sentinels o')),
           tk_refresh = new_value (if reveal (tk_refresh t) = [] then [] else refresh_sentinel o'), tk_expiry = tk_expiry t\<rparr>"
proof -
  let ?ps = "mask_pairs o' t" and ?f = "oa_fields o'"
  obtain m where m: "mask_strings ?ps (J_obj raw) = J_obj m" by simp
  have t: "reveal (tk_access t) = j_text (j_field (access_field ?f) raw)" "reveal (tk_access t) \<noteq> []"
      "reveal (tk_refresh t) = j_text (j_field (refresh_field ?f) raw)"
      "tk_expiry t = token_expiry (j_field (expires_field ?f) raw) now"
    using assms(1,3) unfolding parse_token_response_Inr by (auto simp: object_of_def)
  have out: "out = encode (J_obj m)" "find_leak out (reveal (tk_access t)) (reveal (tk_refresh t)) = None"
    using assms(2,3) m t(2) by (auto simp: mask_token_response_def Let_def split: option.splits)
  obtain raw' where raw': "decode out = Some (J_obj raw')" "\<And>k. j_field k raw' = j_field k m"
    using assms(7) m out(1) by (auto simp: reads_back_def)
  have field: "j_field k raw' = map_option (mask_strings ?ps) (j_field k raw)" for k
    using raw'(2) j_field_masked [OF _ m, of k] assms(4) by simp
  have texts: "j_text (map_option (mask_strings ?ps) v) = (if j_text v = [] then [] else replace_pairs ?ps (j_text v))" for v
    by (auto simp: j_text_def split: option.splits json.splits)
  have access: "replace_pairs ?ps (reveal (tk_access t)) = se_access (oa_sentinels o')"
    using replace_pairs_hit [of ?ps "reveal (tk_access t)" "[]"] t(2) by (simp add: mask_pairs_def)
  have refresh: "replace_pairs ?ps (reveal (tk_refresh t)) = refresh_sentinel o'" if "reveal (tk_refresh t) \<noteq> []"
  proof -
    have "\<not> prefix (reveal (tk_access t)) (reveal (tk_refresh t))"
      using assms(5) unfolding contains_sub_iff prefix_def by (metis append_Nil)
    then show ?thesis
      using replace_pairs_hit [of ?ps "reveal (tk_refresh t)" "[]"] that by (simp add: mask_pairs_def)
  qed
  have num: "token_expiry (map_option (mask_strings ?ps) v) now = token_expiry v now" for v
    by (auto simp: token_expiry_def split: option.split json.split)
  have "parse_token_response decode out ?f now =
      Inr \<lparr>tk_access = new_value (se_access (oa_sentinels o')),
           tk_refresh = new_value (if reveal (tk_refresh t) = [] then [] else refresh_sentinel o'), tk_expiry = tk_expiry t\<rparr>"
    unfolding parse_token_response_Inr
    using raw'(1) t access refresh assms(6) by (auto simp: object_of_def field texts num)
  moreover have "\<not> contains_sub (reveal (tk_access t)) out"
      "reveal (tk_refresh t) = [] \<or> \<not> contains_sub (reveal (tk_refresh t)) out"
    using out(2) t(2) by (auto simp: find_leak_def split: if_splits)
  ultimately show ?thesis by blast
qed

definition masked_ex :: "(string \<times> json) list" where
  "masked_ex = [(''access_token'', J_str ''sentinel-access-0''), (''expires_in'', J_num 60)]"

theorem masked_response_witness:
  "parse_token_response (\<lambda>s. Some (J_obj (if s = ''m'' then masked_ex else [(''access_token'', J_str ''real1''), (''expires_in'', J_num 60)])))
     ''m'' (oa_fields oauth_ex) 7 = Inr \<lparr>tk_access = new_value ''sentinel-access-0'', tk_refresh = new_value [], tk_expiry = Some 60000000007\<rparr>"
proof -
  let ?raw = "[(''access_token'', J_str ''real1''), (''expires_in'', J_num 60)]"
  let ?decode = "\<lambda>s. Some (J_obj (if s = ''m'' then masked_ex else ?raw))"
  let ?t = "\<lparr>tk_access = new_value ''real1'', tk_refresh = new_value [], tk_expiry = Some 60000000007\<rparr>"
  have s: "se_access (oa_sentinels oauth_ex) = ''sentinel-access-0''" by (simp add: oauth_ex_def)
  have ps: "mask_pairs oauth_ex ?t = [(''real1'', ''sentinel-access-0'')]"
    by (simp add: mask_pairs_def s)
  have r: "replace_pairs [(''real1'', ''sentinel-access-0'')] ''access_token'' = ''access_token''"
      "replace_pairs [(''real1'', ''sentinel-access-0'')] ''expires_in'' = ''expires_in''"
      "replace_pairs [(''real1'', ''sentinel-access-0'')] ''real1'' = ''sentinel-access-0''"
      "\<not> contains_sub ''real1'' []" "find_leak ''m'' ''real1'' [] = None"
    by code_simp+
  then have mask: "mask_strings (mask_pairs oauth_ex ?t) (J_obj ?raw) = J_obj masked_ex"
    by (simp add: masked_ex_def j_put_def ps)
  have "parse_token_response ?decode ''b'' (oa_fields oauth_ex) 7 = Inr ?t"
    by (simp add: parse_token_response_Inr access_field_def refresh_field_def expires_field_def oauth_ex_def j_field_Cons j_text_def
        object_of_def token_expiry_def float_to_int64_def wrap64_def)
  moreover have "mask_token_response ?decode (\<lambda>_. ''m'') oauth_ex ''b'' ?t = Inr ''m''"
    using r(5) by (simp add: mask_token_response_def mask)
  ultimately show ?thesis
    using masked_response [of ?decode "''b''" oauth_ex 7 ?t "\<lambda>_. ''m''" "''m''" ?raw] mask r(1,2,4) s by (simp add: reads_back_def ps)
qed

text \<open>
  The response Boks composes itself. A client that reads it finds the sentinels it already holds, and a
  lifetime of a year.
\<close>

theorem composed_response:
  assumes "reads_back decode encode kvs" "token_response o' = J_obj kvs"
    "distinct [access_field (oa_fields o'), refresh_field (oa_fields o'), expires_field (oa_fields o'), ''token_type'', ''scope'']"
    "se_access (oa_sentinels o') \<noteq> []"
  shows "parse_token_response decode (encode (token_response o')) (oa_fields o') now =
    Inr \<lparr>tk_access = new_value (se_access (oa_sentinels o')), tk_refresh = new_value (se_refresh (oa_sentinels o')),
         tk_expiry = Some (now + sentinel_lifetime)\<rparr>"
proof -
  let ?f = "oa_fields o'"
  obtain raw where raw: "decode (encode (J_obj kvs)) = Some (J_obj raw)" "\<And>k. j_field k raw = j_field k kvs"
    using assms(1) by (auto simp: reads_back_def)
  have "j_field (access_field ?f) kvs = Some (J_str (se_access (oa_sentinels o')))"
      "j_field (expires_field ?f) kvs = Some (J_num 31536000)"
      "j_field (refresh_field ?f) kvs = (if se_refresh (oa_sentinels o') = [] then None else Some (J_str (se_refresh (oa_sentinels o'))))"
    using assms(2,3) unfolding token_response_def Let_def
    by (auto simp: j_field_put distinct_put sentinel_lifetime_def split: if_splits)
  moreover have "wrap64 (float_to_int64 31536000 * 1000000000) = sentinel_lifetime"
    by (simp add: float_to_int64_def wrap64_def sentinel_lifetime_def)
  ultimately show ?thesis
    unfolding parse_token_response_Inr using raw assms(2,4) by (auto simp: object_of_def j_text_def token_expiry_def)
qed

theorem composed_response_witness:
  "\<exists>kvs. parse_token_response (\<lambda>_. Some (J_obj kvs)) [] (oa_fields oauth_ex) 0 =
     Inr \<lparr>tk_access = new_value ''sentinel-access-0'', tk_refresh = new_value ''sentinel-refresh-0'', tk_expiry = Some sentinel_lifetime\<rparr>"
proof -
  obtain kvs where kvs: "token_response oauth_ex = J_obj kvs" by (simp add: token_response_def Let_def)
  have "distinct [access_field (oa_fields oauth_ex), refresh_field (oa_fields oauth_ex), expires_field (oa_fields oauth_ex),
      ''token_type'', ''scope'']" by code_simp
  then show ?thesis
    using composed_response [of "\<lambda>_. Some (J_obj kvs)" "\<lambda>_. []" kvs oauth_ex 0] kvs
    by (auto simp: reads_back_def oauth_ex_def)
qed

text \<open>
  The exchange of a sentinel for a token in a request. In the headers that are permitted, whatever their
  spelling, every value that holds the sentinel gets the token in its place; all other values and headers
  are untouched; and the answer says whether there was one.
\<close>

theorem substitute_correct:
  assumes "distinct (map canonical_name (oauth_headers o'))"
  shows "h_values a (fst (substitute o' access h)) =
      (if canonical_name a \<in> canonical_name ` set (oauth_headers o') then map (swap_sentinel o' access) (h_values a h) else h_values a h) \<and>
    snd (substitute o' access h) = carries_sentinel o' h"
  using assms by (simp add: substitute_def substitute_fold_values substitute_fold_flag carries_sentinel_def)

theorem substitute_correct_witness:
  "h_values ''Authorization'' (fst (substitute oauth_ex (new_value ''real'') [(''Authorization'', [''Bearer sentinel-access-0''])])) = [''Bearer real'']"
proof -
  have "distinct (map canonical_name (oauth_headers oauth_ex))" by code_simp
  from substitute_correct [OF this, of "''Authorization''" "new_value ''real''" "[(''Authorization'', [''Bearer sentinel-access-0''])]"]
  show ?thesis by code_simp
qed

text \<open>
  The refresh request says what it is meant to say. In its form encoding, any bytes of the refresh token
  and the client are read back by the reader of token requests, and a request that carries the refresh
  sentinel is recognised as the guest's own.
\<close>

theorem refresh_request_readable:
  assumes "oa_encoding o' = ''form''" "rq = refresh_request_of encode o' refresh"
  shows "token_request_fields decode (rq_content_type rq) (rq_body rq) = (''refresh_token'', refresh, oa_client o') \<and>
    (cr_oauth c = Some o' \<and> refresh = se_refresh (oa_sentinels o') \<and> refresh \<noteq> [] \<longrightarrow>
       classify_token_request decode c (rq_content_type rq) (rq_body rq) = Request_refresh)"
proof -
  have rq: "rq_content_type rq = ''application/x-www-form-urlencoded''" "rq_body rq = encode_form (refresh_fields o' refresh)"
    using assms by (simp_all add: refresh_request_of_def oauth_encoding_def Let_def)
  have "media_type ''application/x-www-form-urlencoded'' = ''application/x-www-form-urlencoded''" by code_simp
  moreover have "parse_query (encode_form (refresh_fields o' refresh)) = Some (sort_key fst (refresh_fields o' refresh))"
    by (rule parse_encoded_form) (simp add: refresh_fields_def)
  moreover have "map_of (sort_key fst (refresh_fields o' refresh)) = map_of (refresh_fields o' refresh)"
    by (rule map_of_sort_key) (simp add: refresh_fields_def)
  ultimately have "token_request_fields decode (rq_content_type rq) (rq_body rq) = (''refresh_token'', refresh, oa_client o')"
    by (simp add: rq token_request_fields_def form_get_def) (simp add: refresh_fields_def)
  then show ?thesis by (simp add: classify_token_request_def)
qed

theorem refresh_request_readable_witness:
  "token_request_fields (\<lambda>_. None) ''application/x-www-form-urlencoded''
     (rq_body (refresh_request_of (\<lambda>_. []) (oauth_ex\<lparr>oa_encoding := ''form''\<rparr>) ''a&b c'')) = (''refresh_token'', ''a&b c'', ''cli'')"
  using refresh_request_readable [of "oauth_ex\<lparr>oa_encoding := ''form''\<rparr>" _ "\<lambda>_. []" "''a&b c''" "\<lambda>_. None"]
  by (simp add: refresh_request_of_def oauth_encoding_def Let_def oauth_ex_def)

end
