(* ===== verification/Kit_Spec.thy ===== *)
theory Kit_Spec
  imports Kit_Size Secret_Tokens
begin

section \<open>Kit specifications: \<open>internal/kit/spec.go\<close>, \<open>validate.go\<close> and \<open>parse.go\<close>\<close>

text \<open>
  A kit declares an image, network rules, credentials and setup. This theory has its canonical form, the expansion
  of the \<open>scheme\<close> shorthand, the validator with its order of checks and its error for each, and sizes with their
  unit. YAML decoding is not under \<open>src/\<close>: a decoded specification is the input here. A nil slice and an
  empty one are one list except where the code tells them apart; a map is an association list, whose keys
  the code sorts whenever it walks it. Regular expressions of arguments are compiled by an argument \<open>re\<close>,
  which stands for Go's \<open>regexp\<close> and gives the leftmost match.
\<close>

subsection \<open>Running checks in order\<close>

fun first_fault :: "'e option list \<Rightarrow> 'e option" where
  "first_fault [] = None"
| "first_fault (Some e # cs) = Some e"
| "first_fault (None # cs) = first_fault cs"

fun check_each :: "(nat \<Rightarrow> 'a \<Rightarrow> 'e option) \<Rightarrow> nat \<Rightarrow> 'a list \<Rightarrow> 'e option" where
  "check_each f i [] = None"
| "check_each f i (x # xs) = (case f i x of Some e \<Rightarrow> Some e | None \<Rightarrow> check_each f (i + 1) xs)"

definition guard :: "bool \<Rightarrow> 'e \<Rightarrow> 'e option" where
  "guard b e = (if b then Some e else None)"

lemma first_fault_None [simp]: "first_fault cs = None \<longleftrightarrow> (\<forall>c\<in>set cs. c = None)"
  by (induction cs rule: first_fault.induct) auto

lemma check_each_None: "check_each f i xs = None \<longleftrightarrow> (\<forall>j<length xs. f (i + j) (xs ! j) = None)"
proof (induction xs arbitrary: i)
  case (Cons x xs)
  show ?case using Cons.IH [of "i + 1"] by (auto simp: nth_Cons less_Suc_eq_0_disj split: option.split nat.split)
qed simp

lemma check_each_all: "(\<And>i x. f i x = None \<longleftrightarrow> P x) \<Longrightarrow> check_each f n xs = None \<longleftrightarrow> list_all P xs"
  by (simp add: check_each_None list_all_length)

lemma guard_None [simp]: "guard b e = None \<longleftrightarrow> \<not> b"
  by (simp add: guard_def)

subsection \<open>Types\<close>

text \<open>A \<open>float64\<close>: the finite ones are rationals.\<close>

datatype float64 = Finite rat | Infinite bool | Not_number

fun float_negative :: "float64 \<Rightarrow> bool" where
  "float_negative (Finite q) = (q < 0)"
| "float_negative (Infinite below) = below"
| "float_negative Not_number = False"

type_synonym 'a str_map = "(string \<times> 'a) list"

record kit_arg =
  ar_default :: "string option"
  ar_required :: bool
  ar_description :: string
  ar_enum :: "string list"
  ar_pattern :: string

record build_config =
  bc_context :: string
  bc_dockerfile :: string
  bc_args :: "string str_map"
  bc_target :: string
  bc_platforms :: "string list"

record kit_resources =
  kr_cpu :: float64
  kr_memory :: string
  kr_gpu :: string

text \<open>\<open>Command\<close>: the interactive tail is nil or a list, possibly empty.\<close>

record kit_command =
  cm_default :: "string list"
  cm_interactive :: "string list option"

record sandbox_block =
  sb_image :: string
  sb_build :: "build_config option"
  sb_entrypoint :: "string list"
  sb_command :: kit_command
  sb_resources :: "kit_resources option"

record kit_instructions =
  ai_filename :: string
  ai_content :: string

record network_permissions =
  np_allow :: "string list"
  np_deny :: "string list"

record kit_port =
  kp_container :: int
  kp_protocol :: string
  kp_name :: string

record key_inject =
  ki_domain :: string
  ki_header :: string
  ki_format :: string
  ki_username :: string
  ki_scheme :: string

record api_key =
  ak_name :: string
  ak_managed :: bool
  ak_inject :: "key_inject list"

record kit_file =
  kf_path :: string
  kf_template :: string
  kf_structure :: "json str_map"

record kit_fields =
  kx_access :: string
  kx_refresh :: string
  kx_expires :: string
  kx_scope :: string

record kit_oauth =
  ko_host :: string
  ko_path :: string
  ko_access :: string
  ko_refresh :: string
  ko_resources :: "string list"
  ko_file :: "kit_file option"
  ko_skip :: "string list"
  ko_fields :: "kit_fields option"
  ko_passthrough :: bool

record kit_credential =
  kc_service :: string
  kc_description :: string
  kc_required :: bool
  kc_provider :: string
  kc_key :: "api_key option"
  kc_oauth :: "kit_oauth option"

record install_command =
  ic_command :: string
  ic_user :: string
  ic_description :: string

record startup_command =
  sc_command :: "string list"
  sc_user :: string
  sc_background :: bool
  sc_description :: string

record setup_file =
  sf_path :: string
  sf_content :: string
  sf_mode :: string
  sf_if_missing :: bool
  sf_description :: string

record kit_setup =
  su_install :: "install_command list"
  su_startup :: "startup_command list"
  su_files :: "setup_file list"

record kit_volume =
  vl_path :: string
  vl_type :: string
  vl_size :: string
  vl_mode :: string

record kit =
  ks_version :: string
  ks_kind :: string
  ks_name :: string
  ks_release :: string
  ks_display :: string
  ks_description :: string
  ks_source :: string
  ks_licenses :: "string list"
  ks_locked :: "string list"
  ks_privileged :: "bool option"
  ks_extends :: string
  ks_mixins :: "string list"
  ks_requires :: "string option"
  ks_args :: "kit_arg str_map"
  ks_sandbox :: "sandbox_block option"
  ks_instructions :: "kit_instructions option"
  ks_permissions :: "network_permissions option option"
  ks_ports :: "kit_port list"
  ks_credentials :: "kit_credential list"
  ks_environment :: "string str_map option"
  ks_setup :: "kit_setup option"
  ks_volumes :: "kit_volume list"

abbreviation kind_sandbox :: string where "kind_sandbox \<equiv> ''sandbox''"
abbreviation kind_mixin :: string where "kind_mixin \<equiv> ''mixin''"
abbreviation kind_agent :: string where "kind_agent \<equiv> ''agent''"

definition supported_versions :: "string list" where
  "supported_versions = [''1'', ''2'']"

definition interactive_tail :: "kit_command \<Rightarrow> string list" where
  "interactive_tail c = (case cm_interactive c of None \<Rightarrow> cm_default c | Some tail \<Rightarrow> tail)"

definition resolved_fields :: "kit_oauth option \<Rightarrow> kit_fields" where
  "resolved_fields o' =
     (let f = \<lparr>kx_access = ''access_token'', kx_refresh = ''refresh_token'', kx_expires = ''expires_in'', kx_scope = ''scope''\<rparr>
      in case o' of
           None \<Rightarrow> f
         | Some o1 \<Rightarrow> (case ko_fields o1 of
             None \<Rightarrow> f
           | Some r \<Rightarrow>
               \<lparr>kx_access = (if kx_access r \<noteq> [] then kx_access r else kx_access f),
                kx_refresh = (if kx_refresh r \<noteq> [] then kx_refresh r else kx_refresh f),
                kx_expires = (if kx_expires r \<noteq> [] then kx_expires r else kx_expires f),
                kx_scope = (if kx_scope r \<noteq> [] then kx_scope r else kx_scope f)\<rparr>))"

text \<open>\<open>NetworkRules\<close>\<close>

definition network_rules :: "kit \<Rightarrow> string list \<times> string list" where
  "network_rules s = (case ks_permissions s of Some (Some n) \<Rightarrow> (np_allow n, np_deny n) | _ \<Rightarrow> ([], []))"

text \<open>\<open>sortedKeys\<close>\<close>

definition keys_in_order :: "'a str_map \<Rightarrow> string list" where
  "keys_in_order m = sort (map fst m)"

subsection \<open>The scheme shorthand\<close>

datatype scheme_error = Scheme_and_format string | Bearer_username | Basic_no_username | Scheme_unknown string

text \<open>One injection of \<open>ExpandSchemes\<close>, and all of them: the first error, with its place, ends the expansion.\<close>

definition expand_inject :: "key_inject \<Rightarrow> scheme_error + key_inject" where
  "expand_inject ki =
     (if ki_scheme ki = [] then Inr ki
      else if ki_format ki \<noteq> [] then Inl (Scheme_and_format (ki_scheme ki))
      else if ki_scheme ki = scheme_bearer then
        (if ki_username ki \<noteq> [] then Inl Bearer_username
         else Inr (ki\<lparr>ki_format := ''Bearer %s'', ki_header := (if ki_header ki = [] then ''Authorization'' else ki_header ki),
                ki_scheme := []\<rparr>))
      else if ki_scheme ki = scheme_basic then
        (if ki_username ki = [] then Inl Basic_no_username else Inr (ki\<lparr>ki_format := ''%s'', ki_scheme := []\<rparr>))
      else Inl (Scheme_unknown (ki_scheme ki)))"

fun expand_list :: "('a \<Rightarrow> 'e + 'a) \<Rightarrow> nat \<Rightarrow> 'a list \<Rightarrow> (nat \<times> 'e) + 'a list" where
  "expand_list f i [] = Inr []"
| "expand_list f i (x # xs) =
     (case f x of
        Inl e \<Rightarrow> Inl (i, e)
      | Inr y \<Rightarrow> (case expand_list f (i + 1) xs of Inl e \<Rightarrow> Inl e | Inr ys \<Rightarrow> Inr (y # ys)))"

definition expand_credential :: "kit_credential \<Rightarrow> (nat \<times> scheme_error) + kit_credential" where
  "expand_credential c =
     (case kc_key c of
        None \<Rightarrow> Inr c
      | Some k \<Rightarrow> (case expand_list expand_inject 0 (ak_inject k) of
          Inl e \<Rightarrow> Inl e
        | Inr kis \<Rightarrow> Inr (c\<lparr>kc_key := Some (k\<lparr>ak_inject := kis\<rparr>)\<rparr>)))"

definition expand_schemes :: "kit \<Rightarrow> (nat \<times> nat \<times> scheme_error) + kit" where
  "expand_schemes s =
     (case expand_list expand_credential 0 (ks_credentials s) of
        Inl e \<Rightarrow> Inl e
      | Inr cs \<Rightarrow> Inr (s\<lparr>ks_credentials := cs\<rparr>))"

subsection \<open>Patterns of the validator\<close>

definition lower_or_digit :: "char \<Rightarrow> bool" where
  "lower_or_digit c \<longleftrightarrow> is_lower c \<or> is_digit c"

definition letter :: "char \<Rightarrow> bool" where
  "letter c \<longleftrightarrow> is_lower c \<or> is_upper c"

definition kit_name :: "string \<Rightarrow> bool" where
  "kit_name s \<longleftrightarrow> s \<noteq> [] \<and> length s \<le> 64 \<and> lower_or_digit (hd s) \<and> lower_or_digit (last s) \<and>
     list_all (\<lambda>c. lower_or_digit c \<or> c = CHR ''-'') s"

definition shell_identifier :: "string \<Rightarrow> bool" where
  "shell_identifier s \<longleftrightarrow> s \<noteq> [] \<and> (letter (hd s) \<or> hd s = CHR ''_'') \<and>
     list_all (\<lambda>c. letter c \<or> is_digit c \<or> c = CHR ''_'') s"

definition arg_name :: "string \<Rightarrow> bool" where
  "arg_name s \<longleftrightarrow> s \<noteq> [] \<and> (letter (hd s) \<or> hd s = CHR ''_'') \<and>
     list_all (\<lambda>c. letter c \<or> is_digit c \<or> c \<in> set ''_-'') s"

definition locked_path :: "string \<Rightarrow> bool" where
  "locked_path s \<longleftrightarrow>
     list_all (\<lambda>w. w \<noteq> [] \<and> is_lower (hd w) \<and> list_all (\<lambda>c. letter c \<or> is_digit c) w) (split_on CHR ''.'' s)"

definition octal_mode :: "string \<Rightarrow> bool" where
  "octal_mode s \<longleftrightarrow> list_all (\<lambda>c. in_range CHR ''0'' CHR ''7'' c) s \<and>
     (length s = 3 \<or> length s = 4 \<or> length s = 5 \<and> hd s = CHR ''0'')"

subsection \<open>The validator\<close>

datatype list_error = Entry_empty nat | Entry_duplicate nat string

fun list_entries :: "string list \<Rightarrow> nat \<Rightarrow> string list \<Rightarrow> list_error option" where
  "list_entries seen i [] = None"
| "list_entries seen i (v # vs) =
     (if v = [] then Some (Entry_empty i)
      else if v \<in> set seen then Some (Entry_duplicate i v)
      else list_entries (v # seen) (i + 1) vs)"

definition validate_list :: "string list \<Rightarrow> list_error option" where
  "validate_list xs = list_entries [] 0 xs"

type_synonym regexps = "string \<Rightarrow> (string \<Rightarrow> string option) option"

datatype value_fault = Not_permitted | Value_pattern | No_match | Part_matches string

datatype arg_error =
    Arg_name | Required_and_default | Neither_required_nor_default | Enum_and_pattern | Arg_enum list_error | Bad_pattern
  | Arg_default value_fault

text \<open>\<open>Arg.ValidateValue\<close>\<close>

definition value_error :: "regexps \<Rightarrow> kit_arg \<Rightarrow> string \<Rightarrow> value_fault option" where
  "value_error re a v =
     (if ar_enum a \<noteq> [] \<and> v \<notin> set (ar_enum a) then Some Not_permitted
      else if ar_pattern a = [] then None
      else (case re (ar_pattern a) of
          None \<Rightarrow> Some Value_pattern
        | Some f \<Rightarrow> (case f v of None \<Rightarrow> Some No_match | Some m \<Rightarrow> guard (m \<noteq> v) (Part_matches m))))"

definition check_arg :: "regexps \<Rightarrow> string \<Rightarrow> kit_arg \<Rightarrow> arg_error option" where
  "check_arg re name a =
     first_fault
       [guard (\<not> arg_name name) Arg_name,
        guard (ar_required a \<and> ar_default a \<noteq> None) Required_and_default,
        guard (\<not> ar_required a \<and> ar_default a = None) Neither_required_nor_default,
        guard (ar_enum a \<noteq> [] \<and> ar_pattern a \<noteq> []) Enum_and_pattern,
        map_option Arg_enum (validate_list (ar_enum a)),
        guard (ar_pattern a \<noteq> [] \<and> re (ar_pattern a) = None) Bad_pattern,
        (case ar_default a of None \<Rightarrow> None | Some d \<Rightarrow> map_option Arg_default (value_error re a d))]"

datatype inject_fault = No_inject_domain | Not_expanded string | Username_no_basic | No_inject_format | Not_one_placeholder nat

definition placeholders_in :: "string \<Rightarrow> nat" where
  "placeholders_in f = count_sub ''%s'' (replace_all ''%%'' [] f)"

definition check_key_inject :: "key_inject \<Rightarrow> inject_fault option" where
  "check_key_inject ki =
     first_fault
       [guard (ki_domain ki = []) No_inject_domain,
        guard (ki_scheme ki \<noteq> []) (Not_expanded (ki_scheme ki)),
        guard (ki_username ki \<noteq> [] \<and> ki_format ki \<noteq> ''%s'') Username_no_basic,
        guard (ki_format ki = []) No_inject_format,
        guard (placeholders_in (ki_format ki) \<noteq> 1) (Not_one_placeholder (placeholders_in (ki_format ki)))]"

datatype credential_fault =
    No_credential_service | No_mechanism | Key_name string | Managed_without_name | Key_inject nat inject_fault
  | No_token_host | No_token_path | No_access_sentinel | No_refresh_sentinel | No_kit_file_path | Nothing_to_write

definition check_key :: "api_key \<Rightarrow> credential_fault option" where
  "check_key k =
     first_fault
       [guard (ak_name k \<noteq> [] \<and> \<not> shell_identifier (ak_name k)) (Key_name (ak_name k)),
        guard (ak_managed k \<and> ak_name k = []) Managed_without_name,
        check_each (\<lambda>j ki. map_option (Key_inject j) (check_key_inject ki)) 0 (ak_inject k)]"

definition check_oauth :: "kit_oauth \<Rightarrow> credential_fault option" where
  "check_oauth o1 =
     first_fault
       [guard (ko_host o1 = []) No_token_host,
        guard (ko_path o1 = []) No_token_path,
        guard (\<not> ko_passthrough o1 \<and> ko_access o1 = []) No_access_sentinel,
        guard (\<not> ko_passthrough o1 \<and> ko_refresh o1 = []) No_refresh_sentinel,
        (case ko_file o1 of
           None \<Rightarrow> None
         | Some f \<Rightarrow> first_fault [guard (kf_path f = []) No_kit_file_path, guard (kf_template f = [] \<and> kf_structure f = []) Nothing_to_write])]"

definition check_credential :: "kit_credential \<Rightarrow> credential_fault option" where
  "check_credential c =
     first_fault
       [guard (kc_service c = []) No_credential_service,
        guard (kc_key c = None \<and> kc_oauth c = None) No_mechanism,
        (case kc_key c of None \<Rightarrow> None | Some k \<Rightarrow> check_key k),
        (case kc_oauth c of None \<Rightarrow> None | Some o1 \<Rightarrow> check_oauth o1)]"

datatype volume_fault =
    Volume_type string | No_volume_path | Volume_relative string | Volume_duplicate string nat | Volume_size string size_error
  | Volume_mode string

definition size_fault :: "string \<Rightarrow> size_error option" where
  "size_fault t = (if t = [] then None else case parse_byte_size t of Inl e \<Rightarrow> Some e | Inr _ \<Rightarrow> None)"

definition check_volume :: "(string \<times> nat) list \<Rightarrow> kit_volume \<Rightarrow> volume_fault option" where
  "check_volume seen v =
     first_fault
       [guard (vl_type v \<notin> {[], ''tmpfs''}) (Volume_type (vl_type v)),
        guard (vl_path v = []) No_volume_path,
        guard (\<not> prefix ''/'' (vl_path v)) (Volume_relative (vl_path v)),
        map_option (Volume_duplicate (vl_path v)) (map_of seen (vl_path v)),
        map_option (Volume_size (vl_size v)) (size_fault (vl_size v)),
        guard (vl_mode v \<noteq> [] \<and> \<not> octal_mode (vl_mode v)) (Volume_mode (vl_mode v))]"

fun volume_entries :: "(string \<times> nat) list \<Rightarrow> nat \<Rightarrow> kit_volume list \<Rightarrow> (nat \<times> volume_fault) option" where
  "volume_entries seen i [] = None"
| "volume_entries seen i (v # vs) =
     (case check_volume seen v of Some e \<Rightarrow> Some (i, e) | None \<Rightarrow> volume_entries ((vl_path v, i) # seen) (i + 1) vs)"

datatype setup_fault =
    No_install_command nat | No_startup_command nat | No_startup_program nat
  | No_setup_path nat | Setup_relative nat string | Setup_mode nat string

definition check_setup :: "kit_setup \<Rightarrow> setup_fault option" where
  "check_setup s =
     first_fault
       [check_each (\<lambda>i c. guard (trim_space (ic_command c) = []) (No_install_command i)) 0 (su_install s),
        check_each (\<lambda>i c. first_fault [guard (sc_command c = []) (No_startup_command i),
            guard (sc_command c \<noteq> [] \<and> hd (sc_command c) = []) (No_startup_program i)]) 0 (su_startup s),
        check_each (\<lambda>i f. first_fault [guard (sf_path f = []) (No_setup_path i),
            guard (\<not> prefix ''/'' (sf_path f)) (Setup_relative i (sf_path f)),
            guard (sf_mode f \<noteq> [] \<and> \<not> octal_mode (sf_mode f)) (Setup_mode i (sf_mode f))]) 0 (su_files s)]"

datatype kit_error =
    Version_missing | Version_unsupported string | Kind_missing | Kind_invalid string | Name_missing | Kit_name_invalid string
  | Mixin_with_sandbox | Mixin_with_extends | Mixin_with_mixins
  | Sandbox_with_requires | Sandbox_missing | Sandbox_and_extends | Requires_invalid string
  | Image_missing bool | Cpu_negative float64 | Memory_size string size_error | No_binary
  | Licenses list_error | Locked list_error | Locked_path nat string
  | Args string arg_error | Port_number nat int | Port_protocol nat string
  | Variable_empty | Variable_invalid string
  | Setup_fault setup_fault | Credentials nat credential_fault | Volumes nat volume_fault

definition check_shape :: "kit \<Rightarrow> kit_error option" where
  "check_shape s =
     first_fault
       [(if ks_kind s = kind_mixin then
           first_fault
             [guard (ks_sandbox s \<noteq> None) Mixin_with_sandbox,
              guard (ks_extends s \<noteq> [] \<and> ks_version s = ''2'') Mixin_with_extends,
              guard (ks_mixins s \<noteq> []) Mixin_with_mixins]
         else if ks_kind s = kind_sandbox then
           first_fault
             [guard (ks_requires s \<notin> {None, Some []}) Sandbox_with_requires,
              guard (ks_sandbox s = None \<and> ks_extends s = []) Sandbox_missing,
              guard (ks_sandbox s \<noteq> None \<and> ks_extends s \<noteq> []) Sandbox_and_extends]
         else None),
        (case ks_requires s of None \<Rightarrow> None | Some r \<Rightarrow> guard (r \<noteq> [] \<and> \<not> kit_name r) (Requires_invalid r))]"

definition check_sandbox :: "kit \<Rightarrow> kit_error option" where
  "check_sandbox s =
     (case ks_sandbox s of
        None \<Rightarrow> None
      | Some b \<Rightarrow>
          first_fault
            [guard (sb_image b = [] \<and> ks_extends s = []) (Image_missing (sb_build b \<noteq> None)),
             (case sb_resources b of
                None \<Rightarrow> None
              | Some r \<Rightarrow> first_fault [guard (float_negative (kr_cpu r)) (Cpu_negative (kr_cpu r)),
                  map_option (Memory_size (kr_memory r)) (size_fault (kr_memory r))]),
             guard (sb_entrypoint b \<noteq> [] \<and> hd (sb_entrypoint b) = []) No_binary])"

definition check_port :: "nat \<Rightarrow> kit_port \<Rightarrow> kit_error option" where
  "check_port i p =
     first_fault [guard (kp_container p < 1 \<or> 65535 < kp_container p) (Port_number i (kp_container p)),
       guard (kp_protocol p \<notin> {[], ''tcp'', ''udp''}) (Port_protocol i (kp_protocol p))]"

definition check_locked :: "string list \<Rightarrow> kit_error option" where
  "check_locked ps =
     first_fault [map_option Locked (validate_list ps), check_each (\<lambda>i p. guard (\<not> locked_path p) (Locked_path i p)) 0 ps]"

definition check_args :: "regexps \<Rightarrow> kit_arg str_map \<Rightarrow> kit_error option" where
  "check_args re args =
     check_each (\<lambda>_ name. case map_of args name of None \<Rightarrow> None | Some a \<Rightarrow> map_option (Args name) (check_arg re name a)) 0 (keys_in_order args)"

definition check_environment :: "string str_map \<Rightarrow> kit_error option" where
  "check_environment vars =
     check_each (\<lambda>_ key. first_fault [guard (key = []) Variable_empty, guard (\<not> shell_identifier key) (Variable_invalid key)]) 0 (keys_in_order vars)"

text \<open>\<open>Validate\<close>: identity first, then the blocks in their order.\<close>

definition validate_kit :: "regexps \<Rightarrow> kit \<Rightarrow> kit_error option" where
  "validate_kit re s =
     first_fault
       [guard (ks_version s = []) Version_missing,
        guard (ks_version s \<notin> set supported_versions) (Version_unsupported (ks_version s)),
        guard (ks_kind s = []) Kind_missing,
        guard (ks_kind s \<notin> {kind_sandbox, kind_mixin}) (Kind_invalid (ks_kind s)),
        guard (ks_name s = []) Name_missing,
        guard (\<not> kit_name (ks_name s)) (Kit_name_invalid (ks_name s)),
        check_shape s,
        check_sandbox s,
        map_option Licenses (validate_list (ks_licenses s)),
        check_locked (ks_locked s),
        check_args re (ks_args s),
        check_each check_port 0 (ks_ports s),
        (case ks_environment s of None \<Rightarrow> None | Some vars \<Rightarrow> check_environment vars),
        (case ks_setup s of None \<Rightarrow> None | Some su \<Rightarrow> map_option Setup_fault (check_setup su)),
        check_each (\<lambda>i c. map_option (Credentials i) (check_credential c)) 0 (ks_credentials s),
        map_option (\<lambda>(i, e). Volumes i e) (volume_entries [] 0 (ks_volumes s))]"

subsection \<open>Warnings\<close>

text \<open>The field a warning names and what became of it; the advice that follows is left out.\<close>

datatype warning = Deprecated string | Dropped string | Ignored string

definition credential_warnings :: "string \<Rightarrow> nat \<Rightarrow> kit_credential \<Rightarrow> warning list" where
  "credential_warnings version i c =
     (let path = ''credentials['' @ itoa (int i) @ '']''
      in (if kc_provider c \<noteq> [] then [Ignored (path @ ''.provider'')] else []) @
         (case kc_oauth c of
            None \<Rightarrow> []
          | Some o1 \<Rightarrow>
              (if version = ''2'' \<and> ko_skip o1 \<noteq> [] then [Ignored (path @ ''.oauth.skipIfEnv'')] else []) @
              (case ko_file o1 of
                 None \<Rightarrow> []
               | Some f \<Rightarrow> if kf_template f \<noteq> [] \<and> kf_structure f \<noteq> [] then [Ignored (path @ ''.oauth.credentialFile.template'')] else [])))"

definition warn_kit :: "kit \<Rightarrow> warning list" where
  "warn_kit s =
     (if ks_mixins s \<noteq> [] then [Ignored ''mixins''] else []) @
     (case ks_sandbox s of Some b \<Rightarrow> if sb_build b \<noteq> None then [Ignored ''sandbox.build''] else [] | None \<Rightarrow> []) @
     (case ks_instructions s of
        Some a \<Rightarrow> if ks_kind s = kind_mixin \<and> ai_filename a \<noteq> [] then [Ignored ''agentInstructions.filename''] else []
      | None \<Rightarrow> []) @
     concat (map (\<lambda>(i, c). credential_warnings (ks_version s) i c) (enumerate 0 (ks_credentials s)))"

subsection \<open>What a valid specification is\<close>

definition entries_ok :: "string list \<Rightarrow> bool" where
  "entries_ok xs \<longleftrightarrow> [] \<notin> set xs \<and> distinct xs"

definition value_ok :: "regexps \<Rightarrow> kit_arg \<Rightarrow> string \<Rightarrow> bool" where
  "value_ok re a v \<longleftrightarrow> (ar_enum a = [] \<or> v \<in> set (ar_enum a)) \<and>
     (ar_pattern a = [] \<or> (\<exists>f. re (ar_pattern a) = Some f \<and> f v = Some v))"

definition arg_ok :: "regexps \<Rightarrow> string \<Rightarrow> kit_arg \<Rightarrow> bool" where
  "arg_ok re name a \<longleftrightarrow> arg_name name \<and> (ar_required a \<longleftrightarrow> ar_default a = None) \<and> (ar_enum a = [] \<or> ar_pattern a = []) \<and>
     entries_ok (ar_enum a) \<and> (ar_pattern a = [] \<or> re (ar_pattern a) \<noteq> None) \<and> (\<forall>d. ar_default a = Some d \<longrightarrow> value_ok re a d)"

definition key_inject_ok :: "key_inject \<Rightarrow> bool" where
  "key_inject_ok i \<longleftrightarrow> ki_domain i \<noteq> [] \<and> ki_scheme i = [] \<and> placeholders_in (ki_format i) = 1 \<and> (ki_username i = [] \<or> ki_format i = ''%s'')"

definition key_ok :: "api_key \<Rightarrow> bool" where
  "key_ok k \<longleftrightarrow> (ak_name k = [] \<or> shell_identifier (ak_name k)) \<and> (ak_managed k \<longrightarrow> ak_name k \<noteq> []) \<and> list_all key_inject_ok (ak_inject k)"

definition oauth_ok :: "kit_oauth \<Rightarrow> bool" where
  "oauth_ok o1 \<longleftrightarrow> ko_host o1 \<noteq> [] \<and> ko_path o1 \<noteq> [] \<and> (ko_passthrough o1 \<or> ko_access o1 \<noteq> [] \<and> ko_refresh o1 \<noteq> []) \<and>
     (\<forall>f. ko_file o1 = Some f \<longrightarrow> kf_path f \<noteq> [] \<and> (kf_template f \<noteq> [] \<or> kf_structure f \<noteq> []))"

definition credential_ok :: "kit_credential \<Rightarrow> bool" where
  "credential_ok c \<longleftrightarrow> kc_service c \<noteq> [] \<and> (kc_key c \<noteq> None \<or> kc_oauth c \<noteq> None) \<and>
     pred_option key_ok (kc_key c) \<and> pred_option oauth_ok (kc_oauth c)"

definition size_ok :: "string \<Rightarrow> bool" where
  "size_ok t \<longleftrightarrow> t = [] \<or> is_ok (parse_byte_size t)"

definition mode_ok :: "string \<Rightarrow> bool" where
  "mode_ok t \<longleftrightarrow> t = [] \<or> octal_mode t"

definition volume_ok :: "kit_volume \<Rightarrow> bool" where
  "volume_ok v \<longleftrightarrow> vl_type v \<in> {[], ''tmpfs''} \<and> prefix ''/'' (vl_path v) \<and> size_ok (vl_size v) \<and> mode_ok (vl_mode v)"

definition setup_ok :: "kit_setup \<Rightarrow> bool" where
  "setup_ok s \<longleftrightarrow> list_all (\<lambda>c. trim_space (ic_command c) \<noteq> []) (su_install s) \<and>
     list_all (\<lambda>c. sc_command c \<noteq> [] \<and> hd (sc_command c) \<noteq> []) (su_startup s) \<and>
     list_all (\<lambda>f. prefix ''/'' (sf_path f) \<and> mode_ok (sf_mode f)) (su_files s)"

definition sandbox_ok :: "sandbox_block \<Rightarrow> bool" where
  "sandbox_ok b \<longleftrightarrow> sb_image b \<noteq> [] \<and>
     (\<forall>r. sb_resources b = Some r \<longrightarrow> \<not> float_negative (kr_cpu r) \<and> size_ok (kr_memory r)) \<and>
     (sb_entrypoint b = [] \<or> hd (sb_entrypoint b) \<noteq> [])"

text \<open>A mixin has neither a sandbox nor mixins; a kit that is a sandbox has a block or a parent, not both.\<close>

definition kind_ok :: "kit \<Rightarrow> bool" where
  "kind_ok s \<longleftrightarrow>
     (ks_kind s = kind_mixin \<and> ks_sandbox s = None \<and> ks_mixins s = [] \<and> (ks_version s = ''2'' \<longrightarrow> ks_extends s = []) \<and>
        (\<forall>r. ks_requires s = Some r \<longrightarrow> r = [] \<or> kit_name r)) \<or>
     (ks_kind s = kind_sandbox \<and> ks_requires s \<in> {None, Some []} \<and> (ks_sandbox s = None \<longleftrightarrow> ks_extends s \<noteq> []) \<and> pred_option sandbox_ok (ks_sandbox s))"

definition kit_ok :: "regexps \<Rightarrow> kit \<Rightarrow> bool" where
  "kit_ok re s \<longleftrightarrow> ks_version s \<in> {''1'', ''2''} \<and> kit_name (ks_name s) \<and> kind_ok s \<and> entries_ok (ks_licenses s) \<and>
     entries_ok (ks_locked s) \<and> list_all locked_path (ks_locked s) \<and> list_all (\<lambda>(n, a). arg_ok re n a) (ks_args s) \<and>
     list_all (\<lambda>p. 1 \<le> kp_container p \<and> kp_container p \<le> 65535 \<and> kp_protocol p \<in> {[], ''tcp'', ''udp''}) (ks_ports s) \<and>
     pred_option (\<lambda>vars. list_all (shell_identifier \<circ> fst) vars) (ks_environment s) \<and> pred_option setup_ok (ks_setup s) \<and>
     list_all credential_ok (ks_credentials s) \<and> list_all volume_ok (ks_volumes s) \<and> distinct (map vl_path (ks_volumes s))"

subsection \<open>The validator decides it\<close>

lemma list_entries_None: "list_entries seen i xs = None \<longleftrightarrow> [] \<notin> set xs \<and> distinct xs \<and> set seen \<inter> set xs = {}"
  by (induction seen i xs rule: list_entries.induct) auto

lemma validate_list_None [simp]: "validate_list xs = None \<longleftrightarrow> entries_ok xs"
  by (simp add: validate_list_def list_entries_None entries_ok_def)

lemma value_error_None [simp]: "value_error re a v = None \<longleftrightarrow> value_ok re a v"
  by (auto simp: value_error_def value_ok_def split: option.splits)

lemma check_arg_None [simp]: "check_arg re n a = None \<longleftrightarrow> arg_ok re n a"
  by (auto simp: check_arg_def arg_ok_def split: option.splits)

lemma placeholders_Nil [simp]: "placeholders_in [] = 0"
  by (simp add: placeholders_in_def replace_all_def count_sub.simps)

lemma check_key_inject_None [simp]: "check_key_inject i = None \<longleftrightarrow> key_inject_ok i"
  by (auto simp: check_key_inject_def key_inject_ok_def)

lemma check_key_None [simp]: "check_key k = None \<longleftrightarrow> key_ok k"
proof -
  have "check_each (\<lambda>j i. map_option (Key_inject j) (check_key_inject i)) 0 is = None \<longleftrightarrow> list_all key_inject_ok is" for "is"
    by (rule check_each_all) simp
  then show ?thesis by (auto simp: check_key_def key_ok_def)
qed

lemma check_oauth_None [simp]: "check_oauth o1 = None \<longleftrightarrow> oauth_ok o1"
  by (auto simp: check_oauth_def oauth_ok_def split: option.splits)

lemma check_credential_None [simp]: "check_credential c = None \<longleftrightarrow> credential_ok c"
  by (auto simp: check_credential_def credential_ok_def split: option.splits)

lemma size_fault_None [simp]: "size_fault t = None \<longleftrightarrow> size_ok t"
  by (auto simp: size_fault_def size_ok_def is_ok_def split: sum.splits)

lemma check_volume_None: "check_volume seen v = None \<longleftrightarrow> volume_ok v \<and> vl_path v \<notin> fst ` set seen"
  by (auto simp: check_volume_def volume_ok_def mode_ok_def map_of_eq_None_iff)

lemma volume_entries_None:
  "volume_entries seen i vs = None \<longleftrightarrow> list_all volume_ok vs \<and> distinct (map vl_path vs) \<and> fst ` set seen \<inter> vl_path ` set vs = {}"
proof (induction seen i vs rule: volume_entries.induct)
  case (2 seen i v vs)
  show ?case
  proof (cases "check_volume seen v")
    case None
    then show ?thesis using 2 check_volume_None [of seen v] by auto
  next
    case (Some e)
    then show ?thesis using check_volume_None [of seen v] by auto
  qed
qed simp

lemma check_setup_None [simp]: "check_setup s = None \<longleftrightarrow> setup_ok s"
proof -
  have "check_each (\<lambda>i c. guard (trim_space (ic_command c) = []) (No_install_command i)) 0 xs = None \<longleftrightarrow>
      list_all (\<lambda>c. trim_space (ic_command c) \<noteq> []) xs" for xs :: "install_command list" by (rule check_each_all) simp
  moreover have "check_each (\<lambda>i c. first_fault [guard (sc_command c = []) (No_startup_command i),
        guard (sc_command c \<noteq> [] \<and> hd (sc_command c) = []) (No_startup_program i)]) 0 xs = None \<longleftrightarrow>
      list_all (\<lambda>c. sc_command c \<noteq> [] \<and> hd (sc_command c) \<noteq> []) xs" for xs :: "startup_command list" by (rule check_each_all) auto
  moreover have "check_each (\<lambda>i f. first_fault [guard (sf_path f = []) (No_setup_path i),
        guard (\<not> prefix ''/'' (sf_path f)) (Setup_relative i (sf_path f)),
        guard (sf_mode f \<noteq> [] \<and> \<not> octal_mode (sf_mode f)) (Setup_mode i (sf_mode f))]) 0 xs = None \<longleftrightarrow>
      list_all (\<lambda>f. prefix ''/'' (sf_path f) \<and> mode_ok (sf_mode f)) xs" for xs :: "setup_file list" by (rule check_each_all) (auto simp: mode_ok_def)
  ultimately show ?thesis unfolding check_setup_def setup_ok_def by simp
qed

lemma check_shape_None:
  assumes "ks_kind s \<in> {kind_sandbox, kind_mixin}"
  shows "check_shape s = None \<and> check_sandbox s = None \<longleftrightarrow> kind_ok s"
  using assms
  by (auto simp: check_shape_def check_sandbox_def kind_ok_def sandbox_ok_def split: option.splits if_splits)

lemma check_locked_None [simp]: "check_locked ps = None \<longleftrightarrow> entries_ok ps \<and> list_all locked_path ps"
proof -
  have "check_each (\<lambda>i p. guard (\<not> locked_path p) (Locked_path i p)) 0 ps = None \<longleftrightarrow> list_all locked_path ps"
    by (rule check_each_all) simp
  then show ?thesis unfolding check_locked_def by simp
qed

lemma check_args_None:
  assumes "distinct (map fst args)"
  shows "check_args re args = None \<longleftrightarrow> list_all (\<lambda>(n, a). arg_ok re n a) args"
proof -
  let ?P = "\<lambda>n. case map_of args n of None \<Rightarrow> True | Some a \<Rightarrow> arg_ok re n a"
  have "check_args re args = None \<longleftrightarrow> list_all ?P (keys_in_order args)"
    unfolding check_args_def by (rule check_each_all) (simp split: option.split)
  then show ?thesis using assms by (force simp: list_all_iff keys_in_order_def split: option.splits dest: map_of_SomeD)
qed

lemma check_environment_None [simp]: "check_environment vars = None \<longleftrightarrow> list_all (shell_identifier \<circ> fst) vars"
proof -
  have "check_environment vars = None \<longleftrightarrow> list_all shell_identifier (keys_in_order vars)"
    unfolding check_environment_def by (rule check_each_all) (auto simp: shell_identifier_def)
  then show ?thesis by (auto simp: list_all_iff keys_in_order_def)
qed

lemma check_ports_None:
  "check_each check_port 0 ps = None \<longleftrightarrow>
     list_all (\<lambda>p. 1 \<le> kp_container p \<and> kp_container p \<le> 65535 \<and> kp_protocol p \<in> {[], ''tcp'', ''udp''}) ps"
  by (rule check_each_all) (auto simp: check_port_def)

lemma check_kit_credentials_None:
  "check_each (\<lambda>i c. map_option (Credentials i) (check_credential c)) 0 cs = None \<longleftrightarrow> list_all credential_ok cs"
  by (rule check_each_all) simp

lemma validate_kit_None:
  assumes "distinct (map fst (ks_args s))"
  shows "validate_kit re s = None \<longleftrightarrow> kit_ok re s"
proof (cases "ks_kind s \<in> {kind_sandbox, kind_mixin}")
  case True
  have "kit_name (ks_name s) \<Longrightarrow> ks_name s \<noteq> []" by (simp add: kit_name_def)
  then show ?thesis
    using True check_shape_None [OF True]
    unfolding validate_kit_def kit_ok_def
    by (auto simp: check_args_None [OF assms] check_ports_None check_kit_credentials_None volume_entries_None supported_versions_def
        split: option.splits)
next
  case False
  then show ?thesis by (auto simp: validate_kit_def kit_ok_def kind_ok_def)
qed

subsection \<open>Properties\<close>

text \<open>
  C17: the validator accepts exactly the well-formed specifications: for a kit whose argument names are distinct, as the keys of
  a map are, it finds no error if and only if the kit satisfies the stated grammar of every block.
\<close>

theorem validate_exact:
  assumes "distinct (map fst (ks_args s))"
  shows "(validate_kit re s = None) = kit_ok re s"
  by (rule validate_kit_None) (rule assms)

definition kit_ex :: kit where
  "kit_ex =
     \<lparr>ks_version = ''2'', ks_kind = ''sandbox'', ks_name = ''demo'', ks_release = [], ks_display = [], ks_description = [], ks_source = [],
      ks_licenses = [''MIT''], ks_locked = [''sandbox.image''], ks_privileged = None, ks_extends = [], ks_mixins = [], ks_requires = None,
      ks_args = [], ks_sandbox = Some \<lparr>sb_image = ''i'', sb_build = None, sb_entrypoint = [''run''],
        sb_command = \<lparr>cm_default = [''-d''], cm_interactive = Some []\<rparr>, sb_resources = None\<rparr>,
      ks_instructions = None, ks_permissions = Some (Some \<lparr>np_allow = [''a.b''], np_deny = []\<rparr>), ks_ports = [],
      ks_credentials = [\<lparr>kc_service = ''key'', kc_description = [], kc_required = False, kc_provider = [],
        kc_key = Some \<lparr>ak_name = ''KEY'', ak_managed = True,
          ak_inject = [\<lparr>ki_domain = ''a.b'', ki_header = [], ki_format = [], ki_username = ''u'', ki_scheme = ''basic''\<rparr>]\<rparr>, kc_oauth = None\<rparr>],
      ks_environment = Some [(''A'', ''1'')], ks_setup = None, ks_volumes = [\<lparr>vl_path = ''/v'', vl_type = [], vl_size = ''1g'', vl_mode = ''0755''\<rparr>]\<rparr>"

theorem validate_exact_witness: "\<exists>t. expand_schemes kit_ex = Inr t \<and> kit_ok (\<lambda>_. None) t \<and> \<not> kit_ok (\<lambda>_. None) kit_ex"
proof -
  have "map_sum id (validate_kit (\<lambda>_. None)) (expand_schemes kit_ex) = Inr None" "validate_kit (\<lambda>_. None) kit_ex \<noteq> None"
    "map_sum id (\<lambda>t. ks_args t) (expand_schemes kit_ex) = Inr []" by code_simp+
  then obtain t where t: "expand_schemes kit_ex = Inr t" "validate_kit (\<lambda>_. None) t = None" "ks_args t = []"
    by (cases "expand_schemes kit_ex") auto
  then have "kit_ok (\<lambda>_. None) t" using validate_exact [of t "\<lambda>_. None"] by simp
  moreover have "\<not> kit_ok (\<lambda>_. None) kit_ex"
    using validate_exact [of kit_ex "\<lambda>_. None"] \<open>validate_kit _ kit_ex \<noteq> None\<close> by (simp add: kit_ex_def)
  ultimately show ?thesis using t(1) by blast
qed

subsection \<open>Expansion\<close>

text \<open>An expansion settles the scheme of every injection, keeps everything else, and expands no further.\<close>

lemma expand_list_Inr: "expand_list f i xs = Inr ys \<longleftrightarrow> list_all2 (\<lambda>x y. f x = Inr y) xs ys"
proof (induction xs arbitrary: i ys)
  case (Cons x xs)
  show ?case by (auto simp: Cons.IH [of "i + 1", symmetric] list_all2_Cons1 split: sum.splits)
qed auto

lemma expand_inject_result:
  assumes "expand_inject i = Inr j"
  shows "ki_scheme j = [] \<and> ki_domain j = ki_domain i \<and> ki_username j = ki_username i \<and> expand_inject j = Inr j \<and>
    (ki_scheme i = [] \<longrightarrow> j = i) \<and>
    (ki_scheme i = scheme_bearer \<longrightarrow> ki_format j = ''Bearer %s'' \<and> ki_header j \<noteq> [] \<and> ki_username i = []) \<and>
    (ki_scheme i = scheme_basic \<longrightarrow> ki_format j = ''%s'' \<and> ki_username i \<noteq> [])"
  using assms by (auto simp: expand_inject_def split: if_splits)

definition unexpanded :: "kit_credential \<Rightarrow> kit_credential" where
  "unexpanded c = c\<lparr>kc_key := None\<rparr>"

definition expanded :: "kit_credential \<Rightarrow> bool" where
  "expanded c \<longleftrightarrow> (\<forall>k. kc_key c = Some k \<longrightarrow> list_all (\<lambda>i. ki_scheme i = []) (ak_inject k))"

lemma expand_list_id: "list_all (\<lambda>x. f x = Inr x) xs \<Longrightarrow> expand_list f i xs = Inr xs"
  by (simp add: expand_list_Inr list_all2_same list_all_iff)

lemma expand_credential_id: "expanded c \<Longrightarrow> expand_credential c = Inr c"
proof (cases "kc_key c")
  case (Some k)
  moreover assume "expanded c"
  ultimately have "expand_list expand_inject 0 (ak_inject k) = Inr (ak_inject k)"
    by (intro expand_list_id) (auto simp: expanded_def expand_inject_def list_all_iff)
  then show ?thesis using Some by (simp add: expand_credential_def)
qed (simp add: expand_credential_def)

lemma expand_credential_result:
  assumes "expand_credential c = Inr d"
  shows "expanded d \<and> unexpanded d = unexpanded c \<and> rel_option (\<lambda>k l. ak_name l = ak_name k \<and> ak_managed l = ak_managed k \<and>
    list_all2 (\<lambda>i j. expand_inject i = Inr j) (ak_inject k) (ak_inject l)) (kc_key c) (kc_key d)"
proof (cases "kc_key c")
  case (Some k)
  then obtain injs where d: "d = c\<lparr>kc_key := Some (k\<lparr>ak_inject := injs\<rparr>)\<rparr>" and all: "list_all2 (\<lambda>i j. expand_inject i = Inr j) (ak_inject k) injs"
    using assms by (auto simp: expand_credential_def expand_list_Inr split: sum.splits)
  have "list_all (\<lambda>j. ki_scheme j = []) injs" using all
    by (induction rule: list_all2_induct) (auto dest: expand_inject_result)
  then show ?thesis using Some d all by (simp add: expanded_def unexpanded_def)
qed (use assms in \<open>auto simp: expand_credential_def expanded_def\<close>)

lemma expand_schemes_Inr:
  "expand_schemes s = Inr t \<longleftrightarrow>
     (\<exists>cs. list_all2 (\<lambda>c d. expand_credential c = Inr d) (ks_credentials s) cs \<and> t = s\<lparr>ks_credentials := cs\<rparr>)"
  by (auto simp: expand_schemes_def expand_list_Inr [of _ 0, symmetric] split: sum.splits)

lemma expand_schemes_expanded: "expand_schemes s = Inr t \<Longrightarrow> list_all expanded (ks_credentials t) \<and> ks_args t = ks_args s"
proof -
  assume "expand_schemes s = Inr t"
  then obtain cs where cs: "list_all2 (\<lambda>c d. expand_credential c = Inr d) (ks_credentials s) cs" "t = s\<lparr>ks_credentials := cs\<rparr>"
    by (auto simp: expand_schemes_Inr)
  from cs(1) have "list_all expanded cs" by (induction rule: list_all2_induct) (auto dest: expand_credential_result)
  with cs(2) show ?thesis by simp
qed

definition inject_settles :: "key_inject \<Rightarrow> key_inject \<Rightarrow> bool" where
  "inject_settles i j \<longleftrightarrow> ki_domain j = ki_domain i \<and> ki_username j = ki_username i \<and> (ki_scheme i = [] \<longrightarrow> j = i) \<and>
     (ki_scheme i = scheme_bearer \<longrightarrow> ki_format j = ''Bearer %s'' \<and> ki_header j = (if ki_header i = [] then ''Authorization'' else ki_header i)) \<and>
     (ki_scheme i = scheme_basic \<longrightarrow> ki_format j = ''%s'' \<and> ki_header j = ki_header i \<and> ki_username j \<noteq> [])"

definition credential_settles :: "kit_credential \<Rightarrow> kit_credential \<Rightarrow> bool" where
  "credential_settles c d \<longleftrightarrow> expanded d \<and> unexpanded d = unexpanded c \<and>
     rel_option (\<lambda>k l. ak_name l = ak_name k \<and> ak_managed l = ak_managed k \<and> list_all2 inject_settles (ak_inject k) (ak_inject l)) (kc_key c) (kc_key d)"

lemma expand_inject_settles: "expand_inject i = Inr j \<Longrightarrow> inject_settles i j"
  by (auto simp: expand_inject_def inject_settles_def split: if_splits)

lemma expand_credential_settles: "expand_credential c = Inr d \<Longrightarrow> credential_settles c d"
  using expand_credential_result [of c d] unfolding credential_settles_def
  by (auto elim!: option.rel_mono_strong list_all2_mono intro: expand_inject_settles)

text \<open>
  What the shorthand means. An expansion changes only injections, leaves none with a scheme, and changes nothing
  when it is repeated; a bearer rule without a header goes into \<open>Authorization\<close>, a given header stays, and a basic rule has a username.
\<close>

theorem expansion_settles:
  assumes "expand_schemes s = Inr t"
  shows "expand_schemes t = Inr t \<and> t = s\<lparr>ks_credentials := ks_credentials t\<rparr> \<and>
    list_all2 credential_settles (ks_credentials s) (ks_credentials t)"
proof -
  obtain cs where cs: "list_all2 (\<lambda>c d. expand_credential c = Inr d) (ks_credentials s) cs" "t = s\<lparr>ks_credentials := cs\<rparr>"
    using assms by (auto simp: expand_schemes_Inr)
  have "list_all expanded cs" using expand_schemes_expanded [OF assms] cs(2) by simp
  then have "list_all2 (\<lambda>c d. expand_credential c = Inr d) cs cs"
    by (auto simp: list_all2_same list_all_iff expand_credential_id)
  then have "expand_schemes t = Inr t" using cs(2) by (auto simp: expand_schemes_Inr)
  moreover have "list_all2 credential_settles (ks_credentials s) cs"
    using cs(1) by (rule list_all2_mono) (rule expand_credential_settles)
  ultimately show ?thesis using cs(2) by simp
qed

theorem expansion_settles_witness: "\<exists>t. expand_schemes kit_ex = Inr t \<and> list_all expanded (ks_credentials t)"
proof -
  obtain t where t: "expand_schemes kit_ex = Inr t"
    by (cases "expand_schemes kit_ex") (simp_all add: kit_ex_def expand_schemes_def expand_credential_def expand_inject_def)
  from expansion_settles [OF t] have "expand_schemes t = Inr t" by blast
  then show ?thesis using t expand_schemes_expanded by blast
qed

end
