(* ===== verification/Kit_V1.thy ===== *)
theory Kit_V1
  imports Kit_Spec
begin

section \<open>Kits of schema version 1: \<open>internal/kit/decode_v1.go\<close>, and \<open>ParseSpec\<close>\<close>

text \<open>
  The older grammar as it is decoded, its translation onto the canonical form, and what reading a specification comes
  to. Each step takes the specification built so far and the warnings collected. The code walks a map in
  sorted order wherever it sorts the keys first; the one walk without sorting, over the sources of credentials, takes its
  order as the argument \<open>walk\<close>, since Go's is random.
\<close>

subsection \<open>The grammar\<close>

record entrypoint_v1 =
  e1_run :: "string list"
  e1_args :: "string list"
  e1_tty :: "string list option"
  e1_pipe :: string

record resources_v1 =
  r1_cpu :: float64
  r1_memory :: int
  r1_gpu :: string

record sandbox_v1 =
  s1_image :: string
  s1_build :: "build_config option"
  s1_entrypoint :: "entrypoint_v1 option"
  s1_filename :: string
  s1_resources :: "resources_v1 option"
  s1_persistence :: string
  s1_binary :: string
  s1_run :: "string list"
  s1_interactive :: "string list"

record service_auth =
  sa_header :: string
  sa_format :: string

record network_v1 =
  n1_allowed :: "string list"
  n1_denied :: "string list"
  n1_domains :: "string str_map"
  n1_auth :: "service_auth str_map"
  n1_ports :: "kit_port list"

record environment_v1 =
  v1_variables :: "string str_map"
  v1_managed :: "string list"

record commands_v1 =
  c1_install :: "install_command list"
  c1_startup :: "startup_command list"
  c1_files :: "setup_file list"

record oauth_v1 =
  o1_service :: string
  o1_host :: string
  o1_path :: string
  o1_access :: string
  o1_refresh :: string
  o1_file :: "kit_file option"
  o1_skip :: "string list"
  o1_fields :: "kit_fields option"
  o1_passthrough :: bool

record source_v1 =
  src_env :: "string list"
  src_file :: "(string \<times> string) option"
  src_priority :: string
  src_required :: bool

record kit_v1 =
  k1_version :: string
  k1_kind :: string
  k1_name :: string
  k1_release :: string
  k1_display :: string
  k1_description :: string
  k1_source :: string
  k1_extends :: string
  k1_mixins :: "string list"
  k1_requires :: "string option"
  k1_locked :: "string list"
  k1_licenses :: "string list"
  k1_privileged :: "bool option"
  k1_sandbox :: "sandbox_v1 option"
  k1_agent :: "sandbox_v1 option"
  k1_network :: "network_v1 option"
  k1_ports :: "kit_port list"
  k1_credentials :: "kit_credential list"
  k1_sources :: "source_v1 str_map"
  k1_oauth :: "oauth_v1 option"
  k1_environment :: "environment_v1 option"
  k1_commands :: "commands_v1 option"
  k1_context :: string
  k1_memory :: string
  k1_volumes :: "kit_volume list"
  k1_sizes :: "string str_map"
  k1_tmpfs :: "string str_map"
  k1_caps :: "network_permissions option option"
  k1_settings :: "bool str_map option"
  k1_persistence :: string
  k1_dir :: string
  k1_secrets :: "string list"
  k1_egress :: "string str_map"

subsection \<open>The sandbox block\<close>

datatype v1_error = Secrets_removed | Egress_removed | Memory_negative int | Oauth_no_service | Oauth_twice string

type_synonym translation = "kit \<times> warning list"

definition block_v1 :: "kit_v1 \<Rightarrow> sandbox_v1 option" where
  "block_v1 sf = (case k1_sandbox sf of Some b \<Rightarrow> Some b | None \<Rightarrow> k1_agent sf)"

definition empty_command :: kit_command where
  "empty_command = \<lparr>cm_default = [], cm_interactive = None\<rparr>"

text \<open>The two spellings of what is run: the mapping, and the three flat fields for what it leaves unset.\<close>

definition command_v1 :: "sandbox_v1 \<Rightarrow> (string list \<times> kit_command) \<times> warning list" where
  "command_v1 b =
     (let (entry, cmd, w0) = (case s1_entrypoint b of
             None \<Rightarrow> ([], empty_command, [])
           | Some e \<Rightarrow> (e1_run e, \<lparr>cm_default = e1_args e, cm_interactive = e1_tty e\<rparr>,
               if e1_pipe e \<noteq> [] then [Dropped ''sandbox.entrypoint.pipeMode''] else []));
          binary = s1_binary b \<noteq> [] \<and> entry = [];
          run = s1_run b \<noteq> [] \<and> cm_default cmd = [];
          tty = s1_interactive b \<noteq> [] \<and> (case cm_interactive cmd of None \<Rightarrow> True | Some t \<Rightarrow> t = [])
      in ((if binary then [s1_binary b] else entry,
           \<lparr>cm_default = (if run then s1_run b else cm_default cmd),
            cm_interactive = (if tty then Some (s1_interactive b) else cm_interactive cmd)\<rparr>),
          w0 @ (if binary then [Deprecated ''agent.binary''] else []) @ (if run then [Deprecated ''agent.runOptions''] else []) @
          (if tty then [Deprecated ''agent.interactiveOptions''] else [])))"

definition resources_of_v1 :: "resources_v1 \<Rightarrow> v1_error + kit_resources \<times> warning list" where
  "resources_of_v1 r =
     (let res = \<lparr>kr_cpu = r1_cpu r, kr_memory = [], kr_gpu = r1_gpu r\<rparr>
      in if r1_memory r = 0 then Inr (res, [])
         else if r1_memory r < 0 then Inl (Memory_negative (r1_memory r))
         else Inr (res\<lparr>kr_memory := itoa (r1_memory r) @ ''m''\<rparr>, [Deprecated ''sandbox.resources.memoryMB'']))"

definition translate_sandbox :: "kit_v1 \<Rightarrow> translation \<Rightarrow> v1_error + translation" where
  "translate_sandbox sf t =
     (let (s, w) = t; w = w @ (if k1_agent sf \<noteq> None then [Deprecated ''agent:''] else [])
      in case block_v1 sf of
           None \<Rightarrow> Inr (s, w)
         | Some b \<Rightarrow>
             (let w = w @ (if s1_persistence b \<noteq> [] then [Dropped ''sandbox.persistence''] else []);
                  ((entry, cmd), wc) = command_v1 b;
                  sb = \<lparr>sb_image = s1_image b, sb_build = s1_build b, sb_entrypoint = entry, sb_command = cmd, sb_resources = None\<rparr>
              in case s1_resources b of
                   None \<Rightarrow> Inr (s\<lparr>ks_sandbox := Some sb\<rparr>, w @ wc)
                 | Some r \<Rightarrow> (case resources_of_v1 r of
                     Inl e \<Rightarrow> Inl e
                   | Inr (res, wr) \<Rightarrow> Inr (s\<lparr>ks_sandbox := Some (sb\<lparr>sb_resources := Some res\<rparr>)\<rparr>, w @ wc @ wr))))"

definition translate_instructions :: "kit_v1 \<Rightarrow> translation \<Rightarrow> translation" where
  "translate_instructions sf t =
     (let (s, w) = t;
          file = (case block_v1 sf of Some b \<Rightarrow> s1_filename b | None \<Rightarrow> []);
          (content, wc) =
            (if k1_context sf \<noteq> [] then (k1_context sf, Deprecated ''agentContext:'' # (if k1_memory sf \<noteq> [] then [Dropped ''memory:''] else []))
             else if k1_memory sf \<noteq> [] then (k1_memory sf, [Deprecated ''memory:'']) else ([], []))
      in (if file = [] \<and> content = [] then s else s\<lparr>ks_instructions := Some \<lparr>ai_filename = file, ai_content = content\<rparr>\<rparr>,
          w @ (if file \<noteq> [] then [Deprecated ''sandbox.aiFilename''] else []) @ wc))"

definition translate_network :: "kit_v1 \<Rightarrow> translation \<Rightarrow> translation" where
  "translate_network sf t =
     (let (s, w) = t;
          (allow, deny, w) = (case k1_caps sf of
              Some (Some n) \<Rightarrow> (np_allow n, np_deny n, w @ [Deprecated ''caps:''])
            | _ \<Rightarrow> ([], [], w));
          (allow, deny, s, w) = (case k1_network sf of
              None \<Rightarrow> (allow, deny, s, w)
            | Some n \<Rightarrow>
                (allow @ n1_allowed n, deny @ n1_denied n, s\<lparr>ks_ports := ks_ports s @ n1_ports n\<rparr>,
                 w @ (if n1_allowed n \<noteq> [] then [Deprecated ''network.allowedDomains''] else []) @
                 (if n1_denied n \<noteq> [] then [Deprecated ''network.deniedDomains''] else []) @
                 (if n1_ports n \<noteq> [] then [Deprecated ''network.publishedPorts''] else [])))
      in (if allow = [] \<and> deny = [] then s else s\<lparr>ks_permissions := Some (Some \<lparr>np_allow = allow, np_deny = deny\<rparr>)\<rparr>, w))"

subsection \<open>Credentials\<close>

text \<open>
  Four surfaces say something about one credential; what is known of a service is collected first, and a service
  the list already has is left alone.
\<close>

record pending =
  pn_required :: bool
  pn_name :: string
  pn_managed :: bool
  pn_inject :: "key_inject list"

definition no_pending :: pending where
  "no_pending = \<lparr>pn_required = False, pn_name = [], pn_managed = False, pn_inject = []\<rparr>"

type_synonym pendings = "pending str_map"

definition get_pending :: "string \<Rightarrow> pendings \<Rightarrow> pending" where
  "get_pending svc m = (case map_of m svc of None \<Rightarrow> no_pending | Some p \<Rightarrow> p)"

definition explicit_services :: "kit_v1 \<Rightarrow> string list" where
  "explicit_services sf = map kc_service (k1_credentials sf)"

definition fold_source :: "kit_v1 \<Rightarrow> string \<Rightarrow> pendings \<Rightarrow> pendings" where
  "fold_source sf svc m =
     (case map_of (k1_sources sf) svc of
        None \<Rightarrow> m
      | Some src \<Rightarrow>
          if svc \<in> set (explicit_services sf) then m
          else (let p = get_pending svc m;
                    p = (if src_required src then p\<lparr>pn_required := True\<rparr> else p);
                    p = (case src_env src of [] \<Rightarrow> p | name # _ \<Rightarrow> p\<lparr>pn_name := name\<rparr>)
                in AList.update svc p m))"

definition fold_domain :: "kit_v1 \<Rightarrow> network_v1 \<Rightarrow> string \<Rightarrow> pendings \<Rightarrow> pendings" where
  "fold_domain sf n domain m =
     (case map_of (n1_domains n) domain of
        None \<Rightarrow> m
      | Some svc \<Rightarrow>
          if svc \<in> set (explicit_services sf) then m
          else (let ki = \<lparr>ki_domain = domain, ki_header = [], ki_format = ''%s'', ki_username = [], ki_scheme = []\<rparr>;
                    ki = (case map_of (n1_auth n) svc of
                        None \<Rightarrow> ki
                      | Some a \<Rightarrow> ki\<lparr>ki_header := sa_header a, ki_format := (if sa_format a \<noteq> [] then sa_format a else ''%s'')\<rparr>);
                    p = get_pending svc m
                in AList.update svc (p\<lparr>pn_inject := pn_inject p @ [ki]\<rparr>) m))"

definition env_services :: "kit_v1 \<Rightarrow> string list \<Rightarrow> string str_map" where
  "env_services sf walk =
     fold (\<lambda>svc m. fold (\<lambda>name m. AList.update name svc m) (case map_of (k1_sources sf) svc of None \<Rightarrow> [] | Some src \<Rightarrow> src_env src) m) walk []"

definition fold_managed :: "kit_v1 \<Rightarrow> string str_map \<Rightarrow> string \<Rightarrow> pendings \<times> warning list \<Rightarrow> pendings \<times> warning list" where
  "fold_managed sf env name t =
     (case map_of env name of
        None \<Rightarrow> (fst t, snd t @ [Dropped (''environment.proxyManaged entry '' @ name)])
      | Some svc \<Rightarrow>
          if svc \<in> set (explicit_services sf) then t
          else (let p = get_pending svc (fst t);
                    p = (if pn_name p = [] then p\<lparr>pn_name := name\<rparr> else p)
                in (AList.update svc (p\<lparr>pn_managed := True\<rparr>) (fst t), snd t)))"

definition credential_of :: "string \<Rightarrow> pending \<Rightarrow> kit_credential" where
  "credential_of svc p =
     \<lparr>kc_service = svc, kc_description = [], kc_required = pn_required p, kc_provider = [],
      kc_key = (if pn_name p \<noteq> [] \<or> pn_inject p \<noteq> []
        then Some \<lparr>ak_name = pn_name p, ak_managed = pn_managed p, ak_inject = pn_inject p\<rparr> else None),
      kc_oauth = None\<rparr>"

definition collected :: "kit_v1 \<Rightarrow> pendings" where
  "collected sf =
     (let m = fold (fold_source sf) (keys_in_order (k1_sources sf)) []
      in case k1_network sf of None \<Rightarrow> m | Some n \<Rightarrow> fold (fold_domain sf n) (keys_in_order (n1_domains n)) m)"

definition managed_names :: "kit_v1 \<Rightarrow> string list" where
  "managed_names sf = (case k1_environment sf of None \<Rightarrow> [] | Some e \<Rightarrow> v1_managed e)"

definition all_pending :: "string list \<Rightarrow> kit_v1 \<Rightarrow> pendings \<times> warning list" where
  "all_pending walk sf = fold (fold_managed sf (env_services sf walk)) (managed_names sf) (collected sf, [])"

definition surface_warnings :: "kit_v1 \<Rightarrow> warning list" where
  "surface_warnings sf =
     (let free = (\<lambda>svc. svc \<notin> set (explicit_services sf));
          domains = (case k1_network sf of None \<Rightarrow> [] | Some n \<Rightarrow> n1_domains n);
          auth = (case k1_network sf of None \<Rightarrow> [] | Some n \<Rightarrow> n1_auth n)
      in (if list_ex free (map fst (k1_sources sf)) then [Deprecated ''credentials.sources''] else []) @
         (if list_ex free (map snd domains) then [Deprecated ''network.serviceDomains''] else []) @
         (if auth \<noteq> [] then [Deprecated ''network.serviceAuth''] else []) @
         (if managed_names sf \<noteq> [] then [Deprecated ''environment.proxyManaged''] else []))"

text \<open>The standalone block: an API key that only routes domains gives them to the OAuth side.\<close>

definition routing_only :: "api_key option \<Rightarrow> bool" where
  "routing_only k = (case k of None \<Rightarrow> False | Some k \<Rightarrow> ak_name k = [] \<and> ak_inject k \<noteq> [])"

definition oauth_of_v1 :: "oauth_v1 \<Rightarrow> kit_oauth" where
  "oauth_of_v1 o1 =
     \<lparr>ko_host = o1_host o1, ko_path = o1_path o1, ko_access = o1_access o1, ko_refresh = o1_refresh o1, ko_resources = [],
      ko_file = o1_file o1, ko_skip = o1_skip o1, ko_fields = o1_fields o1, ko_passthrough = o1_passthrough o1\<rparr>"

definition routed_hosts :: "string \<Rightarrow> api_key option \<Rightarrow> string list" where
  "routed_hosts token_host k =
     (case k of
        Some k \<Rightarrow> if routing_only (Some k) then sort (filter (\<lambda>d. d \<noteq> [] \<and> d \<noteq> token_host) (map ki_domain (ak_inject k))) else []
      | None \<Rightarrow> [])"

fun attach_oauth :: "string \<Rightarrow> kit_oauth \<Rightarrow> kit_credential list \<Rightarrow> v1_error + kit_credential list" where
  "attach_oauth svc v2 [] =
     Inr [\<lparr>kc_service = svc, kc_description = [], kc_required = False, kc_provider = [], kc_key = None, kc_oauth = Some v2\<rparr>]"
| "attach_oauth svc v2 (c # cs) =
     (if kc_service c \<noteq> svc then (case attach_oauth svc v2 cs of Inl e \<Rightarrow> Inl e | Inr cs' \<Rightarrow> Inr (c # cs'))
      else if kc_oauth c \<noteq> None then Inl (Oauth_twice svc)
      else Inr (c\<lparr>kc_key := (if routing_only (kc_key c) then None else kc_key c),
               kc_oauth := Some (v2\<lparr>ko_resources := routed_hosts (ko_host v2) (kc_key c)\<rparr>)\<rparr> # cs))"

definition translate_oauth :: "kit_v1 \<Rightarrow> translation \<Rightarrow> v1_error + translation" where
  "translate_oauth sf t =
     (let (s, w) = t
      in case k1_oauth sf of
           None \<Rightarrow> Inr t
         | Some o1 \<Rightarrow>
             if o1_service o1 = [] then Inl Oauth_no_service
             else (case attach_oauth (o1_service o1) (oauth_of_v1 o1) (ks_credentials s) of
                 Inl e \<Rightarrow> Inl e
               | Inr cs \<Rightarrow> Inr (s\<lparr>ks_credentials := cs\<rparr>,
                   w @ (if o1_passthrough o1 then [Deprecated ''oauth.passthroughResponse''] else []) @
                   (if o1_skip o1 \<noteq> [] then [Ignored ''oauth.skipIfEnv''] else []) @ [Deprecated ''oauth: (standalone block)''])))"

definition translate_credentials :: "string list \<Rightarrow> kit_v1 \<Rightarrow> translation \<Rightarrow> v1_error + translation" where
  "translate_credentials walk sf t =
     (let (s, w) = t;
          (m, drops) = all_pending walk sf;
          cs = k1_credentials sf @ map (\<lambda>svc. credential_of svc (get_pending svc m)) (keys_in_order m)
      in translate_oauth sf (s\<lparr>ks_credentials := cs\<rparr>, w @ drops @ surface_warnings sf))"

subsection \<open>The rest, and the whole\<close>

definition translate_environment :: "kit_v1 \<Rightarrow> translation \<Rightarrow> translation" where
  "translate_environment sf t =
     (case k1_environment sf of
        Some e \<Rightarrow> (if v1_variables e = [] then fst t else (fst t)\<lparr>ks_environment := Some (v1_variables e)\<rparr>, snd t)
      | None \<Rightarrow> t)"

definition translate_setup :: "kit_v1 \<Rightarrow> translation \<Rightarrow> translation" where
  "translate_setup sf t =
     (case k1_commands sf of
        None \<Rightarrow> t
      | Some c \<Rightarrow> ((fst t)\<lparr>ks_setup := Some \<lparr>su_install = c1_install c, su_startup = c1_startup c, su_files = c1_files c\<rparr>\<rparr>,
          snd t @ Deprecated ''commands:'' # (if c1_files c \<noteq> [] then [Deprecated ''commands.initFiles''] else [])))"

definition sized_volume :: "string \<Rightarrow> string str_map \<Rightarrow> string \<Rightarrow> kit_volume" where
  "sized_volume type m path = \<lparr>vl_path = path, vl_type = type, vl_size = (case map_of m path of Some t \<Rightarrow> t | None \<Rightarrow> []), vl_mode = []\<rparr>"

definition translate_volumes :: "kit_v1 \<Rightarrow> translation \<Rightarrow> translation" where
  "translate_volumes sf t =
     ((fst t)\<lparr>ks_volumes := ks_volumes (fst t) @ k1_volumes sf @ map (sized_volume [] (k1_sizes sf)) (keys_in_order (k1_sizes sf)) @
         map (sized_volume ''tmpfs'' (k1_tmpfs sf)) (keys_in_order (k1_tmpfs sf))\<rparr>,
      snd t @ (if k1_sizes sf \<noteq> [] then [Deprecated ''volumes: (mapping form)''] else []) @
      (if k1_tmpfs sf \<noteq> [] then [Deprecated ''tmpfs:''] else []))"

definition translate_removed :: "kit_v1 \<Rightarrow> warning list" where
  "translate_removed sf =
     (if k1_settings sf \<noteq> None then [Dropped ''settings:''] else []) @
     (if k1_persistence sf \<noteq> [] then [Dropped ''persistence:''] else []) @
     (if k1_dir sf \<noteq> [] then [Dropped ''kitDir:''] else [])"

definition start_v1 :: "kit_v1 \<Rightarrow> kit" where
  "start_v1 sf =
     \<lparr>ks_version = k1_version sf, ks_kind = k1_kind sf, ks_name = k1_name sf, ks_release = k1_release sf, ks_display = k1_display sf,
      ks_description = k1_description sf, ks_source = k1_source sf, ks_licenses = k1_licenses sf, ks_locked = k1_locked sf,
      ks_privileged = k1_privileged sf, ks_extends = k1_extends sf, ks_mixins = k1_mixins sf, ks_requires = k1_requires sf,
      ks_args = [], ks_sandbox = None, ks_instructions = None, ks_permissions = None, ks_ports = k1_ports sf, ks_credentials = [],
      ks_environment = None, ks_setup = None, ks_volumes = []\<rparr>"

definition translate_v1 :: "string list \<Rightarrow> kit_v1 \<Rightarrow> v1_error + translation" where
  "translate_v1 walk sf =
     (if k1_secrets sf \<noteq> [] then Inl Secrets_removed
      else if k1_egress sf \<noteq> [] then Inl Egress_removed
      else (let s = start_v1 sf;
                t = (if k1_kind sf = kind_agent then (s\<lparr>ks_kind := kind_sandbox\<rparr>, [Deprecated ''kind: agent'']) else (s, []))
        in case translate_sandbox sf t of
             Inl e \<Rightarrow> Inl e
           | Inr t \<Rightarrow> (case translate_credentials walk sf (translate_network sf (translate_instructions sf t)) of
               Inl e \<Rightarrow> Inl e
             | Inr t \<Rightarrow> (let t = translate_volumes sf (translate_setup sf (translate_environment sf t))
                 in Inr (fst t, snd t @ translate_removed sf)))))"

text \<open>\<open>ParseSpec\<close>, from what decoding the document gave.\<close>

datatype decoded = Decode_failed string | Decoded_1 kit_v1 | Decoded_2 kit | Decoded_other string

datatype parse_error = Parse_decode string | Parse_version string | Parse_v1 v1_error | Parse_scheme nat nat scheme_error | Parse_invalid kit_error

definition finish_parse :: "regexps \<Rightarrow> kit \<Rightarrow> warning list \<Rightarrow> parse_error + kit \<times> warning list" where
  "finish_parse re s w =
     (case expand_schemes s of
        Inl (i, j, e) \<Rightarrow> Inl (Parse_scheme i j e)
      | Inr s \<Rightarrow> (case validate_kit re s of Some e \<Rightarrow> Inl (Parse_invalid e) | None \<Rightarrow> Inr (s, w)))"

definition parse_kit :: "regexps \<Rightarrow> string list \<Rightarrow> decoded \<Rightarrow> parse_error + kit \<times> warning list" where
  "parse_kit re walk d =
     (case d of
        Decode_failed e \<Rightarrow> Inl (Parse_decode e)
      | Decoded_other v \<Rightarrow> Inl (Parse_version v)
      | Decoded_2 s \<Rightarrow> finish_parse re s (warn_kit s)
      | Decoded_1 sf \<Rightarrow> (case translate_v1 walk sf of Inl e \<Rightarrow> Inl (Parse_v1 e) | Inr (s, w) \<Rightarrow> finish_parse re s (w @ warn_kit s)))"

subsection \<open>What the surfaces collect\<close>

lemma get_pending_update [simp]: "get_pending svc (AList.update k p m) = (if svc = k then p else get_pending svc m)"
  by (simp add: get_pending_def update_conv')

lemma get_pending_Nil [simp]: "get_pending svc [] = no_pending"
  by (simp add: get_pending_def)

lemma get_pending_absent: "svc \<notin> fst ` set m \<Longrightarrow> get_pending svc m = no_pending"
  by (simp add: get_pending_def map_of_eq_None_iff [THEN iffD2])

lemma no_pending_simps [simp]: "pn_inject no_pending = []" "pn_name no_pending = []" "\<not> pn_required no_pending" "\<not> pn_managed no_pending"
  by (simp_all add: no_pending_def)

text \<open>No surface contributes to a service that the list has, and the services collected are distinct.\<close>

definition pendings_ok :: "kit_v1 \<Rightarrow> pendings \<Rightarrow> bool" where
  "pendings_ok sf m \<longleftrightarrow> distinct (map fst m) \<and> fst ` set m \<inter> set (explicit_services sf) = {}"

lemma pendings_ok_update: "pendings_ok sf m \<Longrightarrow> svc \<notin> set (explicit_services sf) \<Longrightarrow> pendings_ok sf (AList.update svc p m)"
  by (auto simp: pendings_ok_def distinct_update dom_update)

lemma fold_source_ok: "pendings_ok sf m \<Longrightarrow> pendings_ok sf (fold_source sf svc m)"
  by (auto simp: fold_source_def Let_def intro!: pendings_ok_update split: option.splits)

lemma fold_domain_ok: "pendings_ok sf m \<Longrightarrow> pendings_ok sf (fold_domain sf n d m)"
  by (auto simp: fold_domain_def Let_def intro!: pendings_ok_update split: option.splits)

lemma fold_managed_ok: "pendings_ok sf (fst t) \<Longrightarrow> pendings_ok sf (fst (fold_managed sf env name t))"
  by (auto simp: fold_managed_def Let_def intro!: pendings_ok_update split: option.splits)

lemma folds_ok:
  "pendings_ok sf m \<Longrightarrow> pendings_ok sf (fold (fold_source sf) xs m)"
  "pendings_ok sf m \<Longrightarrow> pendings_ok sf (fold (fold_domain sf n) ds m)"
  "pendings_ok sf (fst t) \<Longrightarrow> pendings_ok sf (fst (fold (fold_managed sf env) names t))"
proof -
  show "pendings_ok sf m \<Longrightarrow> pendings_ok sf (fold (fold_source sf) xs m)"
    by (induction xs arbitrary: m) (simp_all add: fold_source_ok)
  show "pendings_ok sf m \<Longrightarrow> pendings_ok sf (fold (fold_domain sf n) ds m)"
    by (induction ds arbitrary: m) (simp_all add: fold_domain_ok)
  show "pendings_ok sf (fst t) \<Longrightarrow> pendings_ok sf (fst (fold (fold_managed sf env) names t))"
    by (induction names arbitrary: t) (simp_all add: fold_managed_ok)
qed

lemma collected_ok: "pendings_ok sf (collected sf)"
proof -
  have "pendings_ok sf []" by (simp add: pendings_ok_def)
  then show ?thesis by (simp add: collected_def Let_def folds_ok split: option.split)
qed

lemma all_pending_ok: "pendings_ok sf (fst (all_pending walk sf))"
  unfolding all_pending_def by (rule folds_ok) (simp add: collected_ok)

text \<open>The row a domain contributes, and the rows of a service.\<close>

definition inject_row :: "network_v1 \<Rightarrow> string \<Rightarrow> string \<Rightarrow> key_inject" where
  "inject_row n svc domain =
     (let auth = map_of (n1_auth n) svc
      in \<lparr>ki_domain = domain, ki_header = (case auth of None \<Rightarrow> [] | Some a \<Rightarrow> sa_header a),
          ki_format = (case auth of None \<Rightarrow> ''%s'' | Some a \<Rightarrow> if sa_format a \<noteq> [] then sa_format a else ''%s''),
          ki_username = [], ki_scheme = []\<rparr>)"

definition domains_of :: "kit_v1 \<Rightarrow> string \<Rightarrow> string list" where
  "domains_of sf svc =
     (case k1_network sf of None \<Rightarrow> [] | Some n \<Rightarrow> filter (\<lambda>d. map_of (n1_domains n) d = Some svc) (keys_in_order (n1_domains n)))"

definition rows_of :: "kit_v1 \<Rightarrow> string \<Rightarrow> key_inject list" where
  "rows_of sf svc = (case k1_network sf of None \<Rightarrow> [] | Some n \<Rightarrow> map (inject_row n svc) (domains_of sf svc))"

lemma fold_source_inject [simp]: "pn_inject (get_pending svc (fold_source sf x m)) = pn_inject (get_pending svc m)"
  by (auto simp: fold_source_def Let_def split: option.split list.split)

lemma fold_managed_inject [simp]: "pn_inject (get_pending svc (fst (fold_managed sf env x t))) = pn_inject (get_pending svc (fst t))"
  by (auto simp: fold_managed_def Let_def split: option.split)

lemma fold_domain_inject:
  assumes "svc \<notin> set (explicit_services sf)"
  shows "pn_inject (get_pending svc (fold_domain sf n d m)) =
    pn_inject (get_pending svc m) @ (if map_of (n1_domains n) d = Some svc then [inject_row n svc d] else [])"
  using assms by (auto simp: fold_domain_def inject_row_def Let_def split: option.split)

lemma fold_domains_inject:
  assumes "svc \<notin> set (explicit_services sf)"
  shows "pn_inject (get_pending svc (fold (fold_domain sf n) ds m)) =
    pn_inject (get_pending svc m) @ map (inject_row n svc) (filter (\<lambda>d. map_of (n1_domains n) d = Some svc) ds)"
  by (induction ds arbitrary: m) (simp_all add: fold_domain_inject [OF assms])

lemma all_pending_inject:
  assumes "svc \<notin> set (explicit_services sf)"
  shows "pn_inject (get_pending svc (fst (all_pending walk sf))) = rows_of sf svc"
proof -
  have source: "pn_inject (get_pending svc (fold (fold_source sf) xs m)) = pn_inject (get_pending svc m)" for xs m
    by (induction xs arbitrary: m) simp_all
  have managed: "pn_inject (get_pending svc (fst (fold (fold_managed sf env) xs t))) = pn_inject (get_pending svc (fst t))" for env xs t
    by (induction xs arbitrary: t) simp_all
  have "pn_inject (get_pending svc (collected sf)) = rows_of sf svc"
    by (cases "k1_network sf")
      (simp_all add: collected_def rows_of_def domains_of_def source fold_domains_inject [OF assms])
  then show ?thesis by (simp add: all_pending_def managed)
qed

text \<open>Where the environment variable of a service comes from.\<close>

lemma fold_domain_rest: "pn_name (get_pending svc (fold_domain sf n d m)) = pn_name (get_pending svc m)"
    "pn_required (get_pending svc (fold_domain sf n d m)) = pn_required (get_pending svc m)"
  by (auto simp: fold_domain_def Let_def split: option.split)

lemma fold_managed_name: "pn_name (get_pending svc (fst t)) \<noteq> [] \<Longrightarrow>
    pn_name (get_pending svc (fst (fold_managed sf env x t))) = pn_name (get_pending svc (fst t))"
  by (auto simp: fold_managed_def Let_def split: option.split)

lemma fold_managed_required [simp]: "pn_required (get_pending svc (fst (fold_managed sf env x t))) = pn_required (get_pending svc (fst t))"
  by (auto simp: fold_managed_def Let_def split: option.split)

lemma fold_source_other: "svc \<noteq> x \<Longrightarrow> get_pending svc (fold_source sf x m) = get_pending svc m"
  by (auto simp: fold_source_def Let_def split: option.split)

lemma fold_sources_miss: "svc \<notin> set xs \<Longrightarrow> get_pending svc (fold (fold_source sf) xs m) = get_pending svc m"
  by (induction xs arbitrary: m) (auto simp: fold_source_other)

lemma fold_sources_hit:
  assumes "map_of (k1_sources sf) svc = Some src" "svc \<notin> set (explicit_services sf)" "distinct xs" "svc \<in> set xs"
  shows "pn_required (get_pending svc (fold (fold_source sf) xs [])) = src_required src"
    "src_env src \<noteq> [] \<Longrightarrow> pn_name (get_pending svc (fold (fold_source sf) xs [])) = hd (src_env src)"
proof -
  obtain as bs where xs: "xs = as @ svc # bs" "svc \<notin> set as" "svc \<notin> set bs" using assms(3,4) by (metis in_set_conv_decomp distinct.simps(2) distinct_append not_distinct_conv_prefix)
  have start: "get_pending svc (fold (fold_source sf) as []) = no_pending" using fold_sources_miss [OF xs(2)] by simp
  have "get_pending svc (fold (fold_source sf) xs []) = get_pending svc (fold_source sf svc (fold (fold_source sf) as []))"
    using fold_sources_miss [OF xs(3)] by (simp add: xs(1))
  then show "pn_required (get_pending svc (fold (fold_source sf) xs [])) = src_required src"
    "src_env src \<noteq> [] \<Longrightarrow> pn_name (get_pending svc (fold (fold_source sf) xs [])) = hd (src_env src)"
    using assms(1,2) start by (auto simp: fold_source_def Let_def no_pending_def split: list.split)
qed

lemma keys_kept:
  "fst ` set m \<subseteq> fst ` set (fold (fold_source sf) xs m)" "set xs \<inter> fst ` set (k1_sources sf) - set (explicit_services sf) \<subseteq> fst ` set (fold (fold_source sf) xs m)"
  "fst ` set m \<subseteq> fst ` set (fold (fold_domain sf n) ds m)" "fst ` set (fst t) \<subseteq> fst ` set (fst (fold (fold_managed sf env) names t))"
proof -
  have source: "fst ` set m \<subseteq> fst ` set (fold_source sf x m)" for m x
    by (auto simp: fold_source_def Let_def dom_update split: option.split)
  show keep: "fst ` set m \<subseteq> fst ` set (fold (fold_source sf) xs m)" for m xs
  proof (induction xs arbitrary: m)
    case (Cons x xs)
    then show ?case using source [of m x] by (simp add: subset_trans)
  qed simp
  have hit: "x \<in> fst ` set (k1_sources sf) \<Longrightarrow> x \<notin> set (explicit_services sf) \<Longrightarrow> x \<in> fst ` set (fold_source sf x m)" for x m
    by (auto simp: fold_source_def Let_def dom_update split: option.split dest: weak_map_of_SomeI)
  show "set xs \<inter> fst ` set (k1_sources sf) - set (explicit_services sf) \<subseteq> fst ` set (fold (fold_source sf) xs m)"
  proof (induction xs arbitrary: m)
    case (Cons x xs)
    show ?case using Cons.IH [of "fold_source sf x m"] hit [of x m] keep [of "fold_source sf x m" xs] by auto
  qed simp
  have domain: "fst ` set m \<subseteq> fst ` set (fold_domain sf n d m)" for m d
    by (auto simp: fold_domain_def Let_def dom_update split: option.split)
  show "fst ` set m \<subseteq> fst ` set (fold (fold_domain sf n) ds m)"
  proof (induction ds arbitrary: m)
    case (Cons d ds)
    then show ?case using domain [of m d] by (simp add: subset_trans)
  qed simp
  have managed: "fst ` set (fst t) \<subseteq> fst ` set (fst (fold_managed sf env x t))" for t x
    by (auto simp: fold_managed_def Let_def dom_update split: option.split)
  show "fst ` set (fst t) \<subseteq> fst ` set (fst (fold (fold_managed sf env) names t))"
  proof (induction names arbitrary: t)
    case (Cons x names)
    then show ?case using managed [of t x] by (simp add: subset_trans)
  qed simp
qed

lemma all_pending_source:
  assumes "distinct (map fst (k1_sources sf))" "map_of (k1_sources sf) svc = Some src" "svc \<notin> set (explicit_services sf)"
  shows "svc \<in> fst ` set (fst (all_pending walk sf))" "pn_required (get_pending svc (fst (all_pending walk sf))) = src_required src"
    "src_env src = e # es \<Longrightarrow> e \<noteq> [] \<Longrightarrow> pn_name (get_pending svc (fst (all_pending walk sf))) = e"
proof -
  let ?xs = "keys_in_order (k1_sources sf)" and ?m = "fold (fold_source sf) (keys_in_order (k1_sources sf)) []"
  have in_xs: "svc \<in> set ?xs" "distinct ?xs" using assms(1,2) by (auto simp: keys_in_order_def dest: map_of_SomeD intro: rev_image_eqI)
  have "svc \<in> fst ` set (k1_sources sf)" using assms(2) by (auto dest: map_of_SomeD intro: rev_image_eqI)
  then have at: "svc \<in> fst ` set ?m" using keys_kept(2) [of ?xs sf "[]"] in_xs(1) assms(3) by blast
  have domains: "pn_required (get_pending svc (fold (fold_domain sf n) ds m)) = pn_required (get_pending svc m)"
      "pn_name (get_pending svc (fold (fold_domain sf n) ds m)) = pn_name (get_pending svc m)" for n ds m
    by (induction ds arbitrary: m) (simp_all add: fold_domain_rest)
  have c: "svc \<in> fst ` set (collected sf)" "pn_required (get_pending svc (collected sf)) = pn_required (get_pending svc ?m)"
      "pn_name (get_pending svc (collected sf)) = pn_name (get_pending svc ?m)"
    using at keys_kept(3) [of ?m sf, THEN subsetD, OF at]
    unfolding collected_def Let_def by (cases "k1_network sf"; simp only: domains option.case)+
  have required: "pn_required (get_pending svc (fst (fold (fold_managed sf env) names t))) = pn_required (get_pending svc (fst t))" for env names t
    by (induction names arbitrary: t) simp_all
  have name: "pn_name (get_pending svc (fst t)) \<noteq> [] \<Longrightarrow>
      pn_name (get_pending svc (fst (fold (fold_managed sf env) names t))) = pn_name (get_pending svc (fst t))" for env names t
    by (induction names arbitrary: t) (simp_all add: fold_managed_name)
  show "svc \<in> fst ` set (fst (all_pending walk sf))"
    using c(1) keys_kept(4) [of "(collected sf, [])" sf "env_services sf walk" "managed_names sf"] unfolding all_pending_def by auto
  show "pn_required (get_pending svc (fst (all_pending walk sf))) = src_required src"
    by (simp add: all_pending_def required c(2) fold_sources_hit(1) [OF assms(2,3) in_xs(2,1)])
  show "pn_name (get_pending svc (fst (all_pending walk sf))) = e" if "src_env src = e # es" "e \<noteq> []"
    using fold_sources_hit(2) [OF assms(2,3) in_xs(2,1)] that by (simp add: all_pending_def name c(3))
qed

text \<open>Which services \<open>proxyManaged\<close> marks, and which service a variable belongs to.\<close>

lemma fold_managed_flag:
  assumes "svc \<notin> set (explicit_services sf)"
  shows "pn_managed (get_pending svc (fst (fold_managed sf env x t))) \<longleftrightarrow> pn_managed (get_pending svc (fst t)) \<or> map_of env x = Some svc"
  using assms by (auto simp: fold_managed_def Let_def split: option.split)

lemma fold_managed_names:
  assumes "svc \<notin> set (explicit_services sf)" "map_of env x = Some svc" "x \<noteq> []"
  shows "pn_name (get_pending svc (fst (fold_managed sf env x t))) \<noteq> []"
  using assms by (simp add: fold_managed_def Let_def)

lemma collected_unmanaged: "\<not> pn_managed (get_pending svc (collected sf))"
proof -
  have source: "pn_managed (get_pending svc (fold_source sf x m)) = pn_managed (get_pending svc m)" for x m
    by (auto simp: fold_source_def Let_def split: option.split list.split)
  have domain: "pn_managed (get_pending svc (fold_domain sf n d m)) = pn_managed (get_pending svc m)" for n d m
    by (auto simp: fold_domain_def Let_def split: option.split)
  have "pn_managed (get_pending svc (fold (fold_source sf) xs m)) = pn_managed (get_pending svc m)" for xs m
    by (induction xs arbitrary: m) (simp_all add: source)
  moreover have "pn_managed (get_pending svc (fold (fold_domain sf n) ds m)) = pn_managed (get_pending svc m)" for n ds m
    by (induction ds arbitrary: m) (simp_all add: domain)
  moreover have "get_pending svc [] = no_pending" by (simp add: get_pending_def)
  ultimately show ?thesis by (cases "k1_network sf") (simp_all add: collected_def)
qed

lemma all_pending_managed:
  assumes "svc \<notin> set (explicit_services sf)"
  shows "pn_managed (get_pending svc (fst (all_pending walk sf))) \<longleftrightarrow>
      (\<exists>name\<in>set (managed_names sf). map_of (env_services sf walk) name = Some svc)"
    "name \<in> set (managed_names sf) \<Longrightarrow> map_of (env_services sf walk) name = Some svc \<Longrightarrow> name \<noteq> [] \<Longrightarrow>
      pn_name (get_pending svc (fst (all_pending walk sf))) \<noteq> []"
proof -
  have "pn_managed (get_pending svc (fst (fold (fold_managed sf env) xs t))) \<longleftrightarrow>
      pn_managed (get_pending svc (fst t)) \<or> (\<exists>name\<in>set xs. map_of env name = Some svc)" for env xs t
    by (induction xs arbitrary: t) (auto simp: fold_managed_flag [OF assms])
  then show "pn_managed (get_pending svc (fst (all_pending walk sf))) \<longleftrightarrow>
      (\<exists>name\<in>set (managed_names sf). map_of (env_services sf walk) name = Some svc)"
    by (simp add: all_pending_def collected_unmanaged)
  have keep: "pn_name (get_pending svc (fst t)) \<noteq> [] \<Longrightarrow>
      pn_name (get_pending svc (fst (fold (fold_managed sf env) xs t))) \<noteq> []" for env xs t
    by (induction xs arbitrary: t) (simp_all add: fold_managed_name)
  have "name \<in> set xs \<Longrightarrow> map_of env name = Some svc \<Longrightarrow> name \<noteq> [] \<Longrightarrow>
      pn_name (get_pending svc (fst (fold (fold_managed sf env) xs t))) \<noteq> []" for env xs t
  proof (induction xs arbitrary: t)
    case (Cons x xs)
    show ?case
    proof (cases "name = x")
      case True
      then show ?thesis using keep [OF fold_managed_names [OF assms Cons.prems(2,3)]] by simp
    next
      case False
      then show ?thesis using Cons by simp
    qed
  qed simp
  then show "name \<in> set (managed_names sf) \<Longrightarrow> map_of (env_services sf walk) name = Some svc \<Longrightarrow> name \<noteq> [] \<Longrightarrow>
      pn_name (get_pending svc (fst (all_pending walk sf))) \<noteq> []"
    by (simp add: all_pending_def)
qed

definition lists_variable :: "kit_v1 \<Rightarrow> string \<Rightarrow> string \<Rightarrow> bool" where
  "lists_variable sf svc name \<longleftrightarrow> (case map_of (k1_sources sf) svc of None \<Rightarrow> False | Some src \<Rightarrow> name \<in> set (src_env src))"

lemma env_services_one:
  "map_of (fold (\<lambda>name m. AList.update name svc m) names m) name = (if name \<in> set names then Some svc else map_of m name)"
  by (induction names arbitrary: m) (auto simp: update_conv')

lemma env_services_step:
  "map_of (fold (\<lambda>name m. AList.update name svc m) (case map_of (k1_sources sf) svc of None \<Rightarrow> [] | Some src \<Rightarrow> src_env src) m) name =
     (if lists_variable sf svc name then Some svc else map_of m name)"
  by (simp add: env_services_one lists_variable_def split: option.split)

lemma fold_env:
  assumes "\<And>svc m. map_of (g svc m) name = (if L svc then Some svc else map_of m name)"
  shows "map_of (fold g walk m) name = Some svc \<Longrightarrow> map_of m name = Some svc \<or> L svc"
    "(\<And>other. L other \<Longrightarrow> other = svc) \<Longrightarrow> L svc \<Longrightarrow>
       map_of (fold g walk m) name = (if svc \<in> set walk then Some svc else map_of m name)"
proof -
  show "map_of (fold g walk m) name = Some svc \<Longrightarrow> map_of m name = Some svc \<or> L svc"
  proof (induction walk arbitrary: m)
    case (Cons x walk)
    then show ?case using Cons.IH [of "g x m"] assms [of x m] by (auto split: if_splits)
  qed simp
  show "map_of (fold g walk m) name = (if svc \<in> set walk then Some svc else map_of m name)"
    if "\<And>other. L other \<Longrightarrow> other = svc" "L svc"
  proof (induction walk arbitrary: m)
    case (Cons x walk)
    then show ?case using Cons.IH [of "g x m"] assms [of x m] that(2) that(1) [of x] by auto
  qed simp
qed

lemma env_services_lists: "map_of (env_services sf walk) name = Some svc \<Longrightarrow> lists_variable sf svc name"
  unfolding env_services_def by (drule fold_env(1) [OF env_services_step]) simp

lemma env_services_only:
  assumes "lists_variable sf svc name" "\<And>other. lists_variable sf other name \<Longrightarrow> other = svc" "svc \<in> set walk"
  shows "map_of (env_services sf walk) name = Some svc"
  unfolding env_services_def by (subst fold_env(2) [OF env_services_step assms(2,1)]) (simp_all add: assms(3))

subsection \<open>What each step keeps\<close>

lemma translate_sandbox_keeps:
  assumes "translate_sandbox sf (s, w) = Inr (s', w')"
  shows "ks_credentials s' = ks_credentials s \<and> ks_args s' = ks_args s \<and> ks_version s' = ks_version s \<and> ks_kind s' = ks_kind s"
  using assms
  by (cases "block_v1 sf") (auto simp: translate_sandbox_def Let_def split: prod.splits option.splits sum.splits)

lemma translate_instructions_keeps [simp]:
  "ks_credentials (fst (translate_instructions sf t)) = ks_credentials (fst t)" "ks_args (fst (translate_instructions sf t)) = ks_args (fst t)"
  "ks_version (fst (translate_instructions sf t)) = ks_version (fst t)"
  by (simp_all add: translate_instructions_def Let_def split: prod.split)

lemma translate_network_keeps [simp]:
  "ks_args (fst (translate_network sf t)) = ks_args (fst t)" "ks_version (fst (translate_network sf t)) = ks_version (fst t)"
proof -
  obtain k w where t: "t = (k, w)" by (cases t)
  obtain a d v where c: "(case k1_caps sf of None \<Rightarrow> ([], [], w) | Some None \<Rightarrow> ([], [], w)
      | Some (Some n) \<Rightarrow> (np_allow n, np_deny n, w @ [Deprecated ''caps:''])) = (a, d, v)" by (rule prod_cases3)
  show "ks_args (fst (translate_network sf t)) = ks_args (fst t)" "ks_version (fst (translate_network sf t)) = ks_version (fst t)"
    by (cases "k1_network sf"; simp add: translate_network_def t c)+
qed

lemma translate_tail_keeps [simp]:
  "ks_credentials (fst (translate_volumes sf (translate_setup sf (translate_environment sf t)))) = ks_credentials (fst t)"
  "ks_args (fst (translate_volumes sf (translate_setup sf (translate_environment sf t)))) = ks_args (fst t)"
  "ks_version (fst (translate_volumes sf (translate_setup sf (translate_environment sf t)))) = ks_version (fst t)"
  by (simp_all add: translate_volumes_def translate_setup_def translate_environment_def split: option.split)

definition folded_credentials :: "string list \<Rightarrow> kit_v1 \<Rightarrow> kit_credential list" where
  "folded_credentials walk sf =
     map (\<lambda>svc. credential_of svc (get_pending svc (fst (all_pending walk sf)))) (keys_in_order (fst (all_pending walk sf)))"

lemma translate_credentials_Inr:
  assumes "translate_credentials walk sf t = Inr (s', w')"
  shows "ks_args s' = ks_args (fst t) \<and> ks_version s' = ks_version (fst t) \<and>
    (case k1_oauth sf of
       None \<Rightarrow> ks_credentials s' = k1_credentials sf @ folded_credentials walk sf
     | Some o1 \<Rightarrow> o1_service o1 \<noteq> [] \<and>
         attach_oauth (o1_service o1) (oauth_of_v1 o1) (k1_credentials sf @ folded_credentials walk sf) = Inr (ks_credentials s'))"
  using assms
  by (cases "k1_oauth sf")
    (auto simp: translate_credentials_def translate_oauth_def folded_credentials_def Let_def split: prod.splits if_splits sum.splits)

lemma translate_v1_Inr:
  assumes "translate_v1 walk sf = Inr (s, w)"
  shows "ks_args s = [] \<and> ks_version s = k1_version sf \<and>
    (case k1_oauth sf of
       None \<Rightarrow> ks_credentials s = k1_credentials sf @ folded_credentials walk sf
     | Some o1 \<Rightarrow> o1_service o1 \<noteq> [] \<and>
         attach_oauth (o1_service o1) (oauth_of_v1 o1) (k1_credentials sf @ folded_credentials walk sf) = Inr (ks_credentials s))"
proof -
  let ?t = "if k1_kind sf = kind_agent then ((start_v1 sf)\<lparr>ks_kind := kind_sandbox\<rparr>, [Deprecated ''kind: agent'']) else (start_v1 sf, [])"
  obtain t1 where t1: "translate_sandbox sf ?t = Inr t1"
    using assms by (auto simp: translate_v1_def Let_def split: if_splits sum.splits)
  then obtain t2 where t2: "translate_credentials walk sf (translate_network sf (translate_instructions sf t1)) = Inr t2"
      "s = fst (translate_volumes sf (translate_setup sf (translate_environment sf t2)))"
    using assms by (auto simp: translate_v1_def Let_def split: if_splits sum.splits)
  have "ks_args (fst t1) = [] \<and> ks_version (fst t1) = k1_version sf"
    using t1 translate_sandbox_keeps [of sf "fst ?t" "snd ?t" "fst t1" "snd t1"] by (auto simp: start_v1_def split: if_splits)
  moreover have "translate_credentials walk sf (translate_network sf (translate_instructions sf t1)) = Inr (fst t2, snd t2)" using t2(1) by simp
  ultimately show ?thesis using translate_credentials_Inr [of walk sf "translate_network sf (translate_instructions sf t1)" "fst t2" "snd t2"]
    by (cases "k1_oauth sf") (simp_all add: t2(2))
qed

subsection \<open>Properties\<close>

lemma finish_parse_ok:
  assumes "finish_parse re k v = Inr (s, w)" "distinct (map fst (ks_args k))"
  shows "kit_ok re s \<and> list_all expanded (ks_credentials s) \<and> w = v \<and> ks_version s = ks_version k"
proof -
  have e: "expand_schemes k = Inr s" "validate_kit re s = None" "w = v"
    using assms(1) by (auto simp: finish_parse_def split: sum.splits option.splits)
  have "ks_version s = ks_version k" using e(1) by (auto simp: expand_schemes_def split: sum.splits)
  then show ?thesis using expand_schemes_expanded [OF e(1)] assms(2) e(2,3) validate_kit_None [of s re] by simp
qed

text \<open>
  C18: whatever is read is a valid kit. A document of either grammar that is accepted gives a kit that satisfies the grammar of every
  block, has no scheme left to expand, and has the version its author wrote.
\<close>

theorem parsed_kit_ok:
  assumes "parse_kit re walk d = Inr (s, w)" "\<forall>k. d = Decoded_2 k \<longrightarrow> distinct (map fst (ks_args k))"
  shows "kit_ok re s \<and> list_all expanded (ks_credentials s) \<and>
    (case d of Decoded_1 sf \<Rightarrow> ks_version s = k1_version sf | Decoded_2 k \<Rightarrow> ks_version s = ks_version k \<and> w = warn_kit k | _ \<Rightarrow> False)"
proof (cases d)
  case (Decoded_1 sf)
  then obtain k v where k: "translate_v1 walk sf = Inr (k, v)" "finish_parse re k (v @ warn_kit k) = Inr (s, w)"
    using assms(1) by (auto simp: parse_kit_def split: sum.splits)
  have "distinct (map fst (ks_args k))" "ks_version k = k1_version sf" using translate_v1_Inr [OF k(1)] by simp_all
  then show ?thesis using finish_parse_ok [OF k(2)] Decoded_1 by simp
next
  case (Decoded_2 k)
  then have "finish_parse re k (warn_kit k) = Inr (s, w)" using assms(1) by (simp add: parse_kit_def)
  then show ?thesis using finish_parse_ok assms(2) Decoded_2 by fastforce
qed (use assms in \<open>simp_all add: parse_kit_def\<close>)

theorem parsed_kit_ok_witness:
  "\<exists>s. parse_kit (\<lambda>_. None) [] (Decoded_2 kit_ex) = Inr (s, []) \<and> kit_ok (\<lambda>_. None) s"
proof -
  have "map_sum id snd (parse_kit (\<lambda>_. None) [] (Decoded_2 kit_ex)) = Inr []" by code_simp
  then obtain s where s: "parse_kit (\<lambda>_. None) [] (Decoded_2 kit_ex) = Inr (s, [])"
    by (cases "parse_kit (\<lambda>_. None) [] (Decoded_2 kit_ex)") auto
  with parsed_kit_ok [OF s] show ?thesis by (auto simp: kit_ex_def)
qed

text \<open>
  C20: four surfaces, one credential. In a kit without a standalone OAuth block, whose sources are
  distinct, a translation has the credentials its author listed, then one for each other service that is
  named, in the order of the names: each attached to exactly the domains that route to it, in the header
  and format of its service, required as its source says, and named by the first variable of its source.
  A credential is marked as managed by the proxy only if \<open>proxyManaged\<close> names a variable its source
  lists, and it is marked if that variable is listed by no other source. No service of the list is
  touched and none appears twice.
\<close>

theorem v1_credentials:
  assumes "translate_v1 walk sf = Inr (s, w)" "k1_oauth sf = None" "distinct (map fst (k1_sources sf))"
  shows "\<exists>cs. ks_credentials s = k1_credentials sf @ cs \<and> sorted (map kc_service cs) \<and> distinct (map kc_service cs) \<and>
    kc_service ` set cs \<inter> set (explicit_services sf) = {} \<and>
    list_all (\<lambda>c. kc_oauth c = None \<and> (case kc_key c of None \<Rightarrow> [] | Some k \<Rightarrow> ak_inject k) = rows_of sf (kc_service c) \<and>
      (case kc_key c of None \<Rightarrow> True
       | Some k \<Rightarrow> ak_managed k \<longrightarrow> list_ex (lists_variable sf (kc_service c)) (managed_names sf))) cs \<and>
    (\<forall>svc. svc \<notin> set (explicit_services sf) \<and> rows_of sf svc \<noteq> [] \<longrightarrow> svc \<in> kc_service ` set cs) \<and>
    (\<forall>svc src. map_of (k1_sources sf) svc = Some src \<and> svc \<notin> set (explicit_services sf) \<longrightarrow>
       (\<exists>c\<in>set cs. kc_service c = svc \<and> kc_required c = src_required src \<and>
          (\<forall>e es. src_env src = e # es \<and> e \<noteq> [] \<longrightarrow> map_option ak_name (kc_key c) = Some e))) \<and>
    (\<forall>svc name. svc \<in> set walk \<and> svc \<notin> set (explicit_services sf) \<and> name \<in> set (managed_names sf) \<and> name \<noteq> [] \<and>
       lists_variable sf svc name \<and> (\<forall>other. lists_variable sf other name \<longrightarrow> other = svc) \<longrightarrow>
       (\<exists>c\<in>set cs. kc_service c = svc \<and> map_option ak_managed (kc_key c) = Some True))"
proof -
  let ?m = "fst (all_pending walk sf)" and ?c = "\<lambda>svc. credential_of svc (get_pending svc (fst (all_pending walk sf)))"
  let ?cs = "folded_credentials walk sf"
  have services: "map kc_service ?cs = keys_in_order ?m"
    by (simp add: folded_credentials_def credential_of_def comp_def)
  have ok: "distinct (keys_in_order ?m)" "set (keys_in_order ?m) \<inter> set (explicit_services sf) = {}"
    using all_pending_ok [of sf walk] by (simp_all add: pendings_ok_def keys_in_order_def)
  have in_cs: "?c svc \<in> set ?cs" if "svc \<in> fst ` set ?m" for svc
    using that by (auto simp: folded_credentials_def keys_in_order_def)
  have routed: "svc \<in> fst ` set ?m" if "svc \<notin> set (explicit_services sf)" "rows_of sf svc \<noteq> []" for svc
    using all_pending_inject [OF that(1), of walk] that(2) get_pending_absent [of svc ?m] by (cases "svc \<in> fst ` set ?m") simp_all
  show ?thesis
  proof (intro exI [of _ ?cs] conjI)
    show "ks_credentials s = k1_credentials sf @ ?cs" using translate_v1_Inr [OF assms(1)] assms(2) by simp
    show "sorted (map kc_service ?cs)" "distinct (map kc_service ?cs)" using services ok(1) by (simp_all add: keys_in_order_def)
    show "kc_service ` set ?cs \<inter> set (explicit_services sf) = {}" using services ok(2) by (metis list.set_map)
    show "list_all (\<lambda>c. kc_oauth c = None \<and> (case kc_key c of None \<Rightarrow> [] | Some k \<Rightarrow> ak_inject k) = rows_of sf (kc_service c) \<and>
      (case kc_key c of None \<Rightarrow> True
       | Some k \<Rightarrow> ak_managed k \<longrightarrow> list_ex (lists_variable sf (kc_service c)) (managed_names sf))) ?cs"
    proof -
      have "list_ex (lists_variable sf svc) (managed_names sf)"
        if "svc \<in> set (keys_in_order ?m)" "pn_managed (get_pending svc ?m)" for svc
        using ok(2) that all_pending_managed(1) [of svc sf walk] env_services_lists by (fastforce simp: list_ex_iff)
      moreover
      have "pn_inject (get_pending svc ?m) = rows_of sf svc" if "svc \<in> set (keys_in_order ?m)" for svc
        using ok(2) that all_pending_inject by blast
      ultimately show ?thesis by (auto simp: list_all_iff folded_credentials_def credential_of_def)
    qed
    show "\<forall>svc name. svc \<in> set walk \<and> svc \<notin> set (explicit_services sf) \<and> name \<in> set (managed_names sf) \<and> name \<noteq> [] \<and>
       lists_variable sf svc name \<and> (\<forall>other. lists_variable sf other name \<longrightarrow> other = svc) \<longrightarrow>
       (\<exists>c\<in>set ?cs. kc_service c = svc \<and> map_option ak_managed (kc_key c) = Some True)"
    proof (intro allI impI, elim conjE)
      fix svc name
      assume n: "svc \<in> set walk" "svc \<notin> set (explicit_services sf)" "name \<in> set (managed_names sf)" "name \<noteq> []"
        "lists_variable sf svc name" "\<forall>other. lists_variable sf other name \<longrightarrow> other = svc"
      have env: "map_of (env_services sf walk) name = Some svc" using env_services_only n by blast
      then have flag: "pn_managed (get_pending svc ?m)" "pn_name (get_pending svc ?m) \<noteq> []"
        using all_pending_managed [OF n(2)] n(3,4) by blast+
      then have "svc \<in> fst ` set ?m" using get_pending_absent [of svc ?m] by (cases "svc \<in> fst ` set ?m") simp_all
      then show "\<exists>c\<in>set ?cs. kc_service c = svc \<and> map_option ak_managed (kc_key c) = Some True"
        by (intro bexI [of _ "?c svc"] in_cs) (simp_all add: credential_of_def flag)
    qed
    show "\<forall>svc. svc \<notin> set (explicit_services sf) \<and> rows_of sf svc \<noteq> [] \<longrightarrow> svc \<in> kc_service ` set ?cs"
      using routed services by (metis list.set_map set_sort keys_in_order_def)
    show "\<forall>svc src. map_of (k1_sources sf) svc = Some src \<and> svc \<notin> set (explicit_services sf) \<longrightarrow>
       (\<exists>c\<in>set ?cs. kc_service c = svc \<and> kc_required c = src_required src \<and>
          (\<forall>e es. src_env src = e # es \<and> e \<noteq> [] \<longrightarrow> map_option ak_name (kc_key c) = Some e))"
    proof (intro allI impI)
      fix svc src assume src: "map_of (k1_sources sf) svc = Some src \<and> svc \<notin> set (explicit_services sf)"
      note p = all_pending_source [OF assms(3) conjunct1 [OF src] conjunct2 [OF src]]
      have "?c svc \<in> set ?cs" by (rule in_cs) (rule p(1))
      then show "\<exists>c\<in>set ?cs. kc_service c = svc \<and> kc_required c = src_required src \<and>
          (\<forall>e es. src_env src = e # es \<and> e \<noteq> [] \<longrightarrow> map_option ak_name (kc_key c) = Some e)"
        by (intro bexI [of _ "?c svc"]) (auto simp: credential_of_def p(2,3))
    qed
  qed
qed

definition network_ex :: network_v1 where
  "network_ex = \<lparr>n1_allowed = [], n1_denied = [], n1_domains = [(''b.c'', ''svc''), (''a.b'', ''svc'')], n1_auth = [(''svc'', \<lparr>sa_header = ''X-Key'', sa_format = []\<rparr>)], n1_ports = []\<rparr>"

definition source_ex :: "string list \<Rightarrow> source_v1" where
  "source_ex env = \<lparr>src_env = env, src_file = None, src_priority = [], src_required = True\<rparr>"

definition kit_v1_ex :: kit_v1 where
  "kit_v1_ex =
     \<lparr>k1_version = ''1'', k1_kind = ''mixin'', k1_name = ''demo'', k1_release = [], k1_display = [], k1_description = [], k1_source = [],
      k1_extends = [], k1_mixins = [], k1_requires = None, k1_locked = [], k1_licenses = [], k1_privileged = None, k1_sandbox = None,
      k1_agent = None, k1_network = Some network_ex, k1_ports = [], k1_credentials = [], k1_sources = [(''svc'', source_ex [''KEY''])],
      k1_oauth = None, k1_environment = None, k1_commands = None, k1_context = [], k1_memory = [], k1_volumes = [], k1_sizes = [],
      k1_tmpfs = [], k1_caps = None, k1_settings = None, k1_persistence = [], k1_dir = [], k1_secrets = [], k1_egress = []\<rparr>"

definition managed_ex :: kit_v1 where
  "managed_ex = kit_v1_ex\<lparr>k1_environment := Some \<lparr>v1_variables = [], v1_managed = [''KEY'']\<rparr>\<rparr>"

theorem v1_credentials_witness:
  "\<exists>s w c. translate_v1 [''svc''] managed_ex = Inr (s, w) \<and> c \<in> set (ks_credentials s) \<and> kc_service c = ''svc'' \<and>
     map_option ak_managed (kc_key c) = Some True \<and> rows_of managed_ex ''svc'' \<noteq> []"
proof -
  have "is_ok (translate_v1 [''svc''] managed_ex)" "rows_of managed_ex ''svc'' \<noteq> []" by code_simp+
  then obtain s w where t: "translate_v1 [''svc''] managed_ex = Inr (s, w)" "rows_of managed_ex ''svc'' \<noteq> []" by (auto simp: is_ok_iff)
  have src: "k1_sources managed_ex = [(''svc'', source_ex [''KEY''])]" "k1_oauth managed_ex = None"
      "explicit_services managed_ex = []" "managed_names managed_ex = [''KEY'']"
    by (simp_all add: managed_ex_def kit_v1_ex_def explicit_services_def managed_names_def)
  have only: "lists_variable managed_ex other ''KEY'' \<longleftrightarrow> other = ''svc''" for other
    by (simp add: lists_variable_def src(1) source_ex_def)
  have "distinct (map fst (k1_sources managed_ex))" by (simp add: src(1))
  from v1_credentials [OF t(1) src(2) this]
  obtain cs where cs: "ks_credentials s = k1_credentials managed_ex @ cs"
      "\<forall>svc name. svc \<in> set [''svc''] \<and> svc \<notin> set (explicit_services managed_ex) \<and> name \<in> set (managed_names managed_ex) \<and> name \<noteq> [] \<and>
       lists_variable managed_ex svc name \<and> (\<forall>other. lists_variable managed_ex other name \<longrightarrow> other = svc) \<longrightarrow>
       (\<exists>c\<in>set cs. kc_service c = svc \<and> map_option ak_managed (kc_key c) = Some True)"
    by blast
  have "''svc'' \<in> set [''svc''] \<and> ''svc'' \<notin> set (explicit_services managed_ex) \<and> ''KEY'' \<in> set (managed_names managed_ex) \<and>
      ''KEY'' \<noteq> [] \<and> lists_variable managed_ex ''svc'' ''KEY'' \<and> (\<forall>other. lists_variable managed_ex other ''KEY'' \<longrightarrow> other = ''svc'')"
    by (simp add: src only)
  then have "\<exists>c\<in>set cs. kc_service c = ''svc'' \<and> map_option ak_managed (kc_key c) = Some True"
    by (rule cs(2) [THEN spec, THEN spec, THEN mp])
  then obtain c where "c \<in> set cs" "kc_service c = ''svc''" "map_option ak_managed (kc_key c) = Some True" by blast
  then show ?thesis using t cs(1) by auto
qed

text \<open>
  Memory survives the translation: a number of mebibytes becomes a text that is read back as that number, as long as it is at most \<open>2 ^ 42\<close>;
  beyond that the kit is refused for a size its author did not write.
\<close>

theorem v1_memory_round_trip:
  assumes "resources_of_v1 r = Inr (res, w)"
  shows "0 \<le> r1_memory r \<and> kr_cpu res = r1_cpu r \<and> kr_gpu res = r1_gpu r \<and> (r1_memory r = 0 \<longleftrightarrow> kr_memory res = []) \<and>
    (0 < r1_memory r \<and> r1_memory r < 2 ^ 63 \<longrightarrow>
       parse_byte_size (kr_memory res) = (if 2 ^ 42 < r1_memory r then Inl Size_too_large else Inr (r1_memory r * 2 ^ 20)))"
proof (cases "r1_memory r = 0")
  case False
  then have r: "0 < r1_memory r" "res = \<lparr>kr_cpu = r1_cpu r, kr_memory = itoa (r1_memory r) @ ''m'', kr_gpu = r1_gpu r\<rparr>"
    using assms by (auto simp: resources_of_v1_def Let_def split: if_splits)
  have unit: "map_of size_units ''m'' = Some (2 ^ 20)" by (simp add: size_units_def)
  show ?thesis using r unit byte_size_shown [OF unit, of "nat (r1_memory r)"] by (simp add: itoa_nonneg)
qed (use assms in \<open>auto simp: resources_of_v1_def Let_def\<close>)

theorem v1_memory_round_trip_witness: "parse_byte_size ''512m'' = Inr 536870912"
proof -
  have r: "resources_of_v1 \<lparr>r1_cpu = Finite 1, r1_memory = 512, r1_gpu = []\<rparr> =
      Inr (\<lparr>kr_cpu = Finite 1, kr_memory = ''512m'', kr_gpu = []\<rparr>, [Deprecated ''sandbox.resources.memoryMB''])" by code_simp
  show ?thesis using v1_memory_round_trip [OF r] by simp
qed

text \<open>
  A service whose source lists no variable and that no domain routes to becomes a credential without a mechanism, so a kit of
  the older grammar that finds its key in a file is refused as a whole.
\<close>

theorem v1_file_source_refused:
  "parse_kit (\<lambda>_. None) [] (Decoded_1 (kit_v1_ex\<lparr>k1_network := None, k1_sources := [(''svc'', (source_ex [])\<lparr>src_file := Some (''~/.key'', [])\<rparr>)]\<rparr>)) =
     Inl (Parse_invalid (Credentials 0 No_mechanism))"
  by code_simp

text \<open>
  The order in which Go walks the sources shows in the result: where two of them list one variable, the service that
  \<open>proxyManaged\<close> marks is the last one walked.
\<close>

definition shared_variable :: kit_v1 where
  "shared_variable = kit_v1_ex\<lparr>k1_network := None, k1_sources := [(''a'', source_ex [''KEY'']), (''b'', source_ex [''KEY''])],
     k1_environment := Some \<lparr>v1_variables = [], v1_managed = [''KEY'']\<rparr>\<rparr>"

theorem v1_walk_matters:
  "is_ok (translate_v1 [''a'', ''b''] shared_variable) \<and> translate_v1 [''a'', ''b''] shared_variable \<noteq> translate_v1 [''b'', ''a''] shared_variable"
proof -
  define managed where "managed = map_sum (id :: v1_error \<Rightarrow> v1_error) (\<lambda>t :: translation. map (\<lambda>c. (kc_service c, map_option ak_managed (kc_key c))) (ks_credentials (fst t)))"
  have "managed (translate_v1 [''a'', ''b''] shared_variable) = Inr [(''a'', Some False), (''b'', Some True)]"
    "managed (translate_v1 [''b'', ''a''] shared_variable) = Inr [(''a'', Some True), (''b'', Some False)]"
    unfolding managed_def by code_simp+
  then have differ: "managed (translate_v1 [''a'', ''b''] shared_variable) \<noteq> managed (translate_v1 [''b'', ''a''] shared_variable)" by simp
  have "translate_v1 [''a'', ''b''] shared_variable \<noteq> translate_v1 [''b'', ''a''] shared_variable"
    by (rule notI) (use differ in \<open>simp only: HOL.simp_thms\<close>)
  moreover have "is_ok (translate_v1 [''a'', ''b''] shared_variable)" by code_simp
  ultimately show ?thesis by blast
qed

text \<open>
  A standalone OAuth block takes away an API key the author wrote: an explicit key without a variable counts as one that only routes,
  so its header is lost and its domain becomes a resource host.
\<close>

theorem v1_explicit_key_lost:
  "map_sum id (map kc_key \<circ> ks_credentials \<circ> fst) (translate_v1 [] (kit_v1_ex\<lparr>k1_network := None, k1_sources := [],
      k1_credentials := [\<lparr>kc_service = ''svc'', kc_description = [], kc_required = False, kc_provider = [],
        kc_key = Some \<lparr>ak_name = [], ak_managed = False, ak_inject =
          [\<lparr>ki_domain = ''a.b'', ki_header = ''X-Key'', ki_format = ''%s'', ki_username = [], ki_scheme = []\<rparr>]\<rparr>, kc_oauth = None\<rparr>],
      k1_oauth := Some \<lparr>o1_service = ''svc'', o1_host = ''t.b'', o1_path = ''/t'', o1_access = ''x'', o1_refresh = ''y'', o1_file = None,
        o1_skip = [], o1_fields = None, o1_passthrough = False\<rparr>\<rparr>)) = Inr [None]"
  by code_simp

end
