(* ===== verification/Policy_Preset.thy ===== *)
theory Policy_Preset
  imports Policy_Core
begin

section \<open>The built-in postures: \<open>internal/policy/preset.go\<close>\<close>

text \<open>
  The three presets, as the rules their constructors parse, the rendering of a policy for a human,
  and what each posture lets through.
\<close>

text \<open>\<open>MustRule\<close> panics when the text does not parse; the panic is \<open>None\<close> here.\<close>

definition must_rule :: "action \<Rightarrow> string \<Rightarrow> string \<Rightarrow> rule option" where
  "must_rule a spec why =
     (case parse_rule a spec of Inl _ \<Rightarrow> None | Inr r \<Rightarrow> Some (r\<lparr>rl_why := why\<rparr>))"

definition preset_policy :: "string \<Rightarrow> action \<Rightarrow> rule option list \<Rightarrow> policy option" where
  "preset_policy name d rs =
     (case those rs of None \<Rightarrow> None
      | Some rules \<Rightarrow> Some \<lparr>pol_name = name, pol_default = d, pol_rules = rules\<rparr>)"

definition open_policy :: "policy option" where
  "open_policy = preset_policy ''open'' Allow
     [must_rule Deny ''127.0.0.0/8'' ''the host's own loopback; under TSI the guest shares it'',
      must_rule Deny ''::1/128'' ''the host's own loopback (IPv6)'',
      must_rule Deny ''169.254.0.0/16'' ''link-local, including the 169.254.169.254 metadata endpoint'',
      must_rule Deny ''fe80::/10'' ''link-local (IPv6)'',
      must_rule Deny ''localhost'' ''the host's own loopback, by name'']"

definition standard_policy :: "policy option" where
  "standard_policy = preset_policy ''standard'' Deny
     [must_rule Allow ''github.com:443'' ''git clone/fetch/push over HTTPS'',
      must_rule Allow ''api.github.com:443'' ''GitHub REST and GraphQL APIs'',
      must_rule Allow ''codeload.github.com:443'' ''source archives git and go get fetch'',
      must_rule Allow ''proxy.golang.org:443'' ''Go module proxy'',
      must_rule Allow ''sum.golang.org:443'' ''Go checksum database'',
      must_rule Allow ''registry.npmjs.org:443'' ''npm registry'',
      must_rule Allow ''pypi.org:443'' ''PyPI index'',
      must_rule Allow ''files.pythonhosted.org:443'' ''PyPI package downloads'',
      must_rule Allow ''crates.io:443'' ''crates.io API'',
      must_rule Allow ''index.crates.io:443'' ''Cargo sparse index'',
      must_rule Allow ''static.crates.io:443'' ''crate downloads'',
      must_rule Allow ''registry-1.docker.io:443'' ''Docker Hub registry'',
      must_rule Allow ''auth.docker.io:443'' ''Docker Hub tokens'',
      must_rule Allow ''production.cloudfront.docker.com:443'' ''Docker Hub image layers'']"

definition locked_policy :: "policy option" where
  "locked_policy = Some \<lparr>pol_name = ''locked'', pol_default = Deny, pol_rules = []\<rparr>"

datatype preset_error = Unknown_preset string

text \<open>A panic while a preset is built is \<open>None\<close>; an unknown name is an error.\<close>

definition preset :: "string \<Rightarrow> (preset_error + policy) option" where
  "preset name =
     (let n = to_lower (trim_space name)
      in if n = ''open'' then map_option Inr open_policy
         else if n = ''standard'' \<or> n = [] then map_option Inr standard_policy
         else if n = ''locked'' then map_option Inr locked_policy
         else Some (Inl (Unknown_preset name)))"

definition preset_names :: "string list" where
  "preset_names = [''open'', ''standard'', ''locked'']"

definition preset_description :: "string \<Rightarrow> string" where
  "preset_description name =
     (if name = ''open'' then ''allow everything except this machine's own loopback and link-local addresses''
      else if name = ''standard'' then
        ''deny by default; allow a small set of package registries and source hosts over HTTPS''
      else if name = ''locked'' then ''deny everything; every destination must be added with --allow''
      else [])"

subsection \<open>Rendering\<close>

definition newline :: string where "newline = [CHR 0x0A]"

definition pad_right :: "nat \<Rightarrow> string \<Rightarrow> string" where
  "pad_right w s = s @ replicate (w - length s) CHR '' ''"

text \<open>
  One section of \<open>Describe\<close>. The map from text to rule is filled in order, so of two rules with the
  same text the later one gives the explanation of both.
\<close>

definition describe_line :: "nat \<Rightarrow> rule list \<Rightarrow> string \<Rightarrow> string" where
  "describe_line width rules s =
     (case map_of (rev (map (\<lambda>r. (rule_spec r, r)) rules)) s of
        None \<Rightarrow> []
      | Some r \<Rightarrow>
          if rl_why r = [] then ''  '' @ s @ newline
          else ''  '' @ pad_right width s @ ''  '' @ rl_why r @ newline)"

definition describe_section :: "string \<Rightarrow> rule list \<Rightarrow> string \<Rightarrow> string" where
  "describe_section title rules none =
     newline @ title @ newline @
     (if rules = [] then ''  ('' @ none @ '')'' @ newline
      else (let width = foldl (\<lambda>w r. if w < length (rule_spec r) then length (rule_spec r) else w) 0 rules
            in concat (map (describe_line width rules) (sort (map rule_spec rules)))))"

definition describe :: "policy \<Rightarrow> string" where
  "describe p =
     ''policy '' @ pol_name p @ newline @ ''default: '' @ action_string (pol_default p) @ newline @
     describe_section ''deny (always wins):'' (filter (\<lambda>r. rl_action r = Deny) (pol_rules p)) ''none'' @
     describe_section ''allow:'' (filter (\<lambda>r. rl_action r \<noteq> Deny) (pol_rules p)) ''none''"

subsection \<open>The presets, evaluated\<close>

definition host_rule :: "action \<Rightarrow> string \<Rightarrow> port_set \<Rightarrow> string \<Rightarrow> rule" where
  "host_rule a h ps why =
     \<lparr>rl_action = a, rl_host = zero_pattern\<lparr>p_kind := Pat_exact, p_host := h, p_text := h\<rparr>,
      rl_ports = ps, rl_why = why, rl_scope = []\<rparr>"

definition net_rule :: "action \<Rightarrow> addr \<Rightarrow> nat \<Rightarrow> string \<Rightarrow> rule" where
  "net_rule a net n why =
     (let p = \<lparr>pfx_addr = net, pfx_bits = n\<rparr>
      in \<lparr>rl_action = a, rl_host = zero_pattern\<lparr>p_kind := Pat_prefix, p_prefix := p, p_text := prefix_string p\<rparr>,
          rl_ports = [], rl_why = why, rl_scope = []\<rparr>)"

lemma host_rule_match: "rule_match (host_rule a h ps why) t \<longleftrightarrow>
    \<not> target_is_ip t \<and> t_host t = h \<and> ports_match ps (t_port t)"
  by (simp add: rule_match_def host_rule_def pattern_match_def)

lemma net_rule_match: "rule_match (net_rule a net n why) t \<longleftrightarrow>
    target_is_ip t \<and> prefix_contains \<lparr>pfx_addr = net, pfx_bits = n\<rparr> (t_addr t)"
  by (simp add: rule_match_def net_rule_def pattern_match_def ports_match_iff Let_def)

lemma rule_actions [simp]: "rl_action (host_rule a h ps why) = a" "rl_action (net_rule a net n why) = a"
  by (simp_all add: host_rule_def net_rule_def Let_def)

lemma must_rule_spec: "rule_ok (r\<lparr>rl_why := []\<rparr>) \<Longrightarrow> rl_action r = a \<Longrightarrow> rl_scope r = [] \<Longrightarrow> rule_spec r = s \<Longrightarrow> rl_why r = why \<Longrightarrow>
    must_rule a s why = Some r"
  using parse_rule_spec [of "r\<lparr>rl_why := []\<rparr>" "rl_action r"] by (auto simp: must_rule_def rule_spec_def split: if_splits)

lemma net_rule_prefix:
  assumes "prefix_ok \<lparr>pfx_addr = net, pfx_bits = n\<rparr>" "mask_addr n net = net" "prefix_string \<lparr>pfx_addr = net, pfx_bits = n\<rparr> = s"
  shows "must_rule a s why = Some (net_rule a net n why)"
proof (rule must_rule_spec)
  show "rule_spec (net_rule a net n why) = s"
    using assms(3) by (simp add: rule_spec_def net_rule_def Let_def pattern_string_def ports_any_def)
  show "rule_ok (net_rule a net n why\<lparr>rl_why := []\<rparr>)"
    using assms by (simp add: rule_ok_def pattern_ok_def net_rule_def Let_def zero_pattern_def masked_def ports_ok_def)
qed (simp_all add: net_rule_def Let_def)

lemma open_rules:
  "must_rule Deny ''127.0.0.0/8'' w = Some (net_rule Deny (A4 0x7F000000) 8 w)"
  "must_rule Deny ''::1/128'' w = Some (net_rule Deny (A6 1 []) 128 w)"
  "must_rule Deny ''169.254.0.0/16'' w = Some (net_rule Deny (A4 0xA9FE0000) 16 w)"
  "must_rule Deny ''fe80::/10'' w = Some (net_rule Deny (A6 0xFE800000000000000000000000000000 []) 10 w)"
  apply (rule net_rule_prefix, (simp add: prefix_ok_def addr_valid_def bit_len_def addr_zone_def; fail), (simp add: mask_addr_def top_mask_def mask_eq_exp_minus_1; fail), code_simp)+
  done

lemma open_policy_rules: "open_policy = Some \<lparr>pol_name = ''open'', pol_default = Allow, pol_rules =
   [net_rule Deny (A4 0x7F000000) 8 ''the host's own loopback; under TSI the guest shares it'',
    net_rule Deny (A6 1 []) 128 ''the host's own loopback (IPv6)'',
    net_rule Deny (A4 0xA9FE0000) 16 ''link-local, including the 169.254.169.254 metadata endpoint'',
    net_rule Deny (A6 0xFE800000000000000000000000000000 []) 10 ''link-local (IPv6)'',
    host_rule Deny ''localhost'' [] ''the host's own loopback, by name'']\<rparr>"
proof -
  have "must_rule Deny ''localhost'' why = Some (host_rule Deny ''localhost'' [] why)" for why
  proof (rule must_rule_spec)
    have "rule_ok (host_rule Deny ''localhost'' [] [])" by code_simp
    then show "rule_ok (host_rule Deny ''localhost'' [] why\<lparr>rl_why := []\<rparr>)" by (simp add: host_rule_def)
  qed (simp_all add: rule_spec_def host_rule_def pattern_string_def ports_any_def)
  then show ?thesis by (simp add: open_policy_def preset_policy_def open_rules)
qed

definition https_only :: port_set where "https_only = [\<lparr>r_lo = 443, r_hi = 443\<rparr>]"

definition standard_hosts :: "(string \<times> string) list" where
  "standard_hosts =
     [(''github.com'', ''git clone/fetch/push over HTTPS''),
      (''api.github.com'', ''GitHub REST and GraphQL APIs''),
      (''codeload.github.com'', ''source archives git and go get fetch''),
      (''proxy.golang.org'', ''Go module proxy''), (''sum.golang.org'', ''Go checksum database''),
      (''registry.npmjs.org'', ''npm registry''), (''pypi.org'', ''PyPI index''),
      (''files.pythonhosted.org'', ''PyPI package downloads''), (''crates.io'', ''crates.io API''),
      (''index.crates.io'', ''Cargo sparse index''), (''static.crates.io'', ''crate downloads''),
      (''registry-1.docker.io'', ''Docker Hub registry''), (''auth.docker.io'', ''Docker Hub tokens''),
      (''production.cloudfront.docker.com'', ''Docker Hub image layers'')]"

lemma must_rule_https:
  assumes "host_ok h Addr_none"
  shows "must_rule a (h @ '':443'') why = Some (host_rule a h https_only why)"
proof -
  have "rule_ok (host_rule a h https_only [])"
    using assms by (simp add: rule_ok_def pattern_ok_def host_rule_def zero_pattern_def https_only_def
        ports_ok_def range_ok_def)
  moreover have "CHR '':'' \<notin> set h" using colon_in_host [OF assms] by (simp add: is6_def)
  moreover have "itoa 443 = ''443''" by code_simp
  ultimately have "parse_rule a (h @ '':443'') = Inr (host_rule a h https_only [])"
    using parse_rule_spec [of "host_rule a h https_only []" a]
    by (simp add: rule_spec_def host_rule_def https_only_def ports_any_def ports_string_def range_string_def
        pattern_string_def)
  then show ?thesis by (simp add: must_rule_def host_rule_def)
qed

lemma those_map: "(\<And>x. x \<in> set xs \<Longrightarrow> f x = Some (g x)) \<Longrightarrow> those (map f xs) = Some (map g xs)"
  by (induction xs) auto

lemma standard_hosts_ok: "list_all (\<lambda>(h, why). host_ok h Addr_none) standard_hosts"
  by code_simp

lemma standard_policy_rules: "standard_policy = Some \<lparr>pol_name = ''standard'', pol_default = Deny,
    pol_rules = map (\<lambda>(h, why). host_rule Allow h https_only why) standard_hosts\<rparr>"
proof -
  have "standard_policy = preset_policy ''standard'' Deny
      (map (\<lambda>(h, why). must_rule Allow (h @ '':443'') why) standard_hosts)"
    by (simp add: standard_policy_def standard_hosts_def)
  moreover have "those (map (\<lambda>(h, why). must_rule Allow (h @ '':443'') why) standard_hosts) =
      Some (map (\<lambda>(h, why). host_rule Allow h https_only why) standard_hosts)"
    using standard_hosts_ok by (intro those_map) (auto simp: list_all_iff must_rule_https)
  ultimately show ?thesis by (simp add: preset_policy_def)
qed

lemma preset_by_name:
  "preset ''open'' = map_option Inr open_policy" "preset ''standard'' = map_option Inr standard_policy"
  "preset ''locked'' = map_option Inr locked_policy" "preset [] = map_option Inr standard_policy"
proof -
  have "to_lower (trim_space ''open'') = ''open''" "to_lower (trim_space ''standard'') = ''standard''"
    "to_lower (trim_space ''locked'') = ''locked''" "to_lower (trim_space []) = []" by code_simp+
  then show "preset ''open'' = map_option Inr open_policy" "preset ''standard'' = map_option Inr standard_policy"
    "preset ''locked'' = map_option Inr locked_policy" "preset [] = map_option Inr standard_policy"
    by (simp_all add: preset_def)
qed

text \<open>Asking for a preset by its name again gives the same preset.\<close>

lemma preset_name: "preset n = Some (Inr p) \<Longrightarrow> preset (pol_name p) = Some (Inr p)"
  using preset_by_name
  by (auto simp: preset_def [of n] Let_def open_policy_rules standard_policy_rules locked_policy_def split: if_splits)

lemma preset_total: "preset n \<noteq> None"
  by (simp add: preset_def Let_def open_policy_rules standard_policy_rules locked_policy_def)

lemma ports_https [simp]: "ports_match https_only p \<longleftrightarrow> p = 443"
  by (auto simp: ports_match_iff https_only_def)

subsection \<open>Properties\<close>

text \<open>
  The three postures. No preset panics. Under \<open>open\<close> a target is allowed unless it is an address
  in the loopback or link-local ranges of either family or the name \<open>localhost\<close>; under \<open>standard\<close> it is
  allowed only if it is one of the listed names on port 443, never an address; under \<open>locked\<close> never.
\<close>

theorem preset_postures:
  "\<exists>po s l. open_policy = Some po \<and> standard_policy = Some s \<and> locked_policy = Some l \<and>
    (\<forall>t. v_allowed (evaluate po t) \<longleftrightarrow>
       (if target_is_ip t
        then \<not> prefix_contains \<lparr>pfx_addr = A4 0x7F000000, pfx_bits = 8\<rparr> (t_addr t) \<and>
             \<not> prefix_contains \<lparr>pfx_addr = A6 1 [], pfx_bits = 128\<rparr> (t_addr t) \<and>
             \<not> prefix_contains \<lparr>pfx_addr = A4 0xA9FE0000, pfx_bits = 16\<rparr> (t_addr t) \<and>
             \<not> prefix_contains \<lparr>pfx_addr = A6 0xFE800000000000000000000000000000 [], pfx_bits = 10\<rparr> (t_addr t)
        else t_host t \<noteq> ''localhost'')) \<and>
    (\<forall>t. v_allowed (evaluate s t) \<longleftrightarrow>
       \<not> target_is_ip t \<and> t_port t = 443 \<and> t_host t \<in> fst ` set standard_hosts) \<and>
    (\<forall>t. \<not> v_allowed (evaluate l t))"
proof -
  have "covers Allow (map (\<lambda>(h, why). host_rule Allow h https_only why) hs) t \<longleftrightarrow>
      \<not> target_is_ip t \<and> t_port t = 443 \<and> t_host t \<in> fst ` set hs" for hs t
    by (induction hs) (auto simp: host_rule_match)
  moreover have "\<not> covers Deny (map (\<lambda>(h, why). host_rule Allow h https_only why) hs) t" for hs t
    by (induction hs) auto
  moreover have "ports_match [] p" for p by (simp add: ports_match_iff)
  ultimately show ?thesis
    by (simp add: open_policy_rules standard_policy_rules locked_policy_def evaluate_allowed permits_def
        host_rule_match net_rule_match)
qed

theorem preset_postures_witness:
  "\<exists>l. locked_policy = Some l \<and> \<not> v_allowed (evaluate l \<lparr>t_host = ''a'', t_addr = Addr_none, t_port = 443\<rparr>)"
  using preset_postures by blast

end
