(* ===== verification/Policy_Store.thy ===== *)
theory Policy_Store
  imports Policy_Preset "HOL-Library.AList"
begin

section \<open>The durable policy: \<open>internal/policy/store.go\<close>\<close>

text \<open>
  The store holds rules as text, per scope, and named profiles. A Go map is an association list with
  distinct keys here; a nil map and an empty one are the same list, as they are in the file. The
  file is modelled by what decoding it yields, so the JSON text itself is not part of the model.
\<close>

subsection \<open>Stored rules\<close>

record rule_spec =
  rs_action :: action
  rs_spec :: string
  rs_note :: string
  rs_scope :: string

definition spec_rule :: "rule_spec \<Rightarrow> rule_error + rule" where
  "spec_rule r =
     (case parse_rule (rs_action r) (rs_spec r) of
        Inl e \<Rightarrow> Inl e
      | Inr rule \<Rightarrow> Inr (rule\<lparr>rl_why := rs_note r, rl_scope := rs_scope r\<rparr>))"

definition spec_string :: "rule_spec \<Rightarrow> string" where
  "spec_string r =
     (if rs_note r = [] then action_string (rs_action r) @ '' '' @ rs_spec r
      else action_string (rs_action r) @ '' '' @ rs_spec r @ ''  # '' @ rs_note r)"

definition canonical :: "rule_spec \<Rightarrow> string" where
  "canonical r =
     (case parse_rule (rs_action r) (rs_spec r) of
        Inl _ \<Rightarrow> to_lower (trim_space (rs_spec r))
      | Inr rule \<Rightarrow> rule_spec rule)"

definition same_destination :: "rule_spec \<Rightarrow> string \<Rightarrow> bool" where
  "same_destination r spec \<longleftrightarrow>
     canonical r = canonical \<lparr>rs_action = rs_action r, rs_spec = spec, rs_note = [], rs_scope = []\<rparr>"

subsection \<open>The store\<close>

record profile =
  pf_description :: string
  pf_preset :: string
  pf_rules :: "rule_spec list"

record store =
  st_version :: int
  st_preset :: string
  st_global :: "rule_spec list"
  st_sandboxes :: "(string \<times> rule_spec list) list"
  st_profiles :: "(string \<times> profile) list"
  st_path :: string
  st_exists :: bool

definition store_version :: int where "store_version = 1"

definition new_store :: "string \<Rightarrow> store" where
  "new_store path =
     \<lparr>st_version = store_version, st_preset = ''standard'', st_global = [], st_sandboxes = [],
      st_profiles = [], st_path = path, st_exists = False\<rparr>"

datatype store_error =
    Store_unreadable | Store_malformed | No_version | Newer_version int | Store_preset string
  | Unusable_rule string nat rule_error | Nameless_sandbox | Nameless_profile
  | Profile_preset string string | No_such_profile string | Profile_exists string
  | No_rules_for string | No_such_rule string string | Bad_rule rule_error | No_store_path | Save_failed nat

definition sorted_keys :: "(string \<times> 'a) list \<Rightarrow> string list" where
  "sorted_keys m = sort (map fst m)"

definition preset_known :: "string \<Rightarrow> bool" where
  "preset_known name = (case preset name of Some (Inr _) \<Rightarrow> True | _ \<Rightarrow> False)"

text \<open>The position in the error counts from 1.\<close>

fun validate_rules :: "string \<Rightarrow> nat \<Rightarrow> rule_spec list \<Rightarrow> store_error option" where
  "validate_rules scope i [] = None"
| "validate_rules scope i (r # rs) =
     (case spec_rule r of
        Inl e \<Rightarrow> Some (Unusable_rule scope (i + 1) e)
      | Inr _ \<Rightarrow> validate_rules scope (i + 1) rs)"

text \<open>Checks run in order; the first one that fails is the result.\<close>

fun first_error :: "'e option list \<Rightarrow> 'e option" where
  "first_error [] = None"
| "first_error (None # es) = first_error es"
| "first_error (Some e # es) = Some e"

definition validate_sandbox :: "store \<Rightarrow> string \<Rightarrow> store_error option" where
  "validate_sandbox s name =
     (if trim_space name = [] then Some Nameless_sandbox
      else validate_rules (''sandbox '' @ name) 0 (the (map_of (st_sandboxes s) name)))"

definition validate_profile :: "store \<Rightarrow> string \<Rightarrow> store_error option" where
  "validate_profile s name =
     (if trim_space name = [] then Some Nameless_profile
      else (let p = the (map_of (st_profiles s) name)
            in if pf_preset p \<noteq> [] \<and> \<not> preset_known (pf_preset p) then Some (Profile_preset name (pf_preset p))
               else validate_rules (''profile '' @ name) 0 (pf_rules p)))"

definition validate_store :: "store \<Rightarrow> store_error option" where
  "validate_store s =
     (if st_version s \<le> 0 then Some No_version
      else if store_version < st_version s then Some (Newer_version (st_version s))
      else if st_preset s \<noteq> [] \<and> \<not> preset_known (st_preset s) then Some (Store_preset (st_preset s))
      else first_error
        (validate_rules ''global'' 0 (st_global s)
         # map (validate_sandbox s) (sorted_keys (st_sandboxes s))
         @ map (validate_profile s) (sorted_keys (st_profiles s))))"

text \<open>What \<open>os.ReadFile\<close> and the decoder make of the file.\<close>

datatype store_file = File_missing | File_unreadable | File_malformed | File_holds store

definition load_store :: "string \<Rightarrow> store_file \<Rightarrow> store_error + store" where
  "load_store path f =
     (case f of
        File_missing \<Rightarrow> Inr ((new_store path)\<lparr>st_preset := []\<rparr>)
      | File_unreadable \<Rightarrow> Inl Store_unreadable
      | File_malformed \<Rightarrow> Inl Store_malformed
      | File_holds d \<Rightarrow>
          (let s = d\<lparr>st_path := path, st_exists := True\<rparr>
           in (case validate_store s of Some e \<Rightarrow> Inl e | None \<Rightarrow> Inr s)))"

subsection \<open>Scopes\<close>

datatype scope_kind = Scope_global | Scope_sandbox | Scope_profile

record scope_ref =
  sc_kind :: scope_kind
  sc_name :: string

definition global_scope :: scope_ref where "global_scope = \<lparr>sc_kind = Scope_global, sc_name = []\<rparr>"
definition sandbox_scope :: "string \<Rightarrow> scope_ref" where "sandbox_scope n = \<lparr>sc_kind = Scope_sandbox, sc_name = n\<rparr>"
definition profile_scope :: "string \<Rightarrow> scope_ref" where "profile_scope n = \<lparr>sc_kind = Scope_profile, sc_name = n\<rparr>"

definition scope_string :: "scope_ref \<Rightarrow> string" where
  "scope_string s =
     (case sc_kind s of
        Scope_sandbox \<Rightarrow> ''sandbox '' @ sc_name s
      | Scope_profile \<Rightarrow> ''profile '' @ sc_name s
      | Scope_global \<Rightarrow> ''global'')"

definition parse_scope :: "string \<Rightarrow> string \<Rightarrow> scope_ref option" where
  "parse_scope sandbox0 profile0 =
     (let sandbox = trim_space sandbox0; profile = trim_space profile0
      in if sandbox \<noteq> [] \<and> profile \<noteq> [] then None
         else if sandbox \<noteq> [] then Some (sandbox_scope sandbox)
         else if profile \<noteq> [] then Some (profile_scope profile)
         else Some global_scope)"

definition scope_rules :: "store \<Rightarrow> scope_ref \<Rightarrow> rule_spec list \<times> bool" where
  "scope_rules s sc =
     (case sc_kind sc of
        Scope_sandbox \<Rightarrow>
          (case map_of (st_sandboxes s) (sc_name sc) of None \<Rightarrow> ([], False) | Some rs \<Rightarrow> (rs, True))
      | Scope_profile \<Rightarrow>
          (case map_of (st_profiles s) (sc_name sc) of None \<Rightarrow> ([], False) | Some p \<Rightarrow> (pf_rules p, True))
      | Scope_global \<Rightarrow> (st_global s, True))"

definition empty_profile :: profile where
  "empty_profile = \<lparr>pf_description = [], pf_preset = [], pf_rules = []\<rparr>"

definition set_rules :: "scope_ref \<Rightarrow> rule_spec list \<Rightarrow> store \<Rightarrow> store" where
  "set_rules sc rs s =
     (case sc_kind sc of
        Scope_sandbox \<Rightarrow>
          (if rs = [] then s\<lparr>st_sandboxes := AList.delete (sc_name sc) (st_sandboxes s)\<rparr>
           else s\<lparr>st_sandboxes := AList.update (sc_name sc) rs (st_sandboxes s)\<rparr>)
      | Scope_profile \<Rightarrow>
          (let p = (case map_of (st_profiles s) (sc_name sc) of None \<Rightarrow> empty_profile | Some p \<Rightarrow> p)
           in s\<lparr>st_profiles := AList.update (sc_name sc) (p\<lparr>pf_rules := rs\<rparr>) (st_profiles s)\<rparr>)
      | Scope_global \<Rightarrow> s\<lparr>st_global := rs\<rparr>)"

subsection \<open>Operations\<close>

definition same_rule :: "rule_spec \<Rightarrow> rule_spec \<Rightarrow> bool" where
  "same_rule r spec \<longleftrightarrow> rs_action r = rs_action spec \<and> canonical r = canonical spec"

text \<open>
  The loop of \<open>Add\<close>: the first rule with the same action and destination gets the new note, when
  there is one and it differs; \<open>None\<close> when there is no such rule.
\<close>

fun renote :: "rule_spec \<Rightarrow> rule_spec list \<Rightarrow> (bool \<times> rule_spec list) option" where
  "renote spec [] = None"
| "renote spec (r # rs) =
     (if same_rule r spec then
        (if rs_note spec \<noteq> [] \<and> rs_note r \<noteq> rs_note spec
         then Some (True, r\<lparr>rs_note := rs_note spec\<rparr> # rs) else Some (False, r # rs))
      else (case renote spec rs of None \<Rightarrow> None | Some (b, rs') \<Rightarrow> Some (b, r # rs')))"

definition add_rule :: "scope_ref \<Rightarrow> rule_spec \<Rightarrow> store \<Rightarrow> store_error + bool \<times> store" where
  "add_rule sc spec s =
     (case spec_rule spec of
        Inl e \<Rightarrow> Inl (Bad_rule e)
      | Inr _ \<Rightarrow>
          if sc_kind sc = Scope_profile \<and> map_of (st_profiles s) (sc_name sc) = None
          then Inl (No_such_profile (sc_name sc))
          else (let rules = fst (scope_rules s sc)
                in (case renote spec rules of
                      Some (True, rules') \<Rightarrow> Inr (True, set_rules sc rules' s)
                    | Some (False, _) \<Rightarrow> Inr (False, s)
                    | None \<Rightarrow> Inr (True, set_rules sc (rules @ [spec]) s))))"

definition remove_rule :: "scope_ref \<Rightarrow> action option \<Rightarrow> string \<Rightarrow> store \<Rightarrow> store_error + rule_spec list \<times> store" where
  "remove_rule sc act spec s =
     (let probe = \<lparr>rs_action = (case act of None \<Rightarrow> Deny | Some a \<Rightarrow> a), rs_spec = spec, rs_note = [], rs_scope = []\<rparr>
      in (case spec_rule probe of
            Inl e \<Rightarrow> Inl (Bad_rule e)
          | Inr _ \<Rightarrow>
              (let want = canonical probe;
                   (rules, found) = scope_rules s sc;
                   hit = (\<lambda>r. canonical r = want \<and> (act = None \<or> act = Some (rs_action r)))
               in if \<not> found then Inl (No_rules_for (scope_string sc))
                  else if filter hit rules = [] then Inl (No_such_rule spec (scope_string sc))
                  else Inr (filter hit rules, set_rules sc (filter (\<lambda>r. \<not> hit r) rules) s))))"

definition add_profile :: "string \<Rightarrow> profile \<Rightarrow> store \<Rightarrow> store_error + store" where
  "add_profile name p s =
     (if trim_space name = [] then Inl Nameless_profile
      else if map_of (st_profiles s) name \<noteq> None then Inl (Profile_exists name)
      else if pf_preset p \<noteq> [] \<and> \<not> preset_known (pf_preset p) then Inl (Store_preset (pf_preset p))
      else (case map_res spec_rule (pf_rules p) of
          Inl e \<Rightarrow> Inl (Bad_rule e)
        | Inr _ \<Rightarrow> Inr (s\<lparr>st_profiles := AList.update name p (st_profiles s)\<rparr>)))"

definition remove_profile :: "string \<Rightarrow> store \<Rightarrow> store_error + store" where
  "remove_profile name s =
     (if map_of (st_profiles s) name = None then Inl (No_such_profile name)
      else Inr (s\<lparr>st_profiles := AList.delete name (st_profiles s)\<rparr>))"

definition count_rules :: "store \<Rightarrow> nat" where
  "count_rules s =
     foldl (\<lambda>n p. n + length (pf_rules (snd p)))
       (foldl (\<lambda>n x. n + length (snd x)) (length (st_global s)) (st_sandboxes s)) (st_profiles s)"

definition reset_store :: "scope_ref \<Rightarrow> bool \<Rightarrow> store \<Rightarrow> nat \<times> store" where
  "reset_store sc every s =
     (if every then
        (count_rules s, s\<lparr>st_preset := ''standard'', st_global := [], st_sandboxes := [], st_profiles := []\<rparr>)
      else (length (fst (scope_rules s sc)), set_rules sc [] s))"

definition sandbox_names :: "store \<Rightarrow> string list" where
  "sandbox_names s = sorted_keys (st_sandboxes s)"

definition profile_names :: "store \<Rightarrow> string list" where
  "profile_names s = sorted_keys (st_profiles s)"

text \<open>
  \<open>Save\<close> makes the directory, creates a temporary file, restricts it, writes it, closes it and renames
  it over the store. Any step may fail (\<open>fail\<close> is the step that does) and the store file changes
  only with the last one. What is written is the store without its scopes and its path.
\<close>

definition strip_scope :: "rule_spec \<Rightarrow> rule_spec" where
  "strip_scope r = r\<lparr>rs_scope := []\<rparr>"

definition stored_form :: "store \<Rightarrow> store" where
  "stored_form s =
     s\<lparr>st_global := map strip_scope (st_global s),
       st_sandboxes := map (\<lambda>(n, rs). (n, map strip_scope rs)) (st_sandboxes s),
       st_profiles := map (\<lambda>(n, p). (n, p\<lparr>pf_rules := map strip_scope (pf_rules p)\<rparr>)) (st_profiles s),
       st_path := [], st_exists := False\<rparr>"

definition save_store :: "nat option \<Rightarrow> store \<Rightarrow> store_file \<Rightarrow> (store_error option \<times> store) \<times> store_file" where
  "save_store fail s f =
     (if st_path s = [] then ((Some No_store_path, s), f)
      else (let s = s\<lparr>st_version := store_version\<rparr>
            in (case fail of
                  Some step \<Rightarrow> if step < 6 then ((Some (Save_failed step), s), f)
                                else ((None, s\<lparr>st_exists := True\<rparr>), File_holds (stored_form s))
                | None \<Rightarrow> ((None, s\<lparr>st_exists := True\<rparr>), File_holds (stored_form s)))))"

subsection \<open>What is in a scope\<close>

definition rules_at :: "store \<Rightarrow> scope_ref \<Rightarrow> rule_spec list" where
  "rules_at s sc = fst (scope_rules s sc)"

definition rule_key :: "rule_spec \<Rightarrow> action \<times> string" where
  "rule_key r = (rs_action r, canonical r)"

text \<open>The name of a reference to the global scope carries no meaning.\<close>

definition same_scope :: "scope_ref \<Rightarrow> scope_ref \<Rightarrow> bool" where
  "same_scope a b \<longleftrightarrow> sc_kind a = sc_kind b \<and> (sc_kind a = Scope_global \<or> sc_name a = sc_name b)"

lemma canonical_note [simp]: "canonical (r\<lparr>rs_note := n\<rparr>) = canonical r"
  by (simp add: canonical_def split: sum.split)

lemma canonical_scope [simp]: "canonical (r\<lparr>rs_scope := n\<rparr>) = canonical r"
  by (simp add: canonical_def split: sum.split)

lemma rule_key_note [simp]: "rule_key (r\<lparr>rs_note := n\<rparr>) = rule_key r"
  by (simp add: rule_key_def)

lemma same_rule_key: "same_rule r q \<longleftrightarrow> rule_key r = rule_key q"
  by (simp add: same_rule_def rule_key_def)

lemma spec_rule_ok_note [simp]:
  "is_ok (spec_rule (r\<lparr>rs_note := n\<rparr>)) = is_ok (spec_rule r)"
  "is_ok (spec_rule (r\<lparr>rs_scope := n\<rparr>)) = is_ok (spec_rule r)"
  by (simp_all add: spec_rule_def is_ok_def split: sum.splits)

lemma rules_at_set_rules: "rules_at (set_rules sc rs s) sc' = (if same_scope sc' sc then rs else rules_at s sc')"
  by (auto simp: rules_at_def scope_rules_def set_rules_def same_scope_def Let_def map_of_eq_None_iff
      update_conv' delete_conv' split: scope_kind.splits option.splits)

lemma renote_None: "renote spec rs = None \<longleftrightarrow> rule_key spec \<notin> rule_key ` set rs"
  by (induction rs) (auto simp: same_rule_key split: option.splits)

lemma renote_keys: "renote spec rs = Some (b, rs') \<Longrightarrow> map rule_key rs' = map rule_key rs"
  by (induction rs arbitrary: rs') (auto split: if_splits option.splits)

lemma renote_False: "renote spec rs = Some (False, rs') \<Longrightarrow> rs' = rs"
  by (induction rs arbitrary: rs') (auto split: if_splits option.splits)

lemma renote_again: "renote spec rs = Some (b, rs') \<Longrightarrow> renote spec rs' = Some (False, rs')"
  by (induction rs arbitrary: rs') (auto simp: same_rule_key split: if_splits option.splits)

lemma renote_append: "renote spec rs = None \<Longrightarrow> renote spec (rs @ [spec]) = Some (False, rs @ [spec])"
  by (induction rs) (auto simp: same_rule_key split: if_splits option.splits)

lemma renote_ok: "renote spec rs = Some (b, rs') \<Longrightarrow> list_all (\<lambda>r. is_ok (spec_rule r)) rs' = list_all (\<lambda>r. is_ok (spec_rule r)) rs"
  by (induction rs arbitrary: rs') (auto split: if_splits option.splits)

text \<open>The result of \<open>Add\<close>, as the rules it leaves in the scope.\<close>

lemma add_rule_Inr:
  assumes "add_rule sc spec s = Inr (b, s')"
  obtains rs where "s' = s \<or> s' = set_rules sc rs s" "rules_at s' sc = rs" "is_ok (spec_rule spec)"
    "renote spec rs = Some (False, rs)" "\<not> b \<Longrightarrow> s' = s"
    "map rule_key rs = map rule_key (rules_at s sc) \<and> rule_key spec \<in> rule_key ` set (rules_at s sc) \<or>
     rs = rules_at s sc @ [spec] \<and> rule_key spec \<notin> rule_key ` set (rules_at s sc)"
    "list_all (\<lambda>r. is_ok (spec_rule r)) (rules_at s sc) \<Longrightarrow> list_all (\<lambda>r. is_ok (spec_rule r)) rs"
    "sc_kind sc = Scope_profile \<Longrightarrow> map_of (st_profiles s) (sc_name sc) \<noteq> None"
proof -
  have ok: "is_ok (spec_rule spec)" and prof: "sc_kind sc = Scope_profile \<Longrightarrow> map_of (st_profiles s) (sc_name sc) \<noteq> None"
    using assms by (auto simp: add_rule_def is_ok_def split: sum.splits if_splits)
  have same [simp]: "same_scope sc sc" by (simp add: same_scope_def)
  show thesis
  proof (cases "renote spec (rules_at s sc)")
    case None
    then have "b" "s' = set_rules sc (rules_at s sc @ [spec]) s"
      using assms by (auto simp: add_rule_def rules_at_def split: sum.splits if_splits)
    with None ok prof show ?thesis
      by (intro that [of "rules_at s sc @ [spec]"])
        (auto simp: rules_at_set_rules renote_append renote_None)
  next
    case (Some x)
    obtain c rs where x: "x = (c, rs)" by (cases x)
    have mem: "rule_key spec \<in> rule_key ` set (rules_at s sc)"
      using Some renote_None [of spec "rules_at s sc"] by auto
    show ?thesis
    proof (cases c)
      case True
      then have "b" "s' = set_rules sc rs s"
        using assms Some x by (auto simp: add_rule_def rules_at_def split: sum.splits if_splits)
      with True Some x ok prof mem renote_keys [of spec "rules_at s sc"] show ?thesis
        by (intro that [of rs]) (auto simp: rules_at_set_rules renote_ok dest: renote_again)
    next
      case False
      then have "\<not> b" "s' = s" "rs = rules_at s sc"
        using assms Some x renote_False [of spec "rules_at s sc"]
        by (auto simp: add_rule_def rules_at_def split: sum.splits if_splits)
      with False Some x ok prof mem show ?thesis
        by (intro that [of rs]) (auto dest: renote_again)
    qed
  qed
qed

subsection \<open>The invariant of a store\<close>

definition rules_ok :: "rule_spec list \<Rightarrow> bool" where
  "rules_ok rs = list_all (\<lambda>r. is_ok (spec_rule r)) rs"

definition profile_ok :: "profile \<Rightarrow> bool" where
  "profile_ok p \<longleftrightarrow> (pf_preset p = [] \<or> preset_known (pf_preset p)) \<and> rules_ok (pf_rules p)"

text \<open>What \<open>validate\<close> accepts, with the distinct keys a Go map has by construction.\<close>

definition store_ok :: "store \<Rightarrow> bool" where
  "store_ok s \<longleftrightarrow> validate_store s = None \<and>
     distinct (map fst (st_sandboxes s)) \<and> distinct (map fst (st_profiles s))"

lemma validate_rules_None: "validate_rules sc i rs = None \<longleftrightarrow> rules_ok rs"
  by (induction sc i rs rule: validate_rules.induct) (auto simp: rules_ok_def is_ok_def split: sum.splits)

lemma first_error_None: "first_error es = None \<longleftrightarrow> (\<forall>e\<in>set es. e = None)"
  by (induction es rule: first_error.induct) auto

lemma validate_sandbox_None: "validate_sandbox s n = None \<longleftrightarrow>
    trim_space n \<noteq> [] \<and> rules_ok (the (map_of (st_sandboxes s) n))"
  by (simp add: validate_sandbox_def validate_rules_None)

lemma validate_profile_None: "validate_profile s n = None \<longleftrightarrow>
    trim_space n \<noteq> [] \<and> profile_ok (the (map_of (st_profiles s) n))"
  by (simp add: validate_profile_def validate_rules_None profile_ok_def Let_def)

lemma store_ok_iff:
  "store_ok s \<longleftrightarrow> st_version s = 1 \<and> (st_preset s = [] \<or> preset_known (st_preset s)) \<and> rules_ok (st_global s) \<and>
     map_ok (\<lambda>n rs. trim_space n \<noteq> [] \<and> rules_ok rs) (st_sandboxes s) \<and>
     map_ok (\<lambda>n p. trim_space n \<noteq> [] \<and> profile_ok p) (st_profiles s)"
  (is "_ \<longleftrightarrow> ?v \<and> ?p \<and> ?g \<and> map_ok ?S _ \<and> map_ok ?P _")
proof (cases "distinct (map fst (st_sandboxes s)) \<and> distinct (map fst (st_profiles s))")
  case True
  have "(\<forall>n\<in>fst ` set (st_sandboxes s). validate_sandbox s n = None) \<longleftrightarrow> map_ok ?S (st_sandboxes s)"
    "(\<forall>n\<in>fst ` set (st_profiles s). validate_profile s n = None) \<longleftrightarrow> map_ok ?P (st_profiles s)"
    using map_ok_keys [of "st_sandboxes s" ?S] map_ok_keys [of "st_profiles s" ?P] True
    by (simp_all add: validate_sandbox_None validate_profile_None)
  moreover have "validate_store s = None \<longleftrightarrow> ?v \<and> ?p \<and> ?g \<and>
      (\<forall>n\<in>fst ` set (st_sandboxes s). validate_sandbox s n = None) \<and>
      (\<forall>n\<in>fst ` set (st_profiles s). validate_profile s n = None)"
    unfolding validate_store_def store_version_def
    by (simp add: first_error_None validate_rules_None sorted_keys_def ball_Un) linarith?
  ultimately show ?thesis using True by (simp add: store_ok_def)
next
  case False
  then show ?thesis by (auto simp: store_ok_def dest: map_ok_distinct)
qed

lemma rules_ok_Nil [simp]: "rules_ok []"
  by (simp add: rules_ok_def)

lemma rules_at_ok: "store_ok s \<Longrightarrow> rules_ok (rules_at s sc)"
  by (auto simp: store_ok_iff rules_at_def scope_rules_def profile_ok_def
      dest: map_ok_get split: scope_kind.splits option.splits)

lemma set_rules_ok:
  assumes "store_ok s" "rules_ok rs" "sc_kind sc = Scope_global \<or> trim_space (sc_name sc) \<noteq> []"
  shows "store_ok (set_rules sc rs s)"
proof (cases "sc_kind sc")
  case Scope_profile
  define p where "p = (case map_of (st_profiles s) (sc_name sc) of None \<Rightarrow> empty_profile | Some p \<Rightarrow> p)"
  have "profile_ok (p\<lparr>pf_rules := rs\<rparr>)"
    using assms(1,2) by (auto simp: p_def store_ok_iff profile_ok_def empty_profile_def dest: map_ok_get split: option.split)
  moreover have "set_rules sc rs s = s\<lparr>st_profiles := AList.update (sc_name sc) (p\<lparr>pf_rules := rs\<rparr>) (st_profiles s)\<rparr>"
    using Scope_profile by (simp add: set_rules_def p_def)
  ultimately show ?thesis using assms Scope_profile by (simp add: store_ok_iff map_ok_update)
qed (use assms in \<open>auto simp: store_ok_iff set_rules_def map_ok_update map_ok_delete\<close>)

lemma parse_scope_named: "parse_scope a b = Some sc \<Longrightarrow> sc_kind sc = Scope_global \<or> trim_space (sc_name sc) \<noteq> []"
  by (auto simp: parse_scope_def Let_def global_scope_def sandbox_scope_def profile_scope_def split: if_splits)

lemma map_res_rules_ok: "is_ok (map_res spec_rule rs) \<longleftrightarrow> rules_ok rs"
  by (simp add: map_res_is_ok rules_ok_def list_all_iff)

lemma add_rule_ok:
  assumes "store_ok s" "parse_scope a b = Some sc" "add_rule sc spec s = Inr (c, s')"
  shows "store_ok s'"
proof -
  obtain rs where "s' = s \<or> s' = set_rules sc rs s" "rules_ok rs"
    using assms(3) rules_at_ok [OF assms(1), of sc] by (elim add_rule_Inr) (auto simp: rules_ok_def)
  then show ?thesis using assms(1) set_rules_ok parse_scope_named [OF assms(2)] by blast
qed

lemma rules_ok_filter: "rules_ok rs \<Longrightarrow> rules_ok (filter P rs)"
  by (auto simp: rules_ok_def list_all_iff)

lemma remove_rule_Inr:
  assumes "remove_rule sc act spec s = Inr (gone, s')"
  obtains hit where "gone = filter hit (rules_at s sc)" "gone \<noteq> []"
    "s' = set_rules sc (filter (\<lambda>r. \<not> hit r) (rules_at s sc)) s"
    "\<And>r. hit r \<longleftrightarrow> canonical r = canonical \<lparr>rs_action = (case act of None \<Rightarrow> Deny | Some a \<Rightarrow> a),
        rs_spec = spec, rs_note = [], rs_scope = []\<rparr> \<and> (act = None \<or> act = Some (rs_action r))"
  using assms by (auto simp: remove_rule_def rules_at_def Let_def split: sum.splits prod.splits if_splits)

lemma remove_rule_ok:
  assumes "store_ok s" "parse_scope a b = Some sc" "remove_rule sc act spec s = Inr (gone, s')"
  shows "store_ok s'"
  using assms(3)
  by (elim remove_rule_Inr) (simp add: set_rules_ok assms(1) rules_ok_filter rules_at_ok parse_scope_named [OF assms(2)])

lemma add_profile_ok: "store_ok s \<Longrightarrow> add_profile name p s = Inr s' \<Longrightarrow> store_ok s'"
  by (auto simp: add_profile_def store_ok_iff profile_ok_def map_ok_update
      simp flip: map_res_rules_ok split: if_splits sum.splits)

lemma remove_profile_ok: "store_ok s \<Longrightarrow> remove_profile name s = Inr s' \<Longrightarrow> store_ok s'"
  by (auto simp: remove_profile_def store_ok_iff map_ok_delete split: if_splits)

lemma preset_known_standard: "preset_known ''standard''"
  by (simp add: preset_known_def preset_by_name standard_policy_rules)

lemma reset_store_ok: "store_ok s \<Longrightarrow> parse_scope a b = Some sc \<Longrightarrow> store_ok (snd (reset_store sc every s))"
  by (auto simp: reset_store_def set_rules_ok parse_scope_named preset_known_standard) 
    (auto simp: store_ok_iff preset_known_standard)

lemma new_store_ok: "store_ok (new_store path)"
  by (simp add: store_ok_iff new_store_def store_version_def preset_known_standard)

subsection \<open>Reachable stores\<close>

text \<open>
  One step of a program run: an operation, with the scope the flags name, or saving and loading
  again. \<open>reachable\<close> holds of the stores a program can hold.
\<close>

inductive store_step :: "store \<Rightarrow> store \<Rightarrow> bool" where
  step_add: "parse_scope a b = Some sc \<Longrightarrow> add_rule sc spec s = Inr (c, s') \<Longrightarrow> store_step s s'"
| step_remove: "parse_scope a b = Some sc \<Longrightarrow> remove_rule sc act spec s = Inr (gone, s') \<Longrightarrow> store_step s s'"
| step_add_profile: "add_profile name p s = Inr s' \<Longrightarrow> store_step s s'"
| step_remove_profile: "remove_profile name s = Inr s' \<Longrightarrow> store_step s s'"
| step_reset: "parse_scope a b = Some sc \<Longrightarrow> store_step s (snd (reset_store sc every s))"
| step_save: "save_store fail s f = ((e, s'), f') \<Longrightarrow> store_step s s'"

inductive store_reachable :: "store \<Rightarrow> bool" where
  reach_new: "store_reachable (new_store path)"
| reach_load: "load_store path f = Inr s \<Longrightarrow>
    distinct (map fst (st_sandboxes s)) \<and> distinct (map fst (st_profiles s)) \<Longrightarrow> store_reachable s"
| reach_step: "store_reachable s \<Longrightarrow> store_step s s' \<Longrightarrow> store_reachable s'"

inductive_cases store_stepE: "store_step s s'"

lemma load_store_valid: "load_store path f = Inr s \<Longrightarrow> validate_store s = None"
proof (cases f)
  case File_missing
  assume "load_store path f = Inr s"
  with File_missing have "s = (new_store path)\<lparr>st_preset := []\<rparr>" by (simp add: load_store_def)
  then have "store_ok s" by (simp add: store_ok_iff new_store_def store_version_def)
  then show ?thesis by (simp add: store_ok_def)
qed (auto simp: load_store_def Let_def split: option.splits)

lemma store_ok_path [simp]: "store_ok (s\<lparr>st_path := p\<rparr>) = store_ok s" "store_ok (s\<lparr>st_exists := e\<rparr>) = store_ok s"
  by (simp_all add: store_ok_iff)

lemma save_store_ok: "store_ok s \<Longrightarrow> save_store fail s f = ((e, s'), f') \<Longrightarrow> store_ok s'"
  by (auto simp: save_store_def store_version_def store_ok_iff Let_def split: if_splits option.splits)

lemma store_step_ok: "store_step s s' \<Longrightarrow> store_ok s \<Longrightarrow> store_ok s'"
  by (induction rule: store_step.induct)
    (auto intro: add_rule_ok remove_rule_ok add_profile_ok remove_profile_ok reset_store_ok save_store_ok)

lemma rules_ok_strip [simp]: "rules_ok (map strip_scope rs) = rules_ok rs"
  by (simp add: rules_ok_def list_all_iff strip_scope_def)

lemma map_ok_map: "map_ok P (map (\<lambda>(k, v). (k, f v)) m) = map_ok (\<lambda>k v. P k (f v)) m"
proof -
  have "map fst (map (\<lambda>(k, v). (k, f v)) m) = map fst m" by (induction m) auto
  then show ?thesis by (auto simp: map_ok_def map_of_map simp del: map_of_eq_Some_iff map_map)
qed

lemma stored_form_ok [simp]: "store_ok (stored_form s) = store_ok s"
  by (simp add: store_ok_iff stored_form_def map_ok_map profile_ok_def)

lemma rules_at_stored: "rules_at (stored_form s) sc = map strip_scope (rules_at s sc)"
  by (simp add: rules_at_def scope_rules_def stored_form_def map_of_map split: scope_kind.split option.split)

lemma rules_at_path [simp]: "rules_at (s\<lparr>st_path := p, st_exists := e\<rparr>) sc = rules_at s sc"
  by (simp add: rules_at_def scope_rules_def split: scope_kind.split)

text \<open>A store with one rule, for the examples.\<close>

definition spec_ex :: rule_spec where
  "spec_ex = \<lparr>rs_action = Deny, rs_spec = ''B.com:80'', rs_note = [], rs_scope = []\<rparr>"

definition store_ex :: store where
  "store_ex = (new_store ''/p'')\<lparr>st_global := [spec_ex]\<rparr>"

lemma store_ex_ok: "store_ok store_ex"
proof -
  have "rules_ok [spec_ex]" by code_simp
  then show ?thesis by (simp add: store_ex_def store_ok_iff new_store_def store_version_def preset_known_standard)
qed

subsection \<open>Properties\<close>

text \<open>
  C29: the store is valid whenever the program holds it. Starting from a new store, or one loaded from
  the file, no sequence of additions, removals, profile changes, resets and saves, each in a scope the
  flags can name, leads to a store that \<open>LoadStore\<close> would refuse; in particular every rule in
  every scope compiles.
\<close>

theorem store_always_valid:
  assumes "store_reachable s"
  shows "validate_store s = None \<and> (\<forall>sc. \<forall>r\<in>set (rules_at s sc). is_ok (spec_rule r))"
proof -
  from assms have "store_ok s"
  proof induction
    case (reach_load path f s)
    then show ?case using load_store_valid by (simp add: store_ok_def)
  qed (use new_store_ok store_step_ok in auto)
  then show ?thesis using rules_at_ok [of s] by (simp add: store_ok_def rules_ok_def list_all_iff)
qed

theorem store_always_valid_witness: "validate_store (new_store ''/p'') = None"
  using store_always_valid [OF reach_new [of "''/p''"]] by simp

text \<open>
  \<open>Add\<close> stores one rule. A successful addition makes the rule's action and destination one of
  those in the scope, adds no other, leaves every other scope as it was and keeps destinations
  distinct; doing it again changes nothing and reports so.
\<close>

theorem add_rule_spec:
  assumes "add_rule sc spec s = Inr (b, s')"
  shows "rule_key ` set (rules_at s' sc) = insert (rule_key spec) (rule_key ` set (rules_at s sc)) \<and>
    (\<forall>sc'. \<not> same_scope sc' sc \<longrightarrow> rules_at s' sc' = rules_at s sc') \<and>
    (distinct (map rule_key (rules_at s sc)) \<longrightarrow> distinct (map rule_key (rules_at s' sc))) \<and>
    add_rule sc spec s' = Inr (False, s')"
proof -
  from assms show ?thesis
  proof (rule add_rule_Inr)
    fix rs
    assume s': "s' = s \<or> s' = set_rules sc rs s" and rs: "rules_at s' sc = rs" and ok: "is_ok (spec_rule spec)"
      and again: "renote spec rs = Some (False, rs)"
      and keys: "map rule_key rs = map rule_key (rules_at s sc) \<and> rule_key spec \<in> rule_key ` set (rules_at s sc) \<or>
        rs = rules_at s sc @ [spec] \<and> rule_key spec \<notin> rule_key ` set (rules_at s sc)"
      and prof: "sc_kind sc = Scope_profile \<Longrightarrow> map_of (st_profiles s) (sc_name sc) \<noteq> None"
    have "rule_key ` set rs = insert (rule_key spec) (rule_key ` set (rules_at s sc)) \<and>
        (distinct (map rule_key (rules_at s sc)) \<longrightarrow> distinct (map rule_key rs))"
      using keys by (auto simp flip: set_map)
    moreover have "\<not> same_scope sc' sc \<longrightarrow> rules_at s' sc' = rules_at s sc'" for sc'
      using s' by (auto simp: rules_at_set_rules)
    moreover have "sc_kind sc = Scope_profile \<Longrightarrow> map_of (st_profiles s') (sc_name sc) \<noteq> None"
      using s' prof by (auto simp: set_rules_def update_conv')
    then have "add_rule sc spec s' = Inr (False, s')"
      using ok again rs by (auto simp: add_rule_def is_ok_def rules_at_def split: sum.splits)
    ultimately show ?thesis using rs by blast
  qed
qed

theorem add_rule_spec_witness:
  "add_rule global_scope spec_ex store_ex = Inr (False, store_ex) \<and> canonical spec_ex = ''b.com:80''"
proof -
  have "add_rule global_scope spec_ex (new_store ''/p'') = Inr (True, store_ex)" by code_simp
  moreover have "canonical spec_ex = ''b.com:80''" by code_simp
  ultimately show ?thesis using add_rule_spec by blast
qed

text \<open>
  \<open>Remove\<close> deletes exactly what was named. The rules it reports are those of the scope with the
  given destination, and action when one was given; they are gone, the others and every other scope
  are as they were, and it is an error when there is nothing to remove.
\<close>

theorem remove_rule_spec:
  assumes "remove_rule sc act spec s = Inr (gone, s')"
    "want = canonical \<lparr>rs_action = (case act of None \<Rightarrow> Deny | Some a \<Rightarrow> a), rs_spec = spec, rs_note = [], rs_scope = []\<rparr>"
  shows "gone \<noteq> [] \<and>
    gone = filter (\<lambda>r. canonical r = want \<and> (act = None \<or> act = Some (rs_action r))) (rules_at s sc) \<and>
    rules_at s' sc = filter (\<lambda>r. \<not> (canonical r = want \<and> (act = None \<or> act = Some (rs_action r)))) (rules_at s sc) \<and>
    (\<forall>sc'. \<not> same_scope sc' sc \<longrightarrow> rules_at s' sc' = rules_at s sc')"
  using assms(1)
proof (rule remove_rule_Inr)
  fix hit
  assume gone: "gone = filter hit (rules_at s sc)" "gone \<noteq> []"
    and s': "s' = set_rules sc (filter (\<lambda>r. \<not> hit r) (rules_at s sc)) s"
    and hit: "\<And>r. hit r \<longleftrightarrow> canonical r = canonical \<lparr>rs_action = (case act of None \<Rightarrow> Deny | Some a \<Rightarrow> a),
        rs_spec = spec, rs_note = [], rs_scope = []\<rparr> \<and> (act = None \<or> act = Some (rs_action r))"
  have "hit = (\<lambda>r. canonical r = want \<and> (act = None \<or> act = Some (rs_action r)))"
    using hit assms(2) by auto
  then show ?thesis using gone s' by (auto simp: rules_at_set_rules same_scope_def)
qed

theorem remove_rule_spec_witness:
  "\<exists>s'. remove_rule global_scope None ''b.COM:80'' store_ex = Inr ([spec_ex], s') \<and> rules_at s' global_scope = []"
proof -
  let ?w = "canonical \<lparr>rs_action = (case None of None \<Rightarrow> Deny | Some a \<Rightarrow> a), rs_spec = ''b.COM:80'', rs_note = [], rs_scope = []\<rparr>"
  have r: "remove_rule global_scope None ''b.COM:80'' store_ex = Inr ([spec_ex], new_store ''/p'')" by code_simp
  have "rules_at (new_store ''/p'') global_scope = filter (\<lambda>r. \<not> canonical r = ?w) (rules_at store_ex global_scope)"
    using remove_rule_spec [OF r, of ?w] by simp
  moreover have "filter (\<lambda>r. \<not> canonical r = ?w) (rules_at store_ex global_scope) = []" by code_simp
  ultimately show ?thesis using r by simp
qed

text \<open>
  Saving is all or nothing. Whichever step of \<open>Save\<close> fails, the file is what it was; when none
  does, loading it gives a valid store with the same rules in every scope and the same preset.
\<close>

theorem save_then_load:
  assumes "store_ok s" "save_store fail s f = ((e, s'), f')"
  shows "(e \<noteq> None \<longrightarrow> f' = f) \<and>
    (e = None \<longrightarrow> (\<exists>r. load_store (st_path s) f' = Inr r \<and> st_preset r = st_preset s \<and>
       (\<forall>sc. rules_at r sc = map strip_scope (rules_at s sc))))"
proof -
  have v: "s\<lparr>st_version := store_version\<rparr> = s" using assms(1) by (simp add: store_ok_iff store_version_def)
  have "e = None \<Longrightarrow> f' = File_holds (stored_form s)" "e \<noteq> None \<Longrightarrow> f' = f"
    using assms(2) by (auto simp: save_store_def v Let_def split: if_splits option.splits)
  moreover have "store_ok ((stored_form s)\<lparr>st_path := p, st_exists := True\<rparr>)" for p
    using assms(1) by simp
  then have "load_store p (File_holds (stored_form s)) = Inr ((stored_form s)\<lparr>st_path := p, st_exists := True\<rparr>)" for p
    by (simp add: load_store_def store_ok_def Let_def)
  moreover have "st_preset (stored_form s) = st_preset s" by (simp add: stored_form_def)
  ultimately show ?thesis by (auto simp: rules_at_stored)
qed

theorem save_then_load_witness:
  "\<exists>r. load_store ''/p'' (snd (save_store None store_ex File_missing)) = Inr r \<and> st_preset r = ''standard''"
proof -
  have "st_path store_ex = ''/p''" "st_preset store_ex = ''standard''" by (simp_all add: store_ex_def new_store_def)
  moreover have "fst (fst (save_store None store_ex File_missing)) = None"
    by (simp add: save_store_def store_ex_def new_store_def Let_def)
  ultimately show ?thesis
    using save_then_load [OF store_ex_ok, of None File_missing] by (metis prod.collapse)
qed

end
