(* ===== verification/Policy_Resolve.thy ===== *)
theory Policy_Resolve
  imports Policy_Store
begin

section \<open>Resolution: \<open>internal/policy/resolve.go\<close>\<close>

text \<open>
  A run's policy is assembled from a base preset, a profile, the agent's and the kit's own rules, the
  stored rules and the flags. This theory holds the assembly layer by layer, its compilation, and
  the reconstruction a supervisor uses to reload it, and shows which rules decide a target.
\<close>

subsection \<open>Data\<close>

record layer =
  ly_source :: string
  ly_detail :: string
  ly_count :: nat

record resolution =
  rz_version :: int
  rz_name :: string
  rz_default :: action
  rz_rules :: "rule_spec list"
  rz_layers :: "layer list"
  rz_profile :: string
  rz_sandbox :: string
  rz_agent :: string
  rz_kit :: string

record request =
  rq_store :: "store option"
  rq_sandbox :: string
  rq_profile :: string
  rq_preset :: string
  rq_allow :: "string list"
  rq_deny :: "string list"
  rq_agent :: string
  rq_agent_allow :: "rule_spec list"
  rq_kit :: string
  rq_kit_allow :: "rule_spec list"
  rq_kit_deny :: "rule_spec list"

datatype resolve_error =
    Resolve_panic | Resolve_preset preset_error | Resolve_no_profile string
  | Resolve_profile_rule string rule_error | Resolve_deny_flag string rule_error
  | Resolve_allow_flag string rule_error | Compile_rule string rule_error

definition request_profile :: "request \<Rightarrow> profile option" where
  "request_profile req =
     (case rq_store req of None \<Rightarrow> None | Some s \<Rightarrow> map_of (st_profiles s) (rq_profile req))"

text \<open>\<open>Preset\<close> as a result; building a preset never panics, see \<open>preset_total\<close>.\<close>

definition preset_result :: "string \<Rightarrow> resolve_error + policy" where
  "preset_result name =
     (case preset name of
        None \<Rightarrow> Inl Resolve_panic
      | Some (Inl e) \<Rightarrow> Inl (Resolve_preset e)
      | Some (Inr p) \<Rightarrow> Inr p)"

definition request_base :: "request \<Rightarrow> resolve_error + policy \<times> string" where
  "request_base req =
     (if rq_preset req \<noteq> [] then
        (case preset_result (rq_preset req) of Inl e \<Rightarrow> Inl e | Inr p \<Rightarrow> Inr (p, pol_name p))
      else if rq_profile req \<noteq> [] then
        (case request_profile req of
           None \<Rightarrow> Inl (Resolve_no_profile (rq_profile req))
         | Some pf \<Rightarrow>
             (case preset_result (pf_preset pf) of
                Inl e \<Rightarrow> Inl e
              | Inr p \<Rightarrow>
                  (case map_res spec_rule (pf_rules pf) of
                     Inl e \<Rightarrow> Inl (Resolve_profile_rule (rq_profile req) e)
                   | Inr rs \<Rightarrow> Inr (with_rules rs p, ''profile:'' @ rq_profile req))))
      else
        (let name = (case rq_store req of
             None \<Rightarrow> ''standard'' | Some s \<Rightarrow> if st_preset s \<noteq> [] then st_preset s else ''standard'')
         in (case preset_result name of Inl e \<Rightarrow> Inl e | Inr p \<Rightarrow> Inr (p, pol_name p))))"

definition preset_detail :: "policy \<Rightarrow> string" where
  "preset_detail p =
     (let d = preset_description (pol_name p)
      in if d \<noteq> [] then d else ''default: '' @ action_string (pol_default p))"

definition scoped :: "string \<Rightarrow> rule_spec list \<Rightarrow> rule_spec list" where
  "scoped scope rs = map (\<lambda>r. r\<lparr>rs_scope := scope\<rparr>) rs"

definition flag_rule :: "action \<Rightarrow> string \<Rightarrow> rule_spec" where
  "flag_rule a spec =
     \<lparr>rs_action = a, rs_spec = spec, rs_note = [],
      rs_scope = (if a = Deny then ''flag --deny'' else ''flag --allow'')\<rparr>"

fun check_flags :: "(string \<Rightarrow> rule_error \<Rightarrow> resolve_error) \<Rightarrow> action \<Rightarrow> string list \<Rightarrow> resolve_error + rule_spec list" where
  "check_flags err a [] = Inr []"
| "check_flags err a (s # ss) =
     (case spec_rule (flag_rule a s) of
        Inl e \<Rightarrow> Inl (err s e)
      | Inr _ \<Rightarrow> (case check_flags err a ss of Inl e \<Rightarrow> Inl e | Inr rs \<Rightarrow> Inr (flag_rule a s # rs)))"

definition parse_flag_rules :: "string list \<Rightarrow> string list \<Rightarrow> resolve_error + rule_spec list" where
  "parse_flag_rules allow deny =
     (case check_flags Resolve_deny_flag Deny deny of
        Inl e \<Rightarrow> Inl e
      | Inr ds \<Rightarrow> (case check_flags Resolve_allow_flag Allow allow of
            Inl e \<Rightarrow> Inl e
          | Inr as \<Rightarrow> Inr (ds @ as)))"

subsection \<open>The layers\<close>

text \<open>What a layer appends: its rules, its line in the listing and its part of the policy's name.\<close>

type_synonym part = "rule_spec list \<times> layer list \<times> string list"

definition join_parts :: "part list \<Rightarrow> part" where
  "join_parts ps = (concat (map fst ps), concat (map (fst \<circ> snd) ps), concat (map (snd \<circ> snd) ps))"

definition base_part :: "request \<Rightarrow> policy \<Rightarrow> string \<Rightarrow> part" where
  "base_part req base name =
     (let of_profile = rq_profile req \<noteq> [] \<and> rq_preset req = [];
          scope = (if of_profile then ''profile '' @ rq_profile req else ''preset '' @ pol_name base);
          detail = (if of_profile then ''preset '' @ pol_name base @ '', plus the profile's own rules''
                    else preset_detail base)
      in (map (\<lambda>r. \<lparr>rs_action = rl_action r, rs_spec = rule_spec r, rs_note = rl_why r, rs_scope = scope\<rparr>) (pol_rules base),
          [\<lparr>ly_source = scope, ly_detail = detail, ly_count = length (pol_rules base)\<rparr>], [name]))"

definition profile_part :: "request \<Rightarrow> profile \<Rightarrow> part" where
  "profile_part req pf =
     (if rq_preset req = [] then ([], [], [])
      else (scoped (''profile '' @ rq_profile req) (pf_rules pf),
            [\<lparr>ly_source = ''profile '' @ rq_profile req,
              ly_detail = ''--policy '' @ rq_preset req @ '' replaced this profile's preset'',
              ly_count = length (pf_rules pf)\<rparr>],
            [''profile:'' @ rq_profile req]))"

definition chosen_profile_part :: "request \<Rightarrow> part" where
  "chosen_profile_part req =
     (case (rq_profile req, request_profile req) of (_ # _, Some pf) \<Rightarrow> profile_part req pf | _ \<Rightarrow> ([], [], []))"

definition agent_part :: "request \<Rightarrow> policy \<Rightarrow> part" where
  "agent_part req base =
     (let scope = ''agent '' @ rq_agent req
      in if rq_agent req = [] then ([], [], [])
         else if pol_name base = ''locked'' then
           (let denies = filter (\<lambda>r. rs_action r = Deny) (rq_agent_allow req)
            in (scoped scope denies,
                [\<lparr>ly_source = scope,
                  ly_detail = (if denies \<noteq> [] then ''allows not applied under preset locked; its denies are''
                               else ''not applied: preset locked allows only what you write''),
                  ly_count = length denies\<rparr>],
                []))
         else
           (scoped scope (rq_agent_allow req),
            [\<lparr>ly_source = scope, ly_detail = ''what this agent cannot work without; a deny in any scope still wins'',
              ly_count = length (rq_agent_allow req)\<rparr>],
            if rq_agent_allow req \<noteq> [] then [''agent:'' @ rq_agent req] else []))"

definition kit_part :: "request \<Rightarrow> policy \<Rightarrow> part" where
  "kit_part req base =
     (let scope = ''kit '' @ rq_kit req; n = length (rq_kit_allow req) + length (rq_kit_deny req)
      in if rq_kit req = [] then ([], [], [])
         else if pol_name base = ''locked'' then
           ([], [\<lparr>ly_source = scope, ly_detail = ''not applied: preset locked allows only what you write'', ly_count = 0\<rparr>], [])
         else
           (scoped scope (rq_kit_deny req) @ scoped scope (rq_kit_allow req),
            [\<lparr>ly_source = scope, ly_detail = ''what this kit declares it needs; a deny in any scope still wins'', ly_count = n\<rparr>],
            if 0 < n then [''kit:'' @ rq_kit req] else []))"

definition store_part :: "request \<Rightarrow> part" where
  "store_part req =
     (case rq_store req of
        None \<Rightarrow> ([], [], [])
      | Some s \<Rightarrow> join_parts
          [(scoped ''global'' (st_global s),
            [\<lparr>ly_source = ''global'', ly_detail = ''rules for every sandbox on this machine'', ly_count = length (st_global s)\<rparr>],
            if st_global s \<noteq> [] then [''global''] else []),
           (if rq_sandbox req = [] then ([], [], [])
            else (let rs = fst (scope_rules s (sandbox_scope (rq_sandbox req)))
                  in (scoped (''sandbox '' @ rq_sandbox req) rs,
                      [\<lparr>ly_source = ''sandbox '' @ rq_sandbox req, ly_detail = ''rules for this sandbox only'', ly_count = length rs\<rparr>],
                      if rs \<noteq> [] then [''sandbox:'' @ rq_sandbox req] else [])))])"

definition flag_part :: "rule_spec list \<Rightarrow> part" where
  "flag_part rs =
     (rs, [\<lparr>ly_source = ''flags'', ly_detail = ''--allow/--deny on this run; a Boks addition, not carried by the sandbox'',
            ly_count = length rs\<rparr>],
      if rs \<noteq> [] then [''local''] else [])"

definition resolve :: "request \<Rightarrow> resolve_error + resolution" where
  "resolve req =
     (case request_base req of
        Inl e \<Rightarrow> Inl e
      | Inr (base, base_name) \<Rightarrow>
          if rq_profile req \<noteq> [] \<and> request_profile req = None then Inl (Resolve_no_profile (rq_profile req))
          else (case parse_flag_rules (rq_allow req) (rq_deny req) of
              Inl e \<Rightarrow> Inl e
            | Inr flags \<Rightarrow>
                (let (rules, layers, names) = join_parts
                   [base_part req base base_name, chosen_profile_part req, agent_part req base, kit_part req base, store_part req, flag_part flags]
                 in Inr \<lparr>rz_version = store_version, rz_name = join_with ''+'' names, rz_default = pol_default base,
                         rz_rules = rules, rz_layers = layers, rz_profile = rq_profile req,
                         rz_sandbox = rq_sandbox req, rz_agent = rq_agent req, rz_kit = rq_kit req\<rparr>)))"

text \<open>Compilation to the form the engine takes.\<close>

fun compile_rules :: "rule_spec list \<Rightarrow> resolve_error + rule list" where
  "compile_rules [] = Inr []"
| "compile_rules (r # rs) =
     (case spec_rule r of
        Inl e \<Rightarrow> Inl (Compile_rule (rs_spec r) e)
      | Inr rule \<Rightarrow> (case compile_rules rs of Inl e \<Rightarrow> Inl e | Inr rules \<Rightarrow> Inr (rule # rules)))"

definition resolution_policy :: "resolution \<Rightarrow> resolve_error + policy" where
  "resolution_policy r =
     (case compile_rules (rz_rules r) of
        Inl e \<Rightarrow> Inl e
      | Inr rules \<Rightarrow> Inr \<lparr>pol_name = (if rz_name r = [] then ''standard'' else rz_name r),
                          pol_default = rz_default r, pol_rules = rules\<rparr>)"

subsection \<open>Reconstruction for a reload\<close>

definition strip_prefix :: "string \<Rightarrow> string \<Rightarrow> string" where
  "strip_prefix p s = (if prefix p s then drop (length p) s else s)"

definition to_request :: "resolution \<Rightarrow> store option \<Rightarrow> request" where
  "to_request r st =
     \<lparr>rq_store = st, rq_sandbox = rz_sandbox r, rq_profile = rz_profile r,
      rq_preset = (case rz_layers r of
          [] \<Rightarrow> []
        | l # _ \<Rightarrow> if prefix ''preset '' (ly_source l) then strip_prefix ''preset '' (ly_source l) else []),
      rq_allow = map rs_spec (filter (\<lambda>x. rs_scope x = ''flag --allow'') (rz_rules r)),
      rq_deny = map rs_spec (filter (\<lambda>x. rs_scope x = ''flag --deny'') (rz_rules r)),
      rq_agent = rz_agent r,
      rq_agent_allow = filter (\<lambda>x. rs_scope x \<noteq> ''flag --allow'' \<and> rs_scope x \<noteq> ''flag --deny'' \<and>
          rz_agent r \<noteq> [] \<and> rs_scope x = ''agent '' @ rz_agent r) (rz_rules r),
      rq_kit = [], rq_kit_allow = [], rq_kit_deny = []\<rparr>"

subsection \<open>What a sandbox remembers\<close>

record sandbox_policy =
  sp_version :: int
  sp_profile :: string
  sp_preset :: string
  sp_allow :: "string list"
  sp_deny :: "string list"

definition sp_is_zero :: "sandbox_policy option \<Rightarrow> bool" where
  "sp_is_zero p = (case p of
     None \<Rightarrow> True
   | Some q \<Rightarrow> sp_profile q = [] \<and> sp_preset q = [] \<and> length (sp_allow q) = 0 \<and> length (sp_deny q) = 0)"

definition sp_string :: "sandbox_policy option \<Rightarrow> string" where
  "sp_string p =
     (case p of None \<Rightarrow> ''the default policy''
      | Some q \<Rightarrow>
          if sp_is_zero p then ''the default policy''
          else join_with '' ''
            ((if sp_profile q \<noteq> [] then [''--profile '' @ sp_profile q] else [])
             @ (if sp_preset q \<noteq> [] then [''--policy '' @ sp_preset q] else [])
             @ map (\<lambda>a. ''--allow '' @ a) (sp_allow q) @ map (\<lambda>d. ''--deny '' @ d) (sp_deny q)))"

definition sp_request :: "sandbox_policy option \<Rightarrow> store option \<Rightarrow> string \<Rightarrow> request" where
  "sp_request p st sandbox =
     (let req = \<lparr>rq_store = st, rq_sandbox = sandbox, rq_profile = [], rq_preset = [], rq_allow = [], rq_deny = [],
                rq_agent = [], rq_agent_allow = [], rq_kit = [], rq_kit_allow = [], rq_kit_deny = []\<rparr>
      in (case p of None \<Rightarrow> req
          | Some q \<Rightarrow> req\<lparr>rq_profile := sp_profile q, rq_preset := sp_preset q,
                         rq_allow := sp_allow q, rq_deny := sp_deny q\<rparr>))"

subsection \<open>Rendering\<close>

definition pad_left :: "nat \<Rightarrow> string \<Rightarrow> string" where
  "pad_left w s = replicate (w - length s) CHR '' '' @ s"

definition widest :: "string list \<Rightarrow> nat" where
  "widest ss = foldl (\<lambda>w s. if w < length s then length s else w) 0 ss"

definition rule_section :: "string \<Rightarrow> rule_spec list \<Rightarrow> string" where
  "rule_section title rules =
     newline @ title @ newline @
     (if rules = [] then ''  (none)'' @ newline
      else (let sorted = sort_key rs_spec rules;
                spec_width = widest (map rs_spec sorted);
                scope_width = widest (map rs_scope sorted)
            in concat (map (\<lambda>r.
                 if rs_note r = [] then ''  '' @ pad_right spec_width (rs_spec r) @ ''  '' @ rs_scope r @ newline
                 else ''  '' @ pad_right spec_width (rs_spec r) @ ''  '' @ pad_right scope_width (rs_scope r)
                      @ ''  '' @ rs_note r @ newline) sorted)))"

definition describe_resolution :: "resolution \<Rightarrow> string" where
  "describe_resolution r =
     ''policy '' @ rz_name r @ newline @ ''default: '' @ action_string (rz_default r) @ newline @
     newline @ ''layers (later layers add rules; none of them can unsay a deny):'' @ newline @
     concat (map (\<lambda>l. ''  '' @ pad_right 24 (ly_source l) @ '' '' @ pad_left 2 (show_nat (ly_count l)) @ '' rule(s)''
         @ (if ly_detail l \<noteq> [] then ''  '' @ ly_detail l else []) @ newline) (rz_layers r)) @
     rule_section ''deny (always wins):'' (filter (\<lambda>x. rs_action x = Deny) (rz_rules r)) @
     rule_section ''allow:'' (filter (\<lambda>x. rs_action x \<noteq> Deny) (rz_rules r))"

subsection \<open>Which texts cover a target\<close>

definition text_covers :: "action \<Rightarrow> target \<Rightarrow> string \<Rightarrow> bool" where
  "text_covers a t s = (case parse_rule a s of Inl _ \<Rightarrow> False | Inr r \<Rightarrow> rule_match r t)"

definition specs_cover :: "action \<Rightarrow> rule_spec list \<Rightarrow> target \<Rightarrow> bool" where
  "specs_cover a rs t = list_ex (\<lambda>r. rs_action r = a \<and> text_covers a t (rs_spec r)) rs"

lemma specs_cover_simps [simp]:
  "\<not> specs_cover a [] t"
  "specs_cover a (r # rs) t \<longleftrightarrow> (rs_action r = a \<and> text_covers a t (rs_spec r)) \<or> specs_cover a rs t"
  "specs_cover a (rs @ rs') t \<longleftrightarrow> specs_cover a rs t \<or> specs_cover a rs' t"
  "specs_cover a (scoped sc rs) t \<longleftrightarrow> specs_cover a rs t"
  by (auto simp: specs_cover_def scoped_def list_ex_iff)

lemma specs_cover_iff: "specs_cover a rs t \<longleftrightarrow> (\<exists>r\<in>set rs. rs_action r = a \<and> text_covers a t (rs_spec r))"
  by (auto simp: specs_cover_def list_ex_iff)

lemma spec_rule_covers: "spec_rule r = Inr rule \<Longrightarrow>
    rl_action rule = rs_action r \<and> rule_match rule t = text_covers (rs_action r) t (rs_spec r)"
  by (auto simp: spec_rule_def text_covers_def rule_match_def dest: parse_rule_ok split: sum.splits)

lemma compile_rules_cover: "compile_rules rs = Inr rules \<Longrightarrow> covers a rules t \<longleftrightarrow> specs_cover a rs t"
  by (induction rs arbitrary: rules) (auto simp: spec_rule_covers split: sum.splits)

lemma map_res_rules_cover: "map_res spec_rule rs = Inr rules \<Longrightarrow> covers a rules t \<longleftrightarrow> specs_cover a rs t"
  by (induction rs arbitrary: rules) (auto simp: spec_rule_covers split: sum.splits)

lemma spec_rule_rule_ok: "spec_rule r = Inr rule \<Longrightarrow> rule_ok rule"
  by (auto simp: spec_rule_def rule_ok_def dest: parse_rule_ok split: sum.splits)

lemma map_res_rule_ok: "map_res spec_rule rs = Inr rules \<Longrightarrow> list_all rule_ok rules"
  by (induction rs arbitrary: rules) (auto simp: spec_rule_rule_ok split: sum.splits)

lemma check_flags_eq: "check_flags err a ss = Inr rs \<Longrightarrow> rs = map (flag_rule a) ss"
  by (induction ss arbitrary: rs) (auto split: sum.splits)

lemma parse_flag_rules_eq: "parse_flag_rules allow deny = Inr rs \<Longrightarrow>
    rs = map (flag_rule Deny) deny @ map (flag_rule Allow) allow"
  by (auto simp: parse_flag_rules_def dest: check_flags_eq split: sum.splits)

subsection \<open>The base\<close>

definition base_preset_name :: "request \<Rightarrow> string" where
  "base_preset_name req =
     (if rq_preset req \<noteq> [] then rq_preset req
      else if rq_profile req \<noteq> [] then (case request_profile req of None \<Rightarrow> [] | Some pf \<Rightarrow> pf_preset pf)
      else (case rq_store req of None \<Rightarrow> ''standard'' | Some s \<Rightarrow> if st_preset s \<noteq> [] then st_preset s else ''standard''))"

lemma preset_result_Inr: "preset_result n = Inr p \<longleftrightarrow> preset n = Some (Inr p)"
  by (auto simp: preset_result_def split: option.splits sum.splits)

lemma request_base_Inr:
  assumes "request_base req = Inr (base, name)"
  obtains b where "preset (base_preset_name req) = Some (Inr b)" "pol_name base = pol_name b" "pol_default base = pol_default b"
    "rq_profile req \<noteq> [] \<and> rq_preset req = [] \<Longrightarrow> \<exists>pf rs. request_profile req = Some pf \<and>
       map_res spec_rule (pf_rules pf) = Inr rs \<and> base = with_rules rs b \<and> name = ''profile:'' @ rq_profile req"
    "\<not> (rq_profile req \<noteq> [] \<and> rq_preset req = []) \<Longrightarrow> base = b \<and> name = pol_name b"
  using assms
  by (auto simp: request_base_def base_preset_name_def Let_def preset_result_Inr
      split: if_splits option.splits sum.splits)

lemma preset_rules_ok: "preset n = Some (Inr p) \<Longrightarrow> list_all rule_ok (pol_rules p)"
proof -
  assume "preset n = Some (Inr p)"
  then consider "open_policy = Some p" | "standard_policy = Some p" | "locked_policy = Some p"
    by (auto simp: preset_def Let_def split: if_splits)
  then show ?thesis
  proof cases
    case 1
    have "list_all rule_ok (pol_rules (the open_policy))" unfolding open_policy_rules by code_simp
    moreover have "p = the open_policy" by (simp only: 1 option.sel)
    ultimately show ?thesis by simp
  next
    case 2
    then have "pol_rules p = map (\<lambda>(h, why). host_rule Allow h https_only why) standard_hosts"
      by (auto simp: standard_policy_rules)
    moreover have "rule_ok (host_rule a h https_only why)" if "host_ok h Addr_none" for a h why
      using that by (simp add: rule_ok_def pattern_ok_def host_rule_def zero_pattern_def https_only_def
          ports_ok_def range_ok_def)
    ultimately show ?thesis using standard_hosts_ok by (auto simp: list_all_iff)
  next
    case 3
    then show ?thesis by (auto simp: locked_policy_def)
  qed
qed

lemma request_base_rules_ok:
  assumes "request_base req = Inr (base, name)"
  shows "list_all rule_ok (pol_rules base)"
  using assms
proof (rule request_base_Inr)
  fix b
  assume b: "preset (base_preset_name req) = Some (Inr b)"
    and prof: "rq_profile req \<noteq> [] \<and> rq_preset req = [] \<Longrightarrow> \<exists>pf rs. request_profile req = Some pf \<and>
       map_res spec_rule (pf_rules pf) = Inr rs \<and> base = with_rules rs b \<and> name = ''profile:'' @ rq_profile req"
    and plain: "\<not> (rq_profile req \<noteq> [] \<and> rq_preset req = []) \<Longrightarrow> base = b \<and> name = pol_name b"
  show ?thesis
  proof (cases "rq_profile req \<noteq> [] \<and> rq_preset req = []")
    case True
    then obtain pf rs where "request_profile req = Some pf" "map_res spec_rule (pf_rules pf) = Inr rs"
      "base = with_rules rs b" using prof by blast
    then show ?thesis using preset_rules_ok [OF b] map_res_rule_ok by simp
  next
    case False
    then show ?thesis using plain preset_rules_ok [OF b] by simp
  qed
qed

lemma base_specs_cover:
  assumes "list_all rule_ok (pol_rules base)"
  shows "specs_cover a (fst (base_part req base name)) t \<longleftrightarrow> covers a (pol_rules base) t"
  using assms
  by (auto simp: base_part_def specs_cover_iff covers_iff list_all_iff Let_def text_covers_def parse_rule_spec
      rule_match_def)

subsection \<open>The rules a request names\<close>

text \<open>
  The rules that count, as a set of texts: the selected profile's, the agent's and the kit's, which a
  locked base restricts, the stored ones for every sandbox and for this one, and the flags.
\<close>

definition texts :: "rule_spec list \<Rightarrow> (action \<times> string) set" where
  "texts rs = (\<lambda>r. (rs_action r, rs_spec r)) ` set rs"

definition sources :: "request \<Rightarrow> bool \<Rightarrow> (action \<times> string) set" where
  "sources req locked =
     (if rq_profile req = [] then {} else (case request_profile req of None \<Rightarrow> {} | Some pf \<Rightarrow> texts (pf_rules pf))) \<union>
     (if rq_agent req = [] then {}
      else {(a, s) \<in> texts (rq_agent_allow req). locked \<longrightarrow> a = Deny}) \<union>
     (if rq_kit req = [] \<or> locked then {} else texts (rq_kit_deny req) \<union> texts (rq_kit_allow req)) \<union>
     (case rq_store req of None \<Rightarrow> {}
      | Some s \<Rightarrow> texts (rules_at s global_scope) \<union>
          (if rq_sandbox req = [] then {} else texts (rules_at s (sandbox_scope (rq_sandbox req))))) \<union>
     Pair Deny ` set (rq_deny req) \<union> Pair Allow ` set (rq_allow req)"

definition set_covers :: "action \<Rightarrow> target \<Rightarrow> (action \<times> string) set \<Rightarrow> bool" where
  "set_covers a t A \<longleftrightarrow> (\<exists>(b, s) \<in> A. b = a \<and> text_covers a t s)"

definition sources_cover :: "action \<Rightarrow> request \<Rightarrow> bool \<Rightarrow> target \<Rightarrow> bool" where
  "sources_cover a req locked t \<longleftrightarrow> set_covers a t (sources req locked)"

lemma set_covers_simps:
  "\<not> set_covers a t {}"
  "set_covers a t (A \<union> B) \<longleftrightarrow> set_covers a t A \<or> set_covers a t B"
  "set_covers a t (if c then A else B) \<longleftrightarrow> (if c then set_covers a t A else set_covers a t B)"
  "set_covers a t (case x of None \<Rightarrow> {} | Some y \<Rightarrow> f y) \<longleftrightarrow> (\<exists>y. x = Some y \<and> set_covers a t (f y))"
  "set_covers a t (texts rs) \<longleftrightarrow> specs_cover a rs t"
  "set_covers a t {(b, s) \<in> A. l \<longrightarrow> b = Deny} \<longleftrightarrow> (l \<longrightarrow> a = Deny) \<and> set_covers a t A"
  "set_covers a t (Pair b ` S) \<longleftrightarrow> a = b \<and> (\<exists>s\<in>S. text_covers a t s)"
  by (auto simp: set_covers_def specs_cover_iff texts_def split: option.splits)

lemma agent_cover: "specs_cover a (fst (agent_part req base)) t \<longleftrightarrow> rq_agent req \<noteq> [] \<and>
    (pol_name base = ''locked'' \<longrightarrow> a = Deny) \<and> specs_cover a (rq_agent_allow req) t"
  by (auto simp: agent_part_def Let_def specs_cover_iff scoped_def)

lemma kit_cover: "specs_cover a (fst (kit_part req base)) t \<longleftrightarrow> rq_kit req \<noteq> [] \<and> pol_name base \<noteq> ''locked'' \<and>
    (specs_cover a (rq_kit_deny req) t \<or> specs_cover a (rq_kit_allow req) t)"
  by (auto simp: kit_part_def Let_def)

lemma store_cover: "specs_cover a (fst (store_part req)) t \<longleftrightarrow> (\<exists>s. rq_store req = Some s \<and>
    (specs_cover a (rules_at s global_scope) t \<or>
     rq_sandbox req \<noteq> [] \<and> specs_cover a (rules_at s (sandbox_scope (rq_sandbox req))) t))"
  by (auto simp: store_part_def join_parts_def Let_def rules_at_def scope_rules_def global_scope_def split: option.splits)

lemma flag_cover: "specs_cover a (map (flag_rule b) ss) t \<longleftrightarrow> a = b \<and> (\<exists>s\<in>set ss. text_covers a t s)"
  by (induction ss) (auto simp: flag_rule_def)

lemma resolve_Inr:
  assumes "resolve req = Inr res"
  obtains base name where "request_base req = Inr (base, name)" "rz_default res = pol_default base"
    "rz_rules res = fst (base_part req base name) @ fst (chosen_profile_part req) @ fst (agent_part req base)
       @ fst (kit_part req base) @ fst (store_part req) @ map (flag_rule Deny) (rq_deny req) @ map (flag_rule Allow) (rq_allow req)"
    "rz_profile res = rq_profile req" "rz_sandbox res = rq_sandbox req" "rz_agent res = rq_agent req" "rz_kit res = rq_kit req"
    "rz_layers res \<noteq> [] \<and> hd (rz_layers res) = hd (fst (snd (base_part req base name)))"
    "rq_profile req \<noteq> [] \<longrightarrow> request_profile req \<noteq> None"
proof -
  obtain base name where base: "request_base req = Inr (base, name)"
    using assms by (auto simp: resolve_def split: sum.splits)
  obtain flags where flags: "parse_flag_rules (rq_allow req) (rq_deny req) = Inr flags"
    using assms base by (auto simp: resolve_def split: sum.splits if_splits)
  note fl = parse_flag_rules_eq [OF flags]
  have "fst (snd (base_part req base name)) \<noteq> []" by (simp add: base_part_def Let_def)
  then have *: "rz_layers res \<noteq> [] \<and> hd (rz_layers res) = hd (fst (snd (base_part req base name)))"
    using assms base flags
    by (auto simp: resolve_def join_parts_def split: if_splits)
  show thesis
    by (rule that [OF base]) (use assms base flags fl * in
      \<open>auto simp: resolve_def join_parts_def flag_part_def split: if_splits\<close>)
qed

text \<open>What the profile's rules contribute, whether the profile is the base or a layer of its own.\<close>

lemma base_and_profile_cover:
  assumes "request_base req = Inr (base, name)" "rq_profile req \<noteq> [] \<longrightarrow> request_profile req \<noteq> None"
    "preset (base_preset_name req) = Some (Inr b)"
  shows "specs_cover a (fst (base_part req base name)) t \<or> specs_cover a (fst (chosen_profile_part req)) t \<longleftrightarrow>
    covers a (pol_rules b) t \<or>
    (rq_profile req \<noteq> [] \<and> (\<exists>pf. request_profile req = Some pf \<and> specs_cover a (pf_rules pf) t))"
proof -
  have ok: "list_all rule_ok (pol_rules b)" by (rule preset_rules_ok [OF assms(3)])
  from assms(1) show ?thesis
  proof (rule request_base_Inr)
    fix b'
    assume b': "preset (base_preset_name req) = Some (Inr b')"
      and prof: "rq_profile req \<noteq> [] \<and> rq_preset req = [] \<Longrightarrow> \<exists>pf rs. request_profile req = Some pf \<and>
        map_res spec_rule (pf_rules pf) = Inr rs \<and> base = with_rules rs b' \<and> name = ''profile:'' @ rq_profile req"
      and plain: "\<not> (rq_profile req \<noteq> [] \<and> rq_preset req = []) \<Longrightarrow> base = b' \<and> name = pol_name b'"
    have [simp]: "b' = b" using b' assms(3) by simp
    show ?thesis
    proof (cases "rq_profile req \<noteq> [] \<and> rq_preset req = []")
      case True
      then obtain pf rs where pf: "request_profile req = Some pf" "map_res spec_rule (pf_rules pf) = Inr rs"
        "base = with_rules rs b" using prof by auto
      then have "list_all rule_ok (pol_rules base)" using ok map_res_rule_ok by simp
      moreover have "fst (chosen_profile_part req) = []"
        using True pf(1) by (auto simp: chosen_profile_part_def profile_part_def split: list.split)
      ultimately show ?thesis
        using True pf base_specs_cover [where base = base and req = req and name = name and a = a and t = t] map_res_rules_cover [OF pf(2), of a t] by auto
    next
      case False
      then have base: "base = b" using plain by simp
      have "specs_cover a (fst (chosen_profile_part req)) t \<longleftrightarrow>
          (rq_profile req \<noteq> [] \<and> (\<exists>pf. request_profile req = Some pf \<and> specs_cover a (pf_rules pf) t))"
        using False assms(2) by (auto simp: chosen_profile_part_def profile_part_def split: list.split)
      then show ?thesis using base base_specs_cover [where base = base and req = req and name = name and a = a and t = t] ok by auto
    qed
  qed
qed

lemma resolution_policy_Inr:
  "resolution_policy res = Inr p \<Longrightarrow> pol_default p = rz_default res \<and> covers a (pol_rules p) t = specs_cover a (rz_rules res) t"
  by (auto simp: resolution_policy_def compile_rules_cover split: sum.splits)

lemma resolve_covers:
  assumes "resolve req = Inr res" "resolution_policy res = Inr p"
  obtains b where "preset (base_preset_name req) = Some (Inr b)" "pol_default p = pol_default b"
    "\<And>a t. covers a (pol_rules p) t \<longleftrightarrow> covers a (pol_rules b) t \<or> sources_cover a req (pol_name b = ''locked'') t"
  using assms(1)
proof (rule resolve_Inr)
  fix base name
  assume base: "request_base req = Inr (base, name)" and def: "rz_default res = pol_default base"
    and rules: "rz_rules res = fst (base_part req base name) @ fst (chosen_profile_part req) @ fst (agent_part req base)
       @ fst (kit_part req base) @ fst (store_part req) @ map (flag_rule Deny) (rq_deny req) @ map (flag_rule Allow) (rq_allow req)"
    and prof: "rq_profile req \<noteq> [] \<longrightarrow> request_profile req \<noteq> None"
  from base obtain b where b: "preset (base_preset_name req) = Some (Inr b)" "pol_name base = pol_name b"
    "pol_default base = pol_default b" by (rule request_base_Inr)
  note bp = base_and_profile_cover [OF base prof b(1)]
  have src: "sources_cover a req (pol_name b = ''locked'') t \<longleftrightarrow>
      (rq_profile req \<noteq> [] \<and> (\<exists>pf. request_profile req = Some pf \<and> specs_cover a (pf_rules pf) t)) \<or>
      specs_cover a (fst (agent_part req base)) t \<or> specs_cover a (fst (kit_part req base)) t \<or>
      specs_cover a (fst (store_part req)) t \<or>
      a = Deny \<and> (\<exists>s\<in>set (rq_deny req). text_covers a t s) \<or> a = Allow \<and> (\<exists>s\<in>set (rq_allow req). text_covers a t s)" for a t
    unfolding sources_cover_def sources_def agent_cover kit_cover store_cover b(2) set_covers_simps if_False
    by (auto simp: set_covers_simps)
  show thesis
  proof (rule that [OF b(1)])
    show "pol_default p = pol_default b" using resolution_policy_Inr [OF assms(2)] def b(3) by simp
    show "covers a (pol_rules p) t \<longleftrightarrow> covers a (pol_rules b) t \<or> sources_cover a req (pol_name b = ''locked'') t" for a t
      using bp [of a t] by (auto simp: resolution_policy_Inr [OF assms(2)] rules flag_cover src)
  qed
qed

subsection \<open>Reconstruction\<close>

lemma resolve_cong:
  assumes "rq_store q = rq_store r" "rq_sandbox q = rq_sandbox r" "rq_profile q = rq_profile r"
    "rq_preset q = rq_preset r" "rq_allow q = rq_allow r" "rq_deny q = rq_deny r" "rq_agent q = rq_agent r"
    "rq_kit q = rq_kit r"
    "\<And>base name. request_base r = Inr (base, name) \<Longrightarrow> agent_part q base = agent_part r base"
    "\<And>base name. request_base r = Inr (base, name) \<Longrightarrow> kit_part q base = kit_part r base"
  shows "resolve q = resolve r"
proof -
  have prof: "request_profile q = request_profile r"
    using assms(1,3) by (simp add: request_profile_def split: option.split)
  then have base: "request_base q = request_base r" by (simp only: request_base_def assms(1,3,4))
  have "base_part q b n = base_part r b n" "chosen_profile_part q = chosen_profile_part r" "store_part q = store_part r" for b n
    using assms prof
    by (simp_all add: base_part_def chosen_profile_part_def profile_part_def store_part_def Let_def split: list.split option.split)
  then show ?thesis
    unfolding resolve_def using assms prof base by (auto split: sum.split)
qed

lemma scoped_scoped [simp]: "scoped a (scoped b rs) = scoped a rs"
  by (simp add: scoped_def)

lemma scoped_filter: "filter (\<lambda>r. rs_action r = a) (scoped sc rs) = scoped sc (filter (\<lambda>r. rs_action r = a) rs)"
  by (induction rs) (auto simp: scoped_def)

lemma scoped_length [simp]: "length (scoped sc rs) = length rs" "scoped sc rs = [] \<longleftrightarrow> rs = []"
  by (simp_all add: scoped_def)

text \<open>The scope labels tell the layers apart.\<close>

lemma part_scopes:
  "r \<in> set (fst (base_part req base name)) \<Longrightarrow> prefix ''pr'' (rs_scope r)"
  "r \<in> set (fst (chosen_profile_part req)) \<Longrightarrow> prefix ''pr'' (rs_scope r)"
  "r \<in> set (fst (agent_part req base)) \<Longrightarrow> rs_scope r = ''agent '' @ rq_agent req"
  "r \<in> set (fst (kit_part req base)) \<Longrightarrow> prefix ''k'' (rs_scope r)"
  "r \<in> set (fst (store_part req)) \<Longrightarrow> prefix ''g'' (rs_scope r) \<or> prefix ''s'' (rs_scope r)"
  by (auto simp: base_part_def chosen_profile_part_def profile_part_def agent_part_def kit_part_def store_part_def
      join_parts_def scoped_def Let_def split: list.splits option.splits if_splits)

lemma filter_none: "(\<And>x. x \<in> set xs \<Longrightarrow> \<not> P x) \<Longrightarrow> filter P xs = []"
  by (simp add: filter_empty_conv)

lemma flag_filters:
  "filter (\<lambda>x. rs_scope x = ''flag --allow'') (map (flag_rule Allow) ss) = map (flag_rule Allow) ss"
  "filter (\<lambda>x. rs_scope x = ''flag --deny'') (map (flag_rule Deny) ss) = map (flag_rule Deny) ss"
  "filter (\<lambda>x. rs_scope x = ''flag --allow'') (map (flag_rule Deny) ss) = []"
  "filter (\<lambda>x. rs_scope x = ''flag --deny'') (map (flag_rule Allow) ss) = []"
  "map rs_spec (map (flag_rule a) ss) = ss"
  by (induction ss) (auto simp: flag_rule_def)

lemma recovered:
  assumes "resolve req = Inr res"
  shows "rq_allow (to_request res st) = rq_allow req" "rq_deny (to_request res st) = rq_deny req"
    "\<exists>base name. request_base req = Inr (base, name) \<and> rq_agent_allow (to_request res st) = fst (agent_part req base) \<and>
      (rq_profile req = [] \<or> rq_preset req \<noteq> [] \<longrightarrow> rq_preset (to_request res st) = pol_name base)"
proof -
  from assms obtain base name where base: "request_base req = Inr (base, name)"
    and rules: "rz_rules res = fst (base_part req base name) @ fst (chosen_profile_part req) @ fst (agent_part req base)
       @ fst (kit_part req base) @ fst (store_part req) @ map (flag_rule Deny) (rq_deny req) @ map (flag_rule Allow) (rq_allow req)"
    and agent: "rz_agent res = rq_agent req"
    and hd: "rz_layers res \<noteq> []" "hd (rz_layers res) = hd (fst (snd (base_part req base name)))"
    by (rule resolve_Inr) auto
  have none: "filter P (fst (base_part req base name)) = []" "filter P (fst (chosen_profile_part req)) = []"
    "filter P (fst (kit_part req base)) = []" "filter P (fst (store_part req)) = []"
    if "\<And>x. P x \<Longrightarrow> rs_scope x = ''flag --allow'' \<or> rs_scope x = ''flag --deny'' \<or> prefix ''a'' (rs_scope x)" for P
  proof -
    have "\<not> P x" if "prefix ''pr'' (rs_scope x) \<or> prefix ''k'' (rs_scope x) \<or> prefix ''g'' (rs_scope x) \<or> prefix ''s'' (rs_scope x)" for x
      using that \<open>P x \<Longrightarrow> rs_scope x = ''flag --allow'' \<or> rs_scope x = ''flag --deny'' \<or> prefix ''a'' (rs_scope x)\<close>
      by (auto simp: prefix_def)
    then show "filter P (fst (base_part req base name)) = []" "filter P (fst (chosen_profile_part req)) = []"
      "filter P (fst (kit_part req base)) = []" "filter P (fst (store_part req)) = []"
      using part_scopes by (auto intro!: filter_none)
  qed
  have agent_flag: "filter (\<lambda>x. rs_scope x = ''flag --allow'') (fst (agent_part req base)) = []"
    "filter (\<lambda>x. rs_scope x = ''flag --deny'') (fst (agent_part req base)) = []"
    using part_scopes(3) by (fastforce intro!: filter_none)+
  show "rq_allow (to_request res st) = rq_allow req" "rq_deny (to_request res st) = rq_deny req"
    by (simp_all add: to_request_def rules none agent_flag flag_filters del: map_map)
  let ?P = "\<lambda>x. rs_scope x \<noteq> ''flag --allow'' \<and> rs_scope x \<noteq> ''flag --deny'' \<and>
      rq_agent req \<noteq> [] \<and> rs_scope x = ''agent '' @ rq_agent req"
  have "filter ?P (fst (agent_part req base)) = fst (agent_part req base)"
  proof (cases "rq_agent req = []")
    case False
    then show ?thesis using part_scopes(3) [of _ req base] by (auto intro!: filter_True)
  qed (simp add: agent_part_def)
  moreover have "filter ?P (map (flag_rule a) ss) = []" for a ss
    by (rule filter_none) (auto simp: flag_rule_def split: if_splits)
  ultimately have "rq_agent_allow (to_request res st) = fst (agent_part req base)"
    using none [of ?P] by (simp add: to_request_def rules agent)
  moreover have "rq_preset (to_request res st) = pol_name base" if "rq_profile req = [] \<or> rq_preset req \<noteq> []"
  proof -
    have "ly_source (hd (rz_layers res)) = ''preset '' @ pol_name base"
      using hd(2) that by (auto simp: base_part_def Let_def)
    then show ?thesis using hd(1) by (cases "rz_layers res") (auto simp: to_request_def strip_prefix_def)
  qed
  ultimately show "\<exists>base name. request_base req = Inr (base, name) \<and> rq_agent_allow (to_request res st) = fst (agent_part req base) \<and>
      (rq_profile req = [] \<or> rq_preset req \<noteq> [] \<longrightarrow> rq_preset (to_request res st) = pol_name base)"
    using base by blast
qed

lemma named_deny_covers:
  assumes "resolve req = Inr res" "resolution_policy res = Inr p" "\<And>l. sources_cover Deny req l t"
  shows "covers Deny (pol_rules p) t"
  using assms(1,2) by (rule resolve_covers) (simp add: assms(3))

lemma named_deny_wins:
  assumes "resolve req = Inr res" "resolution_policy res = Inr p" "\<And>l. sources_cover Deny req l t"
  shows "\<not> v_allowed (evaluate p t)"
  using named_deny_covers [OF assms] by (simp add: evaluate_allowed permits_def)

subsection \<open>A policy is produced\<close>

lemma compile_rules_ok: "is_ok (compile_rules rs) \<longleftrightarrow> rules_ok rs"
  by (induction rs) (auto simp: rules_ok_def is_ok_def split: sum.splits)

lemma rules_ok_simps [simp]:
  "rules_ok (rs @ rs') \<longleftrightarrow> rules_ok rs \<and> rules_ok rs'" "rules_ok (scoped sc rs) \<longleftrightarrow> rules_ok rs"
  by (auto simp: rules_ok_def scoped_def list_all_iff)

lemma check_flags_ok: "is_ok (check_flags err a ss) \<longleftrightarrow> rules_ok (map (flag_rule a) ss)"
  by (induction ss) (auto simp: rules_ok_def is_ok_def split: sum.splits)

lemma parse_flag_rules_ok:
  "is_ok (parse_flag_rules allow deny) \<longleftrightarrow> rules_ok (map (flag_rule Deny) deny) \<and> rules_ok (map (flag_rule Allow) allow)"
  using check_flags_ok [of Resolve_deny_flag Deny deny] check_flags_ok [of Resolve_allow_flag Allow allow]
  by (cases "check_flags Resolve_deny_flag Deny deny"; cases "check_flags Resolve_allow_flag Allow allow")
    (auto simp: parse_flag_rules_def)

lemma base_part_ok: "list_all rule_ok (pol_rules base) \<Longrightarrow> rules_ok (fst (base_part req base name))"
  by (auto simp: base_part_def rules_ok_def list_all_iff spec_rule_def parse_rule_spec Let_def)

text \<open>Everything a request names parses: what loading the store and the flags checks beforehand.\<close>

definition request_ok :: "request \<Rightarrow> bool" where
  "request_ok req \<longleftrightarrow>
     preset_known (base_preset_name req) \<and>
     (rq_profile req = [] \<or> request_profile req \<noteq> None) \<and>
     (case rq_store req of None \<Rightarrow> True | Some s \<Rightarrow> store_ok s) \<and>
     rules_ok (rq_agent_allow req) \<and> rules_ok (rq_kit_allow req) \<and> rules_ok (rq_kit_deny req) \<and>
     rules_ok (map (flag_rule Deny) (rq_deny req)) \<and> rules_ok (map (flag_rule Allow) (rq_allow req))"

lemma resolve_total:
  assumes "request_ok req"
  shows "\<exists>res p. resolve req = Inr res \<and> resolution_policy res = Inr p"
proof -
  obtain b where b: "preset (base_preset_name req) = Some (Inr b)"
    using assms by (auto simp: request_ok_def preset_known_def split: option.splits sum.splits)
  have pf: "rules_ok (pf_rules pf)" if "request_profile req = Some pf" for pf
    using that assms by (auto simp: request_profile_def request_ok_def store_ok_iff profile_ok_def dest: map_ok_get split: option.splits)
  have "\<exists>base name. request_base req = Inr (base, name)"
  proof (cases "rq_preset req = [] \<and> rq_profile req \<noteq> []")
    case True
    then obtain p where "request_profile req = Some p" using assms by (auto simp: request_ok_def)
    moreover from this have "is_ok (map_res spec_rule (pf_rules p))" using pf by (simp add: map_res_rules_ok)
    ultimately show ?thesis
      using True b by (auto simp: request_base_def base_preset_name_def is_ok_iff preset_result_def)
  next
    case False
    then show ?thesis using b
      by (auto simp: request_base_def base_preset_name_def preset_result_def Let_def split: option.splits if_splits)
  qed
  then obtain base name where base: "request_base req = Inr (base, name)" by blast
  have ok: "list_all rule_ok (pol_rules base)"
    by (rule request_base_rules_ok [OF base])
  obtain flags where flags: "parse_flag_rules (rq_allow req) (rq_deny req) = Inr flags"
    using assms parse_flag_rules_ok by (auto simp: request_ok_def is_ok_iff)
  obtain res where res: "resolve req = Inr res"
    using base flags assms by (auto simp: resolve_def request_ok_def join_parts_def)
  have "rules_ok (fst (chosen_profile_part req))"
    using pf by (auto simp: chosen_profile_part_def profile_part_def split: list.split option.split)
  moreover have "rules_ok (fst (agent_part req base))" "rules_ok (fst (kit_part req base))"
    using assms by (auto simp: agent_part_def kit_part_def request_ok_def Let_def rules_ok_filter)
  moreover have "rules_ok (fst (store_part req))"
  proof (cases "rq_store req")
    case (Some s)
    then have "store_ok s" using assms by (simp add: request_ok_def)
    then have "rules_ok (st_global s)" "rules_ok (rules_at s (sandbox_scope (rq_sandbox req)))"
      using rules_at_ok by (auto simp: store_ok_iff)
    then show ?thesis using Some by (simp add: store_part_def join_parts_def rules_at_def Let_def)
  qed (simp add: store_part_def)
  ultimately have "rules_ok (rz_rules res)"
    using res base assms base_part_ok [OF ok] by (auto simp: request_ok_def elim!: resolve_Inr)
  then have "is_ok (resolution_policy res)"
    by (simp add: resolution_policy_def is_ok_def flip: compile_rules_ok split: sum.splits)
  then show ?thesis using res by (auto simp: is_ok_iff)
qed

subsection \<open>The request a reload reconstructs\<close>

definition pinned :: "store option \<Rightarrow> policy \<Rightarrow> request \<Rightarrow> request" where
  "pinned st base req = req\<lparr>rq_store := st, rq_preset := pol_name base, rq_kit := [], rq_kit_allow := [], rq_kit_deny := []\<rparr>"

lemma resolve_to_request:
  assumes "resolve req = Inr res" "rq_profile req = [] \<or> rq_preset req \<noteq> []"
    "request_base req = Inr (base, name)"
  shows "resolve (to_request res st) = resolve (req\<lparr>rq_store := st, rq_preset := pol_name base,
    rq_kit := [], rq_kit_allow := [], rq_kit_deny := []\<rparr>)"
  unfolding pinned_def [symmetric]
proof (rule resolve_cong)
  have rz: "rz_sandbox res = rq_sandbox req" "rz_profile res = rq_profile req" "rz_agent res = rq_agent req"
    using assms(1) by (auto elim: resolve_Inr)
  have rec: "rq_agent_allow (to_request res st) = fst (agent_part req base)" "rq_preset (to_request res st) = pol_name base"
    using recovered(3) [OF assms(1)] assms(2,3) by auto
  show "rq_store (to_request res st) = rq_store (pinned st base req)"
    "rq_sandbox (to_request res st) = rq_sandbox (pinned st base req)"
    "rq_profile (to_request res st) = rq_profile (pinned st base req)"
    "rq_agent (to_request res st) = rq_agent (pinned st base req)"
    "rq_kit (to_request res st) = rq_kit (pinned st base req)"
    using rz by (simp_all add: to_request_def pinned_def)
  show "rq_preset (to_request res st) = rq_preset (pinned st base req)"
    "rq_allow (to_request res st) = rq_allow (pinned st base req)"
    "rq_deny (to_request res st) = rq_deny (pinned st base req)"
    using recovered(1,2) [OF assms(1)] rec(2) by (simp_all add: pinned_def)
  obtain b where b: "preset (base_preset_name req) = Some (Inr b)" "base = b"
    using assms(2,3) by (auto elim: request_base_Inr)
  then have self: "preset (pol_name base) = Some (Inr base)" using preset_name by blast
  have "pol_name base \<noteq> []"
    using b by (auto simp: preset_def Let_def open_policy_rules standard_policy_rules locked_policy_def split: if_splits)
  fix base' name'
  assume "request_base (pinned st base req) = Inr (base', name')"
  then have "base' = base"
    using \<open>pol_name base \<noteq> []\<close> self by (simp add: request_base_def preset_result_def pinned_def)
  moreover have "agent_part (to_request res st) base = agent_part req base"
    using rec(1) rz(3) by (auto simp: agent_part_def to_request_def Let_def scoped_filter split: if_splits)
  ultimately show "agent_part (to_request res st) base' = agent_part (pinned st base req) base'"
    by (simp add: agent_part_def Let_def pinned_def)
  show "kit_part (to_request res st) base' = kit_part (pinned st base req) base'"
    by (simp add: kit_part_def to_request_def pinned_def Let_def)
qed

text \<open>A base that comes from the profile is not pinned, and of the agent's rules those come back that applied.\<close>

lemma resolve_to_request_profile:
  assumes "resolve req = Inr res" "rq_profile req \<noteq> []" "rq_preset req = []" "request_base req = Inr (base, name)"
  shows "resolve (to_request res st) = resolve (req\<lparr>rq_store := st,
    rq_agent_allow := (if pol_name base = ''locked'' then filter (\<lambda>r. rs_action r = Deny) (rq_agent_allow req) else rq_agent_allow req),
    rq_kit := [], rq_kit_allow := [], rq_kit_deny := []\<rparr>)" (is "_ = resolve ?req")
proof (rule resolve_cong)
  have rz: "rz_sandbox res = rq_sandbox req" "rz_profile res = rq_profile req" "rz_agent res = rq_agent req"
    using assms(1) by (auto elim: resolve_Inr)
  have rec: "rq_agent_allow (to_request res st) = fst (agent_part req base)"
    using recovered(3) [OF assms(1)] assms(4) by auto
  have "rz_layers res \<noteq> [] \<and> hd (rz_layers res) = hd (fst (snd (base_part req base name)))"
    by (rule resolve_Inr [OF assms(1)]) (use assms(4) in auto)
  then have "rq_preset (to_request res st) = []"
    using assms(2,3) by (cases "rz_layers res") (auto simp: to_request_def base_part_def Let_def prefix_def)
  then show "rq_preset (to_request res st) = rq_preset ?req" using assms(3) by simp
  show "rq_store (to_request res st) = rq_store ?req" "rq_sandbox (to_request res st) = rq_sandbox ?req"
    "rq_profile (to_request res st) = rq_profile ?req" "rq_agent (to_request res st) = rq_agent ?req"
    "rq_kit (to_request res st) = rq_kit ?req"
    using rz by (simp_all add: to_request_def)
  show "rq_allow (to_request res st) = rq_allow ?req" "rq_deny (to_request res st) = rq_deny ?req"
    using recovered(1,2) [OF assms(1)] by simp_all
  fix base' name'
  show "agent_part (to_request res st) base' = agent_part ?req base'"
    using rec rz(3) by (auto simp: agent_part_def to_request_def Let_def scoped_filter split: if_splits)
  show "kit_part (to_request res st) base' = kit_part ?req base'"
    by (simp add: kit_part_def to_request_def Let_def)
qed

subsection \<open>Examples\<close>

text \<open>A request for the examples: a preset, two flags, an agent and a kit.\<close>

definition request_ex :: "string \<Rightarrow> string list \<Rightarrow> rule_spec list \<Rightarrow> rule_spec list \<Rightarrow> request" where
  "request_ex p allow agent kit =
     \<lparr>rq_store = None, rq_sandbox = [], rq_profile = [], rq_preset = p, rq_allow = allow, rq_deny = [],
      rq_agent = (if agent = [] then [] else ''a''), rq_agent_allow = agent,
      rq_kit = (if kit = [] then [] else ''k''), rq_kit_allow = [], rq_kit_deny = kit\<rparr>"

definition decides :: "request \<Rightarrow> target \<Rightarrow> bool option" where
  "decides req t =
     (case resolve req of Inl _ \<Rightarrow> None
      | Inr res \<Rightarrow> (case resolution_policy res of Inl _ \<Rightarrow> None | Inr p \<Rightarrow> Some (v_allowed (evaluate p t))))"

lemma locked_request:
  obtains res p where "resolve (request_ex ''locked'' [''b.com:80''] [] []) = Inr res" "resolution_policy res = Inr p"
proof -
  have "rules_ok (map (flag_rule Allow) [''b.com:80''])" by code_simp
  then have "request_ok (request_ex ''locked'' [''b.com:80''] [] [])"
    by (simp add: request_ok_def request_ex_def base_preset_name_def preset_known_def preset_by_name locked_policy_def)
  then show thesis using resolve_total that by blast
qed

subsection \<open>Properties\<close>

text \<open>
  C3: what a resolved policy allows. A policy resolved from a request and compiled allows a target
  exactly when no deny among the preset's rules and the rules that count covers it, and an
  allow among them does or the preset's default is to allow. The rules that count are those of the
  profile, of the agent, of the kit, of the store for every sandbox and for this one, and of the flags,
  except that under a base that is the preset \<open>locked\<close> the rules of the kit do not count at all, its denies
  included, and those of the agent only where they deny. Among the rules that count, the layers, their
  order and their scopes make no difference: a deny in any layer beats an allow in any layer.
\<close>

theorem resolve_decision:
  assumes "resolve req = Inr res" "resolution_policy res = Inr p"
  shows "\<exists>b. preset (base_preset_name req) = Some (Inr b) \<and>
    (\<forall>t. v_allowed (evaluate p t) \<longleftrightarrow>
       \<not> (covers Deny (pol_rules b) t \<or> sources_cover Deny req (pol_name b = ''locked'') t) \<and>
       (covers Allow (pol_rules b) t \<or> sources_cover Allow req (pol_name b = ''locked'') t \<or> pol_default b = Allow))"
  using assms by (rule resolve_covers) (auto simp: evaluate_allowed permits_def)

theorem resolve_decision_witness:
  "\<exists>res p. resolve (request_ex ''locked'' [''b.com:80''] [] []) = Inr res \<and> resolution_policy res = Inr p \<and>
     v_allowed (evaluate p \<lparr>t_host = ''b.com'', t_addr = Addr_none, t_port = 80\<rparr>)"
proof -
  let ?req = "request_ex ''locked'' [''b.com:80''] [] []"
  let ?t = "\<lparr>t_host = ''b.com'', t_addr = Addr_none, t_port = 80\<rparr>"
  obtain res p where r: "resolve ?req = Inr res" "resolution_policy res = Inr p" by (rule locked_request)
  have "text_covers Allow ?t ''b.com:80''" by code_simp
  then have "sources_cover Allow ?req l ?t" "\<not> sources_cover Deny ?req l ?t" for l
    by (simp_all add: sources_cover_def sources_def set_covers_simps request_ex_def) (simp_all add: set_covers_def)
  moreover have "preset (base_preset_name ?req) = map_option Inr locked_policy"
    by (simp add: base_preset_name_def request_ex_def preset_by_name)
  ultimately have "v_allowed (evaluate p ?t)"
    using resolve_decision [OF r] by (auto simp: locked_policy_def)
  with r show ?thesis by blast
qed

text \<open>
  A stored deny reaches every run. If the machine's rules, or the sandbox's own, hold a deny that
  covers a target, no preset, profile, flag, agent or kit makes the resolved policy allow it.
\<close>

theorem stored_deny_always_applies:
  assumes "resolve req = Inr res" "resolution_policy res = Inr p" "rq_store req = Some s"
    "r \<in> set (rules_at s global_scope) \<or>
     rq_sandbox req \<noteq> [] \<and> r \<in> set (rules_at s (sandbox_scope (rq_sandbox req)))"
    "rs_action r = Deny" "spec_rule r = Inr rule" "rule_match rule t"
  shows "\<not> v_allowed (evaluate p t)"
proof -
  have "text_covers Deny t (rs_spec r)" using spec_rule_covers [OF assms(6), of t] assms(5,7) by simp
  moreover have "(Deny, rs_spec r) \<in> sources req l" for l
  proof -
    have "r \<in> set rs \<Longrightarrow> (Deny, rs_spec r) \<in> texts rs" for rs
      using assms(5) by (auto simp: texts_def intro!: image_eqI)
    then show ?thesis using assms(3,4) unfolding sources_def by simp blast
  qed
  ultimately have "sources_cover Deny req l t" for l by (auto simp: sources_cover_def set_covers_def)
  then show ?thesis by (rule named_deny_wins [OF assms(1,2)])
qed

theorem stored_deny_always_applies_witness:
  "\<exists>res p. resolve ((request_ex ''locked'' [''b.com:80''] [] [])\<lparr>rq_store := Some store_ex\<rparr>) = Inr res \<and>
     resolution_policy res = Inr p \<and>
     \<not> v_allowed (evaluate p \<lparr>t_host = ''b.com'', t_addr = Addr_none, t_port = 80\<rparr>)"
proof -
  let ?req = "(request_ex ''locked'' [''b.com:80''] [] [])\<lparr>rq_store := Some store_ex\<rparr>"
  let ?t = "\<lparr>t_host = ''b.com'', t_addr = Addr_none, t_port = 80\<rparr>"
  have "rules_ok (map (flag_rule Allow) [''b.com:80''])" by code_simp
  then have "request_ok ?req"
    by (simp add: request_ok_def request_ex_def base_preset_name_def preset_known_def preset_by_name locked_policy_def
        store_ex_ok)
  then obtain res p where r: "resolve ?req = Inr res" "resolution_policy res = Inr p" using resolve_total by blast
  have "(case spec_rule spec_ex of Inl _ \<Rightarrow> False | Inr rule \<Rightarrow> rule_match rule ?t)" by code_simp
  then obtain rule where rule: "spec_rule spec_ex = Inr rule" "rule_match rule ?t" by (auto split: sum.splits)
  have "rq_store ?req = Some store_ex" "spec_ex \<in> set (rules_at store_ex global_scope)" "rs_action spec_ex = Deny"
    by (simp_all add: rules_at_def scope_rules_def global_scope_def store_ex_def spec_ex_def)
  then have "\<not> v_allowed (evaluate p ?t)"
    using stored_deny_always_applies [OF r _ _ _ rule] by blast
  with r show ?thesis by blast
qed

text \<open>
  C30: what a reload reconstructs. Resolving the reconstruction against a new store is resolving the
  original request against that store without the kit, whose own rules are gone, and with the flags, the
  agent and its rules as they were. For a run whose base preset does not come from its profile, that
  preset is pinned, so its default and its rules stay. For one whose base comes from the profile nothing
  is pinned: the profile of the new store decides, and of the agent's rules only those come back that
  applied at the start, its denies if the base was \<open>locked\<close>.
\<close>

theorem reload_faithful:
  assumes "resolve req = Inr res" "request_base req = Inr (base, name)"
  shows "resolve (to_request res st) = resolve
    (if rq_profile req = [] \<or> rq_preset req \<noteq> []
     then req\<lparr>rq_store := st, rq_preset := pol_name base, rq_kit := [], rq_kit_allow := [], rq_kit_deny := []\<rparr>
     else req\<lparr>rq_store := st, rq_agent_allow :=
         (if pol_name base = ''locked'' then filter (\<lambda>r. rs_action r = Deny) (rq_agent_allow req) else rq_agent_allow req),
       rq_kit := [], rq_kit_allow := [], rq_kit_deny := []\<rparr>)"
  using resolve_to_request [OF assms(1) _ assms(2)] resolve_to_request_profile [OF assms(1) _ _ assms(2)] by simp

theorem reload_faithful_witness:
  "\<exists>res. resolve (request_ex ''locked'' [''b.com:80''] [] []) = Inr res \<and>
     resolve (to_request res None) = Inr res"
proof -
  let ?req = "request_ex ''locked'' [''b.com:80''] [] []"
  obtain res p where r: "resolve ?req = Inr res" "resolution_policy res = Inr p" by (rule locked_request)
  have base: "request_base ?req = Inr (the locked_policy, ''locked'')"
    by (simp add: request_base_def request_ex_def preset_result_def preset_by_name locked_policy_def)
  have "?req\<lparr>rq_store := None, rq_preset := pol_name (the locked_policy), rq_kit := [], rq_kit_allow := [],
      rq_kit_deny := []\<rparr> = ?req"
    by (simp add: request_ex_def locked_policy_def)
  then have "resolve (to_request res None) = resolve ?req"
    using reload_faithful [OF r(1) base, of None] by (simp add: request_ex_def)
  with r show ?thesis by auto
qed

text \<open>
  A locked base drops a kit's denies. Under the preset \<open>locked\<close> a destination the user allows is
  denied when the agent's own rules deny it, but allowed when only the kit's rules do, although a
  deny in any layer is meant to win.
\<close>

theorem locked_drops_kit_denies:
  "\<exists>deny t. rs_action deny = Deny \<and>
     decides (request_ex ''locked'' [''b.com''] [deny] []) t = Some False \<and>
     decides (request_ex ''locked'' [''b.com''] [] [deny]) t = Some True"
proof -
  let ?d = "\<lparr>rs_action = Deny, rs_spec = ''b.com:80'', rs_note = [], rs_scope = []\<rparr>"
  let ?t = "\<lparr>t_host = ''b.com'', t_addr = Addr_none, t_port = 80\<rparr>"
  have "decides (request_ex ''locked'' [''b.com''] [?d] []) ?t = Some False"
    "decides (request_ex ''locked'' [''b.com''] [] [?d]) ?t = Some True" by code_simp+
  then show ?thesis by (intro exI [of _ ?d] exI [of _ ?t]) simp
qed

end
