(* ===== verification/Boks_Digest.thy ===== *)
theory Boks_Digest
  imports Netip
begin

section \<open>Digests of the standard library\<close>

text \<open>
  SHA-256 of \<open>crypto/sha256\<close> on the bytes of a string, and \<open>hex.EncodeToString\<close>. Names that must not
  collide carry a cut of the text of such a digest; what the components rely on is its length and its alphabet.
\<close>

unbundle bit_operations_syntax

definition sha_constants :: "32 word list" where
  "sha_constants =
    [0x428A2F98, 0x71374491, 0xB5C0FBCF, 0xE9B5DBA5, 0x3956C25B, 0x59F111F1, 0x923F82A4, 0xAB1C5ED5,
     0xD807AA98, 0x12835B01, 0x243185BE, 0x550C7DC3, 0x72BE5D74, 0x80DEB1FE, 0x9BDC06A7, 0xC19BF174,
     0xE49B69C1, 0xEFBE4786, 0x0FC19DC6, 0x240CA1CC, 0x2DE92C6F, 0x4A7484AA, 0x5CB0A9DC, 0x76F988DA,
     0x983E5152, 0xA831C66D, 0xB00327C8, 0xBF597FC7, 0xC6E00BF3, 0xD5A79147, 0x06CA6351, 0x14292967,
     0x27B70A85, 0x2E1B2138, 0x4D2C6DFC, 0x53380D13, 0x650A7354, 0x766A0ABB, 0x81C2C92E, 0x92722C85,
     0xA2BFE8A1, 0xA81A664B, 0xC24B8B70, 0xC76C51A3, 0xD192E819, 0xD6990624, 0xF40E3585, 0x106AA070,
     0x19A4C116, 0x1E376C08, 0x2748774C, 0x34B0BCB5, 0x391C0CB3, 0x4ED8AA4A, 0x5B9CCA4F, 0x682E6FF3,
     0x748F82EE, 0x78A5636F, 0x84C87814, 0x8CC70208, 0x90BEFFFA, 0xA4506CEB, 0xBEF9A3F7, 0xC67178F2]"

definition sha_initial :: "32 word list" where
  "sha_initial = [0x6A09E667, 0xBB67AE85, 0x3C6EF372, 0xA54FF53A, 0x510E527F, 0x9B05688C, 0x1F83D9AB, 0x5BE0CD19]"

text \<open>Padding to whole blocks of 64 bytes, ending in the bit length.\<close>

definition sha_padded :: "string \<Rightarrow> nat list" where
  "sha_padded s =
     map of_char s @ [0x80] @ replicate ((119 - length s mod 64) mod 64) 0 @
     map (\<lambda>i. 8 * length s div 256 ^ i mod 256) (rev [0..<8])"

fun be_words :: "nat list \<Rightarrow> 32 word list" where
  "be_words (a # b # c # d # bs) = word_of_nat (((a * 256 + b) * 256 + c) * 256 + d) # be_words bs"
| "be_words _ = []"

fun sha_blocks :: "32 word list \<Rightarrow> 32 word list list" where
  "sha_blocks [] = []"
| "sha_blocks (w # ws) = take 16 (w # ws) # sha_blocks (drop 16 (w # ws))"

text \<open>The message schedule, its last word first.\<close>

primrec sha_schedule :: "nat \<Rightarrow> 32 word list \<Rightarrow> 32 word list" where
  "sha_schedule 0 ws = ws"
| "sha_schedule (Suc n) ws =
     (let w2 = ws ! 1; w15 = ws ! 14
      in sha_schedule n
        (((word_rotr 17 w2 XOR word_rotr 19 w2 XOR drop_bit 10 w2) + ws ! 6 +
          (word_rotr 7 w15 XOR word_rotr 18 w15 XOR drop_bit 3 w15) + ws ! 15) # ws))"

fun sha_round :: "32 word list \<Rightarrow> 32 word \<times> 32 word \<Rightarrow> 32 word list" where
  "sha_round [a, b, c, d, e, f, g, h] (k, w) =
     (let t1 = h + (word_rotr 6 e XOR word_rotr 11 e XOR word_rotr 25 e) + (e AND f XOR NOT e AND g) + k + w;
          t2 = (word_rotr 2 a XOR word_rotr 13 a XOR word_rotr 22 a) + (a AND b XOR a AND c XOR b AND c)
      in [t1 + t2, a, b, c, d + t1, e, f, g])"
| "sha_round hs _ = hs"

definition sha_block :: "32 word list \<Rightarrow> 32 word list \<Rightarrow> 32 word list" where
  "sha_block hs block = map2 (+) hs (foldl sha_round hs (zip sha_constants (rev (sha_schedule 48 (rev block)))))"

definition word_bytes :: "32 word \<Rightarrow> nat list" where
  "word_bytes w = map (\<lambda>i. unat w div 256 ^ i mod 256) [3, 2, 1, 0]"

definition sha256 :: "string \<Rightarrow> nat list" where
  "sha256 s = concat (map word_bytes (foldl sha_block sha_initial (sha_blocks (be_words (sha_padded s)))))"

definition hex_encode :: "nat list \<Rightarrow> string" where
  "hex_encode bs = concat (map (\<lambda>b. [hex_char (b div 16 mod 16), hex_char (b mod 16)]) bs)"

text \<open>A cut of the digest, as the callers use it.\<close>

definition digest :: "nat \<Rightarrow> string \<Rightarrow> string" where
  "digest n s = take n (hex_encode (sha256 s))"

subsection \<open>What the callers rely on\<close>

lemma sha_round_length: "length (sha_round hs p) = length hs"
  by (cases "(hs, p)" rule: sha_round.cases) (simp_all add: Let_def)

lemma sha_rounds_length: "length (foldl sha_round hs ps) = length hs"
  by (induction ps arbitrary: hs) (simp_all add: sha_round_length)

lemma sha_blocks_length: "length (foldl sha_block hs bs) = length hs"
  by (induction bs arbitrary: hs) (simp_all add: sha_block_def sha_rounds_length)

lemma concat_length: "(\<And>x. x \<in> set xs \<Longrightarrow> length (f x) = n) \<Longrightarrow> length (concat (map f xs)) = n * length xs"
  by (induction xs) simp_all

lemma sha256_length [simp]: "length (sha256 s) = 32"
proof -
  have "length (sha256 s) = 4 * length (foldl sha_block sha_initial (sha_blocks (be_words (sha_padded s))))"
    unfolding sha256_def by (rule concat_length) (simp add: word_bytes_def)
  then show ?thesis by (simp add: sha_blocks_length sha_initial_def)
qed

lemma hex_encode_length [simp]: "length (hex_encode bs) = 2 * length bs"
  unfolding hex_encode_def by (rule concat_length) simp

definition lower_hex :: "char \<Rightarrow> bool" where
  "lower_hex c \<longleftrightarrow> is_digit c \<or> in_range CHR ''a'' CHR ''f'' c"

lemma lower_hex_char [simp]: "n < 16 \<Longrightarrow> lower_hex (hex_char n)"
proof -
  have "\<forall>n<16. lower_hex (hex_char n)" by code_simp
  then show "n < 16 \<Longrightarrow> lower_hex (hex_char n)" by simp
qed

lemma hex_encode_set: "c \<in> set (hex_encode bs) \<Longrightarrow> lower_hex c"
  by (auto simp: hex_encode_def)

lemma digest_length [simp]: "length (digest n s) = min n 64"
  by (simp add: digest_def)

lemma digest_set: "c \<in> set (digest n s) \<Longrightarrow> lower_hex c"
  by (auto simp: digest_def dest: in_set_takeD hex_encode_set)

end
