(* ===== verification/Boks_Path.thy ===== *)
theory Boks_Path
  imports Boks_Prelude
begin

section \<open>File paths of the standard library\<close>

text \<open>
  \<open>Clean\<close>, \<open>Join\<close>, \<open>Base\<close> and \<open>Dir\<close> of \<open>path/filepath\<close> on a system whose separator is a slash, which \<open>path\<close>
  shares, on the elements between the slashes; and the width of the runes a loop over a string steps by.
\<close>

abbreviation slash :: char where "slash \<equiv> CHR ''/''"

definition rooted :: "string \<Rightarrow> bool" where
  "rooted s \<longleftrightarrow> s \<noteq> [] \<and> hd s = slash"

text \<open>One element, on a stack of those kept so far.\<close>

definition clean_step :: "bool \<Rightarrow> string list \<Rightarrow> string \<Rightarrow> string list" where
  "clean_step r es e =
     (if e = [] \<or> e = ''.'' then es
      else if e = ''..'' then (case es of [] \<Rightarrow> if r then [] else [''..''] | x # xs \<Rightarrow> if x = ''..'' then ''..'' # es else xs)
      else e # es)"

definition path_elems :: "string \<Rightarrow> string list" where
  "path_elems s = foldl (clean_step (rooted s)) [] (split_on slash s)"

definition path_text :: "bool \<Rightarrow> string list \<Rightarrow> string" where
  "path_text r es = (if r then slash # join_with [slash] (rev es) else if es = [] then ''.'' else join_with [slash] (rev es))"

definition path_clean :: "string \<Rightarrow> string" where
  "path_clean s = path_text (rooted s) (path_elems s)"

definition path_join :: "string list \<Rightarrow> string" where
  "path_join es = (case dropWhile (\<lambda>e. e = []) es of [] \<Rightarrow> [] | e # es' \<Rightarrow> path_clean (join_with [slash] (e # es')))"

definition trim_right :: "string \<Rightarrow> string \<Rightarrow> string" where
  "trim_right cs s = rev (dropWhile (\<lambda>c. c \<in> set cs) (rev s))"

definition trim_both :: "string \<Rightarrow> string \<Rightarrow> string" where
  "trim_both cs s = trim_right cs (dropWhile (\<lambda>c. c \<in> set cs) s)"

definition path_base :: "string \<Rightarrow> string" where
  "path_base s =
     (if s = [] then ''.''
      else (let t = trim_right [slash] s; b = rev (takeWhile (\<lambda>c. c \<noteq> slash) (rev t)) in if b = [] then [slash] else b))"

definition path_dir :: "string \<Rightarrow> string" where
  "path_dir s = path_clean (rev (dropWhile (\<lambda>c. c \<noteq> slash) (rev s)))"

subsection \<open>Runes\<close>

definition continues :: "nat \<Rightarrow> nat \<Rightarrow> nat \<Rightarrow> string \<Rightarrow> bool" where
  "continues i lo hi s \<longleftrightarrow> i < length s \<and> lo \<le> of_char (s ! i) \<and> of_char (s ! i) \<le> (hi :: nat)"

text \<open>How many bytes the first rune takes; a byte that begins none takes one.\<close>

definition rune_width :: "string \<Rightarrow> nat" where
  "rune_width s =
     (let b = (of_char (hd s) :: nat) in
      if 0xC2 \<le> b \<and> b \<le> 0xDF \<and> continues 1 0x80 0xBF s then 2
      else if 0xE0 \<le> b \<and> b \<le> 0xEF \<and> continues 1 (if b = 0xE0 then 0xA0 else 0x80) (if b = 0xED then 0x9F else 0xBF) s \<and>
        continues 2 0x80 0xBF s then 3
      else if 0xF0 \<le> b \<and> b \<le> 0xF4 \<and> continues 1 (if b = 0xF0 then 0x90 else 0x80) (if b = 0xF4 then 0x8F else 0xBF) s \<and>
        continues 2 0x80 0xBF s \<and> continues 3 0x80 0xBF s then 4
      else 1)"

lemma rune_width_pos [simp]: "0 < rune_width s"
  by (simp add: rune_width_def Let_def)

subsection \<open>Facts about paths\<close>

definition plain_elem :: "string \<Rightarrow> bool" where
  "plain_elem e \<longleftrightarrow> e \<noteq> [] \<and> slash \<notin> set e \<and> e \<noteq> ''.'' \<and> e \<noteq> ''..''"

lemma clean_step_plain [simp]: "plain_elem e \<Longrightarrow> clean_step r es e = e # es"
  by (auto simp: clean_step_def plain_elem_def)

lemma rooted_append [simp]: "s \<noteq> [] \<Longrightarrow> rooted (s @ t) = rooted s"
  by (simp add: rooted_def)

lemma split_on_sep: "split_on c (s @ c # t) = split_on c s @ split_on c t"
  by (induction s) (auto split: list.splits)

lemma path_elems_plain: "s \<noteq> [] \<Longrightarrow> plain_elem e \<Longrightarrow> path_elems (s @ slash # e) = e # path_elems s"
  by (simp add: path_elems_def split_on_sep)
    (simp add: plain_elem_def split_on_single clean_step_def)

lemma join_snoc: "ws \<noteq> [] \<Longrightarrow> join_with sep (ws @ [w]) = join_with sep ws @ sep @ w"
proof (induction ws)
  case (Cons a ws)
  then show ?case by (cases "ws = []") (simp_all add: join_Cons)
qed simp

text \<open>What comes before an element that is joined to a path.\<close>

definition path_front :: "string \<Rightarrow> string" where
  "path_front s = (if path_elems s = [] then if rooted s then [slash] else [] else path_text (rooted s) (path_elems s) @ [slash])"

lemma path_clean_plain: "s \<noteq> [] \<Longrightarrow> plain_elem e \<Longrightarrow> path_clean (s @ slash # e) = path_front s @ e"
  by (auto simp: path_clean_def path_elems_plain path_front_def path_text_def join_snoc)

lemma path_front_plain: "s \<noteq> [] \<Longrightarrow> plain_elem e \<Longrightarrow> path_front (s @ slash # e) = path_front s @ e @ [slash]"
  by (auto simp: path_front_def path_elems_plain path_text_def join_snoc)

lemma path_join_plain:
  "s \<noteq> [] \<Longrightarrow> plain_elem e \<Longrightarrow> path_join [s, e] = path_front s @ e"
  "s \<noteq> [] \<Longrightarrow> plain_elem e \<Longrightarrow> plain_elem f \<Longrightarrow> path_join [s, e, f] = path_front s @ e @ slash # f"
  using path_clean_plain [of "s @ slash # e" f] path_front_plain [of s e]
  by (auto simp: path_join_def path_clean_plain)

subsection \<open>Facts about trimming\<close>

lemma trim_right_empty [simp]: "trim_right cs [] = []"
  by (simp add: trim_right_def)

lemma trim_right_prefix: "\<exists>t. s = trim_right cs s @ t \<and> set t \<subseteq> set cs"
proof (intro exI conjI)
  show "s = trim_right cs s @ rev (takeWhile (\<lambda>c. c \<in> set cs) (rev s))"
    unfolding trim_right_def by (metis rev_append rev_rev_ident takeWhile_dropWhile_id)
qed (auto dest: set_takeWhileD)

lemma trim_right_length: "length (trim_right cs s) \<le> length s"
  using length_dropWhile_le [of "\<lambda>c. c \<in> set cs" "rev s"] by (simp add: trim_right_def)

lemma trim_right_set: "c \<in> set (trim_right cs s) \<Longrightarrow> c \<in> set s"
  by (auto simp: trim_right_def dest: set_dropWhileD)

lemma trim_right_last: "trim_right cs s \<noteq> [] \<Longrightarrow> last (trim_right cs s) \<notin> set cs"
  unfolding trim_right_def by (simp add: last_rev hd_dropWhile [of "\<lambda>c. c \<in> set cs", simplified])

end
