(* ===== verification/Sandbox_Name.thy ===== *)
theory Sandbox_Name
  imports Boks_Digest Boks_Path
begin

section \<open>The name of a sandbox: \<open>internal/sandbox/identity.go\<close>\<close>

text \<open>
  A sandbox is found again by a name derived from its agent and its workspace. The theory models the
  grammar of names, the derivation with its cut and its digest, the choice between the readable and the qualified
  name, and the hostname a guest is given.
\<close>

subsection \<open>The grammar\<close>

definition alnum :: "char \<Rightarrow> bool" where
  "alnum c \<longleftrightarrow> is_upper c \<or> is_lower c \<or> is_digit c"

definition separator :: "char \<Rightarrow> bool" where
  "separator c \<longleftrightarrow> c = CHR ''.'' \<or> c = CHR ''_'' \<or> c = CHR ''-''"

text \<open>\<open>containerdName\<close>: runs of letters and digits joined by single separators.\<close>

fun name_runs :: "bool \<Rightarrow> string \<Rightarrow> bool" where
  "name_runs need [] = (\<not> need)"
| "name_runs need (c # cs) = (if alnum c then name_runs False cs else \<not> need \<and> separator c \<and> name_runs True cs)"

definition containerd_name :: "string \<Rightarrow> bool" where
  "containerd_name s = name_runs True s"

definition max_name_length :: nat where "max_name_length = 76"

datatype name_error =
  Name_empty | Name_too_long string | Name_invalid string | Agent_invalid string | No_workspace_name string | No_room string

definition validate_segment :: "string \<Rightarrow> name_error option" where
  "validate_segment s = (if s = [] then Some Name_empty else if \<not> containerd_name s then Some (Name_invalid s) else None)"

definition validate_name :: "string \<Rightarrow> name_error option" where
  "validate_name s =
     (if s = [] then Some Name_empty
      else if max_name_length < length s then Some (Name_too_long s)
      else if \<not> containerd_name s then Some (Name_invalid s) else None)"

subsection \<open>Derivation\<close>

fun sanitise_loop :: "char option \<Rightarrow> string \<Rightarrow> string \<Rightarrow> string" where
  "sanitise_loop pending out [] = out"
| "sanitise_loop pending out (c # cs) =
     (if alnum c then
        sanitise_loop None ((case pending of Some p \<Rightarrow> if out \<noteq> [] then out @ [p] else out | None \<Rightarrow> out) @ [c]) cs
      else if separator c then sanitise_loop (case pending of None \<Rightarrow> Some c | Some p \<Rightarrow> Some p) out cs
      else sanitise_loop (case pending of None \<Rightarrow> Some CHR ''-'' | Some p \<Rightarrow> Some p) out cs)"

definition sanitise_segment :: "string \<Rightarrow> string" where
  "sanitise_segment s = sanitise_loop None [] s"

definition trim_separators :: "string \<Rightarrow> string" where
  "trim_separators s = trim_both ''._-'' s"

definition short_digest :: "string \<Rightarrow> string" where
  "short_digest s = digest 6 s"

lemma short_digest_length [simp]: "length (short_digest s) = 6"
  by (simp add: short_digest_def)

lemma short_digest_not_Nil [simp]: "short_digest s \<noteq> []"
  using short_digest_length [of s] by (metis list.size(3) zero_neq_numeral)

definition workspace_segment :: "string \<Rightarrow> string" where
  "workspace_segment path =
     (if path = [] then []
      else if path_dir path = path then ''root''
      else (let segment = sanitise_segment (path_base path) in if segment \<noteq> [] then segment else short_digest path))"

function compose_name :: "string \<Rightarrow> string \<Rightarrow> string \<Rightarrow> name_error + string" where
  "compose_name agent path dig =
     (if validate_segment agent \<noteq> None then Inl (Agent_invalid agent)
      else (let segment = workspace_segment path;
                budget = int max_name_length - int (length agent) - 1 - (if dig \<noteq> [] then int (length dig) + 1 else 0)
        in if segment = [] then Inl (No_workspace_name path)
           else if budget < 1 then Inl (No_room agent)
           else if budget < int (length segment) \<and> dig = [] then compose_name agent path (short_digest path)
           else (let (segment, dig) =
                  (if budget < int (length segment) then
                     (let cut = trim_separators (take (nat budget) segment) in if cut = [] then (dig, []) else (cut, dig))
                   else (segment, dig));
                  name = agent @ ''-'' @ segment @ (if dig \<noteq> [] then ''-'' @ dig else [])
             in case validate_name name of Some err \<Rightarrow> Inl err | None \<Rightarrow> Inr name)))"
  by pat_completeness auto
termination by (relation "measure (\<lambda>(_, _, d). if d = [] then 1 else 0)") auto

declare compose_name.simps [simp del]

definition derive_name :: "string \<Rightarrow> string \<Rightarrow> name_error + string" where
  "derive_name agent path = compose_name agent path []"

definition qualified_name :: "string \<Rightarrow> string \<Rightarrow> name_error + string" where
  "qualified_name agent path = compose_name agent path (short_digest path)"

text \<open>The five random bytes of an ephemeral name are an argument.\<close>

definition ephemeral_name :: "nat list \<Rightarrow> string \<Rightarrow> string \<Rightarrow> name_error + string" where
  "ephemeral_name buf agent path = compose_name agent path (hex_encode buf)"

subsection \<open>The hostname\<close>

fun host_label_loop :: "bool \<Rightarrow> string \<Rightarrow> string \<Rightarrow> string" where
  "host_label_loop pending out [] = out"
| "host_label_loop pending out (c # cs) =
     (let c' = lower_byte c
      in if is_lower c' \<or> is_digit c' then
           host_label_loop False ((if pending \<and> out \<noteq> [] then out @ ''-'' else out) @ [c']) cs
         else host_label_loop True out cs)"

definition hostname_label :: "string \<Rightarrow> string" where
  "hostname_label name = host_label_loop False [] name"

definition max_hostname_length :: nat where "max_hostname_length = 63"

definition hostname :: "string \<Rightarrow> string" where
  "hostname name =
     (let label = hostname_label name
      in if label = name \<and> length label \<le> max_hostname_length then label
         else (let dig = short_digest name; budget = max_hostname_length - length dig - 1;
                   label = (if budget < length label then trim_both ''-'' (take budget label) else label)
           in if label = [] then dig else label @ ''-'' @ dig))"

subsection \<open>The choice\<close>

text \<open>\<open>Info\<close>, as far as the choice reads it: the first workspace of the sandbox, empty where it has none.\<close>

record choice =
  ch_name :: string
  ch_exists :: bool
  ch_collided :: string

definition choose_name :: "string \<Rightarrow> string \<Rightarrow> (string \<Rightarrow> string option) \<Rightarrow> name_error + choice" where
  "choose_name agent path lookup =
     (case derive_name agent path of
        Inl err \<Rightarrow> Inl err
      | Inr preferred \<Rightarrow> (case qualified_name agent path of
          Inl err \<Rightarrow> Inl err
        | Inr qualified \<Rightarrow>
            (if lookup qualified \<noteq> None then Inr \<lparr>ch_name = qualified, ch_exists = True, ch_collided = []\<rparr>
             else (case lookup preferred of
                 None \<Rightarrow> Inr \<lparr>ch_name = preferred, ch_exists = False, ch_collided = []\<rparr>
               | Some ws \<Rightarrow>
                   if ws = [] \<or> ws = path then Inr \<lparr>ch_name = preferred, ch_exists = True, ch_collided = []\<rparr>
                   else Inr \<lparr>ch_name = qualified, ch_exists = False, ch_collided = ws\<rparr>))))"

subsection \<open>Lemmas on the grammar\<close>

lemma alnum_not_sep: "alnum c \<Longrightarrow> \<not> separator c"
  by (auto simp: alnum_def separator_def char_class_defs)

lemma lower_hex_alnum: "lower_hex c \<Longrightarrow> alnum c"
  by (auto simp: lower_hex_def alnum_def char_class_defs)

lemma name_runs_alnum: "(\<And>c. c \<in> set s \<Longrightarrow> alnum c) \<Longrightarrow> s \<noteq> [] \<Longrightarrow> name_runs n s"
proof (induction s arbitrary: n)
  case (Cons c s)
  then show ?case by (cases s) auto
qed simp

lemma name_runs_append: "name_runs n (s @ c # t) \<longleftrightarrow> name_runs n s \<and> separator c \<and> name_runs True t" if "separator c"
  using that by (induction n s rule: name_runs.induct) (auto dest: alnum_not_sep)

lemma name_runs_snoc: "alnum c \<Longrightarrow> name_runs n s \<Longrightarrow> name_runs n (s @ [c])"
  by (induction n s rule: name_runs.induct) auto

lemma sanitise_loop_runs: "(out = [] \<or> name_runs True out) \<Longrightarrow> (\<And>p. pending = Some p \<Longrightarrow> separator p) \<Longrightarrow>
    sanitise_loop pending out s = [] \<or> name_runs True (sanitise_loop pending out s)"
proof (induction pending out s rule: sanitise_loop.induct)
  case (2 pending out c cs)
  let ?out = "(case pending of Some p \<Rightarrow> if out \<noteq> [] then out @ [p] else out | None \<Rightarrow> out) @ [c]"
  show ?case
  proof (cases "alnum c")
    case True
    have "name_runs True ?out"
    proof (cases "out = [] \<or> pending = None")
      case True
      then show ?thesis using \<open>alnum c\<close> 2(4) name_runs_snoc [of c True out] by (auto split: option.split)
    next
      case False
      then obtain p where p: "pending = Some p" "separator p" "name_runs True out" using 2(4,5) by auto
      have "name_runs True (out @ p # [c])" unfolding name_runs_append [OF p(2)] using p \<open>alnum c\<close> by simp
      with p False show ?thesis by simp
    qed
    then show ?thesis using 2(1) [OF True] True by simp
  next
    case False
    have hyphen: "separator CHR ''-''" by (simp add: separator_def)
    show ?thesis
    proof (cases "separator c")
      case True
      have "\<And>p. (case pending of None \<Rightarrow> Some c | Some p \<Rightarrow> Some p) = Some p \<Longrightarrow> separator p"
        using 2(5) True by (auto split: option.splits)
      then show ?thesis using 2(2) [OF False True 2(4)] False True by simp
    next
      case nosep: False
      have "\<And>p. (case pending of None \<Rightarrow> Some CHR ''-'' | Some p \<Rightarrow> Some p) = Some p \<Longrightarrow> separator p"
        using 2(5) hyphen by (auto split: option.splits)
      then show ?thesis using 2(3) [OF False nosep 2(4)] False nosep by simp
    qed
  qed
qed simp

lemma sanitise_segment_runs: "sanitise_segment s = [] \<or> containerd_name (sanitise_segment s)"
  unfolding sanitise_segment_def containerd_name_def by (rule sanitise_loop_runs) auto

lemma name_runs_hd: "name_runs True s \<Longrightarrow> s \<noteq> [] \<and> alnum (hd s)"
  by (cases s) (auto split: if_splits)

lemma name_runs_last: "name_runs n s \<Longrightarrow> s \<noteq> [] \<Longrightarrow> alnum (last s)"
proof (induction n s rule: name_runs.induct)
  case (2 need c cs)
  then show ?case by (cases "cs = []") (auto split: if_splits)
qed simp

lemma name_runs_take: "name_runs n s \<Longrightarrow>
    n \<and> take k s = [] \<or> name_runs n (take k s) \<or> (\<exists>t c. take k s = t @ [c] \<and> separator c \<and> name_runs n t)"
proof (induction n s arbitrary: k rule: name_runs.induct)
  case (2 need c cs)
  show ?case
  proof (cases k)
    case (Suc k')
    show ?thesis
    proof (cases "alnum c")
      case True
      then have "name_runs False (take k' cs) \<or> (\<exists>t d. take k' cs = t @ [d] \<and> separator d \<and> name_runs False t)"
        using 2(1) [OF True, of k'] 2(3) by simp
      then show ?thesis
      proof
        assume "\<exists>t d. take k' cs = t @ [d] \<and> separator d \<and> name_runs False t"
        then obtain t d where "take k' cs = t @ [d]" "separator d" "name_runs False t" by blast
        then have "take k (c # cs) = (c # t) @ [d] \<and> separator d \<and> name_runs need (c # t)" using True Suc by simp
        then show ?thesis by blast
      qed (use True Suc in simp)
    next
      case False
      then have c: "\<not> need" "separator c" "name_runs True cs" using 2(3) by auto
      consider "take k' cs = []" | "name_runs True (take k' cs)" | t d where "take k' cs = t @ [d]" "separator d" "name_runs True t"
        using 2(2) [OF False c(3), of k'] by blast
      then show ?thesis
      proof cases
        case 1
        then show ?thesis using c Suc by (auto intro!: exI [of _ "[]"])
      next
        case (3 t d)
        then show ?thesis using c False Suc by (auto intro!: exI [of _ "c # t"] exI [of _ d])
      qed (use c False Suc in auto)
    qed
  qed simp
qed simp

lemma trim_separators_alt: "trim_separators s = rev (dropWhile separator (rev (dropWhile separator s)))"
proof -
  have "(\<lambda>c. c \<in> set ''._-'') = separator" by (auto simp: separator_def fun_eq_iff)
  then show ?thesis by (simp add: trim_separators_def trim_both_def trim_right_def del: set_simps)
qed

lemma trim_separators_runs:
  assumes "name_runs True s"
  shows "trim_separators s = s" and "separator c \<Longrightarrow> trim_separators (s @ [c]) = s"
proof -
  have hd: "dropWhile separator (s @ t) = s @ t" for t
    using name_runs_hd [OF assms] by (cases s) (auto dest: alnum_not_sep)
  have last: "dropWhile separator (rev s) = rev s"
    using name_runs_last [OF assms] name_runs_hd [OF assms] by (cases s rule: rev_cases) (auto dest: alnum_not_sep)
  show "trim_separators s = s" using hd [of "[]"] last by (simp add: trim_separators_alt)
  show "separator c \<Longrightarrow> trim_separators (s @ [c]) = s" using hd [of "[c]"] last by (simp add: trim_separators_alt)
qed

lemma cut_segment: "containerd_name s \<Longrightarrow> 0 < k \<Longrightarrow> containerd_name (trim_separators (take k s))"
  using name_runs_take [of True s k] name_runs_hd [of s]
  by (auto simp: containerd_name_def trim_separators_runs)

lemma trim_both_length: "length (trim_both cs s) \<le> length s"
  using trim_right_length [of cs "dropWhile (\<lambda>c. c \<in> set cs) s"] length_dropWhile_le [of "\<lambda>c. c \<in> set cs" s]
  by (simp add: trim_both_def)

lemma short_digest_runs: "containerd_name (short_digest s)"
  using short_digest_not_Nil by (auto simp: containerd_name_def short_digest_def intro!: name_runs_alnum lower_hex_alnum dest: digest_set)

lemma workspace_segment_runs: "path \<noteq> [] \<Longrightarrow> containerd_name (workspace_segment path)"
proof -
  have "containerd_name ''root''" by code_simp
  then show "path \<noteq> [] \<Longrightarrow> containerd_name (workspace_segment path)"
    using sanitise_segment_runs short_digest_runs by (auto simp: workspace_segment_def Let_def)
qed

lemma join_names: "containerd_name a \<Longrightarrow> containerd_name b \<Longrightarrow> containerd_name (a @ CHR ''-'' # b)"
  using name_runs_append [of "CHR ''-''" True a b] by (simp add: containerd_name_def separator_def)

subsection \<open>Derived names\<close>

lemma validate_name_ok: "validate_name s = None \<longleftrightarrow> containerd_name s \<and> length s \<le> 76"
  by (auto simp: validate_name_def max_name_length_def containerd_name_def)

lemma validate_segment_ok: "validate_segment s = None \<longleftrightarrow> containerd_name s"
  by (auto simp: validate_segment_def containerd_name_def)

lemma compose_with_digest:
  assumes "containerd_name agent" "path \<noteq> []" "containerd_name d" "length agent + length d + 3 \<le> 76"
  obtains seg where "compose_name agent path d = Inr (agent @ ''-'' @ seg @ ''-'' @ d)" "seg \<noteq> []"
    "validate_name (agent @ ''-'' @ seg @ ''-'' @ d) = None"
proof -
  define w where "w = workspace_segment path"
  define budget where "budget = 76 - length agent - length d - 2"
  have w: "containerd_name w" "w \<noteq> []" using workspace_segment_runs [OF assms(2)] name_runs_hd by (auto simp: w_def containerd_name_def)
  have d: "d \<noteq> []" using assms(3) by (auto simp: containerd_name_def)
  have b: "int max_name_length - int (length agent) - 1 - (if d \<noteq> [] then int (length d) + 1 else 0) = int budget" "0 < budget"
    using assms(4) d by (simp_all add: budget_def max_name_length_def)
  define seg where "seg = (if budget < length w then trim_separators (take budget w) else w)"
  have seg: "containerd_name seg" "seg \<noteq> []" "length seg \<le> budget"
    using w cut_segment [OF w(1) b(2)] trim_both_length [of "''._-''" "take budget w"] name_runs_hd
    by (auto simp: seg_def trim_separators_def containerd_name_def)
  have "containerd_name (agent @ ''-'' @ seg @ ''-'' @ d)"
    using join_names [OF assms(1) join_names [OF seg(1) assms(3)]] by simp
  then have ok: "validate_name (agent @ ''-'' @ seg @ ''-'' @ d) = None"
    using seg(3) b(2) assms(4) by (simp add: validate_name_ok budget_def)
  have "compose_name agent path d = Inr (agent @ ''-'' @ seg @ ''-'' @ d)"
  proof (cases "budget < length w")
    case True
    then have "seg = trim_separators (take budget w)" by (simp add: seg_def)
    with True show ?thesis using assms(1) w d b seg(2) ok
      by (subst compose_name.simps) (simp add: validate_segment_ok Let_def flip: w_def)
  next
    case False
    then have "seg = w" by (simp add: seg_def)
    with False show ?thesis using assms(1) w d b ok
      by (subst compose_name.simps) (simp add: validate_segment_ok Let_def flip: w_def)
  qed
  with seg(2) ok that show thesis by blast
qed

lemma derive_cases:
  assumes "containerd_name agent" "path \<noteq> []" "length agent \<le> 67"
  shows "derive_name agent path =
      (if length agent + 1 + length (workspace_segment path) \<le> 76 then Inr (agent @ ''-'' @ workspace_segment path)
       else qualified_name agent path)"
    and "length agent + 1 + length (workspace_segment path) \<le> 76 \<Longrightarrow> validate_name (agent @ ''-'' @ workspace_segment path) = None"
proof -
  define w where "w = workspace_segment path"
  have w: "containerd_name w" "w \<noteq> []" using workspace_segment_runs [OF assms(2)] name_runs_hd by (auto simp: w_def containerd_name_def)
  show ok: "length agent + 1 + length (workspace_segment path) \<le> 76 \<Longrightarrow> validate_name (agent @ ''-'' @ workspace_segment path) = None"
    using join_names [OF assms(1) w(1)] by (simp add: validate_name_ok flip: w_def)
  show "derive_name agent path =
      (if length agent + 1 + length (workspace_segment path) \<le> 76 then Inr (agent @ ''-'' @ workspace_segment path)
       else qualified_name agent path)"
    using assms(1,3) w ok unfolding derive_name_def
    by (subst compose_name.simps) (auto simp: validate_segment_ok Let_def qualified_name_def max_name_length_def simp flip: w_def)
qed

lemma names_exist:
  assumes "containerd_name agent" "path \<noteq> []" "length agent \<le> 67"
  obtains n q where "derive_name agent path = Inr n" "validate_name n = None" "prefix (agent @ ''-'') n"
    "qualified_name agent path = Inr q" "validate_name q = None" "prefix (agent @ ''-'') q" "suffix (CHR ''-'' # short_digest path) q"
proof -
  obtain seg where q: "qualified_name agent path = Inr (agent @ ''-'' @ seg @ ''-'' @ short_digest path)"
      "validate_name (agent @ ''-'' @ seg @ ''-'' @ short_digest path) = None"
    using compose_with_digest [OF assms(1,2) short_digest_runs, of path] assms(3) by (auto simp: qualified_name_def)
  have pre: "prefix (agent @ ''-'') (agent @ ''-'' @ t)" for t :: string by simp
  have suf: "suffix (CHR ''-'' # short_digest path) (agent @ ''-'' @ seg @ ''-'' @ short_digest path)"
    by (simp add: suffix_def)
  show thesis
  proof (cases "length agent + 1 + length (workspace_segment path) \<le> 76")
    case True
    show thesis by (rule that [OF _ derive_cases(2) [OF assms True] pre q pre suf]) (use True in \<open>simp add: derive_cases(1) [OF assms]\<close>)
  next
    case False
    show thesis by (rule that [OF _ q(2) pre q pre suf]) (use False q(1) in \<open>simp add: derive_cases(1) [OF assms]\<close>)
  qed
qed

subsection \<open>Hostnames\<close>

definition host_name_char :: "char \<Rightarrow> bool" where
  "host_name_char c \<longleftrightarrow> is_lower c \<or> is_digit c"

text \<open>A label of RFC 1123: lower-case letters, digits and inner hyphens, at most 63 of them.\<close>

definition legal_hostname :: "string \<Rightarrow> bool" where
  "legal_hostname s \<longleftrightarrow> s \<noteq> [] \<and> length s \<le> 63 \<and> list_all (\<lambda>c. host_name_char c \<or> c = CHR ''-'') s \<and>
     hd s \<noteq> CHR ''-'' \<and> last s \<noteq> CHR ''-''"

lemma lower_hex_host: "lower_hex c \<Longrightarrow> host_name_char c"
  by (auto simp: lower_hex_def host_name_char_def char_class_defs)

lemma host_name_char_hyphen [simp]: "\<not> host_name_char CHR ''-''"
  by (simp add: host_name_char_def char_class_defs)

definition label_shape :: "string \<Rightarrow> bool" where
  "label_shape s \<longleftrightarrow> list_all (\<lambda>c. host_name_char c \<or> c = CHR ''-'') s \<and> (s \<noteq> [] \<longrightarrow> host_name_char (hd s) \<and> host_name_char (last s))"

lemma label_loop_shape: "label_shape out \<Longrightarrow> label_shape (host_label_loop pending out s)"
proof (induction pending out s rule: host_label_loop.induct)
  case (2 pending out c cs)
  show ?case
  proof (cases "is_lower (lower_byte c) \<or> is_digit (lower_byte c)")
    case True
    then have "label_shape ((if pending \<and> out \<noteq> [] then out @ ''-'' else out) @ [lower_byte c])"
      using 2(3) by (auto simp: label_shape_def host_name_char_def hd_append)
    then show ?thesis using 2(1) [OF refl True] True by (simp add: Let_def)
  next
    case False
    then show ?thesis using 2(2) [OF refl False 2(3)] by (simp add: Let_def)
  qed
qed simp

lemma hostname_label_shape: "label_shape (hostname_label s)"
  unfolding hostname_label_def by (rule label_loop_shape) (simp add: label_shape_def)

lemma hyphens_dropped: "label_shape s \<Longrightarrow> s \<noteq> [] \<Longrightarrow> dropWhile (\<lambda>c. c \<in> set ''-'') s = s"
  by (cases s) (auto simp: label_shape_def)

lemma cut_label:
  assumes "label_shape s" "s \<noteq> []" "0 < k"
  shows "label_shape (trim_both ''-'' (take k s))" and "trim_both ''-'' (take k s) \<noteq> []"
proof -
  obtain c cs where c: "take k s = c # cs" "host_name_char c" using assms by (cases s; cases k) (auto simp: label_shape_def)
  have all: "list_all (\<lambda>c. host_name_char c \<or> c = CHR ''-'') (c # cs)"
  proof -
    have "set (c # cs) \<subseteq> set s" using set_take_subset [of k s] c(1) by simp
    then show ?thesis using assms(1) by (auto simp: label_shape_def list_all_iff)
  qed
  have d: "trim_both ''-'' (take k s) = trim_right ''-'' (c # cs)" using c by (auto simp: trim_both_def)
  obtain t where t: "c # cs = trim_right ''-'' (c # cs) @ t" "set t \<subseteq> set ''-''" using trim_right_prefix by blast
  show ne: "trim_both ''-'' (take k s) \<noteq> []"
  proof
    assume "trim_both ''-'' (take k s) = []"
    with t d have "c \<in> set ''-''" by (metis append_Nil list.set_intros(1) subsetD)
    with c(2) show False by simp
  qed
  then have "hd (trim_right ''-'' (c # cs)) = c" using d t(1) by (metis hd_append2 list.sel(1))
  moreover have "last (trim_right ''-'' (c # cs)) \<noteq> CHR ''-''" using trim_right_last [of "''-''" "c # cs"] ne d by simp
  moreover have "list_all (\<lambda>c. host_name_char c \<or> c = CHR ''-'') (trim_right ''-'' (c # cs))"
    using all t(1) by (metis list_all_append)
  moreover have "last (trim_right ''-'' (c # cs)) \<in> set (trim_right ''-'' (c # cs))" using ne d by simp
  ultimately show "label_shape (trim_both ''-'' (take k s))" using c(2) d by (auto simp: label_shape_def list_all_iff)
qed

lemma hostname_cases:
  obtains (same) "hostname s = s" "hostname_label s = s" "length s \<le> 63"
    | (folded) label where "hostname s = label @ short_digest s" "label = [] \<or> (\<exists>l. label = l @ ''-'' \<and> l \<noteq> [] \<and> label_shape l)"
        "length label \<le> 57" "hostname_label s \<noteq> s \<or> 63 < length s"
proof (cases "hostname_label s = s \<and> length s \<le> 63")
  case True
  then show thesis using same by (simp add: hostname_def Let_def max_hostname_length_def)
next
  case False
  define l where "l = (if 56 < length (hostname_label s) then trim_both ''-'' (take 56 (hostname_label s)) else hostname_label s)"
  have "length (trim_both ''-'' (take 56 (hostname_label s))) \<le> 56"
    by (rule order_trans [OF trim_both_length]) simp
  then have l2: "length l \<le> 56" by (simp add: l_def)
  have l1: "label_shape l"
    using cut_label(1) [OF hostname_label_shape, of s 56] hostname_label_shape [of s]
    by (cases "hostname_label s = []") (auto simp: l_def)
  have h: "hostname s = (if l = [] then short_digest s else l @ ''-'' @ short_digest s)"
    using False by (auto simp: hostname_def Let_def max_hostname_length_def l_def)
  show thesis
  proof (cases "l = []")
    case True
    then show thesis using folded [of "[]"] h False by auto
  next
    case ne: False
    then show thesis using folded [of "l @ ''-''"] h l1 l2 False by auto
  qed
qed

lemma label_shape_legal:
  assumes "label_shape s" "s \<noteq> []" "length s \<le> 63"
  shows "legal_hostname s"
  using assms by (auto simp: label_shape_def legal_hostname_def)

lemma digest_shape: "label_shape (short_digest s)"
proof -
  have "host_name_char c" if "c \<in> set (short_digest s)" for c
    using that by (auto simp: short_digest_def dest: digest_set lower_hex_host)
  then show ?thesis using short_digest_not_Nil [of s] by (simp add: label_shape_def list_all_iff)
qed

lemma shape_join: "label_shape a \<Longrightarrow> a \<noteq> [] \<Longrightarrow> label_shape b \<Longrightarrow> b \<noteq> [] \<Longrightarrow> label_shape (a @ ''-'' @ b)"
  by (auto simp: label_shape_def)

lemma hostname_is_legal: "s \<noteq> [] \<Longrightarrow> legal_hostname (hostname s)"
proof (cases rule: hostname_cases [of s])
  case same
  moreover assume "s \<noteq> []"
  ultimately show ?thesis using label_shape_legal [of s] hostname_label_shape [of s] by simp
next
  case (folded label)
  have "label_shape (hostname s)" using folded(1,2) digest_shape [of s] shape_join [of _ "short_digest s"] by auto
  then show ?thesis using label_shape_legal [of "hostname s"] folded(1,3) by simp
qed

lemma verbatim_loop: "out \<noteq> [] \<Longrightarrow> name_runs pending s \<Longrightarrow> list_all (\<lambda>c. host_name_char c \<or> c = CHR ''-'') s \<Longrightarrow>
    host_label_loop pending out s = out @ (if pending then ''-'' else []) @ s"
proof (induction pending out s rule: host_label_loop.induct)
  case (2 pending out c cs)
  have low: "lower_byte c = c" using 2(5) by (auto simp: host_name_char_def char_class_defs intro!: lower_byte_id)
  show ?case
  proof (cases "host_name_char c")
    case True
    then have "alnum c" by (auto simp: host_name_char_def alnum_def)
    then show ?thesis using 2(1) [OF refl] 2(3-5) True low by (auto simp: host_name_char_def)
  next
    case False
    then have "c = CHR ''-''" "\<not> alnum c" using 2(5) by (auto simp: alnum_def char_class_defs)
    then show ?thesis using 2(2) [OF refl] 2(3-5) False low by (auto simp: host_name_char_def separator_def)
  qed
qed simp

lemma hostname_verbatim:
  assumes "containerd_name s" "list_all (\<lambda>c. host_name_char c \<or> c = CHR ''-'') s" "length s \<le> 63"
  shows "hostname s = s"
proof -
  obtain c cs where s: "s = c # cs" "alnum c" "name_runs False cs"
    using assms(1) by (cases s) (auto simp: containerd_name_def split: if_splits)
  then have c: "host_name_char c" "lower_byte c = c"
    using assms(2) by (auto simp: host_name_char_def alnum_def char_class_defs intro!: lower_byte_id)
  then have "hostname_label s = s"
    using verbatim_loop [of "[c]" False cs] s assms(2) by (auto simp: hostname_label_def host_name_char_def Let_def)
  then show ?thesis using assms(3) by (simp add: hostname_def max_hostname_length_def Let_def)
qed

subsection \<open>Properties\<close>

text \<open>
  C25: a sandbox is found again. For an agent of up to 67 characters every workspace yields a name the program accepts; a name chosen for a new
  sandbox is free, a sandbox attached to belongs to this workspace or carries its digest, and once the sandbox exists under the chosen name the
  same agent and workspace choose it again, whatever else exists.
\<close>

theorem chosen_again:
  assumes "containerd_name agent" "path \<noteq> []" "length agent \<le> 67"
  shows "\<exists>c. choose_name agent path lookup = Inr c \<and> validate_name (ch_name c) = None \<and> prefix (agent @ ''-'') (ch_name c) \<and>
    choose_name agent path (lookup(ch_name c \<mapsto> path)) = Inr (c\<lparr>ch_exists := True, ch_collided := []\<rparr>) \<and>
    (\<not> ch_exists c \<longrightarrow> lookup (ch_name c) = None) \<and>
    (ch_exists c \<longrightarrow> lookup (ch_name c) \<in> {Some [], Some path} \<or> suffix (CHR ''-'' # short_digest path) (ch_name c))"
proof -
  obtain n q where n: "derive_name agent path = Inr n" "validate_name n = None" "prefix (agent @ ''-'') n"
    "qualified_name agent path = Inr q" "validate_name q = None" "prefix (agent @ ''-'') q" "suffix (CHR ''-'' # short_digest path) q"
    using names_exist [OF assms] by blast
  note choose = choose_name_def n(1,4)
  consider "lookup q \<noteq> None" | "lookup q = None" "lookup n = None" | ws where "lookup q = None" "lookup n = Some ws" "ws = [] \<or> ws = path"
    | ws where "lookup q = None" "lookup n = Some ws" "ws \<noteq> []" "ws \<noteq> path" by (cases "lookup n") auto
  then show ?thesis
  proof cases
    case 1
    then show ?thesis using n(5,6,7) by (auto simp: choose)
  next
    case 2
    then show ?thesis using n(2,3) by (auto simp: choose)
  next
    case (3 ws)
    then show ?thesis using n(2,3) by (cases "n = q") (auto simp: choose)
  next
    case (4 ws)
    then show ?thesis using n(5,6) by (auto simp: choose)
  qed
qed

theorem chosen_again_witness:
  "\<exists>c. choose_name ''claude'' ''/src/my repo'' (\<lambda>_. None) = Inr c \<and> ch_name c = ''claude-my-repo'' \<and>
     validate_name (ch_name c) = None"
proof -
  have ok: "containerd_name ''claude''" by code_simp
  have w: "workspace_segment ''/src/my repo'' = ''my-repo''" by code_simp
  obtain c where c: "choose_name ''claude'' ''/src/my repo'' (\<lambda>_. None) = Inr c" "validate_name (ch_name c) = None"
    using chosen_again [OF ok, of "''/src/my repo''" "\<lambda>_. None"] by auto
  have "derive_name ''claude'' ''/src/my repo'' = Inr ''claude-my-repo''"
    using derive_cases(1) [OF ok, of "''/src/my repo''"] by (simp add: w)
  with c show ?thesis by (auto simp: choose_name_def split: sum.splits)
qed

text \<open>
  Guests have legal and distinct hostnames. Every sandbox gives its guest a label of RFC 1123, its own name where that is
  one; two sandboxes share a hostname only if six digits of their digests agree, or one is named by the other's folded
  name and digest.
\<close>

theorem guest_hostnames:
  assumes "validate_name a = None" "validate_name b = None"
  shows "legal_hostname (hostname a) \<and>
    (list_all (\<lambda>c. host_name_char c \<or> c = CHR ''-'') a \<and> length a \<le> 63 \<longrightarrow> hostname a = a) \<and>
    (hostname a = hostname b \<longrightarrow> a = b \<or> short_digest a = short_digest b \<or>
       hostname a = a \<and> suffix (short_digest b) a \<or> hostname b = b \<and> suffix (short_digest a) b)"
proof -
  have "a \<noteq> []" "containerd_name a" using assms(1) by (auto simp: validate_name_def split: if_splits)
  moreover have "a = b \<or> short_digest a = short_digest b \<or> hostname a = a \<and> suffix (short_digest b) a \<or> hostname b = b \<and> suffix (short_digest a) b"
    if eq: "hostname a = hostname b"
  proof (cases rule: hostname_cases [of a])
    case same
    note sa = this
    show ?thesis
    proof (cases rule: hostname_cases [of b])
      case same
      with sa eq show ?thesis by simp
    next
      case (folded lb)
      with sa eq have "a = lb @ short_digest b" by simp
      with sa show ?thesis by (auto simp: suffix_def)
    qed
  next
    case (folded la)
    note fa = this
    show ?thesis
    proof (cases rule: hostname_cases [of b])
      case same
      with fa eq have "b = la @ short_digest a" by simp
      with same show ?thesis by (auto simp: suffix_def)
    next
      case (folded lb)
      have "la @ short_digest a = lb @ short_digest b" using fa(1) folded(1) eq by simp
      then show ?thesis by (simp add: append_eq_append_conv)
    qed
  qed
  ultimately show ?thesis using hostname_is_legal hostname_verbatim by blast
qed

theorem guest_hostnames_witness:
  "hostname ''claude-myrepo'' = ''claude-myrepo'' \<and> legal_hostname (hostname ''claude-My.Repo'')"
proof -
  have ok: "validate_name ''claude-myrepo'' = None" "validate_name ''claude-My.Repo'' = None"
      "list_all (\<lambda>c. host_name_char c \<or> c = CHR ''-'') ''claude-myrepo''" by code_simp+
  show ?thesis using guest_hostnames [OF ok(1,2)] guest_hostnames [OF ok(2,1)] ok(3) by simp
qed

end
