(* ===== verification/Named_Registry.thy ===== *)
theory Named_Registry
  imports Boks_Prelude
begin

section \<open>Ordered registries with replacement\<close>

text \<open>
  Agents and services are kept in ordered registries with one contract: an entry that passes its checks replaces the one
  of its name in place, or is appended. The locale states the contract of one addition; what follows for
  any number of them is proved once.
\<close>

fun add_all :: "('a \<Rightarrow> 'a list \<Rightarrow> 'e + 'a list) \<Rightarrow> 'a list \<Rightarrow> 'a list \<Rightarrow> 'e + 'a list" where
  "add_all add [] r = Inr r"
| "add_all add (a # as) r = (case add a r of Inl e \<Rightarrow> Inl e | Inr r' \<Rightarrow> add_all add as r')"

locale named_registry =
  fixes name_of :: "'a \<Rightarrow> string"
    and add :: "'a \<Rightarrow> 'a list \<Rightarrow> 'e + 'a list"
    and lookup :: "string \<Rightarrow> 'a list \<Rightarrow> 'a option"
    and kept :: "'a \<Rightarrow> 'a"
    and accepted :: "'a \<Rightarrow> bool"
  assumes add_accepted: "is_ok (add a r) \<longleftrightarrow> accepted a"
    and add_names: "add a r = Inr r' \<Longrightarrow> map name_of r' = (if name_of a \<in> set (map name_of r) then map name_of r else map name_of r @ [name_of a])"
    and add_lookup: "add a r = Inr r' \<Longrightarrow> lookup n r' = (if n = name_of a then Some (kept a) else lookup n r)"
    and lookup_empty: "lookup n [] = None"
begin

lemma add_distinct: "add a r = Inr r' \<Longrightarrow> distinct (map name_of r) \<Longrightarrow> distinct (map name_of r')"
  using add_names [of a r r'] by simp

lemma all_accepted: "is_ok (add_all add as r) \<longleftrightarrow> list_all accepted as"
proof (induction as arbitrary: r)
  case (Cons a as)
  show ?case using Cons.IH add_accepted [of a r] by (cases "add a r") auto
qed simp

lemma all_distinct: "add_all add as r = Inr r' \<Longrightarrow> distinct (map name_of r) \<Longrightarrow> distinct (map name_of r')"
proof (induction as arbitrary: r)
  case (Cons a as)
  then show ?case by (cases "add a r") (auto dest: add_distinct)
qed simp

lemma all_lookup:
  "add_all add as r = Inr r' \<Longrightarrow> lookup n r' = (case find (\<lambda>a. name_of a = n) (rev as) of Some a \<Rightarrow> Some (kept a) | None \<Rightarrow> lookup n r)"
proof (induction as arbitrary: r' rule: rev_induct)
  case (snoc a as)
  have split: "add_all add (as @ [a]) r = (case add_all add as r of Inl e \<Rightarrow> Inl e | Inr s \<Rightarrow> add a s)"
  proof (induction as arbitrary: r)
    case (Cons b bs)
    then show ?case by (cases "add b r") simp_all
  qed (simp split: sum.split)
  then obtain s where s: "add_all add as r = Inr s" "add a s = Inr r'" using snoc.prems by (auto split: sum.splits)
  show ?case using snoc.IH [OF s(1)] add_lookup [OF s(2), of n] by auto
qed simp

end

end
