(* ===== verification/Agent_Registry.thy ===== *)
theory Agent_Registry
  imports Policy_Resolve Sandbox_Name Named_Registry
begin

section \<open>Agents: \<open>internal/agent/agent.go\<close>\<close>

text \<open>
  What a sandbox runs: an image, the command line with the arguments of a run, the destinations an agent needs or must not
  reach, and the registry agents are looked up in by name.
\<close>

record agent =
  ag_name :: string
  ag_summary :: string
  ag_image :: string
  ag_init :: "string list"
  ag_command :: "string list"
  ag_args :: string
  ag_env :: "string list"
  ag_allow :: "(string \<times> string) list"
  ag_deny :: "(string \<times> string) list"
  ag_credentials :: "string list"

abbreviation args_append :: string where "args_append \<equiv> ''append''"
abbreviation args_command :: string where "args_command \<equiv> ''command''"

definition allow_rules :: "agent \<Rightarrow> rule_spec list" where
  "allow_rules a = map (\<lambda>(s, why). \<lparr>rs_action = Allow, rs_spec = s, rs_note = why, rs_scope = []\<rparr>) (ag_allow a)"

definition agent_rules :: "agent \<Rightarrow> rule_spec list" where
  "agent_rules a = allow_rules a @ map (\<lambda>(s, why). \<lparr>rs_action = Deny, rs_spec = s, rs_note = why, rs_scope = []\<rparr>) (ag_deny a)"

definition runnable :: "agent \<Rightarrow> bool" where
  "runnable a \<longleftrightarrow> ag_image a \<noteq> []"

definition bare :: "agent \<Rightarrow> agent" where
  "bare a = a\<lparr>ag_init := []\<rparr>"

definition argv :: "agent \<Rightarrow> string list \<Rightarrow> string list" where
  "argv a extra =
     (if extra = [] then ag_init a @ ag_command a
      else if ag_args a = args_command \<or> ag_command a = [] then ag_init a @ extra
      else ag_init a @ ag_command a @ extra)"

text \<open>The grammar of a name is the one of sandbox names.\<close>

definition agent_name_ok :: "string \<Rightarrow> bool" where
  "agent_name_ok s = name_runs True s"

definition max_agent_name :: nat where "max_agent_name = 32"

datatype agent_error = Agent_name string | Agent_name_long string | Agent_allow string string rule_error | Agent_unknown string "string list" | Agent_no_image string

fun put_agent :: "agent \<Rightarrow> agent list \<Rightarrow> agent list" where
  "put_agent a [] = [a]"
| "put_agent a (b # bs) = (if ag_name b = ag_name a then a # bs else b # put_agent a bs)"

definition default_args :: "agent \<Rightarrow> agent" where
  "default_args a = (if ag_args a = [] then a\<lparr>ag_args := args_append\<rparr> else a)"

fun bad_allow :: "(string \<times> string) list \<Rightarrow> (string \<times> rule_error) option" where
  "bad_allow [] = None"
| "bad_allow ((s, why) # ds) = (case parse_rule Allow s of Inl e \<Rightarrow> Some (s, e) | Inr _ \<Rightarrow> bad_allow ds)"

definition add_agent :: "agent \<Rightarrow> agent list \<Rightarrow> agent_error + agent list" where
  "add_agent a r =
     (if \<not> agent_name_ok (ag_name a) then Inl (Agent_name (ag_name a))
      else if max_agent_name < length (ag_name a) then Inl (Agent_name_long (ag_name a))
      else (case bad_allow (ag_allow a) of
          Some (s, e) \<Rightarrow> Inl (Agent_allow (ag_name a) s e)
        | None \<Rightarrow> Inr (put_agent (default_args a) r)))"

fun lookup_agent :: "string \<Rightarrow> agent list \<Rightarrow> agent option" where
  "lookup_agent n [] = None"
| "lookup_agent n (a # as) = (if ag_name a = n then Some a else lookup_agent n as)"

definition known_agent :: "agent list \<Rightarrow> string \<Rightarrow> bool" where
  "known_agent r n \<longleftrightarrow> lookup_agent n r \<noteq> None"

definition agent_names :: "agent list \<Rightarrow> string list" where
  "agent_names r = map ag_name r"

definition resolve_agent :: "agent list \<Rightarrow> string \<Rightarrow> agent_error + agent" where
  "resolve_agent r n = (case lookup_agent n r of None \<Rightarrow> Inl (Agent_unknown n (agent_names r)) | Some a \<Rightarrow> Inr a)"

definition require_runnable :: "agent \<Rightarrow> agent_error option" where
  "require_runnable a = (if runnable a then None else Some (Agent_no_image (ag_name a)))"

subsection \<open>Lemmas\<close>

definition agent_accepted :: "agent \<Rightarrow> bool" where
  "agent_accepted a \<longleftrightarrow> agent_name_ok (ag_name a) \<and> length (ag_name a) \<le> 32 \<and> list_all (\<lambda>(s, _). is_ok (parse_rule Allow s)) (ag_allow a)"

lemma bad_allow_None: "bad_allow ds = None \<longleftrightarrow> list_all (\<lambda>(s, _). is_ok (parse_rule Allow s)) ds"
  by (induction ds rule: bad_allow.induct) (auto simp: is_ok_def split: sum.splits)

lemma default_args_name [simp]: "ag_name (default_args a) = ag_name a" "ag_allow (default_args a) = ag_allow a"
  by (simp_all add: default_args_def)

lemma add_agent_ok: "is_ok (add_agent a r) \<longleftrightarrow> agent_accepted a"
  using bad_allow_None [of "ag_allow a"]
  by (auto simp: add_agent_def agent_accepted_def max_agent_name_def split: option.splits)

lemma add_agent_Inr: "add_agent a r = Inr r' \<longleftrightarrow> agent_accepted a \<and> r' = put_agent (default_args a) r"
  using add_agent_ok [of a r] by (auto simp: add_agent_def is_ok_def split: if_splits option.splits sum.splits)

lemma put_agent_names: "map ag_name (put_agent a r) = (if ag_name a \<in> set (map ag_name r) then map ag_name r else map ag_name r @ [ag_name a])"
  by (induction r) auto

lemma put_agent_lookup: "lookup_agent n (put_agent a r) = (if n = ag_name a then Some a else lookup_agent n r)"
  by (induction r) auto

interpretation agents: named_registry ag_name add_agent lookup_agent default_args agent_accepted
  by unfold_locales (auto simp: add_agent_ok add_agent_Inr put_agent_names put_agent_lookup)

lemma lookup_agent_in: "lookup_agent n r = Some a \<Longrightarrow> a \<in> set r \<and> ag_name a = n"
  by (induction r) (auto split: if_splits)

subsection \<open>Properties\<close>

lemma accepted_kept: "add_all add_agent as r = Inr r' \<Longrightarrow> list_all (\<lambda>a. agent_accepted a \<and> ag_args a \<noteq> []) r \<Longrightarrow>
    list_all (\<lambda>a. agent_accepted a \<and> ag_args a \<noteq> []) r'"
proof (induction as arbitrary: r)
  case (Cons a as)
  then obtain s where s: "add_agent a r = Inr s" "add_all add_agent as s = Inr r'" by (auto split: sum.splits)
  have "agent_accepted (default_args a) \<and> ag_args (default_args a) \<noteq> []"
    using s(1) by (auto simp: add_agent_Inr agent_accepted_def default_args_def)
  moreover have "list_all P (put_agent b r)" if "P b" "list_all P r" for P b r
    using that by (induction r) auto
  ultimately have "list_all (\<lambda>a. agent_accepted a \<and> ag_args a \<noteq> []) s"
    using Cons.prems(2) s(1) by (simp add: add_agent_Inr)
  with s(2) show ?case by (rule Cons.IH)
qed simp

text \<open>
  C38: a registry built by any additions holds each name once and gives for a name the last definition that was added under
  it. Every agent it gives has allow rules that parse (its denies are not checked when it is added), an argument mode, and a
  name from which a valid sandbox name is derived for every workspace.
\<close>

theorem registered_agents:
  assumes "add_all add_agent as [] = Inr r" "lookup_agent n r = Some a" "path \<noteq> []"
  shows "distinct (map ag_name r) \<and> Some a = map_option default_args (find (\<lambda>b. ag_name b = n) (rev as)) \<and>
    list_all (\<lambda>s. is_ok (parse_rule (rs_action s) (rs_spec s))) (allow_rules a) \<and> ag_args a \<noteq> [] \<and>
    (\<exists>m. derive_name (ag_name a) path = Inr m \<and> validate_name m = None \<and> prefix (ag_name a @ ''-'') m)"
proof -
  have a: "agent_accepted a" "ag_args a \<noteq> []"
    using accepted_kept [OF assms(1)] lookup_agent_in [OF assms(2)] by (auto simp: list_all_iff)
  then have "containerd_name (ag_name a)" "length (ag_name a) \<le> 67"
    by (simp_all add: agent_accepted_def agent_name_ok_def containerd_name_def)
  then obtain m where "derive_name (ag_name a) path = Inr m" "validate_name m = None" "prefix (ag_name a @ ''-'') m"
    using names_exist [of "ag_name a" path] assms(3) by blast
  moreover have "Some a = map_option default_args (find (\<lambda>b. ag_name b = n) (rev as))"
    using agents.all_lookup [OF assms(1), of n] assms(2) by (auto split: option.splits)
  moreover have "list_all (\<lambda>s. is_ok (parse_rule (rs_action s) (rs_spec s))) (allow_rules a)"
    using a(1) by (auto simp: agent_accepted_def allow_rules_def list_all_iff)
  ultimately show ?thesis using agents.all_distinct [OF assms(1)] a(2) by auto
qed

definition agent_ex :: "string \<Rightarrow> agent" where
  "agent_ex n = \<lparr>ag_name = n, ag_summary = [], ag_image = ''i'', ag_init = [''/tini''], ag_command = [''/bin/sh''], ag_args = args_command,
     ag_env = [], ag_allow = [(''a.b:443'', ''its service'')], ag_deny = [], ag_credentials = [''key'']\<rparr>"

theorem registered_agents_witness:
  "\<exists>r m. add_all add_agent [agent_ex ''shell''] [] = Inr r \<and> derive_name ''shell'' ''/w'' = Inr m \<and> validate_name m = None"
proof -
  have r: "add_all add_agent [agent_ex ''shell''] [] = Inr [agent_ex ''shell'']" "lookup_agent ''shell'' [agent_ex ''shell''] = Some (agent_ex ''shell'')"
    by code_simp+
  show ?thesis using registered_agents [OF r, of "''/w''"] r(1) by (auto simp: agent_ex_def)
qed

text \<open>A deny of a definition is not checked when it is registered, although an allow is.\<close>

theorem bad_deny_registered:
  "is_ok (add_agent ((agent_ex ''shell'')\<lparr>ag_deny := [('':x'', [])]\<rparr>) []) \<and> \<not> is_ok (parse_rule Deny '':x'') \<and>
   \<not> is_ok (add_agent ((agent_ex ''shell'')\<lparr>ag_allow := [('':x'', [])]\<rparr>) [])"
  by code_simp

end
