(* ===== verification/Network_Plan.thy ===== *)
theory Network_Plan
  imports Boks_Digest Boks_Path
begin

section \<open>The plan of a sandbox's network: \<open>internal/network/network.go\<close>\<close>

text \<open>
  What a sandbox is created with: where its link socket is, the addresses inside its network, and the
  annotations the runtime reads at boot, from which the mode is read back later. The two reads of randomness
  are arguments.
\<close>

unbundle bit_operations_syntax

subsection \<open>Modes\<close>

definition parse_mode :: "string \<Rightarrow> string option" where
  "parse_mode s =
     (let m = to_lower (trim_space s)
      in if m = ''none'' then Some ''none'' else if m = ''nat'' \<or> m = [] then Some ''nat'' else None)"

definition vm_net :: string where "vm_net = ''io.containerd.nerdbox.network''"
definition ctr_net :: string where "ctr_net = ''io.containerd.nerdbox.ctr.network''"
definition ctr_dns :: string where "ctr_dns = ''io.containerd.nerdbox.ctr.dns''"

definition mode_from_annotations :: "(string \<Rightarrow> string option) \<Rightarrow> string \<times> bool" where
  "mode_from_annotations m =
     (if m (vm_net @ ''.0'') = None then (''none'', False)
      else if m (ctr_net @ ''.0'') \<noteq> None then (''nat'', True)
      else (''none'', True))"

subsection \<open>The socket\<close>

text \<open>\<open>sanitize\<close>: every rune that is not a letter, a digit, a hyphen or an underscore becomes one hyphen.\<close>

definition dir_char :: "char \<Rightarrow> bool" where
  "dir_char c \<longleftrightarrow> is_lower c \<or> is_upper c \<or> is_digit c \<or> c = CHR ''-'' \<or> c = CHR ''_''"

function sanitize :: "string \<Rightarrow> string" where
  "sanitize s =
     (if s = [] then []
      else if dir_char (hd s) then hd s # sanitize (tl s)
      else CHR ''-'' # sanitize (drop (rune_width s) s))"
  by pat_completeness auto

termination by (relation "measure length") auto

declare sanitize.simps [simp del]

definition socket_limit :: nat where "socket_limit = 104"

definition sandbox_dir_name :: "string \<Rightarrow> string \<Rightarrow> string" where
  "sandbox_dir_name dir sandbox =
     (let name = sanitize sandbox;
          budget = int socket_limit - 1 - int (length (path_join [dir, ''x'', ''net.sock''])) + 1
      in if int (length name) \<le> budget then name
         else (let d = digest 12 sandbox; keep = budget - int (length d) - 1
           in if keep \<le> 0 then d else trim_right ''-_'' (take (nat keep) name) @ ''-'' @ d))"

definition link_socket :: "string \<Rightarrow> string \<Rightarrow> string" where
  "link_socket dir sandbox = path_join [dir, sandbox_dir_name dir sandbox, ''net.sock'']"

definition check_socket_path :: "string \<Rightarrow> nat option" where
  "check_socket_path p = (if socket_limit \<le> length p then Some (length p) else None)"

subsection \<open>Hardware addresses\<close>

definition random_mac :: "8 word list \<Rightarrow> 8 word list" where
  "random_mac buf = (case buf of [] \<Rightarrow> [] | b # bs \<Rightarrow> ((b OR 2) AND NOT 1) # bs)"

definition mac_string :: "8 word list \<Rightarrow> string" where
  "mac_string bs = join_with '':'' (map (\<lambda>b. hex_encode [unat b]) bs)"

subsection \<open>The plan\<close>

record net_config =
  nc_mode :: string
  nc_sandbox :: string
  nc_dir :: string
  nc_mtu :: int
  nc_subnet :: string
  nc_gateway :: string
  nc_guest :: string

record plan =
  pl_mode :: string
  pl_socket :: string
  pl_vm_mac :: string
  pl_gateway_mac :: string
  pl_guest :: ip_prefix
  pl_gateway :: addr
  pl_subnet :: ip_prefix
  pl_mtu :: int

datatype plan_error =
  Unknown_mode string | No_sandbox_name | No_runtime_dir | Bad_subnet string | Bad_gateway string | Bad_guest string |
  Gateway_outside | Guest_outside | Address_shared | No_randomness | Socket_too_long nat

definition or_default :: "string \<Rightarrow> string \<Rightarrow> string" where
  "or_default v d = (if v = [] then d else v)"

definition new_plan :: "8 word list option \<Rightarrow> 8 word list option \<Rightarrow> net_config \<Rightarrow> plan_error + plan" where
  "new_plan rand1 rand2 c =
     (let mode = or_default (nc_mode c) ''nat'' in
      if parse_mode mode = None then Inl (Unknown_mode mode)
      else if nc_sandbox c = [] then Inl No_sandbox_name
      else if nc_dir c = [] then Inl No_runtime_dir
      else (case parse_prefix (or_default (nc_subnet c) ''192.168.127.0/24'') of
          None \<Rightarrow> Inl (Bad_subnet (nc_subnet c))
        | Some subnet \<Rightarrow> (case parse_addr (or_default (nc_gateway c) ''192.168.127.1'') of
          None \<Rightarrow> Inl (Bad_gateway (nc_gateway c))
        | Some gateway \<Rightarrow> (case parse_addr (or_default (nc_guest c) ''192.168.127.2'') of
          None \<Rightarrow> Inl (Bad_guest (nc_guest c))
        | Some guest \<Rightarrow>
            if \<not> prefix_contains subnet gateway then Inl Gateway_outside
            else if \<not> prefix_contains subnet guest then Inl Guest_outside
            else if guest = gateway then Inl Address_shared
            else (case (rand1, rand2) of
                (Some b1, Some b2) \<Rightarrow>
                  (let socket = link_socket (nc_dir c) (nc_sandbox c) in
                   case check_socket_path socket of
                     Some n \<Rightarrow> Inl (Socket_too_long n)
                   | None \<Rightarrow> Inr \<lparr>pl_mode = mode, pl_socket = socket, pl_vm_mac = mac_string (random_mac b1),
                       pl_gateway_mac = mac_string (random_mac b2),
                       pl_guest = \<lparr>pfx_addr = guest, pfx_bits = pfx_bits subnet\<rparr>, pl_gateway = gateway, pl_subnet = subnet,
                       pl_mtu = (if nc_mtu c \<le> 0 then 1500 else nc_mtu c)\<rparr>)
              | _ \<Rightarrow> Inl No_randomness)))))"

definition annotations :: "plan \<Rightarrow> string \<Rightarrow> string option" where
  "annotations p =
     (let vm = [vm_net @ ''.0'' \<mapsto> join_with '','' [''socket='' @ pl_socket p, ''mode=unixstream'', ''mac='' @ pl_vm_mac p]]
      in if pl_mode p = ''none'' then vm
         else vm(ctr_net @ ''.0'' \<mapsto> join_with '','' [''vmmac='' @ pl_vm_mac p, ''addr='' @ prefix_string (pl_guest p),
                    ''gw='' @ addr_string (pl_gateway p), ''ifname=eth0''],
                ctr_dns \<mapsto> ''nameserver='' @ addr_string (pl_gateway p)))"

subsection \<open>Lemmas on the socket\<close>

lemma sanitize_Nil [simp]: "sanitize [] = []"
  by (subst sanitize.simps) simp

lemma sanitize_Cons: "sanitize (c # s) = (if dir_char c then c # sanitize s else CHR ''-'' # sanitize (drop (rune_width (c # s)) (c # s)))"
  by (subst sanitize.simps) simp

lemma sanitize_not_Nil [simp]: "sanitize s = [] \<longleftrightarrow> s = []"
  by (subst sanitize.simps) simp

lemma sanitize_set: "c \<in> set (sanitize s) \<Longrightarrow> dir_char c"
proof (induction s rule: sanitize.induct)
  case (1 s)
  then show ?case by (subst (asm) (3) sanitize.simps) (auto split: if_splits simp: dir_char_def)
qed

lemma sanitize_id: "list_all dir_char s \<Longrightarrow> sanitize s = s"
  by (induction s) (simp_all add: sanitize_Cons)

lemma lower_hex_dir: "lower_hex c \<Longrightarrow> dir_char c"
  by (auto simp: lower_hex_def dir_char_def char_class_defs)

lemma dir_char_elem: "w \<noteq> [] \<Longrightarrow> (\<And>c. c \<in> set w \<Longrightarrow> dir_char c) \<Longrightarrow> plain_elem w"
  by (force simp: plain_elem_def dir_char_def char_class_defs)

lemma dir_name_chars: "c \<in> set (sandbox_dir_name dir s) \<Longrightarrow> dir_char c"
  by (auto simp: sandbox_dir_name_def Let_def dest: sanitize_set digest_set lower_hex_dir trim_right_set in_set_takeD
      split: if_splits) (simp add: dir_char_def)

lemma dir_name_not_Nil: "s \<noteq> [] \<Longrightarrow> sandbox_dir_name dir s \<noteq> []"
  using digest_length [of 12 s] by (auto simp: sandbox_dir_name_def Let_def simp del: digest_length)

lemma dir_name_plain: "s \<noteq> [] \<Longrightarrow> plain_elem (sandbox_dir_name dir s)"
  by (rule dir_char_elem) (auto simp: dir_name_not_Nil dir_name_chars)

lemma socket_lengths:
  assumes "dir \<noteq> []" "plain_elem e"
  shows "length (path_join [dir, e, ''net.sock'']) + 1 = length (path_join [dir, ''x'', ''net.sock'']) + length e"
proof -
  have "plain_elem ''x''" "plain_elem ''net.sock''" by code_simp+
  with assms show ?thesis by (simp add: path_join_plain)
qed

lemma dir_name_length:
  fixes dir s
  defines "n \<equiv> length (path_join [dir, ''x'', ''net.sock''])" and "l \<equiv> length (sandbox_dir_name dir s)"
  shows "min (length (sanitize s)) 12 \<le> l" and "n + min (length (sanitize s)) 12 \<le> 104 \<Longrightarrow> n + l \<le> 104"
proof -
  consider (short) "int (length (sanitize s)) \<le> 104 - int n" "l = length (sanitize s)"
    | (digits) "104 - int n < int (length (sanitize s))" "104 - int n \<le> 13" "l = 12"
    | (cut) k where "104 - int n < int (length (sanitize s))" "13 < 104 - int n" "k = nat (104 - int n - 13)"
        "l = length (trim_right ''-_'' (take k (sanitize s))) + 13"
    by (fastforce simp: sandbox_dir_name_def Let_def socket_limit_def l_def n_def split: if_splits)
  note cases = this
  show "min (length (sanitize s)) 12 \<le> l" using cases by cases auto
  assume fits: "n + min (length (sanitize s)) 12 \<le> 104"
  show "n + l \<le> 104" using cases
  proof cases
    case (cut k)
    have "length (trim_right ''-_'' (take k (sanitize s))) \<le> k"
      using trim_right_length [of "''-_''" "take k (sanitize s)"] by (auto intro: order_trans)
    with cut show ?thesis by linarith
  qed (use fits in auto)
qed

subsection \<open>Lemmas on the plan\<close>

lemma new_plan_Inr:
  assumes "new_plan r1 r2 c = Inr p"
  obtains subnet gateway guest b1 b2 where "parse_mode (pl_mode p) \<noteq> None" "pl_mode p = or_default (nc_mode c) ''nat''"
    "nc_sandbox c \<noteq> []" "nc_dir c \<noteq> []" "parse_prefix (or_default (nc_subnet c) ''192.168.127.0/24'') = Some subnet"
    "parse_addr (or_default (nc_gateway c) ''192.168.127.1'') = Some gateway" "parse_addr (or_default (nc_guest c) ''192.168.127.2'') = Some guest"
    "prefix_contains subnet gateway" "prefix_contains subnet guest" "guest \<noteq> gateway" "r1 = Some b1" "r2 = Some b2"
    "check_socket_path (pl_socket p) = None" "pl_socket p = link_socket (nc_dir c) (nc_sandbox c)"
    "pl_vm_mac p = mac_string (random_mac b1)" "pl_gateway_mac p = mac_string (random_mac b2)"
    "pl_guest p = \<lparr>pfx_addr = guest, pfx_bits = pfx_bits subnet\<rparr>" "pl_gateway p = gateway" "pl_subnet p = subnet" "0 < pl_mtu p"
  using assms by (auto simp: new_plan_def Let_def split: if_splits option.splits)

lemma annotation_keys: "vm_net @ ''.0'' \<noteq> ctr_net @ ''.0''" "ctr_dns \<noteq> vm_net @ ''.0''" "ctr_dns \<noteq> ctr_net @ ''.0''"
  by (simp_all add: vm_net_def ctr_net_def ctr_dns_def)

lemma annotated_mode: "mode_from_annotations (annotations p) = (if pl_mode p = ''none'' then (''none'', True) else (''nat'', True))"
  using annotation_keys by (auto simp: mode_from_annotations_def annotations_def Let_def)

lemma guest_prefix_ok:
  assumes "parse_prefix s = Some subnet" "prefix_contains subnet guest"
  shows "prefix_ok \<lparr>pfx_addr = guest, pfx_bits = pfx_bits subnet\<rparr>"
  using parse_prefix_ok [OF assms(1)] assms(2)
  by (auto simp: prefix_contains_def prefix_ok_def bit_len_def addr_valid_def addr_zone_def split: addr.splits)

subsection \<open>Properties\<close>

text \<open>
  C28: the link socket fits its address whenever anything can. It is refused exactly when the directory leaves room neither for the
  sanitised name of the sandbox nor for the twelve digits that stand for a long one.
\<close>

theorem socket_fits:
  assumes "dir \<noteq> []" "sandbox \<noteq> []"
  shows "check_socket_path (link_socket dir sandbox) = None \<longleftrightarrow>
    length (path_join [dir, ''x'', ''net.sock'']) + min (length (sanitize sandbox)) 12 \<le> 104"
  using socket_lengths [OF assms(1) dir_name_plain [OF assms(2), of dir]] dir_name_length [of sandbox dir] dir_name_length [of dir sandbox]
  by (auto simp: check_socket_path_def link_socket_def socket_limit_def)

theorem socket_fits_witness:
  "check_socket_path (link_socket ''/var/folders/state/boks/net'' ''team-copilot-default-Dokumentproduksjon-and-then-some-more-text-that-does-not-fit'') = None"
proof -
  have "length (path_join [''/var/folders/state/boks/net'', ''x'', ''net.sock'']) \<le> 92" by code_simp
  then show ?thesis using socket_fits [of "''/var/folders/state/boks/net''"
      "''team-copilot-default-Dokumentproduksjon-and-then-some-more-text-that-does-not-fit''"] by auto
qed

text \<open>
  C27: what a plan promises. Guest and gateway are two addresses of the subnet, the link has a hardware
  address of its own that is unicast and locally administered, the socket fits, and the annotations give
  the guest's address in the form the runtime parses and point its resolver at the gateway. They leave
  the container without a network exactly when the mode is spelled \<open>none\<close>, so they say the mode
  the configuration names when it is spelled as the program spells it; another spelling that
  \<open>ParseMode\<close> accepts for no network is annotated as a network.
\<close>

theorem plan_consistent:
  assumes "new_plan (Some (b1 # bs1)) (Some (b2 # bs2)) c = Inr p"
  shows "prefix_contains (pl_subnet p) (pfx_addr (pl_guest p)) \<and> prefix_contains (pl_subnet p) (pl_gateway p) \<and>
    pfx_addr (pl_guest p) \<noteq> pl_gateway p \<and> length (pl_socket p) < 104 \<and> 0 < pl_mtu p \<and>
    (\<exists>m. pl_vm_mac p = mac_string (m # bs1) \<and> \<not> bit m 0 \<and> bit m 1) \<and>
    parse_mode (nc_mode c) \<noteq> None \<and>
    mode_from_annotations (annotations p) = (if nc_mode c = ''none'' then ''none'' else ''nat'', True) \<and>
    (nc_mode c \<in> {[], ''none'', ''nat''} \<longrightarrow> parse_mode (nc_mode c) = Some (fst (mode_from_annotations (annotations p)))) \<and>
    parse_prefix (prefix_string (pl_guest p)) = Some (pl_guest p) \<and>
    (fst (mode_from_annotations (annotations p)) = ''none'' \<longleftrightarrow> annotations p ctr_dns = None) \<and>
    annotations p ctr_dns \<in> {None, Some (''nameserver='' @ addr_string (pl_gateway p))}"
  using assms
proof (rule new_plan_Inr)
  fix subnet gateway guest c1 c2
  assume known: "parse_mode (pl_mode p) \<noteq> None"
  assume facts: "pl_mode p = or_default (nc_mode c) ''nat''" "parse_prefix (or_default (nc_subnet c) ''192.168.127.0/24'') = Some subnet"
    "prefix_contains subnet gateway" "prefix_contains subnet guest" "guest \<noteq> gateway" "Some (b1 # bs1) = Some c1"
    "check_socket_path (pl_socket p) = None" "pl_vm_mac p = mac_string (random_mac c1)"
    "pl_guest p = \<lparr>pfx_addr = guest, pfx_bits = pfx_bits subnet\<rparr>" "pl_gateway p = gateway" "pl_subnet p = subnet" "0 < pl_mtu p"
  have modes: "parse_mode [] = Some ''nat''" "parse_mode ''none'' = Some ''none''" "parse_mode ''nat'' = Some ''nat''" by code_simp+
  have mac: "pl_vm_mac p = mac_string (((b1 OR 2) AND NOT 1) # bs1)" 
  proof -
    have "c1 = b1 # bs1" using facts(6) by simp
    then show ?thesis by (simp add: facts(8) random_mac_def)
  qed
  have bits: "\<not> bit ((b1 OR 2) AND NOT 1) 0" "bit ((b1 OR 2) AND NOT 1) 1" by (simp_all add: bit_simps)
  have mode: "mode_from_annotations (annotations p) = (if nc_mode c = ''none'' then ''none'' else ''nat'', True)"
    "parse_mode (nc_mode c) \<noteq> None"
    using known facts(1) modes by (cases "nc_mode c = []"; auto simp: annotated_mode or_default_def)+
  then have spelled: "nc_mode c \<in> {[], ''none'', ''nat''} \<longrightarrow>
      parse_mode (nc_mode c) = Some (fst (mode_from_annotations (annotations p)))" using modes by auto
  have dns: "annotations p ctr_dns = (if pl_mode p = ''none'' then None else Some (''nameserver='' @ addr_string (pl_gateway p)))"
    using annotation_keys by (simp add: annotations_def Let_def)
  have guest: "parse_prefix (prefix_string (pl_guest p)) = Some (pl_guest p)"
    using parse_prefix_string [OF guest_prefix_ok [OF facts(2,4)]] facts(9) by simp
  have mac: "\<exists>m. pl_vm_mac p = mac_string (m # bs1) \<and> \<not> bit m 0 \<and> bit m 1" using mac bits by blast
  have socket: "length (pl_socket p) < 104"
    using facts(7) by (simp add: check_socket_path_def socket_limit_def split: if_splits)
  have "fst (mode_from_annotations (annotations p)) = ''none'' \<longleftrightarrow> annotations p ctr_dns = None"
    "annotations p ctr_dns \<in> {None, Some (''nameserver='' @ addr_string (pl_gateway p))}"
    by (simp_all add: annotated_mode dns)
  with facts guest mac socket mode spelled show ?thesis by (intro conjI) (assumption | simp)+
qed

definition config_ex :: "string \<Rightarrow> net_config" where
  "config_ex mode = \<lparr>nc_mode = mode, nc_sandbox = ''s'', nc_dir = ''/run/boks'', nc_mtu = 0, nc_subnet = [], nc_gateway = [], nc_guest = []\<rparr>"

theorem plan_consistent_witness:
  "\<exists>p. new_plan (Some [7]) (Some [8]) (config_ex ''none'') = Inr p \<and> annotations p ctr_dns = None"
proof -
  obtain p where p: "new_plan (Some [7]) (Some [8]) (config_ex ''none'') = Inr p" "pl_mode p = ''none''"
  proof -
    have "is_ok (new_plan (Some [7]) (Some [8]) (config_ex ''none''))" by code_simp
    then obtain p where p: "new_plan (Some [7]) (Some [8]) (config_ex ''none'') = Inr p" by (auto simp: is_ok_iff)
    then have "pl_mode p = ''none''" by (rule new_plan_Inr) (simp add: config_ex_def or_default_def)
    with p that show thesis by blast
  qed
  show ?thesis using plan_consistent [OF p(1)] p by (auto simp: config_ex_def)
qed

text \<open>
  A mode spelled in capitals is accepted but not normalised, so the annotations of a plan for no network wire
  the container to one.
\<close>

theorem capital_mode_wires:
  "\<exists>p. new_plan (Some [7]) (Some [8]) (config_ex ''NONE'') = Inr p \<and> parse_mode ''NONE'' = Some ''none'' \<and>
     mode_from_annotations (annotations p) = (''nat'', True)"
proof -
  have "is_ok (new_plan (Some [7]) (Some [8]) (config_ex ''NONE''))" by code_simp
  then obtain p where p: "new_plan (Some [7]) (Some [8]) (config_ex ''NONE'') = Inr p" by (auto simp: is_ok_iff)
  then have "pl_mode p = ''NONE''" by (rule new_plan_Inr) (simp add: config_ex_def or_default_def)
  moreover have "parse_mode ''NONE'' = Some ''none''" by code_simp
  ultimately show ?thesis using p by (auto simp: annotated_mode)
qed

end
