(* ===== verification/Cli_Kit.thy ===== *)
theory Cli_Kit
  imports Kit_V1 Agent_Registry Network_Plan
begin

section \<open>Flags and kits of a run: \<open>internal/cli/kitagent.go\<close> and \<open>internal/cli/netflags.go\<close>\<close>

text \<open>
  What the flags of one run select: the agent of a kit, the request whose resolution is the policy, and what a new sandbox remembers.
  Reading the store and the kit's file are arguments; the model starts from what they returned.
\<close>

subsection \<open>The agent of a kit\<close>

definition kit_summary :: "kit \<Rightarrow> string" where
  "kit_summary s = (if ks_display s \<noteq> [] then ks_display s else if ks_description s \<noteq> [] then ks_description s else ''from kit '' @ ks_name s)"

definition kit_command_line :: "sandbox_block \<Rightarrow> bool \<Rightarrow> string list" where
  "kit_command_line b tty =
     (let tail = (case cm_interactive (sb_command b) of None \<Rightarrow> [] | Some t \<Rightarrow> t)
      in sb_entrypoint b @ (if tty \<and> 0 < length tail then tail else cm_default (sb_command b)))"

definition kit_env :: "kit \<Rightarrow> string list" where
  "kit_env s =
     (case ks_environment s of
        None \<Rightarrow> []
      | Some vars \<Rightarrow> map (\<lambda>k. k @ ''='' @ (case map_of vars k of None \<Rightarrow> [] | Some v \<Rightarrow> v)) (keys_in_order vars))"

datatype kit_agent_error = Not_a_sandbox | Kit_no_image string | Kit_name_taken string | Kit_agent agent_error

definition agent_from_kit :: "kit option \<Rightarrow> bool \<Rightarrow> kit_agent_error + agent" where
  "agent_from_kit spec tty =
     (case spec of
        None \<Rightarrow> Inl Not_a_sandbox
      | Some s \<Rightarrow>
          if ks_kind s \<noteq> kind_sandbox then Inl Not_a_sandbox
          else (case ks_sandbox s of
              None \<Rightarrow> Inl (Kit_no_image (ks_name s))
            | Some b \<Rightarrow>
                if sb_image b = [] then Inl (Kit_no_image (ks_name s))
                else Inr \<lparr>ag_name = ks_name s, ag_summary = kit_summary s, ag_image = sb_image b, ag_init = [],
                          ag_command = kit_command_line b tty, ag_args = [], ag_env = kit_env s, ag_allow = [], ag_deny = [],
                          ag_credentials = []\<rparr>))"

definition register_kit_agent :: "agent list \<Rightarrow> kit option \<Rightarrow> bool \<Rightarrow> kit_agent_error + agent list" where
  "register_kit_agent agents spec tty =
     (case spec of
        None \<Rightarrow> Inr agents
      | Some s \<Rightarrow>
          if ks_kind s \<noteq> kind_sandbox then Inr agents
          else if known_agent agents (ks_name s) then Inl (Kit_name_taken (ks_name s))
          else (case agent_from_kit spec tty of
              Inl e \<Rightarrow> Inl e
            | Inr a \<Rightarrow> map_sum Kit_agent id (add_agent a agents)))"

subsection \<open>The flags\<close>

record policy_flags =
  fl_preset :: string
  fl_profile :: string
  fl_mode :: string
  fl_allow :: "string list"
  fl_deny :: "string list"
  fl_inject :: "string list"
  fl_guest :: "string list"
  fl_publish :: "string list"
  fl_oauth :: "string list"
  fl_host_ports :: "int list"
  fl_no_secrets :: bool
  fl_agent :: agent
  fl_kit :: "kit option"

definition policy_specified :: "policy_flags \<Rightarrow> bool" where
  "policy_specified f \<longleftrightarrow> fl_preset f \<noteq> [] \<or> fl_profile f \<noteq> [] \<or> 0 < length (fl_allow f) \<or> 0 < length (fl_deny f)"

definition flags_specified :: "policy_flags \<Rightarrow> bool" where
  "flags_specified f \<longleftrightarrow>
     policy_specified f \<or> fl_mode f \<noteq> [] \<or> 0 < length (fl_inject f) \<or> 0 < length (fl_guest f) \<or> 0 < length (fl_oauth f)"

definition sandbox_name_for :: "string \<Rightarrow> string" where
  "sandbox_name_for name = (if name = [] then ''boks-0123456789'' else name)"

definition kit_rules :: "action \<Rightarrow> string list \<Rightarrow> string \<Rightarrow> rule_spec list" where
  "kit_rules a specs name = map (\<lambda>s. \<lparr>rs_action = a, rs_spec = s, rs_note = ''declared by kit '' @ name, rs_scope = []\<rparr>) specs"

definition deny_probe :: "string \<Rightarrow> rule_spec" where
  "deny_probe s = \<lparr>rs_action = Deny, rs_spec = s, rs_note = [], rs_scope = []\<rparr>"

definition union_denies :: "string list \<Rightarrow> string list \<Rightarrow> string list" where
  "union_denies recorded flags =
     foldl (\<lambda>out s. if list_ex (same_destination (deny_probe s)) out then out else out @ [s]) recorded flags"

text \<open>The request \<open>resolution\<close> builds before it calls \<open>Resolve\<close>, from the store that was loaded.\<close>

definition flag_request :: "policy_flags \<Rightarrow> string \<Rightarrow> sandbox_policy option \<Rightarrow> store \<Rightarrow> request" where
  "flag_request f sandbox recorded st =
     (let r = (sp_request recorded (Some st) sandbox)\<lparr>rq_agent := ag_name (fl_agent f), rq_agent_allow := agent_rules (fl_agent f)\<rparr>;
          r = (case fl_kit f of
              None \<Rightarrow> r
            | Some k \<Rightarrow> r\<lparr>rq_kit := ks_name k, rq_kit_allow := kit_rules Allow (fst (network_rules k)) (ks_name k),
                rq_kit_deny := kit_rules Deny (snd (network_rules k)) (ks_name k)\<rparr>);
          r = (if fl_preset f \<noteq> [] then r\<lparr>rq_preset := fl_preset f\<rparr> else r);
          r = (if fl_profile f \<noteq> [] then r\<lparr>rq_profile := fl_profile f\<rparr> else r);
          r = (if 0 < length (fl_allow f) then r\<lparr>rq_allow := fl_allow f\<rparr> else r)
      in r\<lparr>rq_deny := union_denies (rq_deny r) (fl_deny f)\<rparr>)"

definition flag_resolution :: "policy_flags \<Rightarrow> string \<Rightarrow> sandbox_policy option \<Rightarrow> store \<Rightarrow> resolve_error + resolution" where
  "flag_resolution f sandbox recorded st = resolve (flag_request f sandbox recorded st)"

definition flag_policy :: "policy_flags \<Rightarrow> store \<Rightarrow> resolve_error + policy" where
  "flag_policy f st = (case flag_resolution f [] None st of Inl e \<Rightarrow> Inl e | Inr r \<Rightarrow> resolution_policy r)"

definition sandbox_record :: "policy_flags \<Rightarrow> sandbox_policy option" where
  "sandbox_record f =
     (if \<not> policy_specified f then None
      else Some \<lparr>sp_version = 1, sp_profile = fl_profile f, sp_preset = fl_preset f, sp_allow = fl_allow f, sp_deny = fl_deny f\<rparr>)"

text \<open>\<open>hostnameRuleCaveat\<close>: it is printed exactly when every allow rule names a host and there is one.\<close>

definition names_only_caveat :: "policy \<Rightarrow> bool" where
  "names_only_caveat p =
     (let allows = filter (\<lambda>r. rl_action r = Allow) (pol_rules p)
      in filter (\<lambda>r. matches_name_only (rl_host r)) allows \<noteq> [] \<and> filter (\<lambda>r. \<not> matches_name_only (rl_host r)) allows = [])"

subsection \<open>Lemmas\<close>

lemma known_agent_lookup: "known_agent r n \<longleftrightarrow> lookup_agent n r \<noteq> None"
  by (simp add: known_agent_def)

lemma put_new_agent: "lookup_agent (ag_name a) r = None \<Longrightarrow> put_agent a r = r @ [a]"
  by (induction r) (auto split: if_splits)

lemma lookup_agent_None: "lookup_agent n r = None \<longleftrightarrow> n \<notin> set (map ag_name r)"
  by (induction r) auto

lemma lookup_agent_append: "lookup_agent n (r @ r') = (case lookup_agent n r of None \<Rightarrow> lookup_agent n r' | Some a \<Rightarrow> Some a)"
  by (induction r) auto

lemma register_kit_agent_Inr:
  assumes "register_kit_agent r spec tty = Inr r'" "spec = Some s" "ks_kind s = kind_sandbox"
  obtains b a where "ks_sandbox s = Some b" "sb_image b \<noteq> []" "agent_from_kit spec tty = Inr a" "lookup_agent (ks_name s) r = None"
    "r' = r @ [default_args a]" "ag_name a = ks_name s" "ag_image a = sb_image b" "ag_command a = kit_command_line b tty" "ag_init a = []"
    "ag_args a = []" "ag_env a = kit_env s" "agent_rules a = []" "ag_credentials a = []"
proof -
  obtain b where b: "ks_sandbox s = Some b" "sb_image b \<noteq> []"
    using assms by (auto simp: register_kit_agent_def agent_from_kit_def split: if_splits option.splits)
  define a where "a = \<lparr>ag_name = ks_name s, ag_summary = kit_summary s, ag_image = sb_image b, ag_init = [],
    ag_command = kit_command_line b tty, ag_args = [], ag_env = kit_env s, ag_allow = [], ag_deny = [], ag_credentials = []\<rparr>"
  have a: "agent_from_kit spec tty = Inr a" using b assms(2,3) by (simp add: agent_from_kit_def a_def)
  have new: "lookup_agent (ks_name s) r = None"
    using assms by (auto simp: register_kit_agent_def known_agent_def split: if_splits)
  have "add_agent a r = Inr r'"
    using assms a new by (cases "add_agent a r") (simp_all add: register_kit_agent_def known_agent_def)
  then have "r' = r @ [default_args a]" using new by (simp add: add_agent_Inr put_new_agent a_def)
  then show thesis by (rule that [OF b a new]) (simp_all add: a_def agent_rules_def allow_rules_def)
qed

lemma default_args_run [simp]:
  "ag_image (default_args a) = ag_image a" "ag_command (default_args a) = ag_command a" "ag_init (default_args a) = ag_init a"
  "ag_env (default_args a) = ag_env a" "ag_credentials (default_args a) = ag_credentials a" "agent_rules (default_args a) = agent_rules a"
  by (simp_all add: default_args_def agent_rules_def allow_rules_def)

lemma argv_append: "ag_args a = [] \<Longrightarrow> argv (default_args a) extra = ag_init a @ ag_command a @ extra"
  by (simp add: argv_def default_args_def)

subsection \<open>The union of denies\<close>

lemma union_denies_snoc:
  "union_denies rec (fs @ [s]) =
     (if list_ex (same_destination (deny_probe s)) (union_denies rec fs) then union_denies rec fs else union_denies rec fs @ [s])"
  by (simp add: union_denies_def)

lemma union_denies_Nil [simp]: "union_denies rec [] = rec"
  by (simp add: union_denies_def)

lemma same_destination_probe: "same_destination (deny_probe s) t \<longleftrightarrow> canonical (deny_probe s) = canonical (deny_probe t)"
  by (simp add: same_destination_def deny_probe_def)

lemma union_denies_keeps:
  "prefix rec (union_denies rec fs)"
  "set (union_denies rec fs) \<subseteq> set rec \<union> set fs"
  "s \<in> set fs \<Longrightarrow> \<exists>e\<in>set (union_denies rec fs). canonical (deny_probe s) = canonical (deny_probe e)"
  by (induction fs rule: rev_induct) (auto simp: union_denies_snoc list_ex_iff same_destination_probe intro: prefix_order.trans)

lemma union_denies_absorb: "set fs \<subseteq> set rec \<Longrightarrow> union_denies rec fs = rec"
  by (induction fs rule: rev_induct) (auto simp: union_denies_snoc list_ex_iff same_destination_probe)

lemma flag_request_simps:
  "rq_deny (flag_request f sb recorded st) =
     union_denies (case recorded of None \<Rightarrow> [] | Some q \<Rightarrow> sp_deny q) (fl_deny f)"
  "rq_allow (flag_request f sb recorded st) =
     (if fl_allow f \<noteq> [] then fl_allow f else case recorded of None \<Rightarrow> [] | Some q \<Rightarrow> sp_allow q)"
  "rq_preset (flag_request f sb recorded st) =
     (if fl_preset f \<noteq> [] then fl_preset f else case recorded of None \<Rightarrow> [] | Some q \<Rightarrow> sp_preset q)"
  "rq_profile (flag_request f sb recorded st) =
     (if fl_profile f \<noteq> [] then fl_profile f else case recorded of None \<Rightarrow> [] | Some q \<Rightarrow> sp_profile q)"
  by (auto simp: flag_request_def sp_request_def Let_def split: option.splits)

text \<open>Two denies with one canonical form cover the same targets, when both parse.\<close>

lemma canonical_covers:
  assumes "canonical (deny_probe s) = canonical (deny_probe e)" "parse_rule Deny e = Inr re" "text_covers Deny t s"
  shows "text_covers Deny t e"
proof -
  obtain rs where rs: "parse_rule Deny s = Inr rs" "rule_match rs t" using assms(3) by (auto simp: text_covers_def split: sum.splits)
  have ok: "rule_ok rs" "rule_ok re" using rs(1) assms(2) parse_rule_ok by blast+
  have "rule_spec rs = rule_spec re" using assms(1,2) rs(1) by (simp add: canonical_def deny_probe_def)
  then have "rl_host rs = rl_host re \<and> rl_ports rs = rl_ports re"
    using parse_rule_spec [OF ok(1), of Deny] parse_rule_spec [OF ok(2), of Deny] by simp
  then show ?thesis using rs(2) assms(2) by (simp add: text_covers_def rule_match_def)
qed

lemma resolve_denies_parse:
  assumes "resolve req = Inr res" "e \<in> set (rq_deny req)"
  shows "\<exists>r. parse_rule Deny e = Inr r"
proof -
  have "is_ok (parse_flag_rules (rq_allow req) (rq_deny req))"
    using assms(1) by (auto simp: resolve_def is_ok_def split: sum.splits if_splits)
  then have "is_ok (spec_rule (flag_rule Deny e))" using assms(2) by (auto simp: parse_flag_rules_ok rules_ok_def list_all_iff)
  then show ?thesis by (auto simp: spec_rule_def flag_rule_def is_ok_def split: sum.splits)
qed

subsection \<open>Properties\<close>

text \<open>
  A kit's agent is added beside the others. Registering it changes no name that was known, keeps names unique, and gives under the kit's name
  an agent that runs the kit's image with no other init, its command line followed by the arguments of a run, with the kit's variables, and
  without rules or credentials of its own; a kit that is no sandbox adds nothing.
\<close>

theorem kit_agent_registered:
  assumes "register_kit_agent r spec tty = Inr r'"
  shows "prefix r r' \<and> (\<forall>n. lookup_agent n r \<noteq> None \<longrightarrow> lookup_agent n r' = lookup_agent n r) \<and>
    (distinct (map ag_name r) \<longrightarrow> distinct (map ag_name r')) \<and>
    (\<forall>s. spec = Some s \<and> ks_kind s = kind_sandbox \<longrightarrow>
       (\<exists>a b. r' = r @ [a] \<and> lookup_agent (ks_name s) r' = Some a \<and> ks_sandbox s = Some b \<and> ag_image a = sb_image b \<and> runnable a \<and>
          (\<forall>extra. argv a extra = kit_command_line b tty @ extra) \<and> ag_env a = kit_env s \<and> agent_rules a = [] \<and> ag_credentials a = [])) \<and>
    (spec = None \<or> (\<exists>s. spec = Some s \<and> ks_kind s \<noteq> kind_sandbox) \<longrightarrow> r' = r)"
proof (cases "\<exists>s. spec = Some s \<and> ks_kind s = kind_sandbox")
  case False
  then have "r' = r" using assms by (auto simp: register_kit_agent_def split: option.splits if_splits)
  then show ?thesis using False by auto
next
  case True
  then obtain s where s: "spec = Some s" "ks_kind s = kind_sandbox" by blast
  obtain b a where a: "ks_sandbox s = Some b" "sb_image b \<noteq> []" "lookup_agent (ks_name s) r = None" "r' = r @ [default_args a]"
      "ag_name a = ks_name s" "ag_image a = sb_image b" "ag_command a = kit_command_line b tty" "ag_init a = []" "ag_args a = []"
      "ag_env a = kit_env s" "agent_rules a = []" "ag_credentials a = []"
    using register_kit_agent_Inr [OF assms s] by metis
  have "\<forall>n. lookup_agent n r \<noteq> None \<longrightarrow> lookup_agent n r' = lookup_agent n r" by (auto simp: a(4) lookup_agent_append)
  moreover have "distinct (map ag_name r) \<longrightarrow> distinct (map ag_name r')" using a(3,5) by (simp add: a(4) lookup_agent_None)
  moreover have "\<exists>a b. r' = r @ [a] \<and> lookup_agent (ks_name s) r' = Some a \<and> ks_sandbox s = Some b \<and> ag_image a = sb_image b \<and> runnable a \<and>
      (\<forall>extra. argv a extra = kit_command_line b tty @ extra) \<and> ag_env a = kit_env s \<and> agent_rules a = [] \<and> ag_credentials a = []"
    using a by (intro exI [of _ "default_args a"] exI [of _ b]) (simp add: lookup_agent_append runnable_def argv_append)
  ultimately show ?thesis using s a(4) by auto
qed

theorem kit_agent_registered_witness:
  "\<exists>r a. register_kit_agent [agent_ex ''shell''] (Some kit_ex) True = Inr r \<and> lookup_agent ''demo'' r = Some a \<and>
     argv a [''x''] = [''run'', ''-d'', ''x''] \<and> lookup_agent ''shell'' r = Some (agent_ex ''shell'')"
proof -
  have ok: "is_ok (register_kit_agent [agent_ex ''shell''] (Some kit_ex) True)" "ks_kind kit_ex = kind_sandbox" "ks_name kit_ex = ''demo''"
    "map_option (\<lambda>b. kit_command_line b True) (ks_sandbox kit_ex) = Some [''run'', ''-d'']" "lookup_agent ''shell'' [agent_ex ''shell''] = Some (agent_ex ''shell'')"
    by code_simp+
  then obtain r where "register_kit_agent [agent_ex ''shell''] (Some kit_ex) True = Inr r" by (auto simp: is_ok_iff)
  with kit_agent_registered [OF this] ok show ?thesis by fastforce
qed

lemma kept_deny_covers:
  assumes "flag_resolution f sandbox recorded st = Inr res" "resolution_policy res = Inr p"
    "d \<in> set (fl_deny f) \<or> (\<exists>q. recorded = Some q \<and> d \<in> set (sp_deny q))" "text_covers Deny t d"
  shows "covers Deny (pol_rules p) t"
proof -
  let ?req = "flag_request f sandbox recorded st"
  have r: "resolve ?req = Inr res" using assms(1) by (simp add: flag_resolution_def)
  obtain e where e: "e \<in> set (rq_deny ?req)" "canonical (deny_probe d) = canonical (deny_probe e)"
  proof (cases "d \<in> set (fl_deny f)")
    case True
    then show thesis using union_denies_keeps(3) that unfolding flag_request_simps(1) by blast
  next
    case False
    then obtain q where "recorded = Some q" "d \<in> set (sp_deny q)" using assms(3) by blast
    then have "d \<in> set (rq_deny ?req)" using set_mono_prefix [OF union_denies_keeps(1)] by (auto simp: flag_request_simps(1))
    then show thesis using that by blast
  qed
  obtain re where "parse_rule Deny e = Inr re" using resolve_denies_parse [OF r e(1)] by blast
  then have "text_covers Deny t e" using canonical_covers [OF e(2)] assms(4) by blast
  moreover have "(Deny, e) \<in> sources ?req l" for l using e(1) by (simp add: sources_def)
  ultimately have "sources_cover Deny ?req l t" for l by (auto simp: sources_cover_def set_covers_def)
  then show ?thesis by (rule named_deny_covers [OF r assms(2)])
qed

text \<open>
  C9: a deny outlives the run it was given for. What a sandbox was created not to reach, and what this run's flags deny, the policy of the run
  denies, whatever preset, profile, allows, agent or kit the flags choose.
\<close>

theorem run_keeps_denies:
  assumes "flag_resolution f sandbox recorded st = Inr res" "resolution_policy res = Inr p"
    "d \<in> set (fl_deny f) \<or> (\<exists>q. recorded = Some q \<and> d \<in> set (sp_deny q))" "text_covers Deny t d"
  shows "\<not> v_allowed (evaluate p t)"
  using kept_deny_covers [OF assms] by (simp add: evaluate_allowed permits_def)

definition flags_ex :: policy_flags where
  "flags_ex = \<lparr>fl_preset = ''locked'', fl_profile = [], fl_mode = [], fl_allow = [''b.com''], fl_deny = [''B.com:80''], fl_inject = [], fl_guest = [],
     fl_publish = [], fl_oauth = [], fl_host_ports = [], fl_no_secrets = False, fl_agent = agent_ex ''shell'', fl_kit = None\<rparr>"

theorem run_keeps_denies_witness:
  "\<exists>res p. flag_resolution flags_ex ''s'' None (new_store []) = Inr res \<and> resolution_policy res = Inr p \<and>
     \<not> v_allowed (evaluate p \<lparr>t_host = ''b.com'', t_addr = Addr_none, t_port = 80\<rparr>)"
proof -
  let ?run = "flag_resolution flags_ex ''s'' None (new_store [])"
  have ok: "(case ?run of Inl _ \<Rightarrow> False | Inr res \<Rightarrow> is_ok (resolution_policy res))" by code_simp
  then obtain res p where r: "?run = Inr res" "resolution_policy res = Inr p" by (auto simp: is_ok_iff split: sum.splits)
  have "text_covers Deny \<lparr>t_host = ''b.com'', t_addr = Addr_none, t_port = 80\<rparr> ''B.com:80''" by code_simp
  with run_keeps_denies [OF r, of "''B.com:80''"] r show ?thesis by (auto simp: flags_ex_def)
qed

text \<open>
  C31: a sandbox starts again with the policy it was created with. Whatever later starts it without policy
  flags of its own builds from the record the request that the flags of the creating run give, except that
  the agent and the kit are those of the later command: \<open>start\<close> and \<open>exec\<close>, which have no kit, send none. And
  the flags of the creating run give the same request with the record as without it, but for denies that name a destination twice.
\<close>

theorem record_reproduces:
  assumes "\<not> policy_specified g"
  shows "flag_request g sandbox (sandbox_record f) st =
     (flag_request f sandbox (sandbox_record f) st)
       \<lparr>rq_agent := ag_name (fl_agent g), rq_agent_allow := agent_rules (fl_agent g),
        rq_kit := (case fl_kit g of None \<Rightarrow> [] | Some k \<Rightarrow> ks_name k),
        rq_kit_allow := (case fl_kit g of None \<Rightarrow> [] | Some k \<Rightarrow> kit_rules Allow (fst (network_rules k)) (ks_name k)),
        rq_kit_deny := (case fl_kit g of None \<Rightarrow> [] | Some k \<Rightarrow> kit_rules Deny (snd (network_rules k)) (ks_name k))\<rparr> \<and>
   flag_request f sandbox None st =
     (flag_request f sandbox (sandbox_record f) st)\<lparr>rq_deny := union_denies [] (fl_deny f)\<rparr>"
proof -
  have g: "fl_preset g = []" "fl_profile g = []" "fl_allow g = []" "fl_deny g = []"
    using assms by (simp_all add: policy_specified_def)
  show ?thesis
  proof (cases "policy_specified f")
    case True
    then show ?thesis using union_denies_absorb [of "fl_deny f" "fl_deny f"] g
      by (cases "fl_kit f"; cases "fl_kit g") (auto simp: flag_request_def sp_request_def sandbox_record_def Let_def)
  next
    case False
    then have "fl_preset f = [] \<and> fl_profile f = [] \<and> fl_allow f = [] \<and> fl_deny f = []" by (simp add: policy_specified_def)
    then show ?thesis using False g
      by (cases "fl_kit f"; cases "fl_kit g") (auto simp: flag_request_def sp_request_def sandbox_record_def Let_def)
  qed
qed

text \<open>In the witness a sandbox created under \<open>locked\<close> with a kit, an allow and a deny is started again with no flags.\<close>

theorem record_reproduces_witness:
  "\<exists>f g r. \<not> policy_specified g \<and> fl_kit f = Some kit_ex \<and> r = flag_request g ''s'' (sandbox_record f) (new_store []) \<and>
     rq_preset r = ''locked'' \<and> rq_allow r = [''b.com''] \<and> rq_deny r = [''B.com:80''] \<and> rq_kit r = []"
proof -
  let ?f = "flags_ex\<lparr>fl_kit := Some kit_ex\<rparr>"
  let ?g = "flags_ex\<lparr>fl_preset := [], fl_allow := [], fl_deny := []\<rparr>"
  have g: "\<not> policy_specified ?g" by (simp add: policy_specified_def flags_ex_def)
  have r: "rq_preset (flag_request ?f ''s'' (sandbox_record ?f) (new_store [])) = ''locked''"
    "rq_allow (flag_request ?f ''s'' (sandbox_record ?f) (new_store [])) = [''b.com'']"
    "rq_deny (flag_request ?f ''s'' (sandbox_record ?f) (new_store [])) = [''B.com:80'']"
    by code_simp+
  have k: "fl_kit ?g = None" "fl_kit ?f = Some kit_ex" by (simp_all add: flags_ex_def)
  show ?thesis
    by (rule exI [of _ ?f], rule exI [of _ ?g], rule exI, intro conjI, rule g, rule k(2), rule refl)
      (simp_all add: conjunct1 [OF record_reproduces [OF g]] r k(1))
qed

text \<open>
  The caveat is printed only where it is true: a policy it is printed for, and that denies by default, allows no connection to an address.
\<close>

theorem caveat_holds:
  assumes "names_only_caveat p" "pol_default p = Deny" "target_is_ip t"
  shows "\<not> v_allowed (evaluate p t)"
proof -
  have "\<not> rule_match r t" if "r \<in> set (pol_rules p)" "rl_action r = Allow" for r
  proof -
    have "matches_name_only (rl_host r)" using assms(1) that by (auto simp: names_only_caveat_def Let_def filter_empty_conv)
    then show ?thesis using assms(3) by (auto simp: rule_match_def matches_name_only_def pattern_match_def)
  qed
  then show ?thesis using assms(2) by (auto simp: evaluate_allowed permits_def covers_iff)
qed

theorem caveat_holds_witness:
  "\<exists>p. names_only_caveat p \<and> \<not> v_allowed (evaluate p (target_from_addr (A4 1) 443))"
proof -
  let ?r = "\<lparr>rl_action = Allow, rl_host = zero_pattern\<lparr>p_kind := Pat_exact, p_host := ''a.b'', p_text := ''a.b''\<rparr>, rl_ports = [], rl_why = [], rl_scope = []\<rparr>"
  let ?p = "\<lparr>pol_name = [], pol_default = Deny, pol_rules = [?r]\<rparr>"
  have "names_only_caveat ?p" "target_is_ip (target_from_addr (A4 1) 443)" by code_simp+
  with caveat_holds [of ?p] show ?thesis by auto
qed

text \<open>An interactive tail that is set and empty falls back on the default tail, although the decoder keeps it apart from none.\<close>

theorem empty_tail_falls_back:
  "\<exists>b. ks_sandbox kit_ex = Some b \<and> interactive_tail (sb_command b) = [] \<and> kit_command_line b True = [''run'', ''-d'']"
  by (simp add: kit_ex_def interactive_tail_def kit_command_line_def)

text \<open>A kit whose name the validator takes can have a name no agent may have.\<close>

theorem valid_name_no_agent:
  "kit_name ''a--b'' \<and> register_kit_agent [] (Some (kit_ex\<lparr>ks_name := ''a--b''\<rparr>)) False = Inl (Kit_agent (Agent_name ''a--b''))"
  by code_simp

end
