(* ===== verification/Secret_Service.thy ===== *)
theory Secret_Service
  imports Secret_Credential Network_Plan Sandbox_Name Named_Registry
begin

section \<open>Services: \<open>internal/secret/service.go\<close>\<close>

text \<open>
  A service is what Boks knows of a vendor: where its key is sent, in which header, and what a guest holds instead. It is
  rendered into the flags of the command line and parsed from there. The table of built-in services is data and is not
  repeated here; every registry below is one built by \<open>Add\<close>.
\<close>

subsection \<open>Sentinels\<close>

definition sentinel_filler :: string where
  "sentinel_filler = ''0123456789abcdefghijklmnopqrstuvwxyzABCDEFGHIJKLMNOPQRSTUVWXYZ''"

definition sanitize_sentinel :: "string \<Rightarrow> string" where
  "sanitize_sentinel s = sanitize s"

text \<open>The padding loop runs once for each byte that is missing.\<close>

definition new_sentinel :: "string \<Rightarrow> string \<Rightarrow> int \<Rightarrow> string" where
  "new_sentinel pre seed len =
     (let body = ''boksproxymanaged-'' @ sanitize_sentinel seed;
          missing = nat (len - int (length pre + length body));
          out = pre @ body @ map (\<lambda>i. sentinel_filler ! ((i * 7 + length seed) mod 62)) [0..<missing]
      in if 0 < len \<and> len < int (length out) then take (nat len) out else out)"

subsection \<open>Services\<close>

record service_inject =
  sj_hosts :: "string list"
  sj_header :: string
  sj_format :: string
  sj_scheme :: string
  sj_username :: string
  sj_why :: string

record service =
  sx_name :: string
  sx_summary :: string
  sx_inject :: "service_inject list"
  sx_ports :: string
  sx_env :: string
  sx_prefix :: string
  sx_length :: int
  sx_host :: string
  sx_path :: string
  sx_encoding :: string
  sx_profile :: string
  sx_source :: string

definition configured :: "service \<Rightarrow> bool" where
  "configured s \<longleftrightarrow> sx_inject s \<noteq> []"

definition has_oauth :: "service \<Rightarrow> bool" where
  "has_oauth s \<longleftrightarrow> sx_host s \<noteq> []"

definition service_hosts :: "service \<Rightarrow> string list" where
  "service_hosts s = foldl (\<lambda>out h. if h \<in> set out then out else out @ [h]) [] (concat (map sj_hosts (sx_inject s)))"

definition service_ports :: "service \<Rightarrow> string" where
  "service_ports s = (if sx_ports s = [] then ''443'' else sx_ports s)"

definition service_placeholder :: "service \<Rightarrow> string" where
  "service_placeholder s = (if \<not> configured s then [] else new_sentinel (sx_prefix s) (sx_name s) (if sx_length s = 0 then 64 else sx_length s))"

definition service_allows :: "service \<Rightarrow> string list" where
  "service_allows s = map (\<lambda>h. h @ '':'' @ service_ports s) (service_hosts s)"

definition attachment :: "service_inject \<Rightarrow> string" where
  "attachment r =
     (if sj_scheme r = scheme_bearer then ''bearer''
      else if sj_scheme r = scheme_basic then (if sj_username r \<noteq> [] then ''basic:'' @ sj_username r else ''basic'')
      else (let header = (if sj_header r = [] then ''Authorization'' else sj_header r)
        in if sj_format r = [] then header else header @ '':'' @ sj_format r))"

definition service_inject_specs :: "service \<Rightarrow> string list" where
  "service_inject_specs s = (if \<not> configured s then [] else map (\<lambda>r. sx_name s @ ''@'' @ join_with '','' (sj_hosts r) @ ''='' @ attachment r) (sx_inject s))"

definition guest_spec :: "service \<Rightarrow> string" where
  "guest_spec s = (if \<not> configured s \<or> sx_env s = [] then [] else sx_name s @ ''='' @ sx_env s @ ''='' @ service_placeholder s)"

definition service_name_ok :: "string \<Rightarrow> bool" where
  "service_name_ok s = name_runs True s"

datatype service_error =
    Service_name string | No_source string | No_key_shape string | No_rule_hosts string | No_rule_why string
  | Service_rules string credentials_error | No_credential string | Endpoint_path string string | Not_configured string | Unknown_service string "string list"

definition require_configured :: "service \<Rightarrow> service_error option" where
  "require_configured s = (if configured s then None else Some (Not_configured (sx_name s)))"

text \<open>The first credential that the rendered flags give; the index would panic on none.\<close>

definition service_credential :: "service \<Rightarrow> service_error + credential" where
  "service_credential s =
     (case require_configured s of
        Some e \<Rightarrow> Inl e
      | None \<Rightarrow> (case parse_credentials (service_inject_specs s) (if guest_spec s = [] then [] else [guest_spec s]) of
          Inl e \<Rightarrow> Inl (Service_rules (sx_name s) e)
        | Inr [] \<Rightarrow> Inl (No_credential (sx_name s))
        | Inr (c # _) \<Rightarrow> Inr (c\<lparr>cr_description := sx_summary s\<rparr>)))"

fun bad_rule :: "string \<Rightarrow> service_inject list \<Rightarrow> service_error option" where
  "bad_rule name [] = None"
| "bad_rule name (r # rs) =
     (if sj_hosts r = [] then Some (No_rule_hosts name) else if sj_why r = [] then Some (No_rule_why name) else bad_rule name rs)"

definition validate_service :: "service \<Rightarrow> service_error option" where
  "validate_service s =
     (if \<not> service_name_ok (sx_name s) then Some (Service_name (sx_name s))
      else if \<not> configured s then None
      else if sx_source s = [] then Some (No_source (sx_name s))
      else if sx_prefix s = [] \<and> sx_length s = 0 then Some (No_key_shape (sx_name s))
      else (case bad_rule (sx_name s) (sx_inject s) of
          Some e \<Rightarrow> Some e
        | None \<Rightarrow> (case service_credential s of
            Inl e \<Rightarrow> Some e
          | Inr _ \<Rightarrow> if sx_host s \<noteq> [] \<and> \<not> prefix ''/'' (sx_path s) then Some (Endpoint_path (sx_name s) (sx_path s)) else None)))"

subsection \<open>The registry\<close>

fun put_service :: "service \<Rightarrow> service list \<Rightarrow> service list" where
  "put_service s [] = [s]"
| "put_service s (t # ts) = (if sx_name t = sx_name s then s # ts else t # put_service s ts)"

definition add_service :: "service \<Rightarrow> service list \<Rightarrow> service_error + service list" where
  "add_service s r = (case validate_service s of Some e \<Rightarrow> Inl e | None \<Rightarrow> Inr (put_service s r))"

fun lookup_service :: "string \<Rightarrow> service list \<Rightarrow> service option" where
  "lookup_service n [] = None"
| "lookup_service n (s # ss) = (if sx_name s = n then Some s else lookup_service n ss)"

definition known_service :: "service list \<Rightarrow> string \<Rightarrow> bool" where
  "known_service r n \<longleftrightarrow> lookup_service n r \<noteq> None"

definition resolve_service :: "service list \<Rightarrow> string \<Rightarrow> service_error + service" where
  "resolve_service r n = (case lookup_service n r of None \<Rightarrow> Inl (Unknown_service n (map sx_name r)) | Some s \<Rightarrow> Inr s)"

subsection \<open>A login before a key\<close>

definition covered_hosts :: "credential list \<Rightarrow> string list" where
  "covered_hosts cs = concat (map (\<lambda>c. case cr_oauth c of None \<Rightarrow> [] | Some o1 \<Rightarrow> map (\<lambda>h. to_lower (pattern_string h)) (oa_hosts o1)) cs)"

definition is_covered :: "string list \<Rightarrow> credential \<Rightarrow> bool" where
  "is_covered covered c \<longleftrightarrow> cr_oauth c = None \<and> cr_inject c \<noteq> [] \<and>
     list_all (\<lambda>r. to_lower (pattern_string (in_domain r)) \<in> set covered) (cr_inject c)"

definition prefer_oauth :: "credential list \<Rightarrow> credential list \<times> string list" where
  "prefer_oauth cs =
     (let covered = covered_hosts cs
      in if covered = [] then (cs, [])
         else (filter (\<lambda>c. \<not> is_covered covered c) cs, map cr_service (filter (is_covered covered) cs)))"

subsection \<open>Lemmas\<close>

lemma put_service_names: "map sx_name (put_service s r) = (if sx_name s \<in> set (map sx_name r) then map sx_name r else map sx_name r @ [sx_name s])"
  by (induction r) auto

lemma put_service_lookup: "lookup_service n (put_service s r) = (if n = sx_name s then Some s else lookup_service n r)"
  by (induction r) auto

lemma add_service_Inr: "add_service s r = Inr r' \<longleftrightarrow> validate_service s = None \<and> r' = put_service s r"
  by (auto simp: add_service_def split: option.split)

interpretation services: named_registry sx_name add_service lookup_service id "\<lambda>s. validate_service s = None"
  by unfold_locales (auto simp: add_service_Inr is_ok_iff put_service_names put_service_lookup)

lemma name_runs_set: "name_runs b s \<Longrightarrow> c \<in> set s \<Longrightarrow> alnum c \<or> separator c"
  by (induction b s rule: name_runs.induct) (auto split: if_splits)

lemma name_char_graph: "alnum c \<or> separator c \<Longrightarrow> graph c \<and> c \<noteq> CHR ''@'' \<and> c \<noteq> CHR ''=''"
  by (auto simp: alnum_def separator_def char_class_defs)

lemma service_name_text: "service_name_ok n \<Longrightarrow> trim_space n = n \<and> n \<noteq> [] \<and> CHR ''@'' \<notin> set n \<and> CHR ''='' \<notin> set n"
proof -
  assume n: "service_name_ok n"
  have c: "graph c \<and> c \<noteq> CHR ''@'' \<and> c \<noteq> CHR ''=''" if "c \<in> set n" for c
    using name_runs_set [OF n [unfolded service_name_ok_def] that] name_char_graph by blast
  have "trim_space n = n" by (rule trim_graph) (use c in blast)
  moreover have "n \<noteq> []" using n by (auto simp: service_name_ok_def)
  ultimately show ?thesis using c by blast
qed

lemma parse_inject_service:
  assumes "service_name_ok n" "parse_inject (n @ ''@'' @ rest) = Inr (service, rules)"
  shows "service = n"
proof -
  have "cut CHR ''@'' (n @ ''@'' @ rest) = (n, rest, True)" using service_name_text [OF assms(1)] cut_found [of "CHR ''@''" n rest] by simp
  then show ?thesis using assms(2) service_name_text [OF assms(1)]
    by (auto simp: parse_inject_def split: if_splits prod.splits sum.splits)
qed

lemma inject_specs_one:
  assumes "service_name_ok n" "inject_specs (map (\<lambda>r. n @ ''@'' @ f r) rs) m = Inr m'" "fst ` set m \<subseteq> {n}" "distinct (map fst m)" "rs \<noteq> [] \<or> m \<noteq> []"
    "\<forall>(s, c)\<in>set m. cr_service c = s"
  shows "\<exists>c. m' = [(n, c)] \<and> cr_service c = n"
  using assms(2-6)
proof (induction rs arbitrary: m)
  case Nil
  then have "m' = m" by simp
  moreover have "\<exists>c. m = [(n, c)]"
    using Nil.prems by (cases m; cases "tl m") auto
  ultimately show ?case using Nil.prems(5) by auto
next
  case (Cons r rs)
  obtain service rules where p: "parse_inject (n @ ''@'' @ f r) = Inr (service, rules)"
      "inject_specs (map (\<lambda>r. n @ ''@'' @ f r) rs) (add_rules service rules m) = Inr m'"
    using Cons.prems(1) by (auto split: sum.splits prod.splits)
  have n: "service = n" by (rule parse_inject_service [OF assms(1) p(1)])
  have one: "\<exists>c. add_rules n rules m = [(n, c)] \<and> cr_service c = n"
  proof (cases m)
    case Nil
    then show ?thesis by (simp add: add_rules_def new_credential_def)
  next
    case (Cons x xs)
    then have "xs = []" "fst x = n" using Cons.prems(2,3) by (cases xs; auto)+
    then show ?thesis using Cons Cons.prems(5) by (cases x) (simp add: add_rules_def)
  qed
  then show ?case using Cons.IH [OF p(2) [unfolded n]] by auto
qed

lemma covered_hosts_set:
  "x \<in> set (covered_hosts cs) \<longleftrightarrow>
     (\<exists>d\<in>set cs. \<exists>o1. cr_oauth d = Some o1 \<and> (\<exists>h\<in>set (oa_hosts o1). to_lower (pattern_string h) = x))"
proof (induction cs)
  case (Cons c cs)
  have "covered_hosts (c # cs) = (case cr_oauth c of None \<Rightarrow> [] | Some o1 \<Rightarrow> map (\<lambda>h. to_lower (pattern_string h)) (oa_hosts o1)) @ covered_hosts cs"
    by (simp add: covered_hosts_def)
  then show ?case using Cons by (cases "cr_oauth c") auto
qed (simp add: covered_hosts_def)

lemma taken_chars: "set u \<subseteq> Collect P \<Longrightarrow> list_all P (drop (length p) (take k (p @ u)))"
  unfolding drop_take by (auto simp: list_all_iff dest: in_set_takeD)

lemma prefix_taken: "prefix u v \<Longrightarrow> length u \<le> k \<Longrightarrow> prefix u (take k v)"
  by (auto simp: prefix_def)

subsection \<open>Properties\<close>

text \<open>
  C21: what a registered service gives. The flags a valid service renders parse to one credential, for that service and no other, whose
  rules are valid and are those of its flags; and where it names a variable of its guest, the guest holds the placeholder in it.
\<close>

theorem service_gives_credential:
  assumes "validate_service s = None" "configured s"
  shows "\<exists>c. parse_credentials (service_inject_specs s) (if guest_spec s = [] then [] else [guest_spec s]) = Inr [c] \<and>
    service_credential s = Inr (c\<lparr>cr_description := sx_summary s\<rparr>) \<and> cr_service c = sx_name s \<and> cr_oauth c = None \<and> cr_inject c \<noteq> [] \<and>
    cr_inject c = rules_of (sx_name s) (service_inject_specs s) \<and> (\<forall>r\<in>set (cr_inject c). validate_inject r = None) \<and>
    (sx_env s \<noteq> [] \<and> CHR ''='' \<notin> set (sx_env s) \<and> trim_space (sx_env s) = sx_env s \<longrightarrow>
       cr_env c = sx_env s \<and> cr_placeholder c = service_placeholder s \<and> cr_managed c)"
proof -
  let ?n = "sx_name s" and ?guest = "if guest_spec s = [] then [] else [guest_spec s]"
  have n: "service_name_ok ?n" using assms(1) by (auto simp: validate_service_def split: if_splits)
  obtain d where d: "service_credential s = Inr d"
    using assms by (auto simp: validate_service_def split: if_splits option.splits sum.splits)
  then obtain c cs where c: "parse_credentials (service_inject_specs s) ?guest = Inr (c # cs)" "d = c\<lparr>cr_description := sx_summary s\<rparr>"
    using assms(2) by (auto simp: service_credential_def require_configured_def split: sum.splits list.splits)
  then obtain m m' where m: "inject_specs (service_inject_specs s) [] = Inr m" "guest_specs ?guest m = Inr m'" "c # cs = map snd m'"
    by (auto simp: parse_credentials_def split: sum.splits)
  have specs: "service_inject_specs s = map (\<lambda>r. ?n @ ''@'' @ (join_with '','' (sj_hosts r) @ ''='' @ attachment r)) (sx_inject s)"
    using assms(2) by (simp add: service_inject_specs_def)
  obtain c0 where c0: "m = [(?n, c0)]" "cr_service c0 = ?n"
    using inject_specs_one [OF n m(1) [unfolded specs]] assms(2) by (auto simp: configured_def)
  have one: "cs = []" "cr_service c = ?n"
    using m(2,3) c0 by (auto split: if_splits sum.splits prod.splits)
  have guest: "cr_env c = sx_env s \<and> cr_placeholder c = service_placeholder s \<and> cr_managed c"
    if "sx_env s \<noteq> []" "CHR ''='' \<notin> set (sx_env s)" "trim_space (sx_env s) = sx_env s"
  proof -
    have g: "guest_spec s = ?n @ CHR ''='' # sx_env s @ CHR ''='' # service_placeholder s" "guest_spec s \<noteq> []"
      using that(1) assms(2) by (simp_all add: guest_spec_def)
    have "parse_guest_credential (guest_spec s) = (if service_placeholder s = [] then Inl No_guest_placeholder else Inr (?n, sx_env s, service_placeholder s))"
      using service_name_text [OF n] that(2,3) cut_found [of "CHR ''=''" ?n] cut_found [of "CHR ''=''" "sx_env s"]
      by (simp add: parse_guest_credential_def g(1))
    then show ?thesis using m(2,3) g(2) c0 by (auto split: if_splits)
  qed
  have rules: "cr_oauth c = None \<and> cr_inject c \<noteq> [] \<and> cr_inject c = rules_of ?n (service_inject_specs s) \<and> (\<forall>r\<in>set (cr_inject c). validate_inject r = None)"
    using parsed_entries(2) [OF c(1) list.set_intros(1)] unfolding one(2) by blast
  show ?thesis using c d one rules guest by blast
qed

definition service_ex :: service where
  "service_ex = \<lparr>sx_name = ''vendor'', sx_summary = ''a vendor'',
     sx_inject = [\<lparr>sj_hosts = [''api.b'', ''c''], sj_header = ''X-Key'', sj_format = [], sj_scheme = [], sj_username = [], sj_why = ''its API''\<rparr>],
     sx_ports = [], sx_env = ''KEY'', sx_prefix = ''sk-'', sx_length = 32, sx_host = [], sx_path = [], sx_encoding = [], sx_profile = [], sx_source = ''docs''\<rparr>"

theorem service_gives_credential_witness:
  "\<exists>c. service_credential service_ex = Inr c \<and> cr_service c = ''vendor'' \<and> cr_env c = ''KEY'' \<and> cr_inject c \<noteq> []"
proof -
  have v: "validate_service service_ex = None" "configured service_ex" "trim_space ''KEY'' = ''KEY''" by code_simp+
  obtain c where "service_credential service_ex = Inr (c\<lparr>cr_description := sx_summary service_ex\<rparr>)" "cr_service c = sx_name service_ex"
      "cr_inject c \<noteq> []" "cr_env c = sx_env service_ex"
    using service_gives_credential [OF v(1,2)] v(3) by (auto simp: service_ex_def)
  then show ?thesis by (auto simp: service_ex_def)
qed

text \<open>
  A placeholder has the length asked for, begins with the vendor's prefix and then with the mark that tells it from a key, as far as they fit, and
  holds beside the prefix only letters, digits, hyphens and underscores.
\<close>

theorem sentinel_shape:
  assumes "0 < len"
  shows "int (length (new_sentinel pre seed len)) = len \<and>
    (int (length pre) \<le> len \<longrightarrow> prefix pre (new_sentinel pre seed len)) \<and>
    (int (length pre) + 16 \<le> len \<longrightarrow> prefix (pre @ ''boksproxymanaged'') (new_sentinel pre seed len)) \<and>
    list_all dir_char (drop (length pre) (new_sentinel pre seed len))"
proof -
  let ?body = "''boksproxymanaged-'' @ sanitize_sentinel seed"
  define pad where "pad = map (\<lambda>i. sentinel_filler ! ((i * 7 + length seed) mod 62)) [0..<nat (len - int (length pre + length ?body))]"
  have out: "new_sentinel pre seed len = take (nat len) (pre @ ?body @ pad)"
  proof -
    have "new_sentinel pre seed len =
        (if 0 < len \<and> len < int (length (pre @ ?body @ pad)) then take (nat len) (pre @ ?body @ pad) else pre @ ?body @ pad)"
      unfolding new_sentinel_def Let_def pad_def by (rule refl)
    moreover have "take (nat len) u = u" if "\<not> len < int (length u)" for u :: string
      using that by simp
    ultimately show ?thesis using assms by presburger
  qed
  have len: "nat len \<le> length (pre @ ?body @ pad)" by (simp add: pad_def)
  have filler: "\<forall>i<length sentinel_filler. dir_char (sentinel_filler ! i)" "length sentinel_filler = 62" "list_all dir_char ''boksproxymanaged-''"
    by code_simp+
  have "set pad \<subseteq> Collect dir_char" using filler(1) by (auto simp: pad_def filler(2))
  moreover have "set (sanitize_sentinel seed) \<subseteq> Collect dir_char" using sanitize_set [of _ seed] by (auto simp: sanitize_sentinel_def)
  moreover have "set ''boksproxymanaged-'' \<subseteq> Collect dir_char" using filler(3) unfolding list_all_iff by blast
  ultimately have "set (?body @ pad) \<subseteq> Collect dir_char" unfolding set_append by (intro Un_least)
  then have chars: "list_all dir_char (drop (length pre) (take (nat len) (pre @ ?body @ pad)))" by (rule taken_chars)
  have pre: "prefix u (take (nat len) (pre @ ?body @ pad))" if "prefix u (pre @ ?body @ pad)" "length u \<le> nat len" for u
    using that by (rule prefix_taken)
  have marks: "prefix pre (pre @ ?body @ pad)" "prefix (pre @ ''boksproxymanaged'') (pre @ ?body @ pad)" by (simp_all add: prefix_def)
  have "int (length (new_sentinel pre seed len)) = len" unfolding out length_take using len assms by linarith
  moreover have "prefix pre (new_sentinel pre seed len)" if "int (length pre) \<le> len"
    unfolding out using that by (intro pre marks) linarith
  moreover have "prefix (pre @ ''boksproxymanaged'') (new_sentinel pre seed len)" if "int (length pre) + 16 \<le> len"
  proof -
    have "length (pre @ ''boksproxymanaged'') \<le> nat len" unfolding length_append using that by simp
    then show ?thesis unfolding out by (intro pre marks)
  qed
  ultimately show ?thesis using chars unfolding out by blast
qed

theorem sentinel_shape_witness: "prefix ''sk-boksproxymanaged'' (new_sentinel ''sk-'' ''vendor'' 32)"
  using sentinel_shape [of 32 "''sk-''" "''vendor''"] by simp

text \<open>
  A login takes the place of a key exactly where it covers everything the key was for: what is dropped are the credentials with rules and without a login all
  of whose hosts some login covers, what is kept stays in its order, and nothing is lost.
\<close>

theorem oauth_preferred:
  assumes "prefer_oauth cs = (kept, dropped)"
  shows "subseq kept cs \<and> length kept + length dropped = length cs \<and> (\<forall>c\<in>set cs. cr_oauth c \<noteq> None \<longrightarrow> c \<in> set kept) \<and>
    (\<forall>c\<in>set cs. c \<in> set kept \<or> cr_service c \<in> set dropped) \<and>
    (\<forall>c\<in>set cs. c \<notin> set kept \<longleftrightarrow> cr_oauth c = None \<and> cr_inject c \<noteq> [] \<and>
       (\<forall>r\<in>set (cr_inject c). \<exists>d\<in>set cs. \<exists>o1. cr_oauth d = Some o1 \<and> (\<exists>h\<in>set (oa_hosts o1). to_lower (pattern_string h) = to_lower (pattern_string (in_domain r)))))"
proof -
  have cov: "is_covered (covered_hosts cs) c \<longleftrightarrow> cr_oauth c = None \<and> cr_inject c \<noteq> [] \<and>
       (\<forall>r\<in>set (cr_inject c). \<exists>d\<in>set cs. \<exists>o1. cr_oauth d = Some o1 \<and> (\<exists>h\<in>set (oa_hosts o1). to_lower (pattern_string h) = to_lower (pattern_string (in_domain r))))" for c
    by (simp only: is_covered_def list_all_iff covered_hosts_set)
  have kept: "kept = filter (\<lambda>c. \<not> is_covered (covered_hosts cs) c) cs" "dropped = map cr_service (filter (is_covered (covered_hosts cs)) cs)"
  proof -
    have none: "\<not> is_covered [] c" for c by (cases "cr_inject c") (simp_all add: is_covered_def)
    have "prefer_oauth cs = (filter (\<lambda>c. \<not> is_covered (covered_hosts cs) c) cs, map cr_service (filter (is_covered (covered_hosts cs)) cs))"
    proof (cases "covered_hosts cs = []")
      case True
      show ?thesis unfolding prefer_oauth_def Let_def True 
        using none by (simp add: filter_True filter_empty_conv)
    next
      case False
      then show ?thesis by (simp only: prefer_oauth_def Let_def if_False)
    qed
    then show "kept = filter (\<lambda>c. \<not> is_covered (covered_hosts cs) c) cs" "dropped = map cr_service (filter (is_covered (covered_hosts cs)) cs)"
      unfolding assms by (simp_all only: prod.inject)
  qed
  have "length kept + length dropped = length cs"
    using sum_length_filter_compl [of "is_covered (covered_hosts cs)" cs] by (simp add: kept)
  moreover have "\<forall>c\<in>set cs. cr_oauth c \<noteq> None \<longrightarrow> c \<in> set kept" by (auto simp: kept is_covered_def)
  moreover have "\<forall>c\<in>set cs. c \<in> set kept \<or> cr_service c \<in> set dropped" by (auto simp: kept)
  moreover have "\<forall>c\<in>set cs. c \<notin> set kept \<longleftrightarrow> is_covered (covered_hosts cs) c" by (auto simp: kept)
  moreover have "subseq kept cs" by (simp add: kept(1))
  ultimately show ?thesis unfolding cov [symmetric] by (intro conjI)
qed

definition login_ex :: credential where "login_ex = (new_credential ''b'')\<lparr>cr_oauth := Some oauth_ex\<rparr>"

definition key_ex :: credential where
  "key_ex = (new_credential ''key'')\<lparr>cr_inject := [inject_ex\<lparr>in_domain := zero_pattern\<lparr>p_text := ''API.b''\<rparr>\<rparr>]\<rparr>"

theorem oauth_preferred_witness:
  "\<exists>kept. prefer_oauth [key_ex, login_ex] = (kept, [''key'']) \<and> subseq kept [key_ex, login_ex] \<and> login_ex \<in> set kept"
proof -
  have run: "prefer_oauth [key_ex, login_ex] = ([login_ex], [''key''])" by code_simp
  have "cr_oauth login_ex \<noteq> None" by (simp add: login_ex_def)
  then show ?thesis using oauth_preferred [OF run] run by auto
qed

end
