(* ===== verification/Secret_Store.thy ===== *)
theory Secret_Store
  imports Secret_Tokens
begin

section \<open>Stored credentials: \<open>oauthrecord.go\<close>, \<open>scope.go\<close>, \<open>memory.go\<close>, \<open>keyringstore.go\<close> and \<open>file.go\<close>\<close>

text \<open>
  A store keeps a text per name: a plain secret, or an OAuth record behind a marker. The JSON text of a
  record is written and read by two parameters. The memory of a running sandbox keeps records as they
  are; the keyring store keeps texts in the operating system's keyring and the names in an index file;
  the file store keeps one encrypted map. What a reader of tokens may expect of any of them is the
  locale at the end.
\<close>

subsection \<open>Records\<close>

record oauth_record =
  or_v :: int
  or_service :: string
  or_access :: string
  or_refresh :: string
  or_expires :: int
  or_scopes :: "string list"
  or_subscription :: string
  or_pending :: bool
  or_host_profile :: string
  or_token_host :: string
  or_token_path :: string
  or_client :: string
  or_encoding :: string
  or_hosts :: "string list"
  or_headers :: "string list"
  or_access_sentinel :: string
  or_refresh_sentinel :: string
  or_env :: string
  or_file_path :: string
  or_file_template :: string
  or_response :: response_fields

definition record_tokens :: "oauth_record \<Rightarrow> tokens" where
  "record_tokens r =
     \<lparr>tk_access = new_value (or_access r), tk_refresh = new_value (or_refresh r),
      tk_expiry = (if 0 < or_expires r then Some (or_expires r * 1000000) else None)\<rparr>"

definition with_tokens :: "tokens \<Rightarrow> oauth_record \<Rightarrow> oauth_record" where
  "with_tokens t r =
     r\<lparr>or_access := reveal (tk_access t), or_refresh := reveal (tk_refresh t),
       or_expires := (case tk_expiry t of None \<Rightarrow> 0 | Some e \<Rightarrow> e div 1000000),
       or_pending := (if reveal (tk_access t) \<noteq> [] then False else or_pending r)\<rparr>"

datatype record_error =
    Bad_resource_host string string pattern_error | Bad_record_oauth string oauth_error | Record_no_service
  | Record_no_token | Record_pending_token

definition record_oauth ::
    "(string \<Rightarrow> file_data \<Rightarrow> string option) \<Rightarrow> int \<Rightarrow> oauth_record \<Rightarrow> record_error + oauth" where
  "record_oauth exec now r =
     (case map_res (\<lambda>h. case parse_pattern h of Inl e \<Rightarrow> Inl (Bad_resource_host (or_service r) h e) | Inr p \<Rightarrow> Inr p) (or_hosts r) of
        Inl e \<Rightarrow> Inl e
      | Inr hosts \<Rightarrow>
          (let o' = \<lparr>oa_endpoint = \<lparr>ep_host = or_token_host r, ep_path = or_token_path r\<rparr>, oa_client = or_client r,
                 oa_encoding = or_encoding r, oa_hosts = hosts, oa_headers = or_headers r,
                 oa_sentinels = \<lparr>se_access = or_access_sentinel r, se_refresh = or_refresh_sentinel r\<rparr>,
                 oa_env = or_env r, oa_file = \<lparr>cf_path = or_file_path r, cf_template = or_file_template r\<rparr>,
                 oa_fields = or_response r, oa_scopes = or_scopes r, oa_subscription = or_subscription r\<rparr>
           in case validate_oauth exec now o' of Some e \<Rightarrow> Inl (Bad_record_oauth (or_service r) e) | None \<Rightarrow> Inr o'))"

definition record_credential ::
    "(string \<Rightarrow> file_data \<Rightarrow> string option) \<Rightarrow> int \<Rightarrow> oauth_record \<Rightarrow> record_error + credential" where
  "record_credential exec now r =
     (if or_service r = [] then Inl Record_no_service
      else (case record_oauth exec now r of
          Inl e \<Rightarrow> Inl e
        | Inr o' \<Rightarrow>
            Inr ((new_credential (or_service r))\<lparr>cr_env := or_env r, cr_managed := True, cr_oauth := Some o',
                   cr_placeholder := (if or_env r \<noteq> [] then or_access_sentinel r else [])\<rparr>)))"

definition validate_record ::
    "(string \<Rightarrow> file_data \<Rightarrow> string option) \<Rightarrow> int \<Rightarrow> oauth_record \<Rightarrow> record_error option" where
  "validate_record exec now r =
     (if or_access r = [] \<and> \<not> or_pending r then Some Record_no_token
      else if or_access r \<noteq> [] \<and> or_pending r then Some Record_pending_token
      else (case record_credential exec now r of Inl e \<Rightarrow> Some e | Inr _ \<Rightarrow> None))"

definition host_profile_for :: "oauth_record \<Rightarrow> string" where
  "host_profile_for r =
     (if or_host_profile r = ''-'' then [] else if or_host_profile r = [] then or_service r else or_host_profile r)"

definition oauth_marker :: string where
  "oauth_marker = ''boks-oauth-v1:''"

definition is_oauth :: "string \<Rightarrow> bool" where
  "is_oauth stored = prefix oauth_marker stored"

definition encode_oauth :: "(oauth_record \<Rightarrow> string) \<Rightarrow> oauth_record \<Rightarrow> string" where
  "encode_oauth enc r = oauth_marker @ enc (if or_v r = 0 then r\<lparr>or_v := 1\<rparr> else r)"

datatype lookup_error =
    Not_found string | Lookup_failed | Is_oauth string | Not_oauth string | Corrupt_oauth string | Record_version string int

definition decode_oauth :: "(string \<Rightarrow> oauth_record option) \<Rightarrow> string \<Rightarrow> string \<Rightarrow> lookup_error + oauth_record" where
  "decode_oauth dec name stored =
     (if \<not> prefix oauth_marker stored then Inl (Not_oauth name)
      else (case dec (drop (length oauth_marker) stored) of
          None \<Rightarrow> Inl (Corrupt_oauth name)
        | Some r \<Rightarrow>
            if or_v r \<noteq> 1 then Inl (Record_version name (or_v r))
            else Inr (if or_service r = [] then r\<lparr>or_service := name\<rparr> else r)))"

subsection \<open>Names for one sandbox: \<open>scope.go\<close>\<close>

definition scope_prefix :: string where "scope_prefix = ''sandbox:''"

definition scoped_name :: "string \<Rightarrow> string \<Rightarrow> string" where
  "scoped_name sandbox name = scope_prefix @ sandbox @ ''/'' @ name"

definition split_scoped_name :: "string \<Rightarrow> string \<times> string" where
  "split_scoped_name stored =
     (if \<not> prefix scope_prefix stored then ([], stored)
      else (case cut CHR ''/'' (drop (length scope_prefix) stored) of (sandbox, name, found) \<Rightarrow>
        if found then (sandbox, name) else ([], stored)))"

datatype scope_error = Scope_no_name | Scope_separator string | Scope_prefixed string | Scope_sandbox string

definition validate_scoped_name :: "string \<Rightarrow> string \<Rightarrow> scope_error option" where
  "validate_scoped_name sandbox name =
     (if name = [] then Some Scope_no_name
      else if CHR ''/'' \<in> set name then Some (Scope_separator name)
      else if prefix scope_prefix name then Some (Scope_prefixed name)
      else if sandbox = [] then None
      else if CHR ''/'' \<in> set sandbox then Some (Scope_sandbox sandbox)
      else None)"

definition scoped_lookup :: "string \<Rightarrow> (string \<Rightarrow> lookup_error + secret_value) \<Rightarrow> string \<Rightarrow> lookup_error + secret_value" where
  "scoped_lookup sandbox inner name =
     (case inner (scoped_name sandbox name) of
        Inr v \<Rightarrow> Inr v
      | Inl (Not_found _) \<Rightarrow> inner name
      | Inl e \<Rightarrow> Inl e)"

definition for_sandbox :: "(string \<Rightarrow> lookup_error + secret_value) \<Rightarrow> string \<Rightarrow> string \<Rightarrow> lookup_error + secret_value" where
  "for_sandbox p sandbox = (if sandbox = [] then p else scoped_lookup sandbox p)"

subsection \<open>The memory of a sandbox: \<open>memory.go\<close>\<close>

record memory_store =
  ms_values :: "(string \<times> string) list"
  ms_oauth :: "(string \<times> oauth_record) list"

definition memory_lookup :: "memory_store \<Rightarrow> string \<Rightarrow> lookup_error + secret_value" where
  "memory_lookup s name = (case map_of (ms_values s) name of None \<Rightarrow> Inl (Not_found name) | Some v \<Rightarrow> Inr (new_value v))"

definition memory_lookup_oauth :: "memory_store \<Rightarrow> string \<Rightarrow> lookup_error + tokens" where
  "memory_lookup_oauth s name =
     (case map_of (ms_oauth s) name of None \<Rightarrow> Inl (Not_found name) | Some r \<Rightarrow> Inr (record_tokens r))"

text \<open>The name to notify of, when a save happened, comes with the new state.\<close>

definition memory_save_oauth :: "memory_store \<Rightarrow> string \<Rightarrow> tokens \<Rightarrow> lookup_error + memory_store \<times> string" where
  "memory_save_oauth s name t =
     (case map_of (ms_oauth s) name of
        None \<Rightarrow> Inl (Not_found name)
      | Some r \<Rightarrow> Inr (s\<lparr>ms_oauth := AList.update name (with_tokens t r) (ms_oauth s)\<rparr>, name))"

subsection \<open>The keyring store: \<open>keyringstore.go\<close>\<close>

text \<open>A keyring is what the operating system provides: three operations on a state of its own.\<close>

record 'r keyring =
  kr_get :: "'r \<Rightarrow> string \<Rightarrow> lookup_error + string"
  kr_set :: "'r \<Rightarrow> string \<Rightarrow> string \<Rightarrow> lookup_error option \<times> 'r"
  kr_delete :: "'r \<Rightarrow> string \<Rightarrow> lookup_error option \<times> 'r"

datatype index_file = Index_missing | Index_unreadable | Index_malformed | Index_holds "string list"

record 'r keyring_store =
  ks_ring :: 'r
  ks_index :: index_file

datatype keyring_error =
    Name_empty | Name_too_long | Name_control | Ring_error lookup_error | Cannot_return string lookup_error
  | Different_value string | Index_read | Index_corrupt | Index_write | Store_lookup lookup_error

definition valid_keyring_name :: "string \<Rightarrow> keyring_error option" where
  "valid_keyring_name name =
     (if name = [] then Some Name_empty
      else if 255 < length name then Some Name_too_long
      else if list_ex (\<lambda>c. (of_char c :: nat) < 0x20 \<or> (of_char c :: nat) = 0x7f) name then Some Name_control
      else None)"

definition read_index :: "index_file \<Rightarrow> keyring_error + string list" where
  "read_index i =
     (case i of Index_missing \<Rightarrow> Inr [] | Index_unreadable \<Rightarrow> Inl Index_read | Index_malformed \<Rightarrow> Inl Index_corrupt
      | Index_holds names \<Rightarrow> Inr names)"

text \<open>The index is replaced by renaming a finished file over it, so a failed write leaves the old one.\<close>

definition write_index :: "bool \<Rightarrow> string list \<Rightarrow> 'r keyring_store \<Rightarrow> keyring_error option \<times> 'r keyring_store" where
  "write_index writable names s = (if writable then (None, s\<lparr>ks_index := Index_holds names\<rparr>) else (Some Index_write, s))"

definition keyring_lookup :: "'r keyring \<Rightarrow> 'r keyring_store \<Rightarrow> string \<Rightarrow> lookup_error + secret_value" where
  "keyring_lookup ring s name =
     (case kr_get ring (ks_ring s) name of
        Inl e \<Rightarrow> Inl e
      | Inr stored \<Rightarrow> if is_oauth stored then Inl (Is_oauth name) else Inr (new_value stored))"

definition keyring_lookup_record ::
    "'r keyring \<Rightarrow> (string \<Rightarrow> oauth_record option) \<Rightarrow> 'r keyring_store \<Rightarrow> string \<Rightarrow> lookup_error + oauth_record" where
  "keyring_lookup_record ring dec s name =
     (case kr_get ring (ks_ring s) name of Inl e \<Rightarrow> Inl e | Inr stored \<Rightarrow> decode_oauth dec name stored)"

definition keyring_lookup_oauth ::
    "'r keyring \<Rightarrow> (string \<Rightarrow> oauth_record option) \<Rightarrow> 'r keyring_store \<Rightarrow> string \<Rightarrow> lookup_error + tokens" where
  "keyring_lookup_oauth ring dec s name =
     (case keyring_lookup_record ring dec s name of Inl e \<Rightarrow> Inl e | Inr r \<Rightarrow> Inr (record_tokens r))"

definition keyring_put ::
    "'r keyring \<Rightarrow> bool \<Rightarrow> string \<Rightarrow> string \<Rightarrow> 'r keyring_store \<Rightarrow> keyring_error option \<times> 'r keyring_store" where
  "keyring_put ring writable name val s =
     (case valid_keyring_name name of
        Some e \<Rightarrow> (Some e, s)
      | None \<Rightarrow>
          (case kr_set ring (ks_ring s) name val of (err, r) \<Rightarrow>
            let s1 = s\<lparr>ks_ring := r\<rparr>
            in case err of
                 Some e \<Rightarrow> (Some (Ring_error e), s1)
               | None \<Rightarrow>
                   (case kr_get ring r name of
                      Inl e \<Rightarrow> (Some (Cannot_return name e), s1)
                    | Inr got \<Rightarrow>
                        if got \<noteq> val then (Some (Different_value name), s1)
                        else (case read_index (ks_index s1) of
                            Inl e \<Rightarrow> (Some e, s1)
                          | Inr names \<Rightarrow>
                              if name \<in> set names then (None, s1)
                              else write_index writable (sort (names @ [name])) s1))))"

definition keyring_set ::
    "'r keyring \<Rightarrow> bool \<Rightarrow> string \<Rightarrow> secret_value \<Rightarrow> 'r keyring_store \<Rightarrow> keyring_error option \<times> 'r keyring_store" where
  "keyring_set ring writable name v s = keyring_put ring writable name (reveal v) s"

definition keyring_set_oauth ::
    "'r keyring \<Rightarrow> (oauth_record \<Rightarrow> string) \<Rightarrow> bool \<Rightarrow> string \<Rightarrow> oauth_record \<Rightarrow> 'r keyring_store
       \<Rightarrow> keyring_error option \<times> 'r keyring_store" where
  "keyring_set_oauth ring enc writable name r s = keyring_put ring writable name (encode_oauth enc r) s"

definition keyring_save_oauth ::
    "'r keyring \<Rightarrow> (oauth_record \<Rightarrow> string) \<Rightarrow> (string \<Rightarrow> oauth_record option) \<Rightarrow> bool \<Rightarrow> string \<Rightarrow> tokens \<Rightarrow> 'r keyring_store
       \<Rightarrow> keyring_error option \<times> 'r keyring_store" where
  "keyring_save_oauth ring enc dec writable name t s =
     (case keyring_lookup_record ring dec s name of
        Inl e \<Rightarrow> (Some (Store_lookup e), s)
      | Inr r \<Rightarrow> keyring_set_oauth ring enc writable name (with_tokens t r) s)"

definition keyring_remove ::
    "'r keyring \<Rightarrow> bool \<Rightarrow> string \<Rightarrow> 'r keyring_store \<Rightarrow> keyring_error option \<times> 'r keyring_store" where
  "keyring_remove ring writable name s =
     (case kr_delete ring (ks_ring s) name of (err, r) \<Rightarrow>
       let s1 = s\<lparr>ks_ring := r\<rparr>; go = (case err of None \<Rightarrow> True | Some (Not_found _) \<Rightarrow> True | _ \<Rightarrow> False)
       in if \<not> go then (Some (Ring_error (the err)), s1)
          else (case read_index (ks_index s1) of
              Inl e \<Rightarrow> (Some e, s1)
            | Inr names \<Rightarrow> if name \<in> set names then write_index writable (remove1 name names) s1 else (None, s1)))"

record store_entry =
  se_name :: string
  se_oauth :: bool

text \<open>The entries, and the names the keyring no longer holds; or the first other error of the keyring.\<close>

fun keyring_entries :: "'r keyring \<Rightarrow> 'r \<Rightarrow> string list \<Rightarrow> lookup_error + store_entry list \<times> string list" where
  "keyring_entries ring r [] = Inr ([], [])"
| "keyring_entries ring r (name # names) =
     (case kr_get ring r name of
        Inl (Not_found _) \<Rightarrow>
          (case keyring_entries ring r names of Inl e \<Rightarrow> Inl e | Inr (es, lost) \<Rightarrow> Inr (es, name # lost))
      | Inl e \<Rightarrow> Inl e
      | Inr stored \<Rightarrow>
          (case keyring_entries ring r names of Inl e \<Rightarrow> Inl e
           | Inr (es, lost) \<Rightarrow> Inr (\<lparr>se_name = name, se_oauth = is_oauth stored\<rparr> # es, lost)))"

subsection \<open>The file store: \<open>file.go\<close>\<close>

text \<open>
  The file is an envelope around one encrypted map. The cipher, with the key it derives from the
  passphrase, and the JSON text of the map are parameters.
\<close>

record envelope =
  ev_version :: int
  ev_kdf :: string
  ev_iter :: int
  ev_salt :: string
  ev_nonce :: string
  ev_data :: string

record crypto =
  cy_seal :: "string \<Rightarrow> string \<Rightarrow> int \<Rightarrow> string \<Rightarrow> string \<Rightarrow> string"
  cy_open :: "string \<Rightarrow> string \<Rightarrow> int \<Rightarrow> string \<Rightarrow> string \<Rightarrow> string option"
  cy_encode :: "(string \<times> string) list \<Rightarrow> string"
  cy_decode :: "string \<Rightarrow> (string \<times> string) list option"

datatype vault = Vault_missing | Vault_unreadable | Vault_garbage | Vault_sealed envelope

record file_store =
  fs_path :: string
  fs_pass :: string
  fs_iter :: int
  fs_vault :: vault

datatype file_error =
    No_passphrase | No_file_path | Vault_read | Not_a_vault | Unsupported_vault int string | Nonce_panic | Wrong_passphrase
  | Unexpected_plain | No_random | Vault_write | Secret_needs_name | File_lookup lookup_error | File_record record_error

definition default_iterations :: int where "default_iterations = 600000"

text \<open>Go's GCM panics when it opens with a nonce of another length; that is \<open>Nonce_panic\<close>.\<close>

definition nonce_length :: nat where "nonce_length = 12"

definition open_file :: "string \<Rightarrow> string \<Rightarrow> vault \<Rightarrow> file_error + file_store" where
  "open_file path pass v =
     (if pass = [] then Inl No_passphrase
      else if path = [] then Inl No_file_path
      else Inr \<lparr>fs_path = path, fs_pass = pass, fs_iter = default_iterations, fs_vault = v\<rparr>)"

definition key_iterations :: "int \<Rightarrow> int" where
  "key_iterations n = (if n \<le> 0 then default_iterations else n)"

definition load_vault :: "crypto \<Rightarrow> file_store \<Rightarrow> file_error + (string \<times> string) list" where
  "load_vault cy s =
     (case fs_vault s of
        Vault_missing \<Rightarrow> Inr []
      | Vault_unreadable \<Rightarrow> Inl Vault_read
      | Vault_garbage \<Rightarrow> Inl Not_a_vault
      | Vault_sealed e \<Rightarrow>
          if ev_version e \<noteq> 1 \<or> ev_kdf e \<noteq> ''pbkdf2-hmac-sha256'' then Inl (Unsupported_vault (ev_version e) (ev_kdf e))
          else if length (ev_nonce e) \<noteq> nonce_length then Inl Nonce_panic
          else (case cy_open cy (fs_pass s) (ev_salt e) (key_iterations (ev_iter e)) (ev_nonce e) (ev_data e) of
              None \<Rightarrow> Inl Wrong_passphrase
            | Some body \<Rightarrow> (case cy_decode cy body of None \<Rightarrow> Inl Unexpected_plain | Some m \<Rightarrow> Inr m)))"

text \<open>
  Saving seals the map under fresh random bytes, a salt and a nonce, and renames a finished file over the
  old one; where the random source or a step of the file work fails, the file stays as it is.
\<close>

definition save_vault ::
    "crypto \<Rightarrow> (string \<times> string) option \<Rightarrow> bool \<Rightarrow> (string \<times> string) list \<Rightarrow> file_store \<Rightarrow> file_error option \<times> file_store" where
  "save_vault cy random writable m s =
     (case random of
        None \<Rightarrow> (Some No_random, s)
      | Some (salt, nonce) \<Rightarrow>
          if \<not> writable then (Some Vault_write, s)
          else (None, s\<lparr>fs_vault := Vault_sealed
            \<lparr>ev_version = 1, ev_kdf = ''pbkdf2-hmac-sha256'', ev_iter = fs_iter s, ev_salt = salt, ev_nonce = nonce,
             ev_data = cy_seal cy (fs_pass s) salt (key_iterations (fs_iter s)) nonce (cy_encode cy m)\<rparr>\<rparr>))"

definition file_text :: "crypto \<Rightarrow> file_store \<Rightarrow> string \<Rightarrow> file_error + string" where
  "file_text cy s name =
     (case load_vault cy s of
        Inl e \<Rightarrow> Inl e
      | Inr m \<Rightarrow> (case map_of m name of None \<Rightarrow> Inl (File_lookup (Not_found name)) | Some v \<Rightarrow> Inr v))"

definition file_lookup :: "crypto \<Rightarrow> file_store \<Rightarrow> string \<Rightarrow> file_error + secret_value" where
  "file_lookup cy s name =
     (case file_text cy s name of
        Inl e \<Rightarrow> Inl e
      | Inr v \<Rightarrow> if is_oauth v then Inl (File_lookup (Is_oauth name)) else Inr (new_value v))"

definition file_lookup_record ::
    "crypto \<Rightarrow> (string \<Rightarrow> oauth_record option) \<Rightarrow> file_store \<Rightarrow> string \<Rightarrow> file_error + oauth_record" where
  "file_lookup_record cy dec s name =
     (case file_text cy s name of
        Inl e \<Rightarrow> Inl e
      | Inr v \<Rightarrow> (case decode_oauth dec name v of Inl e \<Rightarrow> Inl (File_lookup e) | Inr r \<Rightarrow> Inr r))"

definition file_lookup_oauth ::
    "crypto \<Rightarrow> (string \<Rightarrow> oauth_record option) \<Rightarrow> file_store \<Rightarrow> string \<Rightarrow> file_error + tokens" where
  "file_lookup_oauth cy dec s name =
     (case file_lookup_record cy dec s name of Inl e \<Rightarrow> Inl e | Inr r \<Rightarrow> Inr (record_tokens r))"

text \<open>Every change loads the map, changes it and saves it; an error of the loading ends it.\<close>

definition change_vault ::
    "crypto \<Rightarrow> (string \<times> string) option \<Rightarrow> bool \<Rightarrow> ((string \<times> string) list \<Rightarrow> file_error + (string \<times> string) list)
       \<Rightarrow> file_store \<Rightarrow> file_error option \<times> file_store" where
  "change_vault cy random writable f s =
     (case load_vault cy s of
        Inl e \<Rightarrow> (Some e, s)
      | Inr m \<Rightarrow> (case f m of Inl e \<Rightarrow> (Some e, s) | Inr m' \<Rightarrow> save_vault cy random writable m' s))"

definition file_set ::
    "crypto \<Rightarrow> (string \<times> string) option \<Rightarrow> bool \<Rightarrow> string \<Rightarrow> secret_value \<Rightarrow> file_store \<Rightarrow> file_error option \<times> file_store" where
  "file_set cy random writable name v s =
     (if name = [] then (Some Secret_needs_name, s)
      else change_vault cy random writable (\<lambda>m. Inr (AList.update name (reveal v) m)) s)"

definition file_set_oauth ::
    "crypto \<Rightarrow> (oauth_record \<Rightarrow> string) \<Rightarrow> (string \<Rightarrow> file_data \<Rightarrow> string option) \<Rightarrow> int \<Rightarrow> (string \<times> string) option \<Rightarrow> bool
       \<Rightarrow> string \<Rightarrow> oauth_record \<Rightarrow> file_store \<Rightarrow> file_error option \<times> file_store" where
  "file_set_oauth cy enc exec now random writable name r s =
     (if name = [] then (Some Secret_needs_name, s)
      else (case validate_record exec now r of
          Some e \<Rightarrow> (Some (File_record e), s)
        | None \<Rightarrow> change_vault cy random writable (\<lambda>m. Inr (AList.update name (encode_oauth enc r) m)) s))"

definition file_save_oauth ::
    "crypto \<Rightarrow> (oauth_record \<Rightarrow> string) \<Rightarrow> (string \<Rightarrow> oauth_record option) \<Rightarrow> (string \<times> string) option \<Rightarrow> bool
       \<Rightarrow> string \<Rightarrow> tokens \<Rightarrow> file_store \<Rightarrow> file_error option \<times> file_store" where
  "file_save_oauth cy enc dec random writable name t s =
     change_vault cy random writable (\<lambda>m.
       case map_of m name of
         None \<Rightarrow> Inl (File_lookup (Not_found name))
       | Some v \<Rightarrow>
           (case decode_oauth dec name v of
              Inl e \<Rightarrow> Inl (File_lookup e)
            | Inr r \<Rightarrow> Inr (AList.update name (encode_oauth enc (with_tokens t r)) m))) s"

definition file_delete ::
    "crypto \<Rightarrow> (string \<times> string) option \<Rightarrow> bool \<Rightarrow> string \<Rightarrow> file_store \<Rightarrow> file_error option \<times> file_store" where
  "file_delete cy random writable name s = change_vault cy random writable (\<lambda>m. Inr (AList.delete name m)) s"

definition file_names :: "crypto \<Rightarrow> file_store \<Rightarrow> file_error + string list" where
  "file_names cy s = (case load_vault cy s of Inl e \<Rightarrow> Inl e | Inr m \<Rightarrow> Inr (sort (map fst m)))"

definition file_entries :: "crypto \<Rightarrow> file_store \<Rightarrow> file_error + store_entry list" where
  "file_entries cy s =
     (case load_vault cy s of
        Inl e \<Rightarrow> Inl e
      | Inr m \<Rightarrow> Inr (sort_key se_name (map (\<lambda>(name, v). \<lparr>se_name = name, se_oauth = is_oauth v\<rparr>) m)))"

subsection \<open>What a reader of tokens may expect\<close>

text \<open>
  The contract the injector relies on: what is saved under a name is what the name then yields, in the
  form a stored pair has, and no other name is touched.
\<close>

locale token_store =
  fixes lookup :: "'s \<Rightarrow> string \<Rightarrow> lookup_error + tokens"
    and save :: "'s \<Rightarrow> string \<Rightarrow> tokens \<Rightarrow> lookup_error + 's"
    and stored :: "tokens \<Rightarrow> tokens"
  assumes save_lookup: "save s name t = Inr s' \<Longrightarrow> lookup s' name = Inr (stored t)"
    and save_other: "save s name t = Inr s' \<Longrightarrow> n \<noteq> name \<Longrightarrow> lookup s' n = lookup s n"
    and save_known: "lookup s name = Inr u \<Longrightarrow> is_ok (save s name t)"
    and stored_zero: "tokens_zero (stored t) = tokens_zero t"
begin

fun save_all :: "(string \<times> tokens) list \<Rightarrow> 's \<Rightarrow> lookup_error + 's" where
  "save_all [] s = Inr s"
| "save_all ((name, t) # xs) s = (case save s name t of Inl e \<Rightarrow> Inl e | Inr s' \<Rightarrow> save_all xs s')"

lemma save_all_lookup:
  "save_all xs s = Inr s' \<Longrightarrow>
   lookup s' name = (case map_of (rev xs) name of None \<Rightarrow> lookup s name | Some t \<Rightarrow> Inr (stored t))"
proof (induction xs s rule: save_all.induct)
  case (2 n t xs s)
  then obtain s1 where s1: "save s n t = Inr s1" "save_all xs s1 = Inr s'" by (auto split: sum.splits)
  then show ?case
    using 2(1) [OF s1] save_lookup [OF s1(1)] save_other [OF s1(1), of name]
    by (auto simp: map_add_def split: option.split)
qed simp

lemma save_all_known:
  assumes "\<And>name t. (name, t) \<in> set xs \<Longrightarrow> is_ok (lookup s name)"
  shows "is_ok (save_all xs s)"
  using assms
proof (induction xs s rule: save_all.induct)
  case (2 n t xs s)
  have "is_ok (lookup s n)" using 2(2) [of n t] by simp
  then obtain s1 where s1: "save s n t = Inr s1" using save_known [of s n _ t] by (auto simp: is_ok_iff)
  have "is_ok (lookup s1 m)" if "is_ok (lookup s m)" for m
    using that save_lookup [OF s1] save_other [OF s1, of m] by (cases "m = n") (auto simp: is_ok_iff)
  then show ?case using 2(1) [OF s1] 2(2) s1 by auto
qed simp

end

subsection \<open>Lemmas\<close>

lemma with_tokens_simps [simp]:
  "or_v (with_tokens t r) = or_v r"
  "or_service (with_tokens t r) = or_service r"
  "or_scopes (with_tokens t r) = or_scopes r"
  "or_subscription (with_tokens t r) = or_subscription r"
  "or_host_profile (with_tokens t r) = or_host_profile r"
  "or_token_host (with_tokens t r) = or_token_host r"
  "or_token_path (with_tokens t r) = or_token_path r"
  "or_client (with_tokens t r) = or_client r"
  "or_encoding (with_tokens t r) = or_encoding r"
  "or_hosts (with_tokens t r) = or_hosts r"
  "or_headers (with_tokens t r) = or_headers r"
  "or_access_sentinel (with_tokens t r) = or_access_sentinel r"
  "or_refresh_sentinel (with_tokens t r) = or_refresh_sentinel r"
  "or_env (with_tokens t r) = or_env r"
  "or_file_path (with_tokens t r) = or_file_path r"
  "or_file_template (with_tokens t r) = or_file_template r"
  "or_response (with_tokens t r) = or_response r"
  "or_access (with_tokens t r) = reveal (tk_access t)"
  "or_pending (with_tokens t r) = (if reveal (tk_access t) \<noteq> [] then False else or_pending r)"
  by (simp_all add: with_tokens_def)

definition truncated :: "tokens \<Rightarrow> tokens" where
  "truncated t =
     t\<lparr>tk_expiry := (case tk_expiry t of None \<Rightarrow> None
       | Some e \<Rightarrow> if 1000000 \<le> e then Some (e div 1000000 * 1000000) else None)\<rparr>"

lemma record_with_tokens: "record_tokens (with_tokens t r) = truncated t"
proof -
  have v: "new_value (reveal v) = v" for v by (cases v) (simp add: new_value_def reveal_def)
  have "(0 < e div 1000000) = (1000000 \<le> e)" for e :: int by (simp add: pos_imp_zdiv_pos_iff)
  then show ?thesis by (cases t) (auto simp: record_tokens_def with_tokens_def truncated_def v split: option.split)
qed

lemma truncated_zero [simp]: "tokens_zero (truncated t) = tokens_zero t"
  by (simp add: truncated_def tokens_zero_def)

text \<open>A save without its notification, and a sequence of them.\<close>

definition memory_save :: "memory_store \<Rightarrow> string \<Rightarrow> tokens \<Rightarrow> lookup_error + memory_store" where
  "memory_save s name t = (case memory_save_oauth s name t of Inl e \<Rightarrow> Inl e | Inr (s', _) \<Rightarrow> Inr s')"

fun memory_save_all :: "(string \<times> tokens) list \<Rightarrow> memory_store \<Rightarrow> lookup_error + memory_store" where
  "memory_save_all [] s = Inr s"
| "memory_save_all ((name, t) # xs) s = (case memory_save s name t of Inl e \<Rightarrow> Inl e | Inr s' \<Rightarrow> memory_save_all xs s')"

interpretation memory: token_store memory_lookup_oauth memory_save truncated
  by unfold_locales
    (auto simp: memory_lookup_oauth_def memory_save_def memory_save_oauth_def update_conv' record_with_tokens is_ok_iff
      split: option.splits)

lemma memory_save_all: "memory_save_all xs s = memory.save_all xs s"
  by (induction xs s rule: memory_save_all.induct) (simp_all split: sum.split)

lemma decode_encode:
  assumes "dec (enc (if or_v r = 0 then r\<lparr>or_v := 1\<rparr> else r)) = Some (if or_v r = 0 then r\<lparr>or_v := 1\<rparr> else r)"
    "or_v r = 0 \<or> or_v r = 1" "or_service r \<noteq> []"
  shows "decode_oauth dec name (encode_oauth enc r) = Inr (r\<lparr>or_v := 1\<rparr>)"
proof -
  have "r\<lparr>or_v := 1\<rparr> = r" if "or_v r = 1" using that by simp
  then show ?thesis using assms by (auto simp: decode_oauth_def encode_oauth_def)
qed

lemma scope_prefix_drop [simp]: "prefix scope_prefix (scope_prefix @ s)" "drop (length scope_prefix) (scope_prefix @ s) = s"
  by simp_all

lemma keyring_put_cases:
  "keyring_put ring writable name val s = (res, s') \<Longrightarrow>
   (res = None \<and> valid_keyring_name name = None \<and> kr_get ring (ks_ring s') name = Inr val \<and>
      (\<exists>names. read_index (ks_index s) = Inr names \<and>
        (if name \<in> set names then ks_index s' = ks_index s else ks_index s' = Index_holds (sort (names @ [name]))))) \<or>
   (res \<noteq> None \<and> ks_index s' = ks_index s)"
  by (auto simp: keyring_put_def write_index_def Let_def split: option.splits prod.splits sum.splits if_splits)

lemma file_change_error: "change_vault cy random writable f s = (Some e, s') \<Longrightarrow> s' = s"
  by (auto simp: change_vault_def save_vault_def split: sum.splits option.splits prod.splits if_splits)

text \<open>What the cipher and the text of the map owe one another, at one map.\<close>

definition seals :: "crypto \<Rightarrow> file_store \<Rightarrow> (string \<times> string) list \<Rightarrow> bool" where
  "seals cy s m \<longleftrightarrow>
     (\<forall>salt nonce. \<exists>m'. map_of m' = map_of m \<and>
        Option.bind (cy_open cy (fs_pass s) salt (key_iterations (fs_iter s)) nonce
          (cy_seal cy (fs_pass s) salt (key_iterations (fs_iter s)) nonce (cy_encode cy m))) (cy_decode cy) = Some m')"

lemma change_vault_text:
  assumes "change_vault cy random writable f s = (None, s')" "load_vault cy s = Inr m" "f m = Inr m'" "seals cy s m'"
    "\<forall>salt nonce. random = Some (salt, nonce) \<longrightarrow> length nonce = nonce_length"
  shows "file_text cy s' n = (case map_of m' n of None \<Rightarrow> Inl (File_lookup (Not_found n)) | Some v \<Rightarrow> Inr v)"
proof -
  obtain salt nonce where "random = Some (salt, nonce)" "s' = s\<lparr>fs_vault := Vault_sealed
            \<lparr>ev_version = 1, ev_kdf = ''pbkdf2-hmac-sha256'', ev_iter = fs_iter s, ev_salt = salt, ev_nonce = nonce,
             ev_data = cy_seal cy (fs_pass s) salt (key_iterations (fs_iter s)) nonce (cy_encode cy m')\<rparr>\<rparr>"
    using assms(1-3) by (auto simp: change_vault_def save_vault_def split: option.splits prod.splits if_splits)
  moreover obtain m2 where "map_of m2 = map_of m'" "Option.bind (cy_open cy (fs_pass s) salt (key_iterations (fs_iter s)) nonce
          (cy_seal cy (fs_pass s) salt (key_iterations (fs_iter s)) nonce (cy_encode cy m'))) (cy_decode cy) = Some m2"
    using assms(4) unfolding seals_def by blast
  ultimately show ?thesis
    using assms(5) by (auto simp: file_text_def load_vault_def bind_eq_Some_conv)
qed

subsection \<open>Properties\<close>

text \<open>
  A pair that goes through a record. What is read back is the pair that was stored, its expiry cut to
  milliseconds, and one in the first millisecond of the epoch or before it is lost; storing a token ends
  the wait for a login, and a record that was valid is still valid.
\<close>

theorem record_keeps_tokens:
  assumes "tk_expiry t = Some e" "e = 1000000 * k"
  shows "record_tokens (with_tokens t r) = (if 0 < k then t else t\<lparr>tk_expiry := None\<rparr>) \<and>
    (reveal (tk_access t) \<noteq> [] \<longrightarrow> \<not> or_pending (with_tokens t r) \<and>
       (validate_record exec now r = None \<longrightarrow> validate_record exec now (with_tokens t r) = None))"
proof -
  have "record_credential exec now (with_tokens t r) = record_credential exec now r"
    unfolding record_credential_def record_oauth_def with_tokens_simps ..
  then have "validate_record exec now r = None \<longrightarrow> validate_record exec now (with_tokens t r) = None" if "reveal (tk_access t) \<noteq> []"
    using that by (simp add: validate_record_def)
  moreover have "\<not> or_pending (with_tokens t r)" if "reveal (tk_access t) \<noteq> []"
    using that by simp
  moreover have "truncated t = (if 0 < k then t else t\<lparr>tk_expiry := None\<rparr>)"
    using assms by (cases t) (auto simp: truncated_def)
  ultimately show ?thesis by (simp add: record_with_tokens)
qed

definition record_ex :: oauth_record where
  "record_ex =
     \<lparr>or_v = 1, or_service = ''b'', or_access = [], or_refresh = [], or_expires = 0, or_scopes = [], or_subscription = [],
      or_pending = True, or_host_profile = [], or_token_host = ''auth.b'', or_token_path = ''/token'', or_client = ''cli'',
      or_encoding = [], or_hosts = [''api.b''], or_headers = [], or_access_sentinel = ''sentinel-access-0'',
      or_refresh_sentinel = ''sentinel-refresh-0'', or_env = [], or_file_path = [], or_file_template = [],
      or_response = \<lparr>rf_access = [], rf_refresh = [], rf_expires = []\<rparr>\<rparr>"

definition tokens_ex :: tokens where
  "tokens_ex = \<lparr>tk_access = new_value ''real1'', tk_refresh = new_value ''real2'', tk_expiry = Some 5000000\<rparr>"

theorem record_keeps_tokens_witness:
  "record_tokens (with_tokens tokens_ex record_ex) = tokens_ex \<and> \<not> or_pending (with_tokens tokens_ex record_ex)"
proof -
  have "tk_expiry tokens_ex = Some 5000000" "(5000000::int) = 1000000 * 5" and a: "reveal (tk_access tokens_ex) \<noteq> []"
    by (simp_all add: tokens_ex_def)
  from record_keeps_tokens [OF this(1,2), of record_ex] have "record_tokens (with_tokens tokens_ex record_ex) = tokens_ex" by simp
  then show ?thesis using a by simp
qed

text \<open>
  Names for one sandbox and names for the machine never meet. A scoped name is taken apart into its
  parts, a machine-wide one is itself, no two are equal; and a sandbox finds its own secret first, the
  machine's where it has none, and an error of the store is not taken for an absence.
\<close>

theorem scoped_names:
  assumes "validate_scoped_name sandbox name = None" "sandbox \<noteq> []" "validate_scoped_name [] name' = None"
  shows "split_scoped_name (scoped_name sandbox name) = (sandbox, name) \<and> split_scoped_name name' = ([], name') \<and>
    scoped_name sandbox name \<noteq> name' \<and>
    (inner (scoped_name sandbox name) = Inr v \<longrightarrow> for_sandbox inner sandbox name = Inr v) \<and>
    (inner (scoped_name sandbox name) = Inl (Not_found n) \<longrightarrow> for_sandbox inner sandbox name = inner name) \<and>
    (inner (scoped_name sandbox name) = Inl Lookup_failed \<longrightarrow> for_sandbox inner sandbox name = Inl Lookup_failed)"
proof -
  have "CHR ''/'' \<notin> set sandbox" "\<not> prefix scope_prefix name'"
    using assms by (auto simp: validate_scoped_name_def split: if_splits)
  then have "split_scoped_name (scoped_name sandbox name) = (sandbox, name)" "split_scoped_name name' = ([], name')"
    using cut_found [of "CHR ''/''" sandbox name] by (simp_all add: split_scoped_name_def scoped_name_def)
  then show ?thesis using assms(2) by (auto simp: for_sandbox_def scoped_lookup_def)
qed

theorem scoped_names_witness:
  "split_scoped_name (scoped_name ''web'' ''gh'') = (''web'', ''gh'') \<and> scoped_name ''web'' ''gh'' \<noteq> ''gh''"
proof -
  have "validate_scoped_name ''web'' ''gh'' = None" "validate_scoped_name [] ''gh'' = None" by code_simp+
  then show ?thesis using scoped_names [of "''web''" "''gh''" "''gh''"] by blast
qed

text \<open>
  Nothing is recorded that the keyring cannot give back. Where storing a secret succeeds, the keyring
  returns exactly it and the index names it, once and in order; where it fails, whatever the keyring
  did, the index is the one there was.
\<close>

theorem keyring_records_what_it_reads:
  assumes "keyring_put ring writable name val s = (res, s')" "read_index (ks_index s) = Inr names" "sorted names" "distinct names"
  shows "(res = None \<longrightarrow> kr_get ring (ks_ring s') name = Inr val \<and>
      (\<exists>names'. read_index (ks_index s') = Inr names' \<and> set names' = insert name (set names) \<and> sorted names' \<and> distinct names')) \<and>
    (res \<noteq> None \<longrightarrow> ks_index s' = ks_index s)"
  using keyring_put_cases [OF assms(1)]
proof (elim disjE conjE exE)
  fix ns
  assume ok: "res = None" "kr_get ring (ks_ring s') name = Inr val" "read_index (ks_index s) = Inr ns"
    "if name \<in> set ns then ks_index s' = ks_index s else ks_index s' = Index_holds (sort (ns @ [name]))"
  then have ns: "ns = names" using assms(2) by simp
  show ?thesis
  proof (cases "name \<in> set names")
    case True
    then show ?thesis using ok ns assms(2-4) by (auto simp: insert_absorb)
  next
    case False
    then have "read_index (ks_index s') = Inr (sort (names @ [name]))" using ok(4) ns by (simp add: read_index_def)
    moreover have "distinct (sort (names @ [name]))" "sorted (sort (names @ [name]))" "set (sort (names @ [name])) = insert name (set names)"
      using False assms(4) by auto
    ultimately show ?thesis using ok(1,2) by blast
  qed
qed auto

definition ring_ex :: "(string \<times> string) list keyring" where
  "ring_ex =
     \<lparr>kr_get = (\<lambda>r n. case map_of r n of None \<Rightarrow> Inl (Not_found n) | Some v \<Rightarrow> Inr v),
      kr_set = (\<lambda>r n v. (None, AList.update n v r)), kr_delete = (\<lambda>r n. (None, AList.delete n r))\<rparr>"

theorem keyring_records_what_it_reads_witness:
  "\<exists>s'. keyring_put ring_ex True ''gh'' ''key'' \<lparr>ks_ring = [], ks_index = Index_missing\<rparr> = (None, s') \<and>
     (\<exists>names. read_index (ks_index s') = Inr names \<and> set names = {''gh''})"
proof -
  have "keyring_put ring_ex True ''gh'' ''key'' \<lparr>ks_ring = [], ks_index = Index_missing\<rparr> =
      (None, \<lparr>ks_ring = [(''gh'', ''key'')], ks_index = Index_holds [''gh'']\<rparr>)"
    by (simp add: keyring_put_def ring_ex_def valid_keyring_name_def read_index_def write_index_def Let_def)
  then show ?thesis
    using keyring_records_what_it_reads [of ring_ex True "''gh''" "''key''" _ None _ "[]"] by (fastforce simp: read_index_def)
qed

text \<open>
  The encrypted file. A change that succeeds is what the file then holds, for the changed name and for
  every other; a change that reports an error, a wrong passphrase first of all, leaves the file as it
  was.
\<close>

theorem file_changes:
  assumes "load_vault cy s = Inr m" "\<forall>salt nonce. random = Some (salt, nonce) \<longrightarrow> length nonce = nonce_length"
  shows "(file_set cy random writable name v s = (None, s') \<longrightarrow> seals cy s (AList.update name (reveal v) m) \<longrightarrow>
      file_text cy s' n = (if n = name then Inr (reveal v) else file_text cy s n)) \<and>
    (file_delete cy random writable name s = (None, s') \<longrightarrow> seals cy s (AList.delete name m) \<longrightarrow>
      file_text cy s' n = (if n = name then Inl (File_lookup (Not_found n)) else file_text cy s n)) \<and>
    (file_set cy random writable name v s = (Some e, s') \<or> file_delete cy random writable name s = (Some e, s') \<or>
       file_save_oauth cy enc dec random writable name t s = (Some e, s') \<longrightarrow> s' = s)"
proof (intro conjI impI)
  have before: "file_text cy s n = (case map_of m n of None \<Rightarrow> Inl (File_lookup (Not_found n)) | Some v \<Rightarrow> Inr v)"
    by (simp add: file_text_def assms(1))
  { assume *: "file_set cy random writable name v s = (None, s')" "seals cy s (AList.update name (reveal v) m)"
    then have "change_vault cy random writable (\<lambda>m. Inr (AList.update name (reveal v) m)) s = (None, s')"
      by (auto simp: file_set_def split: if_splits)
    from change_vault_text [OF this assms(1) refl *(2) assms(2)]
    show "file_text cy s' n = (if n = name then Inr (reveal v) else file_text cy s n)" by (simp add: before update_conv') }
  { assume *: "file_delete cy random writable name s = (None, s')" "seals cy s (AList.delete name m)"
    from change_vault_text [OF *(1) [unfolded file_delete_def] assms(1) refl *(2) assms(2)]
    show "file_text cy s' n = (if n = name then Inl (File_lookup (Not_found n)) else file_text cy s n)"
      by (simp add: before delete_conv') }
  assume "file_set cy random writable name v s = (Some e, s') \<or> file_delete cy random writable name s = (Some e, s') \<or>
      file_save_oauth cy enc dec random writable name t s = (Some e, s')"
  then show "s' = s"
    by (auto simp: file_set_def file_delete_def file_save_oauth_def dest: file_change_error split: if_splits)
qed

definition crypto_ex :: crypto where
  "crypto_ex = \<lparr>cy_seal = (\<lambda>_ _ _ _ x. x), cy_open = (\<lambda>_ _ _ _ x. Some x), cy_encode = (\<lambda>_. ''m''),
     cy_decode = (\<lambda>_. Some [(''gh'', ''key'')])\<rparr>"

definition file_ex :: file_store where
  "file_ex = \<lparr>fs_path = ''p'', fs_pass = ''pw'', fs_iter = 1, fs_vault = Vault_missing\<rparr>"

theorem file_changes_witness:
  "\<exists>s'. file_set crypto_ex (Some (''s'', ''nonce-12-byt'')) True ''gh'' (new_value ''key'') file_ex = (None, s') \<and>
     file_text crypto_ex s' ''gh'' = Inr ''key''"
proof -
  have "load_vault crypto_ex file_ex = Inr []" by (simp add: load_vault_def file_ex_def)
  moreover have "seals crypto_ex file_ex (AList.update ''gh'' ''key'' [])" by (simp add: seals_def crypto_ex_def)
  moreover obtain s' where "file_set crypto_ex (Some (''s'', ''nonce-12-byt'')) True ''gh'' (new_value ''key'') file_ex = (None, s')"
    by (simp add: file_set_def change_vault_def save_vault_def load_vault_def file_ex_def)
  ultimately show ?thesis
    using file_changes [of crypto_ex file_ex "[]" "Some (''s'', ''nonce-12-byt'')" True "''gh''" "new_value ''key''" s' "''gh''"]
    by (auto simp: nonce_length_def)
qed

text \<open>
  A file that is damaged in one place ends the program: the length of the nonce in the envelope is not
  looked at before the cipher is given it.
\<close>

theorem damaged_nonce_panics:
  "load_vault cy \<lparr>fs_path = p, fs_pass = pw, fs_iter = i, fs_vault = Vault_sealed
     \<lparr>ev_version = 1, ev_kdf = ''pbkdf2-hmac-sha256'', ev_iter = i, ev_salt = salt, ev_nonce = [], ev_data = d\<rparr>\<rparr> = Inl Nonce_panic"
  by (simp add: load_vault_def nonce_length_def)

text \<open>
  Tokens saved one after the other in the memory of a sandbox: each name yields the last pair that was
  saved under it, cut to milliseconds, and names no pair was saved under yield what they did.
\<close>

theorem memory_last_save:
  assumes "\<forall>(name, t)\<in>set xs. name \<in> fst ` set (ms_oauth s)"
  shows "\<exists>s'. memory_save_all xs s = Inr s' \<and>
    (\<forall>name. memory_lookup_oauth s' name =
      (case map_of (rev xs) name of None \<Rightarrow> memory_lookup_oauth s name | Some t \<Rightarrow> Inr (truncated t)))"
proof -
  have "is_ok (memory_lookup_oauth s name)" if "(name, t) \<in> set xs" for name t
    using assms that by (auto simp: memory_lookup_oauth_def map_of_eq_None_iff split: option.split)
  then obtain s' where "memory.save_all xs s = Inr s'"
    using memory.save_all_known [of xs s] by (auto simp: is_ok_iff)
  then show ?thesis by (auto simp: memory_save_all memory.save_all_lookup)
qed

theorem memory_last_save_witness:
  "\<exists>s'. memory_save_all [(''b'', zero_tokens), (''b'', tokens_ex)] \<lparr>ms_values = [], ms_oauth = [(''b'', record_ex)]\<rparr> = Inr s' \<and>
     memory_lookup_oauth s' ''b'' = Inr (truncated tokens_ex)"
  using memory_last_save [of "[(''b'', zero_tokens), (''b'', tokens_ex)]" "\<lparr>ms_values = [], ms_oauth = [(''b'', record_ex)]\<rparr>"] by fastforce

end
