(* ===== verification/Secret_Injector.thy ===== *)
theory Secret_Injector
  imports Secret_Store
begin

section \<open>The injector: \<open>internal/secret/secret.go\<close> and \<open>acquire.go\<close>\<close>

text \<open>
  The injector attaches credentials to requests. It has four partners, each an interface in the code and
  a function on one world here: the provider of secrets, which may also supply and save token pairs; the
  refresher; the source of the login kept on the host; and the clock. Its own state is the token pairs it
  holds in memory and the times it last looked at the host's login. An error of a partner is not passed
  on as it is, so errors name the service and the step.
\<close>

subsection \<open>The injector and its state\<close>

record 'w injector =
  ij_lookup :: "'w \<Rightarrow> string \<Rightarrow> lookup_error + secret_value"
  ij_credentials :: "credential list"
  ij_oauth :: "('w \<Rightarrow> string \<Rightarrow> lookup_error + tokens) option"
  ij_save :: "('w \<Rightarrow> string \<Rightarrow> tokens \<Rightarrow> bool \<times> 'w) option"
  ij_refresh :: "('w \<Rightarrow> oauth \<Rightarrow> secret_value \<Rightarrow> (refresh_error + tokens) \<times> 'w) option"
  ij_host :: "('w \<Rightarrow> string \<Rightarrow> lookup_error + tokens) option"
  ij_skew :: int
  ij_now :: "'w \<Rightarrow> int"

record 'w inj_state =
  is_tokens :: "(string \<times> tokens) list"
  is_checked :: "(string \<times> int) list"
  is_world :: 'w

definition start_state :: "'w \<Rightarrow> 'w inj_state" where
  "start_state w = \<lparr>is_tokens = [], is_checked = [], is_world = w\<rparr>"

datatype inj_error =
    Secret_missing string | Secret_lookup string | Secret_empty string
  | Oauth_no_store string | Oauth_missing string | Oauth_lookup string
  | No_usable_token string | Rejected_refresh string nat | Expired_without_refresh string | Expired_without_refresher string
  | Failed_refresh string refresh_error | Empty_refresh string | Unsaved_refresh string | Unsaved_adoption string
  | Not_an_oauth_credential string

text \<open>The errors that are \<open>ErrCredentialStale\<close>.\<close>

definition is_stale :: "inj_error \<Rightarrow> bool" where
  "is_stale e = (case e of No_usable_token _ \<Rightarrow> True | Rejected_refresh _ _ \<Rightarrow> True | _ \<Rightarrow> False)"

definition now_of :: "'w injector \<Rightarrow> 'w inj_state \<Rightarrow> int" where
  "now_of ij st = ij_now ij (is_world st)"

definition put_tokens :: "credential \<Rightarrow> tokens \<Rightarrow> 'w inj_state \<Rightarrow> 'w inj_state" where
  "put_tokens c t st = st\<lparr>is_tokens := AList.update (cr_service c) t (is_tokens st)\<rparr>"

definition held :: "credential \<Rightarrow> 'w inj_state \<Rightarrow> tokens option" where
  "held c st = map_of (is_tokens st) (cr_service c)"

subsection \<open>Tokens\<close>

definition keep_refresh :: "tokens \<Rightarrow> tokens \<Rightarrow> tokens" where
  "keep_refresh current fresh = (if value_is_zero (tk_refresh fresh) then fresh\<lparr>tk_refresh := tk_refresh current\<rparr> else fresh)"

definition from_host :: "'w injector \<Rightarrow> credential \<Rightarrow> tokens \<Rightarrow> 'w inj_state \<Rightarrow> tokens option \<times> 'w inj_state" where
  "from_host ij c current st =
     (case ij_host ij of
        None \<Rightarrow> (None, st)
      | Some source \<Rightarrow>
          (let st1 = st\<lparr>is_checked := AList.update (cr_service c) (now_of ij st) (is_checked st)\<rparr>
           in case source (is_world st1) (cr_service c) of
                Inl _ \<Rightarrow> (None, st1)
              | Inr host \<Rightarrow>
                  if tokens_zero host \<or> reveal (tk_access host) = reveal (tk_access current) then (None, st1) else (Some host, st1)))"

text \<open>The adopted pair counts even where saving it failed; the second component is that failure.\<close>

definition adopt :: "'w injector \<Rightarrow> credential \<Rightarrow> tokens \<Rightarrow> 'w inj_state \<Rightarrow> tokens \<times> inj_error option \<times> 'w inj_state" where
  "adopt ij c t st =
     (let st1 = put_tokens c t st
      in case ij_save ij of
           None \<Rightarrow> (t, None, st1)
         | Some save \<Rightarrow>
             (case save (is_world st1) (cr_service c) t of (saved, w) \<Rightarrow>
                (t, if saved then None else Some (Unsaved_adoption (cr_service c)), st1\<lparr>is_world := w\<rparr>)))"

definition host_recheck :: int where
  "host_recheck = 30 * 1000000000"

definition recover_from_host :: "'w injector \<Rightarrow> credential \<Rightarrow> 'w inj_state \<Rightarrow> tokens option \<times> 'w inj_state" where
  "recover_from_host ij c st =
     (if ij_host ij = None then (None, st)
      else (let now = now_of ij st
        in if (case map_of (is_checked st) (cr_service c) of None \<Rightarrow> False | Some before \<Rightarrow> now - before < host_recheck)
           then (None, st)
           else (case from_host ij c zero_tokens st of
               (None, st1) \<Rightarrow> (None, st1)
             | (Some host, st1) \<Rightarrow>
                 if \<not> expired now (ij_skew ij) host then
                   (case adopt ij c host st1 of (t, _, st2) \<Rightarrow> (Some t, st2))
                 else (case (value_is_zero (tk_refresh host), ij_refresh ij, cr_oauth c) of
                     (False, Some refresher, Some o') \<Rightarrow>
                       (case refresher (is_world st1) o' (tk_refresh host) of (res, w) \<Rightarrow>
                         let st2 = st1\<lparr>is_world := w\<rparr>
                         in case res of
                              Inl _ \<Rightarrow> (None, st2)
                            | Inr fresh \<Rightarrow>
                                if tokens_zero fresh then (None, st2)
                                else (case adopt ij c (keep_refresh host fresh) st2 of (t, _, st3) \<Rightarrow> (Some t, st3)))
                   | _ \<Rightarrow> (None, st1)))))"

definition adopted :: "tokens \<times> inj_error option \<times> 'w inj_state \<Rightarrow> (inj_error + tokens) \<times> 'w inj_state" where
  "adopted r = (case r of (t, err, st) \<Rightarrow> (case err of None \<Rightarrow> (Inr t, st) | Some e \<Rightarrow> (Inl e, st)))"

text \<open>The refresh is of a credential with an OAuth description.\<close>

definition rejected_refresh ::
    "'w injector \<Rightarrow> ('w \<Rightarrow> oauth \<Rightarrow> secret_value \<Rightarrow> (refresh_error + tokens) \<times> 'w) \<Rightarrow> credential \<Rightarrow> oauth \<Rightarrow> tokens \<Rightarrow> nat
       \<Rightarrow> 'w inj_state \<Rightarrow> (inj_error + tokens) \<times> 'w inj_state" where
  "rejected_refresh ij refresher c o' current status st =
     (let give_up = (\<lambda>st. (Inl (Rejected_refresh (cr_service c) status), put_tokens c zero_tokens st))
      in case from_host ij c current st of
           (None, st1) \<Rightarrow> give_up st1
         | (Some host, st1) \<Rightarrow>
             if \<not> expired (now_of ij st1) (ij_skew ij) host then adopted (adopt ij c host st1)
             else if \<not> value_is_zero (tk_refresh host) \<and> reveal (tk_refresh host) \<noteq> reveal (tk_refresh current) then
               (case refresher (is_world st1) o' (tk_refresh host) of (res, w) \<Rightarrow>
                 let st2 = st1\<lparr>is_world := w\<rparr>
                 in case res of
                      Inr fresh \<Rightarrow> if \<not> tokens_zero fresh then adopted (adopt ij c (keep_refresh host fresh) st2) else give_up st2
                    | Inl _ \<Rightarrow> give_up st2)
             else give_up st1)"

definition refresh_tokens ::
    "'w injector \<Rightarrow> credential \<Rightarrow> oauth \<Rightarrow> tokens \<Rightarrow> 'w inj_state \<Rightarrow> (inj_error + tokens) \<times> 'w inj_state" where
  "refresh_tokens ij c o' current st =
     (if value_is_zero (tk_refresh current) then (Inl (Expired_without_refresh (cr_service c)), st)
      else (case ij_refresh ij of
          None \<Rightarrow> (Inl (Expired_without_refresher (cr_service c)), st)
        | Some refresher \<Rightarrow>
            (case refresher (is_world st) o' (tk_refresh current) of (res, w) \<Rightarrow>
              let st1 = st\<lparr>is_world := w\<rparr>
              in case res of
                   Inl (Refresh_rejected status) \<Rightarrow> rejected_refresh ij refresher c o' current status st1
                 | Inl e \<Rightarrow> (Inl (Failed_refresh (cr_service c) e), st1)
                 | Inr fresh \<Rightarrow>
                     if tokens_zero fresh then (Inl (Empty_refresh (cr_service c)), st1)
                     else (let fresh = keep_refresh current fresh; st2 = put_tokens c fresh st1
                       in case ij_save ij of
                            None \<Rightarrow> (Inr fresh, st2)
                          | Some save \<Rightarrow>
                              (case save (is_world st2) (cr_service c) fresh of (saved, w) \<Rightarrow>
                                 (if saved then Inr fresh else Inl (Unsaved_refresh (cr_service c)), st2\<lparr>is_world := w\<rparr>))))))"

definition load_tokens :: "'w injector \<Rightarrow> credential \<Rightarrow> 'w inj_state \<Rightarrow> (inj_error + tokens) \<times> 'w inj_state" where
  "load_tokens ij c st =
     (case held c st of
        Some t \<Rightarrow> (Inr t, st)
      | None \<Rightarrow>
          (case ij_oauth ij of
             None \<Rightarrow> (Inl (Oauth_no_store (cr_service c)), st)
           | Some lookup \<Rightarrow>
               (case lookup (is_world st) (cr_service c) of
                  Inl (Not_found _) \<Rightarrow> (Inl (Oauth_missing (cr_service c)), st)
                | Inl _ \<Rightarrow> (Inl (Oauth_lookup (cr_service c)), st)
                | Inr t \<Rightarrow> (Inr t, put_tokens c t st))))"

definition access_token ::
    "'w injector \<Rightarrow> credential \<Rightarrow> oauth \<Rightarrow> 'w inj_state \<Rightarrow> (inj_error + tokens) \<times> 'w inj_state" where
  "access_token ij c o' st =
     (case load_tokens ij c st of
        (Inl e, st1) \<Rightarrow> (Inl e, st1)
      | (Inr t, st1) \<Rightarrow>
          if tokens_zero t then
            (case recover_from_host ij c st1 of
               (Some recovered, st2) \<Rightarrow> (Inr recovered, st2)
             | (None, st2) \<Rightarrow> (Inl (No_usable_token (cr_service c)), st2))
          else if \<not> expired (now_of ij st1) (ij_skew ij) t then (Inr t, st1)
          else (case from_host ij c t st1 of
              (Some host, st2) \<Rightarrow>
                if \<not> expired (now_of ij st2) (ij_skew ij) host then adopted (adopt ij c host st2)
                else refresh_tokens ij c o' t st2
            | (None, st2) \<Rightarrow> refresh_tokens ij c o' t st2))"

subsection \<open>Requests\<close>

datatype flow = Flow_plaintext | Flow_tls

text \<open>The rules of one credential, in order; the flag says whether one matched.\<close>

fun apply_rules ::
    "'w injector \<Rightarrow> 'w inj_state \<Rightarrow> target \<Rightarrow> credential \<Rightarrow> inject list \<Rightarrow> header \<times> bool \<Rightarrow> inj_error + header \<times> bool" where
  "apply_rules ij st t c [] hm = Inr hm"
| "apply_rules ij st t c (r # rs) (h, matched) =
     (if \<not> pattern_match (in_domain r) t then apply_rules ij st t c rs (h, matched)
      else (case ij_lookup ij (is_world st) (cr_service c) of
          Inl (Not_found _) \<Rightarrow> Inl (Secret_missing (cr_service c))
        | Inl _ \<Rightarrow> Inl (Secret_lookup (cr_service c))
        | Inr v \<Rightarrow>
            if value_is_zero v then Inl (Secret_empty (cr_service c))
            else apply_rules ij st t c rs (h_set (inject_header r) (header_value r v) h, True)))"

text \<open>The OAuth half: the header, whether a sentinel was exchanged, and the stale credentials.\<close>

definition apply_oauth ::
    "'w injector \<Rightarrow> target \<Rightarrow> flow \<Rightarrow> credential \<Rightarrow> header \<times> bool \<Rightarrow> 'w inj_state
       \<Rightarrow> (inj_error + header \<times> bool \<times> inj_error list) \<times> 'w inj_state" where
  "apply_oauth ij t flow c hm st =
     (case (hm, cr_oauth c) of
        ((h, matched), Some o') \<Rightarrow>
          if matches_resource (Some o') t \<and> flow = Flow_tls \<and> carries_sentinel o' h then
            (case access_token ij c o' st of
               (Inl e, st1) \<Rightarrow> if is_stale e then (Inr (h, matched, [e]), st1) else (Inl e, st1)
             | (Inr tok, st1) \<Rightarrow>
                 (case substitute o' (tk_access tok) h of (h', replaced) \<Rightarrow> (Inr (h', matched \<or> replaced, []), st1)))
          else (Inr (h, matched, []), st)
      | ((h, matched), None) \<Rightarrow> (Inr (h, matched, []), st))"

fun apply_credentials ::
    "'w injector \<Rightarrow> target \<Rightarrow> flow \<Rightarrow> credential list \<Rightarrow> header \<times> string list \<times> inj_error list \<Rightarrow> 'w inj_state
       \<Rightarrow> (inj_error + header \<times> string list \<times> inj_error list) \<times> 'w inj_state" where
  "apply_credentials ij t flow [] acc st = (Inr acc, st)"
| "apply_credentials ij t flow (c # cs) (h, used, stale) st =
     (case apply_rules ij st t c (cr_inject c) (h, False) of
        Inl e \<Rightarrow> (Inl e, st)
      | Inr hm \<Rightarrow>
          (case apply_oauth ij t flow c hm st of
             (Inl e, st1) \<Rightarrow> (Inl e, st1)
           | (Inr (h', matched, stale'), st1) \<Rightarrow>
               apply_credentials ij t flow cs (h', if matched then used @ [cr_service c] else used, stale @ stale') st1))"

definition apply_injector ::
    "'w injector \<Rightarrow> target \<Rightarrow> header \<Rightarrow> flow \<Rightarrow> 'w inj_state \<Rightarrow> (inj_error + header \<times> string list \<times> inj_error list) \<times> 'w inj_state" where
  "apply_injector ij t h flow st = apply_credentials ij t flow (ij_credentials ij) (h, [], []) st"

subsection \<open>Token requests\<close>

record token_exchange =
  te_service :: string
  te_status :: nat
  te_body :: string
  te_refreshed :: bool

definition exchange_token ::
    "(json \<Rightarrow> string) \<Rightarrow> 'w injector \<Rightarrow> credential \<Rightarrow> 'w inj_state \<Rightarrow> (inj_error + token_exchange) \<times> 'w inj_state" where
  "exchange_token encode ij c st =
     (case cr_oauth c of
        None \<Rightarrow> (Inl (Not_an_oauth_credential (cr_service c)), st)
      | Some o' \<Rightarrow>
          (case (case load_tokens ij c st of (Inl _, st1) \<Rightarrow> (zero_tokens, st1) | (Inr t, st1) \<Rightarrow> (t, st1)) of (t, st1) \<Rightarrow>
            (case (if (tokens_zero t \<or> expired (now_of ij st1) (ij_skew ij) t) \<and> \<not> value_is_zero (tk_refresh t)
                   then (case refresh_tokens ij c o' t st1 of (Inl e, st2) \<Rightarrow> (Some e, False, st2) | (Inr _, st2) \<Rightarrow> (None, True, st2))
                   else (None, False, st1)) of
               (Some e, _, st2) \<Rightarrow> (Inl e, st2)
             | (None, refreshed, st2) \<Rightarrow>
                 (Inr \<lparr>te_service = cr_service c, te_status = 200, te_body = encode (token_response o'), te_refreshed = refreshed\<rparr>, st2))))"

definition needs_acquisition :: "'w injector \<Rightarrow> credential \<Rightarrow> 'w inj_state \<Rightarrow> bool \<times> 'w inj_state" where
  "needs_acquisition ij c st =
     (if cr_oauth c = None \<or> ij_oauth ij = None then (False, st)
      else (case load_tokens ij c st of (Inl _, st1) \<Rightarrow> (False, st1) | (Inr t, st1) \<Rightarrow> (tokens_zero t, st1)))"

record acquisition =
  aq_service :: string
  aq_status :: nat
  aq_body :: string
  aq_acquired :: bool
  aq_expiry :: "int option"

datatype acquire_error =
    Acquire_no_oauth string | Acquire_unreadable string nat | Acquire_mask string mask_error | Acquire_no_store string
  | Acquire_unsaved string

definition acquire_token ::
    "(string \<Rightarrow> json option) \<Rightarrow> (json \<Rightarrow> string) \<Rightarrow> 'w injector \<Rightarrow> credential \<Rightarrow> nat \<Rightarrow> string \<Rightarrow> 'w inj_state
       \<Rightarrow> (acquire_error + acquisition) \<times> 'w inj_state" where
  "acquire_token decode encode ij c status body st =
     (case cr_oauth c of
        None \<Rightarrow> (Inl (Acquire_no_oauth (cr_service c)), st)
      | Some o' \<Rightarrow>
          (let out = \<lparr>aq_service = cr_service c, aq_status = status, aq_body = body, aq_acquired = False, aq_expiry = None\<rparr>
           in case parse_token_response decode body (oa_fields o') (now_of ij st) of
                Inl _ \<Rightarrow>
                  if 200 \<le> status \<and> status < 300 then (Inl (Acquire_unreadable (cr_service c) status), st) else (Inr out, st)
              | Inr t \<Rightarrow>
                  (case mask_token_response decode encode o' body t of
                     Inl e \<Rightarrow> (Inl (Acquire_mask (cr_service c) e), st)
                   | Inr masked' \<Rightarrow>
                       (case ij_save ij of
                          None \<Rightarrow> (Inl (Acquire_no_store (cr_service c)), st)
                        | Some save \<Rightarrow>
                            (case save (is_world st) (cr_service c) t of (saved, w) \<Rightarrow>
                              if \<not> saved then (Inl (Acquire_unsaved (cr_service c)), st\<lparr>is_world := w\<rparr>)
                              else (Inr (out\<lparr>aq_body := masked', aq_acquired := True, aq_expiry := tk_expiry t\<rparr>),
                                    put_tokens c t (st\<lparr>is_world := w\<rparr>)))))))"

subsection \<open>Lemmas\<close>

text \<open>A step is about one service: what is held and when the host was looked at change for it alone.\<close>

definition only_service :: "string \<Rightarrow> 'w inj_state \<Rightarrow> 'w inj_state \<Rightarrow> bool" where
  "only_service s st st' \<longleftrightarrow>
     (\<forall>s'. s' \<noteq> s \<longrightarrow> map_of (is_tokens st') s' = map_of (is_tokens st) s' \<and> map_of (is_checked st') s' = map_of (is_checked st) s')"

lemma only_service_refl [simp]: "only_service s st st"
  by (simp add: only_service_def)

lemma only_service_trans: "only_service s st st1 \<Longrightarrow> only_service s st1 st2 \<Longrightarrow> only_service s st st2"
  by (simp add: only_service_def)

lemma only_service_steps [simp]:
  "only_service s (st\<lparr>is_world := w\<rparr>) st0 \<longleftrightarrow> only_service s st st0"
  "only_service s st0 (st\<lparr>is_world := w\<rparr>) \<longleftrightarrow> only_service s st0 st"
  "only_service (cr_service c) st0 (put_tokens c t st) \<longleftrightarrow> only_service (cr_service c) st0 st"
  "only_service s st0 (st\<lparr>is_checked := AList.update s n (is_checked st)\<rparr>) \<longleftrightarrow> only_service s st0 st"
  by (auto simp: only_service_def put_tokens_def update_conv')

lemma held_steps [simp]:
  "held c (put_tokens c t st) = Some t" "held c (st\<lparr>is_world := w\<rparr>) = held c st" "held c (st\<lparr>is_checked := m\<rparr>) = held c st"
  by (auto simp: held_def put_tokens_def update_conv')

lemma put_tokens_simps [simp]: "is_checked (put_tokens c t st) = is_checked st" "is_world (put_tokens c t st) = is_world st"
  by (simp_all add: put_tokens_def)

lemma keep_refresh_simps [simp]: "tk_access (keep_refresh t f) = tk_access f" "tokens_zero (keep_refresh t f) \<longleftrightarrow> tokens_zero f"
    "tk_expiry (keep_refresh t f) = tk_expiry f" "expired now skew (keep_refresh t f) \<longleftrightarrow> expired now skew f"
  by (auto simp: keep_refresh_def tokens_zero_def expired_def)

lemma zero_tokens_zero [simp]: "tokens_zero zero_tokens"
  by (simp add: zero_tokens_def tokens_zero_def)

lemma from_host_props:
  assumes "from_host ij c t st = (r, st1)"
  shows "only_service (cr_service c) st st1" "held c st1 = held c st" "is_tokens st1 = is_tokens st" "is_world st1 = is_world st"
    "r = Some h \<Longrightarrow> \<not> tokens_zero h \<and> reveal (tk_access h) \<noteq> reveal (tk_access t)"
    "ij_host ij = None \<Longrightarrow> r = None \<and> st1 = st"
  using assms by (auto simp: from_host_def Let_def only_service_def held_def update_conv' split: option.splits sum.splits if_splits)

lemma adopt_props:
  assumes "adopt ij c t st = (r, e, st1)"
  shows "r = t" "only_service (cr_service c) st st1" "held c st1 = Some t" "is_checked st1 = is_checked st"
    "e = None \<or> e = Some (Unsaved_adoption (cr_service c))"
  using assms by (auto simp: adopt_def Let_def split: option.splits prod.splits if_splits)

lemma adopted_Inr: "adopted r = (Inr t, st) \<longleftrightarrow> r = (t, None, st)"
  by (cases r) (auto simp: adopted_def split: option.splits)

lemma adopted_Inl: "adopted r = (Inl e, st) \<longleftrightarrow> (\<exists>t. r = (t, Some e, st))"
  by (cases r) (auto simp: adopted_def split: option.splits)

text \<open>What each of the routines below leaves behind, by its result.\<close>

definition token_outcome :: "credential \<Rightarrow> (inj_error + tokens) \<Rightarrow> 'w inj_state \<Rightarrow> bool" where
  "token_outcome c r st =
     (case r of
        Inr t \<Rightarrow> \<not> tokens_zero t \<and> held c st = Some t
      | Inl e \<Rightarrow> is_stale e \<longrightarrow> (\<exists>t. held c st = Some t \<and> tokens_zero t))"

lemma adopted_outcome:
  assumes "adopted (adopt ij c h st) = (r, st1)" "\<not> tokens_zero h"
  shows "token_outcome c r st1" "only_service (cr_service c) st st1"
proof -
  obtain t e st2 where a: "adopt ij c h st = (t, e, st2)" by (cases "adopt ij c h st") auto
  show "token_outcome c r st1" "only_service (cr_service c) st st1"
    using assms adopt_props [OF a] a by (auto simp: adopted_def token_outcome_def is_stale_def)
qed

lemma recover_props:
  assumes "recover_from_host ij c st = (r, st1)"
  shows "only_service (cr_service c) st st1"
    "case r of Some t \<Rightarrow> \<not> tokens_zero t \<and> held c st1 = Some t | None \<Rightarrow> held c st1 = held c st"
proof -
  show "only_service (cr_service c) st st1"
    using assms unfolding recover_from_host_def Let_def
    by (auto split: if_splits option.splits prod.splits sum.splits bool.splits
        dest!: from_host_props(1) adopt_props(2) intro: only_service_trans)
  show "case r of Some t \<Rightarrow> \<not> tokens_zero t \<and> held c st1 = Some t | None \<Rightarrow> held c st1 = held c st"
    using assms unfolding recover_from_host_def Let_def
    by (auto split: if_splits option.splits prod.splits sum.splits bool.splits
        dest: from_host_props adopt_props(1,3))
qed

lemma rejected_props:
  assumes "rejected_refresh ij f c o' t n st = (r, st1)"
  shows "only_service (cr_service c) st st1" "token_outcome c r st1" "r = Inl e \<Longrightarrow> e = Rejected_refresh (cr_service c) n \<or> e = Unsaved_adoption (cr_service c)"
proof -
  show "only_service (cr_service c) st st1"
    using assms unfolding rejected_refresh_def Let_def
    by (auto simp: adopted_def split: if_splits option.splits prod.splits sum.splits
        dest!: from_host_props(1) adopt_props(2) intro: only_service_trans)
  show "token_outcome c r st1"
    using assms unfolding rejected_refresh_def Let_def
    by (auto split: if_splits option.splits prod.splits sum.splits dest: from_host_props(5) intro: adopted_outcome)
      (auto simp: token_outcome_def is_stale_def)
  show "r = Inl e \<Longrightarrow> e = Rejected_refresh (cr_service c) n \<or> e = Unsaved_adoption (cr_service c)"
    using assms unfolding rejected_refresh_def Let_def
    by (auto simp: adopted_def split: if_splits option.splits prod.splits sum.splits dest: adopt_props(5))
qed

lemma refresh_props:
  assumes "refresh_tokens ij c o' t st = (r, st1)"
  shows "only_service (cr_service c) st st1" "token_outcome c r st1"
proof -
  show "only_service (cr_service c) st st1"
    using assms unfolding refresh_tokens_def Let_def
    by (auto split: if_splits option.splits prod.splits sum.splits refresh_error.splits dest: rejected_props(1))
  show "token_outcome c r st1"
    using assms unfolding refresh_tokens_def Let_def
    by (auto split: if_splits option.splits prod.splits sum.splits refresh_error.splits dest: rejected_props(2))
      (auto simp: token_outcome_def is_stale_def)
qed

lemma load_props:
  assumes "load_tokens ij c st = (r, st1)"
  shows "only_service (cr_service c) st st1" "r = Inr t \<Longrightarrow> held c st1 = Some t" "r = Inl e \<Longrightarrow> st1 = st \<and> \<not> is_stale e"
    "is_checked st1 = is_checked st" "is_world st1 = is_world st" "held c st = Some t \<Longrightarrow> r = Inr t \<and> st1 = st"
  using assms by (auto simp: load_tokens_def is_stale_def split: option.splits sum.splits lookup_error.splits)

lemma access_props:
  assumes "access_token ij c o' st = (r, st1)"
  shows "only_service (cr_service c) st st1" "token_outcome c r st1"
proof -
  show "only_service (cr_service c) st st1"
    using assms unfolding access_token_def Let_def
    by (auto simp: adopted_def split: if_splits option.splits prod.splits sum.splits
        dest!: load_props(1) recover_props(1) from_host_props(1) adopt_props(2) refresh_props(1) intro: only_service_trans)
  obtain l st2 where l: "load_tokens ij c st = (l, st2)" by (cases "load_tokens ij c st")
  show "token_outcome c r st1"
  proof (cases l)
    case (Inl e)
    then show ?thesis using assms l load_props(3) [OF l Inl] by (auto simp: access_token_def token_outcome_def)
  next
    case (Inr t)
    then have h: "held c st2 = Some t" using load_props(2) l by blast
    show ?thesis
    proof (cases "tokens_zero t")
      case True
      then show ?thesis using assms l Inr h
        by (auto simp: access_token_def token_outcome_def split: prod.splits option.splits dest!: recover_props(2))
    next
      case False
      then show ?thesis using assms l Inr h
        by (auto simp: access_token_def split: if_splits option.splits prod.splits
            dest: refresh_props(2) from_host_props(5) intro: adopted_outcome)
          (auto simp: token_outcome_def)
    qed
  qed
qed

lemma access_valid:
  assumes "held c st = Some t" "\<not> tokens_zero t" "\<not> expired (now_of ij st) (ij_skew ij) t"
  shows "access_token ij c o' st = (Inr t, st)"
  using assms by (simp add: access_token_def load_tokens_def)

text \<open>The rules of all credentials that apply to a target, in the order they are applied, and the secret each attaches.\<close>

definition matching_rules :: "credential list \<Rightarrow> target \<Rightarrow> (credential \<times> inject) list" where
  "matching_rules cs t = concat (map (\<lambda>c. map (Pair c) (filter (\<lambda>r. pattern_match (in_domain r) t) (cr_inject c))) cs)"

definition secret_of :: "'w injector \<Rightarrow> 'w inj_state \<Rightarrow> credential \<Rightarrow> secret_value option" where
  "secret_of ij st c =
     (case ij_lookup ij (is_world st) (cr_service c) of Inl _ \<Rightarrow> None | Inr v \<Rightarrow> if value_is_zero v then None else Some v)"

definition set_rule :: "'w injector \<Rightarrow> 'w inj_state \<Rightarrow> header \<Rightarrow> credential \<times> inject \<Rightarrow> header" where
  "set_rule ij st h cr = h_set (inject_header (snd cr)) (header_value (snd cr) (the (secret_of ij st (fst cr)))) h"

lemma h_values_rules: "h_values a (foldl (set_rule ij st) h rs) =
    (case find (\<lambda>cr. canonical_name (inject_header (snd cr)) = canonical_name a) (rev rs) of
       None \<Rightarrow> h_values a h
     | Some cr \<Rightarrow> [header_value (snd cr) (the (secret_of ij st (fst cr)))])"
  by (induction rs rule: rev_induct) (auto simp: set_rule_def h_values_set)

lemma apply_rules_result:
  "(if filter (\<lambda>r. pattern_match (in_domain r) t) rs \<noteq> [] \<and> secret_of ij st c = None then \<exists>e. apply_rules ij st t c rs (h, m) = Inl e
    else apply_rules ij st t c rs (h, m) =
      Inr (foldl (set_rule ij st) h (map (Pair c) (filter (\<lambda>r. pattern_match (in_domain r) t) rs)),
           m \<or> filter (\<lambda>r. pattern_match (in_domain r) t) rs \<noteq> []))"
proof (induction rs arbitrary: h m)
  case (Cons r rs)
  show ?case
    using Cons.IH [of "set_rule ij st h (c, r)" True] Cons.IH [of h m]
    by (cases "ij_lookup ij (is_world st) (cr_service c)") (auto simp: secret_of_def set_rule_def split: lookup_error.splits if_splits)
qed simp

definition no_tokens_here :: "target \<Rightarrow> flow \<Rightarrow> credential list \<Rightarrow> bool" where
  "no_tokens_here t flow cs \<longleftrightarrow> flow = Flow_plaintext \<or> list_all (\<lambda>c. \<not> matches_resource (cr_oauth c) t) cs"

lemma apply_credentials_result:
  assumes "no_tokens_here t flow cs"
  shows "if list_ex (\<lambda>cr. secret_of ij st (fst cr) = None) (matching_rules cs t)
    then \<exists>e. apply_credentials ij t flow cs (h, used, stale) st = (Inl e, st)
    else apply_credentials ij t flow cs (h, used, stale) st =
      (Inr (foldl (set_rule ij st) h (matching_rules cs t),
            used @ map cr_service (filter (\<lambda>c. list_ex (\<lambda>r. pattern_match (in_domain r) t) (cr_inject c)) cs), stale), st)"
  using assms
proof (induction cs arbitrary: h used)
  case Nil
  then show ?case by (simp add: matching_rules_def)
next
  case (Cons c cs)
  let ?f = "filter (\<lambda>r. pattern_match (in_domain r) t) (cr_inject c)"
  have rest: "no_tokens_here t flow cs" using Cons.prems by (auto simp: no_tokens_here_def)
  have skip: "apply_oauth ij t flow c (h', m) st = (Inr (h', m, []), st)" for h' m
    using Cons.prems by (auto simp: apply_oauth_def no_tokens_here_def split: option.splits)
  have m: "matching_rules (c # cs) t = map (Pair c) ?f @ matching_rules cs t" by (simp add: matching_rules_def)
  have ex: "list_ex (\<lambda>r. pattern_match (in_domain r) t) (cr_inject c) \<longleftrightarrow> ?f \<noteq> []"
    by (simp add: list_ex_iff filter_empty_conv)
  show ?case
  proof (cases "?f \<noteq> [] \<and> secret_of ij st c = None")
    case True
    then obtain e where e: "apply_rules ij st t c (cr_inject c) (h, False) = Inl e"
      using apply_rules_result [of t "cr_inject c" ij st c h False] by auto
    have "list_ex (\<lambda>cr. secret_of ij st (fst cr) = None) (matching_rules (c # cs) t)"
      using True unfolding m by (cases ?f) (auto simp: list_ex_iff)
    then show ?thesis using e by simp
  next
    case False
    then have "apply_rules ij st t c (cr_inject c) (h, False) = Inr (foldl (set_rule ij st) h (map (Pair c) ?f), ?f \<noteq> [])"
      using apply_rules_result [of t "cr_inject c" ij st c h False] by auto
    moreover have "list_ex (\<lambda>cr. secret_of ij st (fst cr) = None) (matching_rules (c # cs) t) \<longleftrightarrow>
        list_ex (\<lambda>cr. secret_of ij st (fst cr) = None) (matching_rules cs t)"
      using False unfolding m by (auto simp: list_ex_iff filter_empty_conv)
    ultimately show ?thesis
      using Cons.IH [OF rest, of "foldl (set_rule ij st) h (map (Pair c) ?f)" "if ?f \<noteq> [] then used @ [cr_service c] else used"]
      by (auto simp: skip m ex split: if_splits)
  qed
qed

lemma acquire_result:
  assumes "acquire_token decode encode ij c status body st = (r, st')"
  shows "case r of
      Inl _ \<Rightarrow> is_tokens st' = is_tokens st
    | Inr out \<Rightarrow>
        if aq_acquired out then
          \<exists>o' t save w. cr_oauth c = Some o' \<and> parse_token_response decode body (oa_fields o') (now_of ij st) = Inr t \<and>
            ij_save ij = Some save \<and> save (is_world st) (cr_service c) t = (True, w) \<and>
            held c st' = Some t \<and> is_world st' = w \<and> needs_acquisition ij c st' = (False, st') \<and>
            \<not> contains_sub (reveal (tk_access t)) (aq_body out) \<and>
            (reveal (tk_refresh t) = [] \<or> \<not> contains_sub (reveal (tk_refresh t)) (aq_body out))
        else st' = st \<and> aq_body out = body \<and> aq_status out = status \<and> \<not> (200 \<le> status \<and> status < 300)"
proof (cases r)
  case (Inl e)
  then show ?thesis using assms
    by (auto simp: acquire_token_def Let_def split: option.splits sum.splits if_splits prod.splits)
next
  case (Inr out)
  obtain o' where o': "cr_oauth c = Some o'"
    using assms Inr by (auto simp: acquire_token_def split: option.splits)
  show ?thesis
  proof (cases "parse_token_response decode body (oa_fields o') (now_of ij st)")
    case (Inl e)
    then show ?thesis using assms Inr o' by (auto simp: acquire_token_def split: if_splits)
  next
    fix t assume t: "parse_token_response decode body (oa_fields o') (now_of ij st) = Inr t"
    then obtain b save w where b: "mask_token_response decode encode o' body t = Inr b" "ij_save ij = Some save"
        "save (is_world st) (cr_service c) t = (True, w)" "st' = put_tokens c t (st\<lparr>is_world := w\<rparr>)"
        "aq_acquired out" "aq_body out = b"
      using assms Inr o' by (auto simp: acquire_token_def split: sum.splits option.splits prod.splits if_splits)
    have "\<not> tokens_zero t" using t by (auto simp: parse_token_response_Inr tokens_zero_def value_is_zero_def reveal_def)
    then have "needs_acquisition ij c st' = (False, st')" "held c st' = Some t" "is_world st' = w"
      using b(4) by (auto simp: needs_acquisition_def load_tokens_def)
    moreover have "\<not> contains_sub (reveal (tk_access t)) b \<and> (reveal (tk_refresh t) = [] \<or> \<not> contains_sub (reveal (tk_refresh t)) b)"
      using b(1) by (auto simp: mask_token_response_def find_leak_def Let_def split: option.splits if_splits)
    ultimately show ?thesis using o' t b Inr by auto
  qed
qed

subsection \<open>Properties\<close>

text \<open>
  What injection does to a request where no OAuth credential has a say: on a plaintext flow, or to a host
  that is no resource host. Nothing of the injector changes. If the secret of some rule that applies is
  missing or empty the request fails; otherwise each header holds the value of the last rule that sets
  it, every other header is as the guest wrote it, and the services reported are those with a rule that applies.
\<close>

theorem plain_injection:
  assumes "no_tokens_here t flow (ij_credentials ij)" "apply_injector ij t h flow st = (r, st')"
  shows "st' = st \<and>
    (case r of
       Inl _ \<Rightarrow> list_ex (\<lambda>cr. secret_of ij st (fst cr) = None) (matching_rules (ij_credentials ij) t)
     | Inr (h', used, stale) \<Rightarrow>
         list_all (\<lambda>cr. secret_of ij st (fst cr) \<noteq> None) (matching_rules (ij_credentials ij) t) \<and> stale = [] \<and>
         used = map cr_service (filter (\<lambda>c. list_ex (\<lambda>r. pattern_match (in_domain r) t) (cr_inject c)) (ij_credentials ij)) \<and>
         (\<forall>a. h_values a h' =
            (case find (\<lambda>cr. canonical_name (inject_header (snd cr)) = canonical_name a) (rev (matching_rules (ij_credentials ij) t)) of
               None \<Rightarrow> h_values a h
             | Some cr \<Rightarrow> [header_value (snd cr) (the (secret_of ij st (fst cr)))])))"
proof (cases "list_ex (\<lambda>cr. secret_of ij st (fst cr) = None) (matching_rules (ij_credentials ij) t)")
  case True
  then show ?thesis
    using apply_credentials_result [OF assms(1), of ij st h "[]" "[]"] assms(2) by (auto simp: apply_injector_def)
next
  case False
  then have "list_all (\<lambda>cr. secret_of ij st (fst cr) \<noteq> None) (matching_rules (ij_credentials ij) t)"
    by (auto simp: list_ex_iff list_all_iff)
  then show ?thesis
    using apply_credentials_result [OF assms(1), of ij st h "[]" "[]"] assms(2) False h_values_rules
    by (auto simp: apply_injector_def)
qed

definition injector_ex :: "nat injector" where
  "injector_ex =
     \<lparr>ij_lookup = (\<lambda>w s. if s = ''a'' then Inr (new_value ''k'') else Inl (Not_found s)),
      ij_credentials = credentials_ex,
      ij_oauth = Some (\<lambda>w s. Inr \<lparr>tk_access = new_value ''old'', tk_refresh = new_value ''r0'', tk_expiry = Some 0\<rparr>),
      ij_save = Some (\<lambda>w s t. (w \<noteq> 1, w + 1)),
      ij_refresh = Some (\<lambda>w o' v. (if w = 0 then Inr \<lparr>tk_access = new_value ''new'', tk_refresh = new_value [], tk_expiry = None\<rparr>
                                   else Inl (Refresh_rejected 400), w + 1)),
      ij_host = None, ij_skew = default_skew, ij_now = (\<lambda>w. 5)\<rparr>"

definition plain_target :: target where "plain_target = target_from_addr (A4 0x01020304) 443"

theorem plain_injection_witness:
  "snd (apply_injector injector_ex plain_target [] Flow_plaintext (start_state 0)) = start_state 0"
  using plain_injection [of plain_target Flow_plaintext injector_ex "[]" "start_state 0"]
  by (simp add: no_tokens_here_def prod_eq_iff)

text \<open>
  C16: an access token. Only the service asked for is affected; a token handed out is not empty and is the
  one held afterwards; and where a credential is reported as stale, its next token request is
  relayed to the origin and captured, as for a credential that never had a token.
\<close>

theorem access_token_outcome:
  assumes "access_token ij c o' st = (r, st')"
  shows "only_service (cr_service c) st st' \<and>
    (case r of
       Inr t \<Rightarrow> \<not> tokens_zero t \<and> held c st' = Some t
     | Inl e \<Rightarrow> is_stale e \<and> cr_oauth c \<noteq> None \<and> ij_oauth ij \<noteq> None \<longrightarrow> needs_acquisition ij c st' = (True, st'))"
  using access_props [OF assms]
  by (auto simp: token_outcome_def needs_acquisition_def load_tokens_def split: sum.splits)

definition expired_state :: "nat inj_state" where
  "expired_state = (start_state 0)\<lparr>is_tokens := [(''b'', \<lparr>tk_access = new_value ''old'', tk_refresh = new_value ''r0'', tk_expiry = Some 0\<rparr>)]\<rparr>"

definition oauth_cred_ex :: credential where "oauth_cred_ex = (new_credential ''b'')\<lparr>cr_oauth := Some oauth_ex\<rparr>"

lemma oauth_cred_ex [simp]: "cr_service oauth_cred_ex = ''b''" "cr_oauth oauth_cred_ex = Some oauth_ex"
  by (simp_all add: oauth_cred_ex_def new_credential_def)

text \<open>The clock of the example stands at 5; its endpoint refuses the second refresh and its store the first save.\<close>

lemma injector_ex_simps [simp]:
  "ij_host injector_ex = None" "now_of injector_ex st = 5" "ij_skew injector_ex = default_skew" "ij_oauth injector_ex \<noteq> None"
  "ij_save injector_ex = Some (\<lambda>w s t. (w \<noteq> 1, w + 1))" "is_world expired_state = 0"
  "ij_refresh injector_ex = Some (\<lambda>w o' v. (if w = 0 then Inr \<lparr>tk_access = new_value ''new'', tk_refresh = new_value [], tk_expiry = None\<rparr>
                                            else Inl (Refresh_rejected 400), w + 1))"
  "held oauth_cred_ex expired_state = Some \<lparr>tk_access = new_value ''old'', tk_refresh = new_value ''r0'', tk_expiry = Some 0\<rparr>"
  by (simp_all add: injector_ex_def now_of_def expired_state_def held_def start_state_def)

text \<open>At world 2 the refresh is refused, and nothing is known of a login on the host.\<close>

lemma refused_ex: "access_token injector_ex oauth_cred_ex oauth_ex (expired_state\<lparr>is_world := 2\<rparr>) =
    (Inl (Rejected_refresh ''b'' 400), put_tokens oauth_cred_ex zero_tokens (expired_state\<lparr>is_world := 3\<rparr>))"
  by (simp add: access_token_def load_tokens_def refresh_tokens_def rejected_refresh_def from_host_def tokens_zero_def expired_def default_skew_def
      Let_def)

theorem access_token_outcome_witness:
  "needs_acquisition injector_ex oauth_cred_ex (put_tokens oauth_cred_ex zero_tokens (expired_state\<lparr>is_world := 3\<rparr>)) =
     (True, put_tokens oauth_cred_ex zero_tokens (expired_state\<lparr>is_world := 3\<rparr>))"
  using access_token_outcome [OF refused_ex] by (simp add: is_stale_def)

text \<open>
  While the pair held is usable nothing a guest sends makes the host spend a refresh token: a request, a token
  request and the question whether the next login is to be captured leave the injector and the world
  as they are, and a token request is answered with sentinels.
\<close>

theorem usable_pair_kept:
  assumes "held c st = Some t" "\<not> tokens_zero t" "\<not> expired (now_of ij st) (ij_skew ij) t" "cr_oauth c = Some o'"
  shows "access_token ij c o' st = (Inr t, st) \<and> needs_acquisition ij c st = (False, st) \<and>
    exchange_token encode ij c st =
      (Inr \<lparr>te_service = cr_service c, te_status = 200, te_body = encode (token_response o'), te_refreshed = False\<rparr>, st) \<and>
    snd (apply_oauth ij target flow c hm st) = st"
  using assms access_valid [OF assms(1,2,3), of o']
  by (auto simp: needs_acquisition_def exchange_token_def load_tokens_def apply_oauth_def split: prod.split)

definition new_tokens :: tokens where
  "new_tokens = \<lparr>tk_access = new_value ''new'', tk_refresh = new_value [], tk_expiry = None\<rparr>"

theorem usable_pair_kept_witness:
  "snd (exchange_token (\<lambda>_. []) injector_ex oauth_cred_ex (put_tokens oauth_cred_ex new_tokens expired_state)) =
     put_tokens oauth_cred_ex new_tokens expired_state"
  using usable_pair_kept [of oauth_cred_ex "put_tokens oauth_cred_ex new_tokens expired_state" new_tokens injector_ex oauth_ex "\<lambda>_. []"]
  by (simp add: new_tokens_def tokens_zero_def expired_def)

text \<open>
  A token request answered on the host. The answer is composed of the sentinels alone, whatever is held and
  whatever happened; only the credential's own service changes; and where the pair was refreshed
  into one that is not about to expire, asking again refreshes nothing.
\<close>

theorem exchange_answers:
  assumes "exchange_token encode ij c st = (Inr out, st')" "cr_oauth c = Some o'"
  shows "te_status out = 200 \<and> te_body out = encode (token_response o') \<and> only_service (cr_service c) st st' \<and>
    (te_refreshed out \<longrightarrow>
       (\<exists>t. held c st' = Some t \<and> \<not> tokens_zero t \<and>
          (\<not> expired (now_of ij st') (ij_skew ij) t \<longrightarrow> exchange_token encode ij c st' = (Inr (out\<lparr>te_refreshed := False\<rparr>), st'))))"
proof -
  obtain l st1 where l: "load_tokens ij c st = (l, st1)" by (cases "load_tokens ij c st")
  define t where "t = (case l of Inl _ \<Rightarrow> zero_tokens | Inr t \<Rightarrow> t)"
  let ?again = "(tokens_zero t \<or> expired (now_of ij st1) (ij_skew ij) t) \<and> \<not> value_is_zero (tk_refresh t)"
  have run: "exchange_token encode ij c st =
      (case (if ?again then (case refresh_tokens ij c o' t st1 of (Inl e, st2) \<Rightarrow> (Some e, False, st2) | (Inr _, st2) \<Rightarrow> (None, True, st2))
             else (None, False, st1)) of
         (Some e, _, st2) \<Rightarrow> (Inl e, st2)
       | (None, refreshed, st2) \<Rightarrow>
           (Inr \<lparr>te_service = cr_service c, te_status = 200, te_body = encode (token_response o'), te_refreshed = refreshed\<rparr>, st2))"
    using assms(2) l by (cases l) (simp_all add: exchange_token_def t_def)
  have ls: "only_service (cr_service c) st st1" using load_props(1) [OF l] .
  show ?thesis
  proof (cases ?again)
    case True
    obtain x st2 where x: "refresh_tokens ij c o' t st1 = (x, st2)" by (cases "refresh_tokens ij c o' t st1")
    then obtain u where u: "x = Inr u" "st2 = st'" "out = \<lparr>te_service = cr_service c, te_status = 200, te_body = encode (token_response o'), te_refreshed = True\<rparr>"
      using run assms(1) True by (cases x) auto
    have held: "held c st' = Some u" "\<not> tokens_zero u"
      using refresh_props(2) [OF x] u by (auto simp: token_outcome_def)
    have "\<not> expired (now_of ij st') (ij_skew ij) u \<Longrightarrow> exchange_token encode ij c st' = (Inr (out\<lparr>te_refreshed := False\<rparr>), st')"
      using held assms(2) u(3) by (simp add: exchange_token_def load_tokens_def)
    then show ?thesis using held u(3) only_service_trans [OF ls] refresh_props(1) [OF x] u(2) by auto
  next
    case False
    then show ?thesis using run assms(1) ls by auto
  qed
qed

lemma exchange_ex: "exchange_token (\<lambda>_. ''sentinels'') (injector_ex\<lparr>ij_save := None\<rparr>) oauth_cred_ex expired_state =
    (Inr \<lparr>te_service = ''b'', te_status = 200, te_body = ''sentinels'', te_refreshed = True\<rparr>,
     put_tokens oauth_cred_ex (new_tokens\<lparr>tk_refresh := new_value ''r0''\<rparr>) (expired_state\<lparr>is_world := 1\<rparr>))"
  by (simp add: exchange_token_def load_tokens_def refresh_tokens_def tokens_zero_def expired_def default_skew_def keep_refresh_def new_tokens_def
      now_of_def injector_ex_def Let_def)

theorem exchange_answers_witness:
  "held oauth_cred_ex (put_tokens oauth_cred_ex (new_tokens\<lparr>tk_refresh := new_value ''r0''\<rparr>) (expired_state\<lparr>is_world := 1\<rparr>)) \<noteq> None"
  using exchange_answers [OF exchange_ex, of oauth_ex] by auto

text \<open>
  C13: a login captured for a credential. On success the tokens of the response were saved before the guest is
  answered, they are what is held from then on, no further login is captured for it, and the body for the
  guest holds neither token. A failed login leaves everything as it was and the answer goes
  through as the origin sent it, which never happens to an answer that says it succeeded; and an error
  leaves the tokens held.
\<close>

theorem login_captured:
  assumes "acquire_token decode encode ij c status body st = (r, st')"
  shows "case r of
      Inl _ \<Rightarrow> is_tokens st' = is_tokens st
    | Inr out \<Rightarrow>
        if aq_acquired out then
          \<exists>o' t save w. cr_oauth c = Some o' \<and> parse_token_response decode body (oa_fields o') (now_of ij st) = Inr t \<and>
            ij_save ij = Some save \<and> save (is_world st) (cr_service c) t = (True, w) \<and>
            held c st' = Some t \<and> is_world st' = w \<and> needs_acquisition ij c st' = (False, st') \<and>
            \<not> contains_sub (reveal (tk_access t)) (aq_body out) \<and>
            (reveal (tk_refresh t) = [] \<or> \<not> contains_sub (reveal (tk_refresh t)) (aq_body out))
        else st' = st \<and> aq_body out = body \<and> aq_status out = status \<and> \<not> (200 \<le> status \<and> status < 300)"
  by (rule acquire_result [OF assms])

theorem login_captured_witness:
  "is_tokens (snd (acquire_token (\<lambda>_. None) (\<lambda>_. []) injector_ex oauth_cred_ex 401 ''no'' expired_state)) = is_tokens expired_state"
proof -
  let ?out = "\<lparr>aq_service = ''b'', aq_status = 401, aq_body = ''no'', aq_acquired = False, aq_expiry = None\<rparr>"
  have run: "acquire_token (\<lambda>_. None) (\<lambda>_. []) injector_ex oauth_cred_ex 401 ''no'' expired_state = (Inr ?out, expired_state)"
    by (simp add: acquire_token_def parse_token_response_def object_of_def Let_def)
  show ?thesis using login_captured [OF run] run by simp
qed

text \<open>
  After a request found a credential without a usable token, and the host's login was looked at, requests
  within the next half minute ask nobody: they fail the same way and change nothing.
\<close>

theorem host_asked_rarely:
  assumes "access_token ij c o' st = (Inl e, st')" "is_stale e" "ij_host ij \<noteq> None"
  shows "\<exists>n. map_of (is_checked st') (cr_service c) = Some n \<and>
    (\<forall>now. is_tokens now = is_tokens st' \<and> is_checked now = is_checked st' \<and> now_of ij now - n < host_recheck \<longrightarrow>
       access_token ij c o' now = (Inl (No_usable_token (cr_service c)), now))"
proof -
  have looked: "\<exists>n. map_of (is_checked s1) (cr_service c) = Some n" if "from_host ij c t s0 = (x, s1)" for t s0 x s1
    using that assms(3) by (auto simp: from_host_def Let_def update_conv' split: option.splits sum.splits if_splits)
  have kept: "\<exists>n. map_of (is_checked s1) (cr_service c) = Some n"
    if "rejected_refresh ij f c o' t k s0 = (Inl e, s1)" for f t k s0 s1
    using that looked unfolding rejected_refresh_def Let_def
    by (auto simp: put_tokens_def adopted_Inl split: option.splits prod.splits sum.splits if_splits dest!: adopt_props(4))
  have refreshed: "\<exists>n. map_of (is_checked s1) (cr_service c) = Some n"
    if "refresh_tokens ij c o' t s0 = (Inl e, s1)" for t s0 s1
    using that assms(2) unfolding refresh_tokens_def Let_def
    by (auto simp: is_stale_def split: option.splits prod.splits sum.splits if_splits refresh_error.splits dest: kept)
  have recovered: "\<exists>n. map_of (is_checked s1) (cr_service c) = Some n"
    if "recover_from_host ij c s0 = (None, s1)" for s0 s1
    using that assms(3) looked unfolding recover_from_host_def Let_def
    by (fastforce split: option.splits prod.splits sum.splits if_splits bool.splits)
  obtain l st1 where l: "load_tokens ij c st = (l, st1)" by (cases "load_tokens ij c st")
  then obtain t where t: "l = Inr t" using assms(1,2) load_props(3) [OF l] by (cases l) (auto simp: access_token_def)
  have n: "\<exists>n. map_of (is_checked st') (cr_service c) = Some n"
    using assms(1) l t unfolding access_token_def
    by (auto simp: adopted_Inl split: option.splits prod.splits if_splits dest: recovered refreshed looked dest!: adopt_props(4))
  obtain u where u: "held c st' = Some u" "tokens_zero u"
    using access_props(2) [OF assms(1)] assms(2) by (auto simp: token_outcome_def)
  have "access_token ij c o' now = (Inl (No_usable_token (cr_service c)), now)"
    if "is_tokens now = is_tokens st'" "is_checked now = is_checked st'" "now_of ij now - n < host_recheck"
      "map_of (is_checked st') (cr_service c) = Some n" for n now
  proof -
    have "held c now = Some u" using u(1) that(1) by (simp add: held_def)
    then show ?thesis using u(2) that(2-4) by (simp add: access_token_def load_tokens_def recover_from_host_def)
  qed
  then show ?thesis using n by blast
qed

theorem host_asked_rarely_witness:
  "\<exists>n. map_of (is_checked (snd (access_token (injector_ex\<lparr>ij_host := Some (\<lambda>w s. Inl (Not_found s))\<rparr>) oauth_cred_ex oauth_ex
      (put_tokens oauth_cred_ex zero_tokens expired_state)))) ''b'' = Some n"
proof -
  let ?ij = "injector_ex\<lparr>ij_host := Some (\<lambda>w s. Inl (Not_found s))\<rparr>" and ?st = "put_tokens oauth_cred_ex zero_tokens expired_state"
  have "fst (access_token ?ij oauth_cred_ex oauth_ex ?st) = Inl (No_usable_token ''b'')"
    by (simp add: access_token_def load_tokens_def recover_from_host_def from_host_def expired_state_def start_state_def Let_def)
  then have "access_token ?ij oauth_cred_ex oauth_ex ?st = (Inl (No_usable_token ''b''), snd (access_token ?ij oauth_cred_ex oauth_ex ?st))"
    by (simp add: prod_eq_iff)
  from host_asked_rarely [OF this] show ?thesis by (auto simp: is_stale_def)
qed

text \<open>
  A refresh that worked but could not be saved. The request fails, although the new pair is held, and the next
  one is served from it: the failure the code's comment wants to avoid does occur, once.
\<close>

theorem unsaved_refresh_fails_once:
  assumes "held c st = Some t" "\<not> tokens_zero t" "expired (now_of ij st) (ij_skew ij) t" "\<not> value_is_zero (tk_refresh t)"
    "ij_host ij = None" "ij_refresh ij = Some f" "f (is_world st) o' (tk_refresh t) = (Inr fresh, w1)" "\<not> tokens_zero fresh"
    "ij_save ij = Some save" "save w1 (cr_service c) (keep_refresh t fresh) = (False, w2)"
  shows "\<exists>st'. access_token ij c o' st = (Inl (Unsaved_refresh (cr_service c)), st') \<and> held c st' = Some (keep_refresh t fresh) \<and>
    is_world st' = w2 \<and>
    (\<not> expired (now_of ij st') (ij_skew ij) fresh \<longrightarrow> access_token ij c o' st' = (Inr (keep_refresh t fresh), st'))"
proof -
  let ?st = "put_tokens c (keep_refresh t fresh) (st\<lparr>is_world := w1\<rparr>)\<lparr>is_world := w2\<rparr>"
  have "access_token ij c o' st = (Inl (Unsaved_refresh (cr_service c)), ?st)"
    using assms by (simp add: access_token_def load_tokens_def from_host_def refresh_tokens_def Let_def put_tokens_def)
  moreover have "\<not> expired (now_of ij ?st) (ij_skew ij) fresh \<longrightarrow> access_token ij c o' ?st = (Inr (keep_refresh t fresh), ?st)"
    using assms(8) by (auto intro: access_valid)
  moreover have "held c ?st = Some (keep_refresh t fresh)" "is_world ?st = w2" by simp_all
  ultimately show ?thesis by blast
qed

theorem unsaved_refresh_fails_once_witness:
  "\<exists>st'. access_token injector_ex oauth_cred_ex oauth_ex expired_state = (Inl (Unsaved_refresh ''b''), st')"
proof -
  let ?t = "\<lparr>tk_access = new_value ''old'', tk_refresh = new_value ''r0'', tk_expiry = Some 0\<rparr>"
  have "expired (now_of injector_ex expired_state) (ij_skew injector_ex) ?t" by (simp add: expired_def default_skew_def)
  with unsaved_refresh_fails_once [of oauth_cred_ex expired_state ?t injector_ex "the (ij_refresh injector_ex)" oauth_ex new_tokens 1 "the (ij_save injector_ex)" 2]
  show ?thesis by (auto simp: tokens_zero_def new_tokens_def)
qed

end
