(* ===== verification/Cli_Credential.thy ===== *)
theory Cli_Credential
  imports Cli_Kit Secret_Service Secret_Store Secret_Injector
begin

section \<open>The credentials of a run: \<open>internal/cli/kitagent.go\<close> and \<open>internal/cli/servicecreds.go\<close>\<close>

text \<open>
  Which credentials a run carries: those of a kit, rendered into the grammar of \<open>--inject\<close>, those of the flags, and those the store
  holds for services the agent uses. The store is given by the entries it lists, the registry of services by the list that was built.
\<close>

subsection \<open>A kit's credentials as flags\<close>

datatype form_error = Form_colon string | Form_verb string

definition kit_attach_form :: "key_inject \<Rightarrow> form_error + string" where
  "kit_attach_form ki =
     (if ki_scheme ki \<noteq> [] then Inr (if ki_username ki \<noteq> [] then ki_scheme ki @ '':'' @ ki_username ki else ki_scheme ki)
      else (let header = (if ki_header ki = [] then ''Authorization'' else ki_header ki)
        in if contains_sub '':'' header then Inl (Form_colon header)
           else if ki_format ki = [] then Inr header
           else if \<not> contains_sub ''%s'' (ki_format ki) then Inl (Form_verb (ki_format ki))
           else Inr (header @ '':'' @ ki_format ki)))"

text \<open>The map of hosts by form, with the forms in the order they appear.\<close>

fun add_form :: "string \<Rightarrow> string \<Rightarrow> (string \<times> string list) list \<Rightarrow> (string \<times> string list) list" where
  "add_form f d [] = [(f, [d])]"
| "add_form f d ((g, ds) # gs) = (if g = f then (g, ds @ [d]) # gs else (g, ds) # add_form f d gs)"

fun group_forms :: "(string \<times> string list) list \<Rightarrow> key_inject list \<Rightarrow> form_error + (string \<times> string list) list" where
  "group_forms gs [] = Inr gs"
| "group_forms gs (ki # kis) =
     (case kit_attach_form ki of Inl e \<Rightarrow> Inl e | Inr f \<Rightarrow> group_forms (add_form f (ki_domain ki) gs) kis)"

definition credential_specs :: "kit_credential \<Rightarrow> form_error + string list" where
  "credential_specs c =
     (case kc_key c of
        None \<Rightarrow> Inr []
      | Some k \<Rightarrow>
          if length (ak_inject k) = 0 then Inr []
          else map_sum id (map (\<lambda>(f, ds). kc_service c @ ''@'' @ join_with '','' ds @ ''='' @ f)) (group_forms [] (ak_inject k)))"

fun all_specs :: "string \<Rightarrow> kit_credential list \<Rightarrow> (string \<times> string \<times> form_error) + string list" where
  "all_specs name [] = Inr []"
| "all_specs name (c # cs) =
     (case credential_specs c of
        Inl e \<Rightarrow> Inl (name, kc_service c, e)
      | Inr ss \<Rightarrow> (case all_specs name cs of Inl e \<Rightarrow> Inl e | Inr ts \<Rightarrow> Inr (ss @ ts)))"

definition kit_inject_specs :: "kit option \<Rightarrow> (string \<times> string \<times> form_error) + string list" where
  "kit_inject_specs spec = (case spec of None \<Rightarrow> Inr [] | Some s \<Rightarrow> all_specs (ks_name s) (ks_credentials s))"

subsection \<open>The plan\<close>

record credential_plan =
  cp_inject :: "string list"
  cp_guest :: "string list"
  cp_oauth :: "string list"
  cp_adopted :: "string list"
  cp_shadowed :: "string list"

datatype 'e plan_fault = Plan_open 'e | Plan_no_store | Plan_kit "string \<times> string \<times> form_error" | Plan_entries 'e | Plan_specs credentials_error | Plan_record record_error

definition named_services :: "policy_flags \<Rightarrow> string list" where
  "named_services f =
     concat (map (\<lambda>spec. case parse_inject spec of Inl _ \<Rightarrow> [] | Inr (service, _) \<Rightarrow> [service]) (fl_inject f)) @ fl_oauth f"

text \<open>The walk over the entries of the store: a name, and whether it holds a login.\<close>

definition adopt_entry :: "service list \<Rightarrow> policy_flags \<Rightarrow> string \<Rightarrow> bool \<Rightarrow> credential_plan \<Rightarrow> credential_plan" where
  "adopt_entry reg f n login p =
     (if n \<in> set (named_services f) then p
      else if n \<notin> set (ag_credentials (fl_agent f)) then p
      else if login then p\<lparr>cp_oauth := cp_oauth p @ [n], cp_adopted := cp_adopted p @ [n @ '' (oauth)'']\<rparr>
      else (case lookup_service n reg of
          None \<Rightarrow> p
        | Some s \<Rightarrow>
            if \<not> configured s then p
            else p\<lparr>cp_inject := cp_inject p @ service_inject_specs s,
              cp_guest := cp_guest p @ (if guest_spec s \<noteq> [] then [guest_spec s] else []), cp_adopted := cp_adopted p @ [n]\<rparr>))"

fun adopt_entries :: "service list \<Rightarrow> policy_flags \<Rightarrow> (string \<times> bool) list \<Rightarrow> credential_plan \<Rightarrow> credential_plan" where
  "adopt_entries reg f [] p = p"
| "adopt_entries reg f ((n, login) # es) p = adopt_entries reg f es (adopt_entry reg f n login p)"

text \<open>\<open>planCredentials\<close>: no store, or one whose entries were listed or not.\<close>

definition plan_credentials :: "policy_flags \<Rightarrow> service list \<Rightarrow> ('e + (string \<times> bool) list) option \<Rightarrow> 'e plan_fault + credential_plan" where
  "plan_credentials f reg st =
     (case kit_inject_specs (fl_kit f) of
        Inl e \<Rightarrow> Inl (Plan_kit e)
      | Inr specs \<Rightarrow>
          (let p = \<lparr>cp_inject = specs @ fl_inject f, cp_guest = fl_guest f, cp_oauth = fl_oauth f, cp_adopted = [], cp_shadowed = []\<rparr>
           in case st of
                None \<Rightarrow> Inr p
              | Some entries \<Rightarrow>
                  if fl_no_secrets f then Inr p
                  else (case entries of Inl e \<Rightarrow> Inl (Plan_entries e) | Inr es \<Rightarrow> Inr (adopt_entries reg f es p))))"

definition inject_service :: "string \<Rightarrow> string" where
  "inject_service spec = (case parse_inject spec of Inl _ \<Rightarrow> [] | Inr (s, _) \<Rightarrow> s)"

definition guest_service :: "string \<Rightarrow> string" where
  "guest_service spec = (case parse_guest_credential spec of Inl _ \<Rightarrow> [] | Inr (s, _, _) \<Rightarrow> s)"

definition filter_specs :: "string list \<Rightarrow> string list \<Rightarrow> (string \<Rightarrow> string) \<Rightarrow> string list" where
  "filter_specs specs gone service = filter (\<lambda>s. service s \<notin> set gone) specs"

text \<open>\<open>preferOAuth\<close> on a plan, with the records read for its logins; a missing one is the zero record, which has no service.\<close>

definition record_of ::
    "(string \<Rightarrow> file_data \<Rightarrow> string option) \<Rightarrow> int \<Rightarrow> (string \<times> oauth_record) list \<Rightarrow> string \<Rightarrow> record_error + credential" where
  "record_of exec now records n =
     (case map_of records n of None \<Rightarrow> Inl Record_no_service | Some r \<Rightarrow> record_credential exec now r)"

definition prefer_logins ::
    "(string \<Rightarrow> file_data \<Rightarrow> string option) \<Rightarrow> int \<Rightarrow> (string \<times> oauth_record) list \<Rightarrow> credential_plan \<Rightarrow> 'e plan_fault + credential_plan" where
  "prefer_logins exec now records p =
     (if length records = 0 \<or> length (cp_inject p) = 0 then Inr p
      else (case parse_credentials (cp_inject p) (cp_guest p) of
          Inl e \<Rightarrow> Inl (Plan_specs e)
        | Inr cs \<Rightarrow> (case map_res (record_of exec now records) (cp_oauth p) of
            Inl e \<Rightarrow> Inl (Plan_record e)
          | Inr logins \<Rightarrow>
              (let gone = snd (prefer_oauth (cs @ logins))
               in if length gone = 0 then Inr p
                  else Inr (p\<lparr>cp_shadowed := gone, cp_inject := filter_specs (cp_inject p) gone inject_service,
                         cp_guest := filter_specs (cp_guest p) gone guest_service\<rparr>)))))"

definition plan_services :: "credential_plan \<Rightarrow> credentials_error + string list" where
  "plan_services p = map_sum id (map cr_service) (parse_credentials (cp_inject p) (cp_guest p))"

text \<open>
  The caller's part, \<open>resolveCredentials\<close>. \<open>opened\<close> is what opening the store gave: an error, no store, or one with
  the entries it lists; \<open>read\<close> reads the records of its logins.
\<close>

definition resolve_credentials ::
    "(string \<Rightarrow> file_data \<Rightarrow> string option) \<Rightarrow> int \<Rightarrow> policy_flags \<Rightarrow> service list \<Rightarrow> 'e + ('e + (string \<times> bool) list) option
       \<Rightarrow> (string list \<Rightarrow> 'e + (string \<times> oauth_record) list) \<Rightarrow> 'e plan_fault + credential_plan \<times> (string \<times> oauth_record) list" where
  "resolve_credentials exec now f reg opened read =
     (let asked = (0 < length (fl_inject f) \<or> 0 < length (fl_guest f) \<or> 0 < length (fl_oauth f));
          st = (case opened of Inl _ \<Rightarrow> None | Inr st \<Rightarrow> st)
      in if asked \<and> \<not> is_ok opened then Inl (case opened of Inl e \<Rightarrow> Plan_open e | Inr _ \<Rightarrow> Plan_no_store)
         else if asked \<and> st = None then Inl Plan_no_store
         else (case plan_credentials f reg st of
           Inl e \<Rightarrow>
             if asked then Inl e
             else Inr (\<lparr>cp_inject = fl_inject f, cp_guest = fl_guest f, cp_oauth = [], cp_adopted = [], cp_shadowed = []\<rparr>, [])
         | Inr p \<Rightarrow>
             if length (cp_oauth p) = 0 then Inr (p, [])
             else (case read (cp_oauth p) of
                 Inl e \<Rightarrow> Inl (Plan_entries e)
               | Inr records \<Rightarrow> (case prefer_logins exec now records p of Inl e \<Rightarrow> Inl e | Inr q \<Rightarrow> Inr (q, records)))))"

subsection \<open>Grouping by form\<close>

definition form_pairs :: "(string \<times> string list) list \<Rightarrow> (string \<times> string) set" where
  "form_pairs gs = {(f, d). \<exists>ds. (f, ds) \<in> set gs \<and> d \<in> set ds}"

lemma form_pairs_Cons: "form_pairs ((g, ds) # gs) = Pair g ` set ds \<union> form_pairs gs"
  by (auto simp: form_pairs_def)

lemma form_pairs_Nil: "form_pairs [] = {}"
  by (simp add: form_pairs_def)

lemma add_form_pairs: "form_pairs (add_form f d gs) = insert (f, d) (form_pairs gs)"
  by (induction f d gs rule: add_form.induct) (auto simp: form_pairs_Cons form_pairs_Nil)

lemma add_form_hosts: "\<forall>(g, ds)\<in>set gs. ds \<noteq> [] \<Longrightarrow> \<forall>(g, ds)\<in>set (add_form f d gs). ds \<noteq> []"
  by (induction f d gs rule: add_form.induct) auto

lemma group_forms_all:
  assumes "\<forall>ki\<in>set kis. kit_attach_form ki = Inr (form ki)" "\<forall>(g, ds)\<in>set gs. ds \<noteq> []"
  shows "\<exists>gs'. group_forms gs kis = Inr gs' \<and> (\<forall>(g, ds)\<in>set gs'. ds \<noteq> []) \<and>
    form_pairs gs' = form_pairs gs \<union> (\<lambda>ki. (form ki, ki_domain ki)) ` set kis"
  using assms
proof (induction kis arbitrary: gs)
  case (Cons ki kis)
  show ?case using Cons.IH [OF _ add_form_hosts [OF Cons.prems(2), of "form ki" "ki_domain ki"]] Cons.prems(1)
    by (auto simp: add_form_pairs)
qed (auto simp: form_pairs_Nil)

subsection \<open>One specification\<close>

definition parsed_domain :: "string \<Rightarrow> pattern" where
  "parsed_domain d = (case parse_pattern d of Inr p \<Rightarrow> p | Inl _ \<Rightarrow> zero_pattern)"

definition header_of :: "key_inject \<Rightarrow> string" where
  "header_of ki = (if ki_header ki = [] then ''Authorization'' else ki_header ki)"

text \<open>
  The rule a kit's injection stands for, and the injections a specification can carry: neither a scheme
  nor a name for basic authentication, a host the compact form can hold, a header by its name, and a
  format with one verb.
\<close>

definition kit_rule :: "key_inject \<Rightarrow> inject" where
  "kit_rule ki = zero_inject\<lparr>in_domain := parsed_domain (ki_domain ki), in_header := header_of ki, in_format := ki_format ki,
     in_username := ki_username ki\<rparr>"

definition domain_ok :: "string \<Rightarrow> bool" where
  "domain_ok d \<longleftrightarrow> CHR '','' \<notin> set d \<and> CHR ''='' \<notin> set d \<and> (case parse_pattern d of Inl _ \<Rightarrow> False | Inr p \<Rightarrow> \<not> is_any p)"

definition format_ok :: "string \<Rightarrow> bool" where
  "format_ok f \<longleftrightarrow> count_sub ''%s'' f = 1 \<and> count_sub ''%'' f = 1 \<and> \<not> contains_any f Secret_Rules.newline \<and> graph (last f)"

definition header_ok :: "string \<Rightarrow> bool" where
  "header_ok h \<longleftrightarrow> valid_header_name h = None \<and> to_lower h \<noteq> scheme_bearer \<and> to_lower h \<noteq> scheme_basic"

definition renders :: "key_inject \<Rightarrow> bool" where
  "renders ki \<longleftrightarrow> ki_scheme ki = [] \<and> ki_username ki = [] \<and> domain_ok (ki_domain ki) \<and> header_ok (header_of ki) \<and> format_ok (ki_format ki)"

definition service_text :: "string \<Rightarrow> bool" where
  "service_text n \<longleftrightarrow> trim_space n = n \<and> n \<noteq> [] \<and> CHR ''@'' \<notin> set n"

lemma header_ok_chars: "header_ok h \<Longrightarrow> h \<noteq> [] \<and> (\<forall>c\<in>set h. graph c \<and> c \<noteq> CHR '':'')"
  by (auto simp: header_ok_def valid_header_name_iff list_all_iff header_char_def char_class_defs)

lemma header_ok_colon: "header_ok h \<Longrightarrow> CHR '':'' \<notin> set h"
  using header_ok_chars by blast

lemma format_ok_Nil: "format_ok f \<Longrightarrow> f \<noteq> []"
  by (auto simp: format_ok_def count_sub.simps)

lemma written_attachment:
  assumes "header_ok h" "format_ok f"
  shows "parse_attachment (trim_space (h @ '':'' @ f)) = Inr (zero_inject\<lparr>in_header := h, in_format := f\<rparr>)"
proof -
  note h = header_ok_chars [OF assms(1)]
  have "trim_space (h @ '':'' @ f) = h @ '':'' @ f"
    by (rule trim_space_id) (use h format_ok_Nil [OF assms(2)] assms(2) in \<open>auto simp: format_ok_def\<close>)
  moreover have "trim_space h = h" by (rule trim_graph) (use h in auto)
  moreover have "to_lower h \<noteq> scheme_bearer" "to_lower h \<noteq> scheme_basic" using assms(1) by (simp_all add: header_ok_def)
  moreover have "h \<noteq> []" using h by blast
  ultimately show ?thesis
    using header_ok_colon [OF assms(1)] cut_found [of "CHR '':''" h f] by (simp add: parse_attachment_def Let_def)
qed

lemma written_rule:
  assumes "domain_ok d" "header_ok h" "format_ok f"
  shows "inject_for (zero_inject\<lparr>in_header := h, in_format := f\<rparr>) d =
    Inr (zero_inject\<lparr>in_domain := parsed_domain d, in_header := h, in_format := f\<rparr>)"
proof -
  obtain p where p: "parse_pattern d = Inr p" "\<not> is_any p" using assms(1) by (auto simp: domain_ok_def split: sum.splits)
  then have "p_text p \<noteq> []" using parse_pattern_ok pattern_text_not_Nil by blast
  then show ?thesis using p assms(2,3) header_ok_chars [OF assms(2)] format_ok_Nil [OF assms(3)]
    by (simp add: inject_for_def parsed_domain_def validate_inject_def zero_inject_def effective_format_def check_header_def
        inject_header_def pattern_string_def format_ok_def header_ok_def Let_def)
qed

lemma written_spec:
  assumes "service_text n" "ds \<noteq> []" "\<forall>d\<in>set ds. domain_ok d" "header_ok h" "format_ok f"
  shows "parse_inject (n @ ''@'' @ join_with '','' ds @ ''='' @ h @ '':'' @ f) =
    Inr (n, map (\<lambda>d. zero_inject\<lparr>in_domain := parsed_domain d, in_header := h, in_format := f\<rparr>) ds)"
proof -
  let ?t = "zero_inject\<lparr>in_header := h, in_format := f\<rparr>"
  have split: "split_on CHR '','' (join_with '','' ds) = ds"
    by (rule split_join) (use assms(2,3) in \<open>auto simp: domain_ok_def\<close>)
  have "CHR ''='' \<notin> set (join_with '','' ds)"
    using set_join [of "'',''" ds] assms(3) by (fastforce simp: domain_ok_def)
  moreover have "map_res (inject_for ?t) ds = Inr (map (\<lambda>d. zero_inject\<lparr>in_domain := parsed_domain d, in_header := h, in_format := f\<rparr>) ds)"
    by (rule map_res_map) (use assms(3-5) written_rule in blast)
  ultimately show ?thesis
    using assms(1) split written_attachment [OF assms(4,5)] unfolding parse_inject_Inr service_text_def
    by (intro exI [of _ n] exI [of _ "join_with '','' ds"] exI [of _ "h @ '':'' @ f"] exI [of _ ?t]) simp
qed

lemma renders_form:
  assumes "renders ki"
  shows "kit_attach_form ki = Inr (header_of ki @ '':'' @ ki_format ki)"
proof -
  have "contains_sub ''%s'' (ki_format ki)"
    using assms count_pos [of "''%s''" "ki_format ki"] by (simp add: renders_def format_ok_def)
  moreover have "\<not> contains_sub '':'' (header_of ki)"
    using header_ok_colon [of "header_of ki"] assms unfolding renders_def contains_sub_iff by fastforce
  ultimately show ?thesis using assms format_ok_Nil [of "ki_format ki"]
    by (simp add: kit_attach_form_def renders_def header_of_def Let_def)
qed

lemma same_form:
  assumes "renders a" "renders b" "header_of a @ '':'' @ ki_format a = header_of b @ '':'' @ ki_format b"
  shows "header_of a = header_of b \<and> ki_format a = ki_format b"
proof -
  have c: "CHR '':'' \<notin> set (header_of x)" if "renders x" for x using that by (simp add: renders_def header_ok_colon)
  have "(header_of a, ki_format a, True) = cut CHR '':'' (header_of a @ '':'' @ ki_format a)"
    using cut_found [OF c [OF assms(1)], of "ki_format a"] by simp
  also have "\<dots> = cut CHR '':'' (header_of b @ '':'' @ ki_format b)" by (rule arg_cong [OF assms(3)])
  also have "\<dots> = (header_of b, ki_format b, True)" using cut_found [OF c [OF assms(2)], of "ki_format b"] by simp
  finally show ?thesis by simp
qed

subsection \<open>All specifications of a kit\<close>

abbreviation form_of :: "key_inject \<Rightarrow> string" where
  "form_of ki \<equiv> header_of ki @ '':'' @ ki_format ki"

abbreviation group_spec :: "string \<Rightarrow> string \<times> string list \<Rightarrow> string" where
  "group_spec n g \<equiv> (case g of (f, ds) \<Rightarrow> n @ ''@'' @ join_with '','' ds @ ''='' @ f)"

lemma group_spec_rules:
  assumes "service_text n" "\<forall>ki\<in>set kis. renders ki" "form_pairs gs = (\<lambda>ki. (form_of ki, ki_domain ki)) ` set kis"
    "\<forall>(g, ds)\<in>set gs. ds \<noteq> []" "(g, ds) \<in> set gs"
  shows "\<exists>rs. parse_inject (group_spec n (g, ds)) = Inr (n, rs) \<and>
    set rs = kit_rule ` {ki \<in> set kis. form_of ki = g \<and> ki_domain ki \<in> set ds}"
proof -
  have pair: "\<exists>ki\<in>set kis. form_of ki = g \<and> ki_domain ki = d" if "d \<in> set ds" for d
  proof -
    have "(g, d) \<in> form_pairs gs" using assms(5) that by (auto simp: form_pairs_def)
    then show ?thesis unfolding assms(3) by auto
  qed
  have "ds \<noteq> []" using assms(4,5) by fast
  then obtain ki0 where k0: "ki0 \<in> set kis" "form_of ki0 = g" using pair [of "hd ds"] by (metis hd_in_set)
  have r0: "renders ki0" using assms(2) k0(1) by blast
  have ok: "\<forall>d\<in>set ds. domain_ok d" using pair assms(2) by (auto simp: renders_def)
  let ?rule = "\<lambda>d. zero_inject\<lparr>in_domain := parsed_domain d, in_header := header_of ki0, in_format := ki_format ki0\<rparr>"
  have "header_ok (header_of ki0)" "format_ok (ki_format ki0)" using r0 by (simp_all add: renders_def)
  note spec = written_spec [OF assms(1) \<open>ds \<noteq> []\<close> ok this]
  have rule: "kit_rule ki = ?rule (ki_domain ki)" if "ki \<in> set kis" "form_of ki = g" for ki
  proof -
    have "header_of ki = header_of ki0 \<and> ki_format ki = ki_format ki0"
      by (rule same_form) (use assms(2) that k0 r0 in auto)
    moreover have "ki_username ki = []" using assms(2) that(1) by (simp add: renders_def)
    ultimately show ?thesis by (simp add: kit_rule_def zero_inject_def)
  qed
  have "set (map ?rule ds) = kit_rule ` {ki \<in> set kis. form_of ki = g \<and> ki_domain ki \<in> set ds}"
  proof
    show "set (map ?rule ds) \<subseteq> kit_rule ` {ki \<in> set kis. form_of ki = g \<and> ki_domain ki \<in> set ds}"
    proof
      fix r assume "r \<in> set (map ?rule ds)"
      then obtain d where d: "d \<in> set ds" "r = ?rule d" by auto
      obtain ki where ki: "ki \<in> set kis" "form_of ki = g" "ki_domain ki = d" using pair [OF d(1)] by blast
      then show "r \<in> kit_rule ` {ki \<in> set kis. form_of ki = g \<and> ki_domain ki \<in> set ds}"
        using rule [OF ki(1,2)] d by (intro image_eqI [of _ _ ki]) simp_all
    qed
    show "kit_rule ` {ki \<in> set kis. form_of ki = g \<and> ki_domain ki \<in> set ds} \<subseteq> set (map ?rule ds)"
      using rule by (simp add: image_subset_iff)
  qed
  then show ?thesis using spec k0(2) by (intro exI [of _ "map ?rule ds"]) simp
qed

lemma rules_of_append [simp]: "rules_of n (xs @ ys) = rules_of n xs @ rules_of n ys"
  by (simp add: rules_of_def)

lemma rules_of_set: "r \<in> set (rules_of n ss) \<longleftrightarrow> (\<exists>s\<in>set ss. \<exists>rs. parse_inject s = Inr (n, rs) \<and> r \<in> set rs)"
proof (induction ss)
  case (Cons s ss)
  have "rules_of n (s # ss) = (case parse_inject s of Inr (m, rules) \<Rightarrow> if m = n then rules else [] | Inl _ \<Rightarrow> []) @ rules_of n ss"
    by (simp add: rules_of_def)
  then show ?case using Cons.IH by (cases "parse_inject s") auto
qed (simp add: rules_of_def)

definition key_injects :: "kit_credential \<Rightarrow> key_inject list" where
  "key_injects c = (case kc_key c of None \<Rightarrow> [] | Some k \<Rightarrow> ak_inject k)"

lemma credential_specs_rules:
  assumes "service_text (kc_service c)" "\<forall>ki\<in>set (key_injects c). renders ki"
  shows "\<exists>ss. credential_specs c = Inr ss \<and> (\<forall>s\<in>set ss. \<exists>rs. parse_inject s = Inr (kc_service c, rs)) \<and>
    set (rules_of (kc_service c) ss) = kit_rule ` set (key_injects c)"
proof (cases "key_injects c = []")
  case True
  then have "credential_specs c = Inr []" by (auto simp: key_injects_def credential_specs_def split: option.splits)
  then show ?thesis using True by (simp add: rules_of_def)
next
  case False
  let ?n = "kc_service c" and ?kis = "key_injects c"
  have "\<forall>ki\<in>set ?kis. kit_attach_form ki = Inr (form_of ki)" using assms(2) renders_form by blast
  then obtain gs where gs: "group_forms [] ?kis = Inr gs" "\<forall>(g, ds)\<in>set gs. ds \<noteq> []"
      "form_pairs gs = (\<lambda>ki. (form_of ki, ki_domain ki)) ` set ?kis"
    using group_forms_all [of ?kis form_of "[]"] by (auto simp: form_pairs_Nil)
  note one = group_spec_rules [OF assms gs(3,2)]
  have c: "credential_specs c = Inr (map (group_spec ?n) gs)"
    using gs(1) False by (auto simp: credential_specs_def key_injects_def split: option.splits)
  have "set (rules_of ?n (map (group_spec ?n) gs)) = kit_rule ` set ?kis"
  proof
    show "set (rules_of ?n (map (group_spec ?n) gs)) \<subseteq> kit_rule ` set ?kis"
    proof
      fix r assume "r \<in> set (rules_of ?n (map (group_spec ?n) gs))"
      then obtain g ds rs where g: "(g, ds) \<in> set gs" "parse_inject (group_spec ?n (g, ds)) = Inr (?n, rs)" "r \<in> set rs"
        by (auto simp: rules_of_set)
      then show "r \<in> kit_rule ` set ?kis" using one [OF g(1)] by auto
    qed
    show "kit_rule ` set ?kis \<subseteq> set (rules_of ?n (map (group_spec ?n) gs))"
    proof
      fix r assume "r \<in> kit_rule ` set ?kis"
      then obtain ki where ki: "ki \<in> set ?kis" "r = kit_rule ki" by blast
      then have "(form_of ki, ki_domain ki) \<in> form_pairs gs" unfolding gs(3) by blast
      then obtain ds where ds: "(form_of ki, ds) \<in> set gs" "ki_domain ki \<in> set ds" by (auto simp: form_pairs_def)
      obtain rs where rs: "parse_inject (group_spec ?n (form_of ki, ds)) = Inr (?n, rs)" "r \<in> set rs"
        using one [OF ds(1)] ki ds(2) by blast
      have "group_spec ?n (form_of ki, ds) \<in> set (map (group_spec ?n) gs)" using ds(1) unfolding set_map by (rule imageI)
      then show "r \<in> set (rules_of ?n (map (group_spec ?n) gs))" using rs unfolding rules_of_set by blast
    qed
  qed
  moreover have "\<exists>rs. parse_inject s = Inr (?n, rs)" if "s \<in> set (map (group_spec ?n) gs)" for s
  proof -
    obtain g ds where "(g, ds) \<in> set gs" "s = group_spec ?n (g, ds)" using \<open>s \<in> _\<close> by auto
    then show ?thesis using one by blast
  qed
  ultimately show ?thesis using c by blast
qed

lemma other_rules: "\<forall>s\<in>set ss. \<exists>rs. parse_inject s = Inr (m, rs) \<Longrightarrow> n \<noteq> m \<Longrightarrow> rules_of n ss = []"
proof (induction ss)
  case (Cons s ss)
  then obtain rs where "parse_inject s = Inr (m, rs)" by auto
  then show ?case using Cons by (simp add: rules_of_def)
qed (simp add: rules_of_def)

lemma all_specs_rules:
  assumes "\<forall>c\<in>set cs. service_text (kc_service c) \<and> (\<forall>ki\<in>set (key_injects c). renders ki)"
  shows "\<exists>ss. all_specs name cs = Inr ss \<and> (\<forall>s\<in>set ss. is_ok (parse_inject s)) \<and>
    (\<forall>n. set (rules_of n ss) = {kit_rule ki | ki c. c \<in> set cs \<and> kc_service c = n \<and> ki \<in> set (key_injects c)})"
  using assms
proof (induction cs)
  case (Cons c cs)
  obtain ts where ts: "all_specs name cs = Inr ts" "\<forall>s\<in>set ts. is_ok (parse_inject s)"
      "\<forall>n. set (rules_of n ts) = {kit_rule ki | ki c. c \<in> set cs \<and> kc_service c = n \<and> ki \<in> set (key_injects c)}"
    using Cons by auto
  obtain ss where ss: "credential_specs c = Inr ss" "\<forall>s\<in>set ss. \<exists>rs. parse_inject s = Inr (kc_service c, rs)"
      "set (rules_of (kc_service c) ss) = kit_rule ` set (key_injects c)"
    using credential_specs_rules [of c] Cons.prems by auto
  have n: "set (rules_of n ss) = {kit_rule ki | ki. kc_service c = n \<and> ki \<in> set (key_injects c)}" for n
    using ss(3) other_rules [OF ss(2), of n] by (cases "n = kc_service c") auto
  have "set (rules_of n (ss @ ts)) = {kit_rule ki | ki d. d \<in> set (c # cs) \<and> kc_service d = n \<and> ki \<in> set (key_injects d)}" for n
    using n [of n] ts(3) by auto
  moreover have "\<forall>s\<in>set (ss @ ts). is_ok (parse_inject s)" using ss(2) ts(2) by (auto simp: is_ok_iff)
  ultimately show ?case using ss(1) ts(1) by auto
qed (simp add: rules_of_def)

subsection \<open>Properties\<close>

text \<open>
  C19: a kit's header credentials reach the injector unchanged. In a kit whose injections are all of the kind
  the flags can carry (a plain host, a header and a format with one verb; no scheme and no name for basic
  authentication), rendering them as flags, whatever hosts are gathered into one specification, and parsing
  the flags back gives exactly the rules they stand for, each under its own service and none under another.
\<close>

theorem kit_rules_survive:
  assumes "\<forall>c\<in>set (ks_credentials s). service_text (kc_service c) \<and> (\<forall>ki\<in>set (key_injects c). renders ki)"
  shows "\<exists>specs. kit_inject_specs (Some s) = Inr specs \<and> (\<forall>spec\<in>set specs. is_ok (parse_inject spec)) \<and>
    (\<forall>n. set (rules_of n specs) = {kit_rule ki | ki c. c \<in> set (ks_credentials s) \<and> kc_service c = n \<and> ki \<in> set (key_injects c)})"
  using all_specs_rules [OF assms, of "ks_name s"] by (simp add: kit_inject_specs_def)

definition keyed_ex :: "string \<Rightarrow> string \<Rightarrow> kit_credential" where
  "keyed_ex n h = \<lparr>kc_service = n, kc_description = [], kc_required = False, kc_provider = [],
     kc_key = Some \<lparr>ak_name = [], ak_managed = False,
       ak_inject = [\<lparr>ki_domain = ''A.b'', ki_header = h, ki_format = ''t %s'', ki_username = [], ki_scheme = []\<rparr>,
         \<lparr>ki_domain = ''*.c'', ki_header = ''X-Key'', ki_format = ''t %s'', ki_username = [], ki_scheme = []\<rparr>]\<rparr>, kc_oauth = None\<rparr>"

theorem kit_rules_survive_witness:
  "\<exists>specs. kit_inject_specs (Some (kit_ex\<lparr>ks_credentials := [keyed_ex ''k'' ''X-Key'', keyed_ex ''l'' []]\<rparr>)) = Inr specs \<and>
     length specs = 3 \<and> set (rules_of ''k'' specs) = kit_rule ` set (key_injects (keyed_ex ''k'' ''X-Key''))"
proof -
  let ?s = "kit_ex\<lparr>ks_credentials := [keyed_ex ''k'' ''X-Key'', keyed_ex ''l'' []]\<rparr>"
  have "list_all (\<lambda>c. service_text (kc_service c) \<and> list_all renders (key_injects c)) (ks_credentials ?s)" by code_simp
  then have ok: "\<forall>c\<in>set (ks_credentials ?s). service_text (kc_service c) \<and> (\<forall>ki\<in>set (key_injects c). renders ki)"
    by (simp add: list_all_iff)
  obtain specs where specs: "kit_inject_specs (Some ?s) = Inr specs"
      "set (rules_of ''k'' specs) = {kit_rule ki | ki c. c \<in> set (ks_credentials ?s) \<and> kc_service c = ''k'' \<and> ki \<in> set (key_injects c)}"
    using kit_rules_survive [OF ok] by blast
  moreover have "map_sum id length (kit_inject_specs (Some ?s)) = Inr 3" by code_simp
  moreover have "{kit_rule ki | ki c. c \<in> set (ks_credentials ?s) \<and> kc_service c = ''k'' \<and> ki \<in> set (key_injects c)} =
      kit_rule ` set (key_injects (keyed_ex ''k'' ''X-Key''))"
  proof -
    have "set (ks_credentials ?s) = {keyed_ex ''k'' ''X-Key'', keyed_ex ''l'' []}" by simp
    moreover have "kc_service (keyed_ex n h) = n" for n h by (simp add: keyed_ex_def)
    ultimately have "c \<in> set (ks_credentials ?s) \<and> kc_service c = ''k'' \<and> X \<longleftrightarrow> c = keyed_ex ''k'' ''X-Key'' \<and> X" for c X by auto
    then show ?thesis by (simp only:) blast
  qed
  ultimately show ?thesis by auto
qed

text \<open>
  The name a kit gives for basic authentication is lost. The shorthand is expanded to a plain format, and the flag
  rendered from it sends the bare secret in the header.
\<close>

theorem basic_username_lost:
  "map_sum id (\<lambda>s. kit_inject_specs (Some s)) (expand_schemes kit_ex) = Inr (Inr [''key@a.b=Authorization:%s'']) \<and>
   map_sum id (\<lambda>(n, rs). (n, map (\<lambda>r. header_value r (new_value ''pw'')) rs)) (parse_inject ''key@a.b=Authorization:%s'') = Inr (''key'', [''pw''])"
  by code_simp

text \<open>Which stored names may be adopted, and what adopting them adds.\<close>

definition adoptable :: "policy_flags \<Rightarrow> string \<Rightarrow> bool" where
  "adoptable f n \<longleftrightarrow> n \<in> set (ag_credentials (fl_agent f)) \<and> n \<notin> set (named_services f)"

definition adopted_of :: "service list \<Rightarrow> policy_flags \<Rightarrow> (service \<Rightarrow> string list) \<Rightarrow> string \<Rightarrow> bool \<Rightarrow> string list" where
  "adopted_of reg f g n login =
     (if adoptable f n \<and> \<not> login then (case lookup_service n reg of None \<Rightarrow> [] | Some s \<Rightarrow> if configured s then g s else []) else [])"

definition adopted_specs :: "service list \<Rightarrow> policy_flags \<Rightarrow> (string \<times> bool) list \<Rightarrow> (service \<Rightarrow> string list) \<Rightarrow> string list" where
  "adopted_specs reg f es g = concat (map (\<lambda>(n, login). adopted_of reg f g n login) es)"

lemma adopted_specs_in:
  assumes "spec \<in> set (adopted_specs reg f es g)"
  shows "\<exists>n s. (n, False) \<in> set es \<and> adoptable f n \<and> lookup_service n reg = Some s \<and> spec \<in> set (g s)"
proof -
  obtain n login where n: "(n, login) \<in> set es" "spec \<in> set (adopted_of reg f g n login)"
    using assms by (auto simp: adopted_specs_def)
  then have a: "adoptable f n \<and> \<not> login" by (cases "adoptable f n \<and> \<not> login") (simp_all add: adopted_of_def)
  moreover obtain s where s: "lookup_service n reg = Some s"
    using n(2) a by (cases "lookup_service n reg") (simp_all add: adopted_of_def)
  moreover have "spec \<in> set (g s)" using n(2) a s by (cases "configured s") (simp_all add: adopted_of_def)
  ultimately show ?thesis using n(1) by auto
qed

lemma adopt_entry_run:
  "cp_inject (adopt_entry reg f n login p) = cp_inject p @ adopted_of reg f service_inject_specs n login"
  "cp_guest (adopt_entry reg f n login p) = cp_guest p @ adopted_of reg f (\<lambda>s. if guest_spec s \<noteq> [] then [guest_spec s] else []) n login"
  "cp_oauth (adopt_entry reg f n login p) = cp_oauth p @ (if adoptable f n \<and> login then [n] else [])"
  by (cases "lookup_service n reg"; simp add: adopt_entry_def adopted_of_def adoptable_def)+

lemma adopt_entries_run:
  "cp_inject (adopt_entries reg f es p) = cp_inject p @ adopted_specs reg f es service_inject_specs \<and>
   cp_guest (adopt_entries reg f es p) = cp_guest p @ adopted_specs reg f es (\<lambda>s. if guest_spec s \<noteq> [] then [guest_spec s] else []) \<and>
   cp_oauth (adopt_entries reg f es p) = cp_oauth p @ map fst (filter (\<lambda>(n, login). adoptable f n \<and> login) es)"
proof (induction reg f es p rule: adopt_entries.induct)
  case (2 reg f n login es p)
  show ?case unfolding adopt_entries.simps 2 [THEN conjunct1] 2 [THEN conjunct2] adopt_entry_run
    by (simp add: adopted_specs_def 2 [THEN conjunct2, THEN conjunct1] 2 [THEN conjunct2, THEN conjunct2] adopt_entry_run)
qed (simp add: adopted_specs_def)

text \<open>
  C15: what the store adds is in scope. A plan keeps the kit's and the user's specifications in front and in order. What
  follows them are the specifications of registered services, and the logins, of names the store holds, the agent uses and the user did not
  name; without a store, or with \<open>--no-secrets\<close>, nothing follows.
\<close>

theorem plan_in_scope:
  assumes "plan_credentials f reg st = Inr p"
  shows "\<exists>specs new more_guest logins. kit_inject_specs (fl_kit f) = Inr specs \<and> cp_inject p = specs @ fl_inject f @ new \<and>
    cp_guest p = fl_guest f @ more_guest \<and> cp_oauth p = fl_oauth f @ logins \<and>
    (st = None \<or> fl_no_secrets f \<longrightarrow> new = [] \<and> more_guest = [] \<and> logins = []) \<and>
    (\<forall>spec\<in>set (new @ more_guest). \<exists>es n s. st = Some (Inr es) \<and> (n, False) \<in> set es \<and> adoptable f n \<and> lookup_service n reg = Some s \<and>
       spec \<in> set (service_inject_specs s) \<union> {guest_spec s}) \<and>
    (\<forall>n\<in>set logins. \<exists>es. st = Some (Inr es) \<and> (n, True) \<in> set es \<and> adoptable f n)"
proof -
  obtain specs where specs: "kit_inject_specs (fl_kit f) = Inr specs"
    using assms by (auto simp: plan_credentials_def split: sum.splits)
  let ?p = "\<lparr>cp_inject = specs @ fl_inject f, cp_guest = fl_guest f, cp_oauth = fl_oauth f, cp_adopted = [], cp_shadowed = []\<rparr>"
  show ?thesis
  proof (cases "st = None \<or> fl_no_secrets f")
    case True
    then have "p = ?p" using assms specs by (auto simp: plan_credentials_def Let_def split: option.splits)
    then show ?thesis using specs by - (rule exI [of _ specs], (rule exI [of _ "[]"])+, simp)
  next
    case False
    then obtain es where es: "st = Some (Inr es)" "p = adopt_entries reg f es ?p"
      using assms specs by (auto simp: plan_credentials_def Let_def split: option.splits sum.splits)
    let ?new = "adopted_specs reg f es service_inject_specs"
    let ?guest = "adopted_specs reg f es (\<lambda>s. if guest_spec s \<noteq> [] then [guest_spec s] else [])"
    let ?logins = "map fst (filter (\<lambda>(n, login). adoptable f n \<and> login) es)"
    have mem: "\<exists>n s. (n, False) \<in> set es \<and> adoptable f n \<and> lookup_service n reg = Some s \<and> spec \<in> set (g s)"
      if "spec \<in> set (adopted_specs reg f es g)" for spec g
      using that by (rule adopted_specs_in)
    have "\<exists>es' n s. st = Some (Inr es') \<and> (n, False) \<in> set es' \<and> adoptable f n \<and> lookup_service n reg = Some s \<and>
       spec \<in> set (service_inject_specs s) \<union> {guest_spec s}" if spec: "spec \<in> set (?new @ ?guest)" for spec
    proof -
      consider "spec \<in> set ?new" | "spec \<in> set ?guest" using spec by auto
      then show ?thesis
      proof cases
        case 1
        from mem [OF this] es(1) show ?thesis by blast
      next
        case 2
        from mem [OF this] obtain n s where "(n, False) \<in> set es" "adoptable f n" "lookup_service n reg = Some s" "spec = guest_spec s"
          by (auto split: if_splits)
        with es(1) show ?thesis by blast
      qed
    qed
    moreover have "\<exists>es'. st = Some (Inr es') \<and> (n, True) \<in> set es' \<and> adoptable f n" if "n \<in> set ?logins" for n
      using that es(1) by auto
    moreover have "(st = None \<or> fl_no_secrets f) = False" using False by simp
    moreover have "cp_inject p = specs @ fl_inject f @ ?new" "cp_guest p = fl_guest f @ ?guest" "cp_oauth p = fl_oauth f @ ?logins"
      using adopt_entries_run [of reg f es ?p] by (simp_all add: es(2))
    ultimately show ?thesis using specs
      by - (rule exI [of _ specs], rule exI [of _ ?new], rule exI [of _ ?guest], rule exI [of _ ?logins], blast)
  qed
qed

definition stored_ex :: "(string + (string \<times> bool) list) option" where
  "stored_ex = Some (Inr [(''other'', False), (''vendor'', False)])"

definition vendor_flags :: policy_flags where
  "vendor_flags = flags_ex\<lparr>fl_inject := [''mine@api.b=X-Key''], fl_agent := (agent_ex ''shell'')\<lparr>ag_credentials := [''vendor'']\<rparr>\<rparr>"

text \<open>In the witness a stored credential the agent uses is adopted behind one that was asked for, and another is not.\<close>

theorem plan_in_scope_witness:
  "\<exists>p spec s n. plan_credentials vendor_flags [service_ex] stored_ex = Inr p \<and> cp_inject p = [''mine@api.b=X-Key'', spec] \<and>
     adoptable vendor_flags n \<and> lookup_service n [service_ex] = Some s \<and> spec \<in> set (service_inject_specs s) \<union> {guest_spec s}"
proof -
  have kit: "kit_inject_specs (fl_kit vendor_flags) = Inr []" by code_simp
  have len: "map_sum (\<lambda>_. ()) (length \<circ> cp_inject) (plan_credentials vendor_flags [service_ex] stored_ex) = Inr 2" by code_simp
  then obtain p where p: "plan_credentials vendor_flags [service_ex] stored_ex = Inr p" "length (cp_inject p) = 2"
    by (cases "plan_credentials vendor_flags [service_ex] stored_ex") auto
  obtain more where new: "cp_inject p = [''mine@api.b=X-Key''] @ more"
      "\<forall>spec\<in>set more. \<exists>n s. adoptable vendor_flags n \<and> lookup_service n [service_ex] = Some s \<and>
         spec \<in> set (service_inject_specs s) \<union> {guest_spec s}"
    using plan_in_scope [OF p(1)] kit by (fastforce simp: vendor_flags_def)
  then obtain spec where spec: "more = [spec]" using p(2) by (cases more) auto
  then obtain n s where "adoptable vendor_flags n" "lookup_service n [service_ex] = Some s"
    "spec \<in> set (service_inject_specs s) \<union> {guest_spec s}"
    using new(2) by (metis list.set_intros(1))
  moreover have "cp_inject p = [''mine@api.b=X-Key'', spec]" using new(1) spec by simp
  ultimately show ?thesis using p(1) by blast
qed

lemma unusable_store:
  assumes "\<not> fl_no_secrets f" "kit_inject_specs (fl_kit f) = Inr specs"
    "opened = Inl e \<or> opened = Inr None \<or> opened = Inr (Some (Inl e))"
  shows "if fl_inject f = [] \<and> fl_guest f = [] \<and> fl_oauth f = []
       then \<exists>p. resolve_credentials exec now f reg opened read = Inr (p, []) \<and> cp_guest p = [] \<and> cp_oauth p = [] \<and> cp_adopted p = [] \<and>
         cp_inject p = (if opened = Inr (Some (Inl e)) then [] else specs)
       else \<not> is_ok (resolve_credentials exec now f reg opened read)"
proof (cases "fl_inject f = [] \<and> fl_guest f = [] \<and> fl_oauth f = []")
  case True
  then show ?thesis using assms by (auto simp: resolve_credentials_def plan_credentials_def Let_def)
next
  case False
  then have asked: "0 < length (fl_inject f) \<or> 0 < length (fl_guest f) \<or> 0 < length (fl_oauth f)" by auto
  show ?thesis using assms False asked by (auto simp: resolve_credentials_def plan_credentials_def Let_def)
qed

text \<open>
  C40: a credential store that cannot be used stops only a run that asked for a credential. Without such a
  flag, a store that does not open, is not there or cannot be listed leaves a run without stored
  credentials: the kit's own remain, except that where the listing failed they are dropped as well. With such a
  flag it is an error. A login record that cannot be read is an error for every run that would use it, asked
  for or not.
\<close>

theorem store_failure:
  fixes e :: 'e
  assumes "\<not> fl_no_secrets f" "kit_inject_specs (fl_kit f) = Inr specs"
  shows "(\<forall>opened. opened = Inl e \<or> opened = Inr None \<or> opened = Inr (Some (Inl e)) \<longrightarrow>
      (if fl_inject f = [] \<and> fl_guest f = [] \<and> fl_oauth f = []
       then \<exists>p. resolve_credentials exec now f reg opened read = Inr (p, []) \<and> cp_guest p = [] \<and> cp_oauth p = [] \<and> cp_adopted p = [] \<and>
         cp_inject p = (if opened = Inr (Some (Inl e)) then [] else specs)
       else \<not> is_ok (resolve_credentials exec now f reg opened read))) \<and>
    (\<forall>es p. plan_credentials f reg (Some (Inr es :: 'e + (string \<times> bool) list)) = Inr p \<and> cp_oauth p \<noteq> [] \<and> read (cp_oauth p) = Inl e \<longrightarrow>
      resolve_credentials exec now f reg (Inr (Some (Inr es))) read = Inl (Plan_entries e))"
proof (intro conjI allI impI)
  show "if fl_inject f = [] \<and> fl_guest f = [] \<and> fl_oauth f = []
       then \<exists>p. resolve_credentials exec now f reg opened read = Inr (p, []) \<and> cp_guest p = [] \<and> cp_oauth p = [] \<and> cp_adopted p = [] \<and>
         cp_inject p = (if opened = Inr (Some (Inl e)) then [] else specs)
       else \<not> is_ok (resolve_credentials exec now f reg opened read)"
    if "opened = Inl e \<or> opened = Inr None \<or> opened = Inr (Some (Inl e))" for opened
    using assms that by (rule unusable_store)
next
  fix es p
  assume "plan_credentials f reg (Some (Inr es :: 'e + (string \<times> bool) list)) = Inr p \<and> cp_oauth p \<noteq> [] \<and> read (cp_oauth p) = Inl e"
  then show "resolve_credentials exec now f reg (Inr (Some (Inr es))) read = Inl (Plan_entries e)"
    by (simp add: resolve_credentials_def)
qed

text \<open>
  In the witness a sandbox of an agent with a stored login asks for nothing: it runs when the store does not open, and does not when the
  record of the login cannot be read.
\<close>

theorem store_failure_witness:
  "\<exists>f p. fl_oauth f = [] \<and> resolve_credentials (\<lambda>_ _. None) 0 f [service_ex] (Inl ''bad'') (\<lambda>_. Inl ''bad'') = Inr (p, []) \<and>
     resolve_credentials (\<lambda>_ _. None) 0 f [service_ex] (Inr (Some (Inr [(''vendor'', True)]))) (\<lambda>_. Inl ''bad'') = Inl (Plan_entries ''bad'')"
proof -
  let ?f = "vendor_flags\<lparr>fl_inject := []\<rparr>"
  have f: "\<not> fl_no_secrets ?f" "kit_inject_specs (fl_kit ?f) = Inr []" "fl_inject ?f = []" "fl_guest ?f = []" "fl_oauth ?f = []"
    by (simp_all add: vendor_flags_def flags_ex_def kit_inject_specs_def)
  have "map_sum (\<lambda>_. ()) (\<lambda>p. cp_oauth p) (plan_credentials ?f [service_ex] (Some (Inr [(''vendor'', True)]) :: (string + (string \<times> bool) list) option)) =
      Inr [''vendor'']"
    by code_simp
  then obtain p where p: "plan_credentials ?f [service_ex] (Some (Inr [(''vendor'', True)]) :: (string + (string \<times> bool) list) option) = Inr p"
      "cp_oauth p = [''vendor'']"
    by (cases "plan_credentials ?f [service_ex] (Some (Inr [(''vendor'', True)]) :: (string + (string \<times> bool) list) option)") auto
  note fails = store_failure [OF f(1,2), of "''bad''" "\<lambda>_ _. None" 0 "[service_ex]" "\<lambda>_. Inl ''bad''"]
  obtain q where "resolve_credentials (\<lambda>_ _. None) 0 ?f [service_ex] (Inl ''bad'') (\<lambda>_. Inl ''bad'') = Inr (q, [])"
    using conjunct1 [OF fails, THEN spec, of "Inl ''bad''"] f(3-5) by auto
  moreover have "resolve_credentials (\<lambda>_ _. None) 0 ?f [service_ex] (Inr (Some (Inr [(''vendor'', True)]))) (\<lambda>_. Inl ''bad'') =
      Inl (Plan_entries ''bad'')"
    by (rule conjunct2 [OF fails, THEN spec, THEN spec, THEN mp, of "[(''vendor'', True)]" p]) (intro conjI p(1), simp_all add: p(2))
  ultimately show ?thesis using f(5) by blast
qed

text \<open>
  A rule of the user can lose to one of the registry. Where a stored service is adopted for the host and the header of an \<open>--inject\<close> of another
  service, its rule is applied later and overwrites the header.
\<close>

definition header_sent :: "credential_plan \<Rightarrow> unit + header" where
  "header_sent p =
     (case parse_credentials (cp_inject p) (cp_guest p) of
        Inl _ \<Rightarrow> Inl ()
      | Inr cs \<Rightarrow> map_sum (\<lambda>_. ()) fst
          (fst (apply_injector (injector_ex\<lparr>ij_credentials := cs, ij_lookup := (\<lambda>w s. Inr (new_value s))\<rparr>)
            \<lparr>t_host = ''api.b'', t_addr = Addr_none, t_port = 443\<rparr> [] Flow_plaintext (start_state 0))))"

theorem adopted_rule_wins:
  "map_sum (\<lambda>_. ()) header_sent (plan_credentials vendor_flags [service_ex] stored_ex) = Inr (Inr [(''X-Key'', [''vendor''])]) \<and>
   map_sum (\<lambda>_. ()) header_sent (plan_credentials (vendor_flags\<lparr>fl_no_secrets := True\<rparr>) [service_ex] stored_ex) =
     Inr (Inr [(''X-Key'', [''mine''])])"
  by code_simp

end
