(* ===== verification/Kit_Reference.thy ===== *)
theory Kit_Reference
  imports Boks_Path Boks_Text Secret_Tokens
begin

section \<open>References to kits: \<open>internal/kit/load.go\<close> and \<open>fetch.go\<close>\<close>

text \<open>
  What a reference to a kit names: a file, a repository with a ref and a directory, or a form that is refused; where its
  specification is read from, and the commands git is run with. The file system and git itself are arguments.
\<close>

subsection \<open>Local and remote forms\<close>

abbreviation spec_file :: string where "spec_file \<equiv> ''spec.yaml''"

text \<open>At most one of the four schemes is a prefix, so the order in which the code's map is walked does not matter.\<close>

definition remote_form :: "string \<Rightarrow> string option" where
  "remote_form r =
     (if prefix ''git://'' r then Some ''unencrypted git''
      else if prefix ''http://'' r then Some ''HTTP''
      else if prefix ''https://'' r then Some ''HTTPS''
      else if prefix ''oci://'' r then Some ''OCI''
      else if suffix ''.zip'' r then Some ''ZIP archive''
      else if prefix ''/'' r \<or> prefix ''./'' r \<or> prefix ''../'' r \<or> prefix ''file://'' r then None
      else if contains_any (fst (cut CHR ''/'' r)) ''.:'' \<and> contains_sub ''/'' r then Some ''OCI''
      else None)"

subsection \<open>Repositories\<close>

record git_ref =
  gr_url :: string
  gr_ref :: string
  gr_dir :: string

datatype git_error =
  Url_dash | No_repository | Bad_fragment | Unknown_key | Absolute_dir string | Leaves_repository string | No_directory string

definition immutable_ref :: "git_ref \<Rightarrow> bool" where
  "immutable_ref g \<longleftrightarrow> length (gr_ref g) = 40 \<and>
     list_all (\<lambda>c. is_digit c \<or> in_range CHR ''a'' CHR ''f'' c \<or> in_range CHR ''A'' CHR ''F'' c) (gr_ref g)"

text \<open>The parts of a path between slashes and backslashes.\<close>

definition dir_parts :: "string \<Rightarrow> string list" where
  "dir_parts d = filter (\<lambda>p. p \<noteq> []) (concat (map (split_on CHR 0x5C) (split_on slash d)))"

definition git_dir :: "string \<Rightarrow> git_error + string" where
  "git_dir d =
     (if d = [] then Inr []
      else if prefix ''/'' d then Inl (Absolute_dir d)
      else if ''..'' \<in> set (dir_parts d) then Inl (Leaves_repository d)
      else (let c = path_clean (slash # d); e = (if prefix ''/'' c then drop 1 c else c)
        in if e = [] then Inl (No_directory d) else Inr e))"

definition parse_git_ref :: "string \<Rightarrow> git_error + git_ref" where
  "parse_git_ref reference =
     (let trimmed = (if prefix ''git+'' reference then drop 4 reference else reference)
      in if prefix ''-'' trimmed then Inl Url_dash
         else (case cut CHR ''#'' trimmed of (base, fragment, _) \<Rightarrow>
           if base = [] then Inl No_repository
           else if fragment = [] then Inr \<lparr>gr_url = base, gr_ref = [], gr_dir = []\<rparr>
           else (case parse_query fragment of
               None \<Rightarrow> Inl Bad_fragment
             | Some kvs \<Rightarrow>
                 if list_ex (\<lambda>(k, _). k \<noteq> ''ref'' \<and> k \<noteq> ''dir'') kvs then Inl Unknown_key
                 else (case git_dir (form_get ''dir'' kvs) of
                     Inl e \<Rightarrow> Inl e
                   | Inr d \<Rightarrow> Inr \<lparr>gr_url = base, gr_ref = form_get ''ref'' kvs, gr_dir = d\<rparr>))))"

text \<open>The arguments of the git commands of \<open>fetchGit\<close>, in order.\<close>

definition git_commands :: "git_ref \<Rightarrow> string list list" where
  "git_commands g =
     [[''init'', ''--quiet''], [''remote'', ''add'', ''origin'', ''--'', gr_url g],
      if gr_ref g \<noteq> [] then [''fetch'', ''--depth'', ''1'', ''--quiet'', ''origin'', ''--'', gr_ref g]
      else [''fetch'', ''--depth'', ''1'', ''--quiet'', ''origin'', ''HEAD''],
      [''checkout'', ''--quiet'', ''FETCH_HEAD'']]"

definition auth_failure :: "string \<Rightarrow> bool" where
  "auth_failure output \<longleftrightarrow>
     list_ex (\<lambda>p. contains_sub p (to_lower output))
       [''could not read username'', ''could not read password'', ''authentication failed'', ''terminal prompts disabled'',
        ''permission denied (publickey'', ''invalid username or password'']"

text \<open>
  Running the commands until one fails, and reading the commit at the end. \<open>git\<close> gives the output of the
  command with these arguments, and whether it failed.
\<close>

datatype fetch_error = No_git | Timed_out | Needs_credentials string | Git_failed string | No_commit

fun run_git :: "(string list \<Rightarrow> string \<times> bool) \<Rightarrow> bool \<Rightarrow> string list list \<Rightarrow> fetch_error option" where
  "run_git git late [] = None"
| "run_git git late (c # cs) =
     (case git c of (out, failed) \<Rightarrow>
        if failed then
          (if late then Some Timed_out
           else if auth_failure (trim_space out) then Some (Needs_credentials (trim_space out))
           else Some (Git_failed (trim_space out)))
        else run_git git late cs)"

definition fetch_git :: "bool \<Rightarrow> (string list \<Rightarrow> string \<times> bool) \<Rightarrow> bool \<Rightarrow> git_ref \<Rightarrow> fetch_error + string" where
  "fetch_git found git late g =
     (if \<not> found then Inl No_git
      else (case run_git git late (git_commands g) of
          Some e \<Rightarrow> Inl e
        | None \<Rightarrow> (case git [''rev-parse'', ''HEAD''] of (out, failed) \<Rightarrow> if failed then Inl No_commit else Inr (trim_space out))))"

definition git_spec_path :: "string \<Rightarrow> git_ref \<Rightarrow> string" where
  "git_spec_path dest g = path_join [dest, gr_dir g, spec_file]"

definition fetch_warnings :: "git_ref \<Rightarrow> string \<Rightarrow> string list" where
  "fetch_warnings g commit =
     (''fetched from '' @ gr_url g @ '' at commit '' @ commit) #
     (if immutable_ref g then []
      else [(if gr_ref g = [] then ''the default branch'' else gr_ref g) @
        '' is not a fixed commit, so this kit may differ on the next run; use #ref='' @ commit @ '' to pin it''])"

subsection \<open>What is read\<close>

datatype load_error = No_reference | Unsupported_form string | Stat_failed | No_spec_file | Bad_git git_error | Fetch_failed fetch_error

text \<open>
  The path whose text is parsed, and the warnings added to those of the parser. \<open>stat\<close> says whether a path is there and
  is a directory; \<open>dest\<close> is the new directory a repository is fetched into.
\<close>

definition load_path ::
    "(string \<Rightarrow> bool option) \<Rightarrow> bool \<Rightarrow> (string list \<Rightarrow> string \<times> bool) \<Rightarrow> bool \<Rightarrow> string \<Rightarrow> string \<Rightarrow> load_error + string \<times> string list" where
  "load_path stat found git late dest r =
     (if r = [] then Inl No_reference
      else if prefix ''git+'' r then
        (case parse_git_ref r of
           Inl e \<Rightarrow> Inl (Bad_git e)
         | Inr g \<Rightarrow> (case fetch_git found git late g of
             Inl e \<Rightarrow> Inl (Fetch_failed e)
           | Inr commit \<Rightarrow> Inr (git_spec_path dest g, fetch_warnings g commit)))
      else (case remote_form r of
          Some form \<Rightarrow> Inl (Unsupported_form form)
        | None \<Rightarrow> (case stat r of
            None \<Rightarrow> Inl Stat_failed
          | Some False \<Rightarrow> Inr (r, [])
          | Some True \<Rightarrow> (case stat (path_join [r, spec_file]) of
              None \<Rightarrow> Inl No_spec_file
            | Some _ \<Rightarrow> Inr (path_join [r, spec_file], [])))))"

subsection \<open>Lemmas\<close>

lemma clean_no_parent:
  assumes "''..'' \<notin> set es"
  shows "foldl (clean_step r) ks es = rev (filter (\<lambda>e. e \<noteq> [] \<and> e \<noteq> ''.'') es) @ ks"
  using assms by (induction es arbitrary: ks) (auto simp: clean_step_def)

lemma path_elems_list:
  "s \<noteq> [] \<Longrightarrow> list_all plain_elem es \<Longrightarrow> path_elems (s @ concat (map ((#) slash) es)) = rev es @ path_elems s"
proof (induction es rule: rev_induct)
  case (snoc e es)
  have "path_elems ((s @ concat (map ((#) slash) es)) @ slash # e) = e # path_elems (s @ concat (map ((#) slash) es))"
    by (rule path_elems_plain) (use snoc.prems in auto)
  then show ?case using snoc by simp
qed simp

lemma join_slashes: "es \<noteq> [] \<Longrightarrow> slash # join_with [slash] es = concat (map ((#) slash) es)"
proof (induction es)
  case (Cons e es)
  then show ?case by (cases "es = []") (simp_all add: join_Cons)
qed simp

lemma join_with_append: "xs \<noteq> [] \<Longrightarrow> ys \<noteq> [] \<Longrightarrow> join_with sep (xs @ ys) = join_with sep xs @ sep @ join_with sep ys"
proof (induction xs)
  case (Cons x xs)
  then show ?case by (cases "xs = []") (simp_all add: join_Cons)
qed simp

lemma path_clean_list:
  assumes "s \<noteq> []" "es \<noteq> []" "list_all plain_elem es"
  shows "path_clean (s @ concat (map ((#) slash) es)) = path_front s @ join_with [slash] es"
  using assms
  by (auto simp: path_clean_def path_elems_list path_front_def path_text_def join_with_append)

text \<open>A directory that is accepted is made of plain elements.\<close>

lemma git_dir_elems:
  assumes "git_dir d = Inr e" "d \<noteq> []"
  shows "\<exists>es. es \<noteq> [] \<and> list_all plain_elem es \<and> e = join_with [slash] es"
proof -
  have dots: "''..'' \<notin> set (split_on slash d)"
  proof
    assume "''..'' \<in> set (split_on slash d)"
    moreover have "''..'' \<in> set (split_on CHR 0x5C ''..'')" by (simp add: split_on_single)
    ultimately have "''..'' \<in> set (dir_parts d)" unfolding dir_parts_def set_filter set_concat set_map by blast
    then show False using assms by (auto simp: git_dir_def split: if_splits)
  qed
  let ?es = "filter (\<lambda>e. e \<noteq> [] \<and> e \<noteq> ''.'') (split_on slash d)"
  have "split_on slash (slash # d) = [] # split_on slash d" using split_on_append [of slash "[]" d] by simp
  then have "path_elems (slash # d) = rev ?es"
    using clean_no_parent [of "[] # split_on slash d" True "[]"] dots by (simp add: path_elems_def rooted_def)
  then have c: "path_clean (slash # d) = slash # join_with [slash] ?es" by (simp add: path_clean_def path_text_def rooted_def)
  have "e = join_with [slash] ?es \<and> e \<noteq> []"
    using assms c by (auto simp: git_dir_def Let_def split: if_splits)
  moreover have "list_all plain_elem ?es"
    using dots split_on_notin [of _ slash d] by (auto simp: list_all_iff plain_elem_def)
  moreover have "?es \<noteq> []" using calculation(1) by (metis join_with.simps(1))
  ultimately show ?thesis by blast
qed

lemma parse_git_ref_Inr:
  assumes "parse_git_ref r = Inr g"
  shows "gr_url g \<noteq> [] \<and> \<not> prefix ''-'' (gr_url g) \<and> (\<exists>d. git_dir d = Inr (gr_dir g))"
proof -
  let ?t = "if prefix ''git+'' r then drop 4 r else r"
  obtain base fragment b where cut: "cut CHR ''#'' ?t = (base, fragment, b)" by (cases "cut CHR ''#'' ?t") auto
  have base: "base \<noteq> []" "\<not> prefix ''-'' ?t" "gr_url g = base" "\<exists>d. git_dir d = Inr (gr_dir g)"
    using assms cut by (auto simp: parse_git_ref_def Let_def git_dir_def [of "[]"] split: if_splits option.splits sum.splits intro: exI [of _ "[]"])
  have "base = takeWhile (\<lambda>x. x \<noteq> CHR ''#'') ?t" using cut by (simp add: cut_def)
  then have "\<not> prefix ''-'' base" using base(1,2) by (cases ?t) (auto split: if_splits)
  then show ?thesis using base by simp
qed

subsection \<open>Properties\<close>

text \<open>
  C37: a reference reads nothing outside the repository it names. For a reference that parses, the specification is read below the directory
  the repository is fetched into, through elements that are neither empty nor dots; and no text of the
  reference is an option of git: what stands before the double dash of a command is fixed.
\<close>

theorem git_reference_contained:
  assumes "parse_git_ref r = Inr g" "dest \<noteq> []"
  shows "(\<exists>es. list_all plain_elem es \<and> git_spec_path dest g = path_front dest @ join_with ''/'' (es @ [spec_file])) \<and>
    gr_url g \<noteq> [] \<and> \<not> prefix ''-'' (gr_url g) \<and>
    set (concat (map (takeWhile (\<lambda>a. a \<noteq> ''--'')) (git_commands g))) \<subseteq>
      {''init'', ''--quiet'', ''remote'', ''add'', ''origin'', ''fetch'', ''--depth'', ''1'', ''HEAD'', ''checkout'', ''FETCH_HEAD''}"
proof -
  note g = parse_git_ref_Inr [OF assms(1)]
  then obtain d where d: "git_dir d = Inr (gr_dir g)" by blast
  have spec: "plain_elem spec_file" by code_simp
  have "\<exists>es. list_all plain_elem es \<and> git_spec_path dest g = path_front dest @ join_with ''/'' (es @ [spec_file])"
  proof (cases "d = []")
    case True
    then have "gr_dir g = []" using d by (simp add: git_dir_def)
    then have "git_spec_path dest g = path_clean ((dest @ [slash]) @ slash # spec_file)"
      using assms(2) by (simp add: git_spec_path_def path_join_def)
    also have "\<dots> = path_front (dest @ [slash]) @ spec_file" by (rule path_clean_plain) (simp_all add: spec)
    also have "path_front (dest @ [slash]) = path_front dest"
      using assms(2) split_on_sep [of slash dest "[]"] by (simp add: path_front_def path_elems_def clean_step_def)
    finally show ?thesis by (intro exI [of _ "[]"]) simp
  next
    case False
    obtain es where es: "es \<noteq> []" "list_all plain_elem es" "gr_dir g = join_with [slash] es" using git_dir_elems [OF d False] by blast
    have "git_spec_path dest g = path_clean (dest @ (slash # join_with [slash] es) @ slash # spec_file)"
      using assms(2) es(3) by (simp add: git_spec_path_def path_join_def)
    also have "\<dots> = path_clean (dest @ concat (map ((#) slash) (es @ [spec_file])))"
      unfolding join_slashes [OF es(1)] by simp
    also have "\<dots> = path_front dest @ join_with [slash] (es @ [spec_file])"
      by (rule path_clean_list) (use assms(2) es(2) spec in simp_all)
    finally show ?thesis using es(2) by blast
  qed
  moreover have "set (concat (map (takeWhile (\<lambda>a. a \<noteq> ''--'')) (git_commands g))) \<subseteq>
      {''init'', ''--quiet'', ''remote'', ''add'', ''origin'', ''fetch'', ''--depth'', ''1'', ''HEAD'', ''checkout'', ''FETCH_HEAD''}"
    by (auto simp: git_commands_def)
  ultimately show ?thesis using g by blast
qed

theorem git_reference_contained_witness:
  "\<exists>g. parse_git_ref ''git+https://h/o/r.git#ref=main&dir=a%2F./b'' = Inr g \<and> gr_dir g = ''a/b'' \<and>
     (\<exists>es. list_all plain_elem es \<and> git_spec_path ''/tmp/x'' g = path_front ''/tmp/x'' @ join_with ''/'' (es @ [spec_file]))"
proof -
  let ?g = "\<lparr>gr_url = ''https://h/o/r.git'', gr_ref = ''main'', gr_dir = ''a/b''\<rparr>"
  have "parse_git_ref ''git+https://h/o/r.git#ref=main&dir=a%2F./b'' = Inr ?g" by code_simp
  with git_reference_contained [OF this, of "''/tmp/x''"] show ?thesis by auto
qed

text \<open>A \<open>file://\<close> reference counts as local, and is then looked up as a path with the scheme in it.\<close>

theorem file_scheme_kept: "load_path (\<lambda>p. if p = ''/kits/spec.yaml'' then Some False else None) True (\<lambda>_. ([], True)) False [] ''file:///kits/spec.yaml'' = Inl Stat_failed"
  by code_simp

end
