(* ===== verification/Update_Version.thy ===== *)
theory Update_Version
  imports Boks_Text Boks_Path "HOL-Library.Product_Lexorder"
begin

section \<open>Versions and install methods: \<open>internal/update/version.go\<close> and \<open>install.go\<close>\<close>

text \<open>
  Release versions and their order, as an instance of the library's linear orders, the release a redirect names, and the
  command that upgrades an installation. Resolving links and looking for files are arguments.
\<close>

subsection \<open>Versions\<close>

datatype version = Version (ver_major: int) (ver_minor: int) (ver_patch: int) (ver_pre: string)

definition version_part :: "string \<Rightarrow> int option" where
  "version_part p =
     (if p = [] \<or> contains_any (take 1 p) ''+-'' then None
      else (case atoi p of None \<Rightarrow> None | Some n \<Rightarrow> if n < 0 then None else Some n))"

definition parse_version :: "string \<Rightarrow> version option" where
  "parse_version text =
     (let s = trim_space text;
          s = (if prefix ''v'' s then drop 1 s else s)
      in if s = [] then None
         else (let s = takeWhile (\<lambda>c. c \<noteq> CHR ''+'') s
           in case cut CHR ''-'' s of (nums, suffix_text, hyphen) \<Rightarrow>
             if hyphen \<and> suffix_text = [] then None
             else (case split_on CHR ''.'' nums of
                 [a, b, c] \<Rightarrow>
                   (case (version_part a, version_part b, version_part c) of
                      (Some x, Some y, Some z) \<Rightarrow> Some (Version x y z suffix_text)
                    | _ \<Rightarrow> None)
               | _ \<Rightarrow> None)))"

definition newer :: "version \<Rightarrow> version \<Rightarrow> bool" where
  "newer v w =
     (if ver_major w \<noteq> ver_major v then ver_major w > ver_major v
      else if ver_minor w \<noteq> ver_minor v then ver_minor w > ver_minor v
      else if ver_patch w \<noteq> ver_patch v then ver_patch w > ver_patch v
      else if ver_pre w = ver_pre v then False
      else if ver_pre v = [] then False
      else if ver_pre w = [] then True
      else ver_pre w > ver_pre v)"

definition is_newer :: "string \<Rightarrow> string \<Rightarrow> bool" where
  "is_newer current latest =
     (case parse_version current of
        None \<Rightarrow> False
      | Some v \<Rightarrow> (case parse_version latest of None \<Rightarrow> False | Some w \<Rightarrow> newer v w))"

subsection \<open>Redirects and install methods\<close>

datatype tag_error = No_redirect | No_releases | No_tag string | Not_a_version string

text \<open>The part of \<open>fetchFrom\<close> after the answer: what its \<open>Location\<close> names.\<close>

definition tag_of_location :: "string \<Rightarrow> tag_error + string" where
  "tag_of_location loc =
     (if loc = [] then Inl No_redirect
      else if \<not> contains_sub ''/tag/'' loc then
        (if suffix ''/releases'' (if suffix ''/'' loc then butlast loc else loc) then Inl No_releases else Inl (No_tag loc))
      else (let rest = (case find (\<lambda>i. prefix ''/tag/'' (drop i loc)) (rev [0..<length loc]) of None \<Rightarrow> [] | Some i \<Rightarrow> drop (i + 5) loc);
                tag = trim_both ''/'' rest
        in case parse_version tag of None \<Rightarrow> Inl (Not_a_version tag) | Some _ \<Rightarrow> Inr tag))"

datatype install_method = Method_unknown | Method_homebrew | Method_winget | Method_deb | Method_rpm

definition detect_linux :: "(string \<Rightarrow> bool) \<Rightarrow> string \<Rightarrow> install_method" where
  "detect_linux present slashed =
     (if \<not> prefix ''/usr/bin/'' slashed \<and> \<not> prefix ''/usr/local/bin/'' slashed then Method_unknown
      else if present ''/var/lib/dpkg/info/boks.list'' then Method_deb
      else if present ''/var/lib/rpm'' then Method_rpm
      else Method_unknown)"

definition detect_method :: "(string \<Rightarrow> string option) \<Rightarrow> (string \<Rightarrow> bool) \<Rightarrow> string \<Rightarrow> string \<Rightarrow> install_method" where
  "detect_method resolved present goos exe =
     (if exe = [] then Method_unknown
      else (let path = (case resolved exe of None \<Rightarrow> exe | Some p \<Rightarrow> p);
                slashed = map (\<lambda>c. if c = CHR 0x5C then CHR ''/'' else c) path
        in if goos = ''windows'' then
             (if contains_sub ''/winget/packages/'' (to_lower slashed) \<or> contains_sub ''/winget/links/'' (to_lower slashed)
              then Method_winget else Method_unknown)
           else if contains_sub ''/Cellar/boks/'' slashed \<or> contains_sub ''/homebrew/'' slashed then Method_homebrew
           else if goos = ''linux'' then detect_linux present slashed
           else Method_unknown))"

fun upgrade_line :: "install_method \<Rightarrow> string" where
  "upgrade_line Method_homebrew = ''brew upgrade boks''"
| "upgrade_line Method_winget = ''winget upgrade dagsommer.boks''"
| "upgrade_line Method_deb = ''sudo apt update && sudo apt install --only-upgrade boks''"
| "upgrade_line Method_rpm = ''sudo dnf upgrade boks''"
| "upgrade_line Method_unknown = ''https://github.com/dagsommer/boks/releases/latest''"

subsection \<open>The order\<close>

text \<open>A final release comes after its pre-releases; everything else is compared from the left.\<close>

definition version_key :: "version \<Rightarrow> int \<times> int \<times> int \<times> bool \<times> string" where
  "version_key v = (ver_major v, ver_minor v, ver_patch v, ver_pre v = [], ver_pre v)"

lemma newer_key: "newer v w \<longleftrightarrow> version_key v < version_key w"
  by (auto simp: newer_def version_key_def less_prod_def' less_bool_def)

lemma version_key_inj: "version_key v = version_key w \<longleftrightarrow> v = w"
  by (auto simp: version_key_def intro: version.expand)

instantiation version :: linorder
begin

definition less_version :: "version \<Rightarrow> version \<Rightarrow> bool" where
  "less_version v w = newer v w"

definition less_eq_version :: "version \<Rightarrow> version \<Rightarrow> bool" where
  "less_eq_version v w \<longleftrightarrow> v = w \<or> newer v w"

instance
  by intro_classes (auto simp: less_version_def less_eq_version_def newer_key version_key_inj [symmetric])

end

subsection \<open>Properties\<close>

text \<open>
  Being newer is a strict order on what parses. It never holds both ways, it is transitive, it decides between any two texts that
  parse to different versions, and it holds for no text that does not parse.
\<close>

theorem newer_is_an_order:
  "(is_newer a b \<longrightarrow> \<not> is_newer b a) \<and> (is_newer a b \<and> is_newer b c \<longrightarrow> is_newer a c) \<and>
   (parse_version a \<noteq> None \<and> parse_version b \<noteq> None \<and> parse_version a \<noteq> parse_version b \<longrightarrow> is_newer a b \<or> is_newer b a) \<and>
   (is_newer a b \<longrightarrow> (\<exists>v w. parse_version a = Some v \<and> parse_version b = Some w \<and> v < w))"
proof -
  have iff: "is_newer x y \<longleftrightarrow> (\<exists>v w. parse_version x = Some v \<and> parse_version y = Some w \<and> v < w)" for x y
    by (auto simp: is_newer_def less_version_def split: option.split)
  show ?thesis unfolding iff by (auto simp: neq_iff)
qed

theorem newer_is_an_order_witness: "is_newer ''v1.0.0-rc.2'' ''1.0.0+build'' \<and> \<not> is_newer ''1.0.0'' ''v1.0.0-rc.2''"
proof -
  have "is_newer ''v1.0.0-rc.2'' ''1.0.0+build''" by code_simp
  moreover have "is_newer ''v1.0.0-rc.2'' ''1.0.0''" by code_simp
  ultimately show ?thesis using newer_is_an_order [of "''v1.0.0-rc.2''" "''1.0.0''"] by blast
qed

text \<open>Pre-releases are compared as texts, which puts the tenth before the ninth.\<close>

theorem tenth_before_ninth: "is_newer ''1.0.0-rc.10'' ''1.0.0-rc.9'' \<and> \<not> is_newer ''1.0.0-rc.9'' ''1.0.0-rc.10''"
  by code_simp

end
