(* ===== verification/Update_Check.thy ===== *)
theory Update_Check
  imports Update_Version
begin

section \<open>The daily check: \<open>internal/update/update.go\<close>\<close>

text \<open>
  One run decides from the record on disk what to print and whether to ask for the newest release, and a run that asked may write the answer
  later or never. Times are nanoseconds counted from the zero time. Encoding the record is not under \<open>src/\<close>: the file is what
  reading it gives, and whether a write succeeds is an argument.
\<close>

subsection \<open>The record\<close>

record update_cache =
  uc_disclosed :: bool
  uc_checked :: int
  uc_latest :: string

datatype update_file = Unreadable | Stored int update_cache

definition empty_cache :: update_cache where
  "empty_cache = \<lparr>uc_disclosed = False, uc_checked = 0, uc_latest = []\<rparr>"

definition cache_version :: int where "cache_version = 1"

definition load_cache :: "update_file \<Rightarrow> update_cache" where
  "load_cache f = (case f of Unreadable \<Rightarrow> empty_cache | Stored v c \<Rightarrow> if v \<noteq> cache_version then empty_cache else c)"

definition save_cache :: "string \<Rightarrow> bool \<Rightarrow> update_cache \<Rightarrow> update_file \<Rightarrow> update_file" where
  "save_cache dir written c f = (if dir = [] then f else if written then Stored cache_version c else f)"

subsection \<open>One run\<close>

record update_config =
  ud_dir :: string
  ud_current :: string
  ud_upgrade :: string
  ud_getenv :: "string \<Rightarrow> string"

datatype update_notice = Disclosure | Release string string

definition truthy :: "string \<Rightarrow> bool" where
  "truthy v \<longleftrightarrow> to_lower (trim_space v) \<notin> {[], ''0'', ''false'', ''no'', ''off''}"

definition check_enabled :: "update_config \<Rightarrow> bool" where
  "check_enabled c =
     (if ud_dir c = [] then False
      else if parse_version (ud_current c) = None then False
      else if truthy (ud_getenv c ''BOKS_NO_UPDATE_CHECK'') then False
      else if truthy (ud_getenv c ''DO_NOT_TRACK'') then False
      else if truthy (ud_getenv c ''CI'') then False
      else True)"

definition check_interval :: int where "check_interval = 24 * 60 * 60 * 1000000000"

text \<open>\<open>Notify\<close>: what to print, whether a request is made, and the file, where the one write of a run may fail.\<close>

definition notify :: "update_config \<Rightarrow> int \<Rightarrow> bool \<Rightarrow> update_file \<Rightarrow> update_notice option \<times> bool \<times> update_file" where
  "notify cfg now written file =
     (if \<not> check_enabled cfg then (None, False, file)
      else (let c = load_cache file
        in if \<not> uc_disclosed c then (Some Disclosure, False, save_cache (ud_dir cfg) written (c\<lparr>uc_disclosed := True\<rparr>) file)
           else (let n = (if uc_latest c \<noteq> [] \<and> is_newer (ud_current cfg) (uc_latest c) then Some (Release (uc_latest c) (ud_upgrade cfg)) else None)
             in if now - uc_checked c < check_interval then (n, False, file)
                else (n, True, save_cache (ud_dir cfg) written (c\<lparr>uc_checked := now\<rparr>) file))))"

text \<open>The end of the background request: an answer is put into the record as it is then.\<close>

definition finish_check :: "update_config \<Rightarrow> bool \<Rightarrow> tag_error + string \<Rightarrow> update_file \<Rightarrow> update_file" where
  "finish_check cfg written answer file =
     (case answer of
        Inl _ \<Rightarrow> file
      | Inr latest \<Rightarrow> if latest = [] then file else save_cache (ud_dir cfg) written ((load_cache file)\<lparr>uc_latest := latest\<rparr>) file)"

subsection \<open>Runs in sequence\<close>

text \<open>
  The machine: the file, the time, the times of the requests that were made and whether the disclosure was printed. Runs follow each other
  with any configuration for the one directory, and an answer arrives at any time after its request. The flag says whether
  the write of a run succeeds; the write of an answer may always fail.
\<close>

record update_world =
  uw_file :: update_file
  uw_now :: int
  uw_requests :: "int list"
  uw_told :: bool

inductive update_step :: "bool \<Rightarrow> update_world \<Rightarrow> update_world \<Rightarrow> bool" for reliable where
  run: "uw_now w \<le> t \<Longrightarrow> reliable \<longrightarrow> written \<Longrightarrow> notify cfg t written (uw_file w) = (n, asks, file) \<Longrightarrow>
    update_step reliable w
      (w\<lparr>uw_file := file, uw_now := t, uw_requests := (if asks then t # uw_requests w else uw_requests w),
         uw_told := (uw_told w \<or> n = Some Disclosure)\<rparr>)"
| answer: "uw_requests w \<noteq> [] \<Longrightarrow> update_step reliable w (w\<lparr>uw_file := finish_check cfg written a (uw_file w)\<rparr>)"

inductive_cases update_stepE: "update_step reliable w w'"

definition fresh_world :: "int \<Rightarrow> update_world" where
  "fresh_world t = \<lparr>uw_file = Unreadable, uw_now = t, uw_requests = [], uw_told = False\<rparr>"

text \<open>Requests a day apart, latest first.\<close>

fun spaced :: "int list \<Rightarrow> bool" where
  "spaced (a # b # ts) \<longleftrightarrow> b + check_interval \<le> a \<and> spaced (b # ts)"
| "spaced ts \<longleftrightarrow> True"

subsection \<open>The invariant\<close>

definition update_inv :: "update_world \<Rightarrow> bool" where
  "update_inv w \<longleftrightarrow> spaced (uw_requests w) \<and>
     (uc_disclosed (load_cache (uw_file w)) \<longrightarrow> uw_told w) \<and>
     (uw_requests w \<noteq> [] \<longrightarrow> uw_told w \<and> uc_disclosed (load_cache (uw_file w)) \<and> uc_checked (load_cache (uw_file w)) = hd (uw_requests w))"

lemma load_saved: "load_cache (save_cache dir written c f) = (if dir \<noteq> [] \<and> written then c else load_cache f)"
  by (simp add: load_cache_def save_cache_def)

lemma finish_check_load:
  "uc_disclosed (load_cache (finish_check cfg written a f)) = uc_disclosed (load_cache f)"
  "uc_checked (load_cache (finish_check cfg written a f)) = uc_checked (load_cache f)"
  by (auto simp: finish_check_def load_saved split: sum.split)

lemma spaced_Cons: "spaced (t # ts) \<longleftrightarrow> spaced ts \<and> (ts \<noteq> [] \<longrightarrow> hd ts + check_interval \<le> t)"
  by (cases ts) auto

lemma update_inv_run:
  assumes "update_inv w" "notify cfg t True (uw_file w) = (n, asks, file)"
  shows "update_inv (w\<lparr>uw_file := file, uw_now := t, uw_requests := (if asks then t # uw_requests w else uw_requests w),
    uw_told := (uw_told w \<or> n = Some Disclosure)\<rparr>)"
proof -
  let ?c = "load_cache (uw_file w)"
  consider (off) "\<not> check_enabled cfg" | (first) "check_enabled cfg" "\<not> uc_disclosed ?c"
    | (quiet) "check_enabled cfg" "uc_disclosed ?c" "t - uc_checked ?c < check_interval"
    | (ask) "check_enabled cfg" "uc_disclosed ?c" "\<not> t - uc_checked ?c < check_interval" by blast
  then show ?thesis
  proof cases
    case off
    then show ?thesis using assms by (auto simp: notify_def update_inv_def)
  next
    case first
    then have "ud_dir cfg \<noteq> []" by (auto simp: check_enabled_def)
    then show ?thesis using first assms by (auto simp: notify_def update_inv_def load_saved)
  next
    case quiet
    then show ?thesis using assms by (auto simp: notify_def update_inv_def Let_def)
  next
    case ask
    then have "ud_dir cfg \<noteq> []" by (auto simp: check_enabled_def)
    moreover have "asks" "file = save_cache (ud_dir cfg) True (?c\<lparr>uc_checked := t\<rparr>) (uw_file w)"
      using ask assms(2) by (simp_all add: notify_def Let_def)
    ultimately show ?thesis using ask assms(1) by (auto simp: update_inv_def load_saved spaced_Cons)
  qed
qed

lemma update_inv_step: "update_step True w w' \<Longrightarrow> update_inv w \<Longrightarrow> update_inv w'"
proof (erule update_stepE)
  fix t written cfg n asks disk
  assume "update_inv w" "True \<longrightarrow> written" "notify cfg t written (uw_file w) = (n, asks, disk)"
    "w' = w\<lparr>uw_file := disk, uw_now := t, uw_requests := (if asks then t # uw_requests w else uw_requests w),
         uw_told := (uw_told w \<or> n = Some Disclosure)\<rparr>"
  then show "update_inv w'" using update_inv_run [of w cfg t n asks disk] by simp
next
  fix cfg written a
  assume "update_inv w" "w' = w\<lparr>uw_file := finish_check cfg written a (uw_file w)\<rparr>"
  then show "update_inv w'" by (simp add: update_inv_def finish_check_load)
qed

lemma update_inv_reachable: "(update_step True)\<^sup>*\<^sup>* (fresh_world t) w \<Longrightarrow> update_inv w"
proof (induction rule: rtranclp_induct)
  case base
  show ?case by (simp add: update_inv_def fresh_world_def load_cache_def empty_cache_def)
next
  case (step y z)
  show ?case by (rule update_inv_step [OF step(2,3)])
qed

subsection \<open>Properties\<close>

text \<open>
  C36: disclosed first, and at most daily. On a machine that starts without a record, whatever runs follow each other and whenever answers arrive or
  their writes fail, no request is made before the disclosure was printed, and any two requests are a day apart, as long as the
  writes of the runs themselves succeed.
\<close>

theorem requests_are_daily:
  assumes "(update_step True)\<^sup>*\<^sup>* (fresh_world t) w"
  shows "spaced (uw_requests w) \<and> (uw_requests w \<noteq> [] \<longrightarrow> uw_told w)"
  using update_inv_reachable [OF assms] by (simp add: update_inv_def)

definition check_ex :: update_config where
  "check_ex = \<lparr>ud_dir = ''/state'', ud_current = ''v1.0.0'', ud_upgrade = ''brew upgrade boks'', ud_getenv = (\<lambda>_. [])\<rparr>"

lemma first_runs:
  "notify check_ex 0 True Unreadable = (Some Disclosure, False, Stored 1 \<lparr>uc_disclosed = True, uc_checked = 0, uc_latest = []\<rparr>)"
  "notify check_ex check_interval w (Stored 1 \<lparr>uc_disclosed = True, uc_checked = 0, uc_latest = []\<rparr>) =
     (None, True, if w then Stored 1 \<lparr>uc_disclosed = True, uc_checked = check_interval, uc_latest = []\<rparr>
        else Stored 1 \<lparr>uc_disclosed = True, uc_checked = 0, uc_latest = []\<rparr>)"
proof -
  have "check_enabled check_ex" by code_simp
  then show "notify check_ex 0 True Unreadable = (Some Disclosure, False, Stored 1 \<lparr>uc_disclosed = True, uc_checked = 0, uc_latest = []\<rparr>)"
    "notify check_ex check_interval w (Stored 1 \<lparr>uc_disclosed = True, uc_checked = 0, uc_latest = []\<rparr>) =
     (None, True, if w then Stored 1 \<lparr>uc_disclosed = True, uc_checked = check_interval, uc_latest = []\<rparr>
        else Stored 1 \<lparr>uc_disclosed = True, uc_checked = 0, uc_latest = []\<rparr>)"
    by (simp_all add: notify_def load_cache_def empty_cache_def save_cache_def cache_version_def check_ex_def)
qed

lemma run_from:
  assumes "notify cfg t written f = (n, asks, f')" "uw_file w = f" "uw_now w \<le> t" "reliable \<longrightarrow> written"
    "w' = w\<lparr>uw_file := f', uw_now := t, uw_requests := (if asks then t # uw_requests w else uw_requests w),
         uw_told := (uw_told w \<or> n = Some Disclosure)\<rparr>"
  shows "update_step reliable w w'"
  unfolding assms(5) by (rule update_step.run [OF assms(3,4), of cfg]) (simp add: assms(1,2))

lemma asked_once:
  "(update_step r)\<^sup>*\<^sup>* (fresh_world 0) \<lparr>uw_file = Stored 1 \<lparr>uc_disclosed = True, uc_checked = (if r then check_interval else 0), uc_latest = []\<rparr>,
     uw_now = check_interval, uw_requests = [check_interval], uw_told = True\<rparr>"
proof -
  let ?told = "\<lparr>uw_file = Stored 1 \<lparr>uc_disclosed = True, uc_checked = 0, uc_latest = []\<rparr>, uw_now = 0, uw_requests = [], uw_told = True\<rparr>"
  have "update_step r (fresh_world 0) ?told"
    by (rule run_from [OF first_runs(1)]) (simp_all add: fresh_world_def)
  moreover have "update_step r ?told \<lparr>uw_file = Stored 1 \<lparr>uc_disclosed = True, uc_checked = (if r then check_interval else 0), uc_latest = []\<rparr>,
     uw_now = check_interval, uw_requests = [check_interval], uw_told = True\<rparr>"
    by (rule run_from [OF first_runs(2) [of r]]) (cases r; simp add: check_interval_def)+
  ultimately show ?thesis by (rule converse_rtranclp_into_rtranclp [OF _ r_into_rtranclp])
qed

theorem requests_are_daily_witness:
  "\<exists>w. (update_step True)\<^sup>*\<^sup>* (fresh_world 0) w \<and> uw_requests w = [check_interval] \<and> uw_told w"
  using asked_once [of True] requests_are_daily [OF asked_once [of True]] by force

text \<open>
  Where the write of a run fails, the bound of one request a day is gone: a run at the same moment asks again, since the error of
  writing the record is dropped and the request is made all the same.
\<close>

theorem unwritten_checks_repeat:
  "\<exists>w. (update_step False)\<^sup>*\<^sup>* (fresh_world 0) w \<and> uw_requests w = [check_interval, check_interval]"
proof -
  let ?w = "\<lparr>uw_file = Stored 1 \<lparr>uc_disclosed = True, uc_checked = 0, uc_latest = []\<rparr>,
     uw_now = check_interval, uw_requests = [check_interval], uw_told = True\<rparr>"
  have "(update_step False)\<^sup>*\<^sup>* (fresh_world 0) ?w" using asked_once [of False] by simp
  moreover have "update_step False ?w (?w\<lparr>uw_requests := [check_interval, check_interval]\<rparr>)"
    by (rule run_from [OF first_runs(2) [of False]]) simp_all
  ultimately show ?thesis by (intro exI [of _ "?w\<lparr>uw_requests := [check_interval, check_interval]\<rparr>"]) (auto intro: rtranclp.rtrancl_into_rtrancl)
qed

end
