(* ===== verification/Policy_Log.thy ===== *)
theory Policy_Log
  imports Policy_Core "HOL-Library.Product_Lexorder" "HOL-Library.Multiset"
begin

section \<open>The decision log and the engine: \<open>internal/policy/log.go\<close>\<close>

text \<open>
  Every enforcement point asks an engine, which evaluates its policy and records the decision in a
  ring buffer that also forwards it to sinks. This theory holds the ring buffer, the engine, and the
  display functions over a log. An instant is the number of nanoseconds since Go's zero time, so the
  zero time is 0; a sink is modelled by the decisions it has received.
\<close>

subsection \<open>Decisions\<close>

datatype stage = Stage_http | Stage_connect | Stage_sni | Stage_dial | Stage_request | Stage_network

datatype mode = No_mode | Mode_forward | Mode_forward_bypass | Mode_transparent

record decision =
  d_time :: int
  d_type :: string
  d_stage :: stage
  d_host :: string
  d_port :: int
  d_allowed :: bool
  d_action :: string
  d_resource :: string
  d_reason :: string
  d_rule :: string
  d_policy :: string
  d_mode :: mode
  d_sandbox :: string

definition resource_of :: "target \<Rightarrow> string" where
  "resource_of t =
     ''net:'' @ (if target_is_ip t then ''ip'' else ''domain'') @ '':'' @ t_host t @ '':'' @ itoa (t_port t)"

definition no_rule_for :: "target \<Rightarrow> string" where
  "no_rule_for t =
     ''no applicable policies for op(action=net:connect:tcp, resource='' @ resource_of t @ '')''"

subsection \<open>The ring buffer\<close>

record log =
  lg_entries :: "decision list"
  lg_next :: nat
  lg_full :: bool
  lg_sinks :: "decision list list"

definition zero_decision :: decision where
  "zero_decision =
     \<lparr>d_time = 0, d_type = [], d_stage = Stage_http, d_host = [], d_port = 0, d_allowed = False, d_action = [],
      d_resource = [], d_reason = [], d_rule = [], d_policy = [], d_mode = No_mode, d_sandbox = []\<rparr>"

definition new_log :: "int \<Rightarrow> log" where
  "new_log capacity =
     \<lparr>lg_entries = replicate (nat (if capacity \<le> 0 then 512 else capacity)) zero_decision,
      lg_next = 0, lg_full = False, lg_sinks = []\<rparr>"

definition add_sink :: "log \<Rightarrow> log" where
  "add_sink l = l\<lparr>lg_sinks := lg_sinks l @ [[]]\<rparr>"

text \<open>
  \<open>Record\<close> stores the decision and takes a copy of the list of sinks under its lock, and hands the
  decision to one sink after the other once the lock is released.
\<close>

definition log_store :: "decision \<Rightarrow> log \<Rightarrow> log" where
  "log_store d l =
     (let entries = (lg_entries l)[lg_next l := d];
          next = (lg_next l + 1) mod length entries
      in l\<lparr>lg_entries := entries, lg_next := next, lg_full := (if next = 0 then True else lg_full l)\<rparr>)"

definition sink_record :: "decision \<Rightarrow> nat \<Rightarrow> log \<Rightarrow> log" where
  "sink_record d i l = l\<lparr>lg_sinks := (lg_sinks l)[i := lg_sinks l ! i @ [d]]\<rparr>"

definition log_record :: "decision \<Rightarrow> log \<Rightarrow> log" where
  "log_record d l = foldl (\<lambda>l i. sink_record d i l) (log_store d l) [0..<length (lg_sinks l)]"

lemma sinks_stored [simp]: "lg_sinks (log_store d l) = lg_sinks l"
  by (simp add: log_store_def Let_def)

lemma sink_record_keeps [simp]:
  "lg_entries (sink_record d i l) = lg_entries l" "lg_next (sink_record d i l) = lg_next l"
  "lg_full (sink_record d i l) = lg_full l" "length (lg_sinks (sink_record d i l)) = length (lg_sinks l)"
  by (simp_all add: sink_record_def)

lemma sinks_recorded:
  "n \<le> length (lg_sinks l) \<Longrightarrow> foldl (\<lambda>l i. sink_record d i l) l [0..<n] =
     l\<lparr>lg_sinks := map (\<lambda>s. s @ [d]) (take n (lg_sinks l)) @ drop n (lg_sinks l)\<rparr>"
proof (induction n)
  case (Suc n)
  then have "drop n (lg_sinks l) = lg_sinks l ! n # drop (Suc n) (lg_sinks l)" by (simp add: Cons_nth_drop_Suc)
  then show ?case
    using Suc by (simp add: sink_record_def list_update_append nth_append take_Suc_conv_app_nth)
qed simp

lemma log_record_eq:
  "log_record d l =
     (let entries = (lg_entries l)[lg_next l := d];
          next = (lg_next l + 1) mod length entries
      in l\<lparr>lg_entries := entries, lg_next := next, lg_full := (if next = 0 then True else lg_full l),
           lg_sinks := map (\<lambda>s. s @ [d]) (lg_sinks l)\<rparr>)"
  by (simp add: log_record_def sinks_recorded) (simp add: log_store_def Let_def)

text \<open>Slicing off all but the last \<open>n\<close>, as the display functions do; \<open>n \<le> 0\<close> keeps everything.\<close>

definition keep_last :: "int \<Rightarrow> 'a list \<Rightarrow> 'a list" where
  "keep_last n xs = (if 0 < n \<and> n < int (length xs) then drop (length xs - nat n) xs else xs)"

definition log_recent :: "int \<Rightarrow> log \<Rightarrow> decision list" where
  "log_recent n l =
     (let size = length (lg_entries l);
          count = (if lg_full l then size else lg_next l);
          start = (if lg_full l then lg_next l else 0)
      in keep_last n (map (\<lambda>i. lg_entries l ! ((start + i) mod size)) [0..<count]))"

subsection \<open>What a decision log promises\<close>

text \<open>
  A client of the log knows it only by this contract: a state stands for the history of what was
  recorded, and what is read back is the end of that history.
\<close>

definition last_n :: "nat \<Rightarrow> 'a list \<Rightarrow> 'a list" where
  "last_n n xs = drop (length xs - n) xs"

lemma last_n_length [simp]: "length (last_n n xs) = min n (length xs)"
  by (simp add: last_n_def)

lemma last_n_snoc: "0 < n \<Longrightarrow> last_n n (xs @ [x]) = last_n (n - 1) xs @ [x]"
  by (simp add: last_n_def)

lemma last_n_suffix: "suffix (last_n n xs) xs"
  by (simp add: last_n_def suffix_drop)

locale decision_log =
  fixes put :: "'d \<Rightarrow> 's \<Rightarrow> 's" and recent :: "int \<Rightarrow> 's \<Rightarrow> 'd list"
    and holds :: "'s \<Rightarrow> 'd list \<Rightarrow> bool" and size :: "'s \<Rightarrow> nat"
  assumes put_holds: "holds s h \<Longrightarrow> holds (put d s) (h @ [d])"
    and put_size: "size (put d s) = size s"
    and recent_holds: "holds s h \<Longrightarrow> recent n s = keep_last n (last_n (size s) h)"
    and size_pos: "holds s h \<Longrightarrow> 0 < size s"
begin

definition put_all :: "'d list \<Rightarrow> 's \<Rightarrow> 's" where
  "put_all ds s = foldl (\<lambda>s d. put d s) s ds"

lemma put_all_holds: "holds s h \<Longrightarrow> holds (put_all ds s) (h @ ds)"
proof (induction ds arbitrary: s h)
  case (Cons d ds)
  have "holds (put_all ds (put d s)) ((h @ [d]) @ ds)" by (rule Cons.IH) (rule put_holds [OF Cons.prems])
  then show ?case by (simp add: put_all_def)
qed (simp add: put_all_def)

lemma put_all_size: "size (put_all ds s) = size s"
  by (induction ds arbitrary: s) (simp_all add: put_all_def put_size)

lemma recent_put_all: "holds s h \<Longrightarrow> recent 0 (put_all ds s) = last_n (size s) (h @ ds)"
  using recent_holds [OF put_all_holds, of s h 0 ds] by (simp add: put_all_size keep_last_def)

lemma latest: "holds s h \<Longrightarrow> recent 1 (put d s) = [d]"
proof -
  assume h: "holds s h"
  have "last_n (size s) (h @ [d]) = last_n (size s - 1) h @ [d]"
    by (rule last_n_snoc) (rule size_pos [OF h])
  moreover have "keep_last 1 (xs @ [d]) = [d]" for xs by (auto simp: keep_last_def)
  ultimately show ?thesis using recent_holds [OF put_holds [OF h], of 1 d] by (simp add: put_size)
qed

end

text \<open>The ring buffer stands for a history when each retained entry sits at its position modulo the size.\<close>

definition ring_holds :: "log \<Rightarrow> decision list \<Rightarrow> bool" where
  "ring_holds l h \<longleftrightarrow>
     (let size = length (lg_entries l)
      in 0 < size \<and> lg_next l = length h mod size \<and> (lg_full l \<longleftrightarrow> size \<le> length h) \<and>
         (\<forall>k. length h - size \<le> k \<and> k < length h \<longrightarrow> lg_entries l ! (k mod size) = h ! k))"

lemma ring_holds_new: "ring_holds (new_log c) []"
  by (simp add: ring_holds_def new_log_def)

lemma ring_holds_add_sink [simp]: "ring_holds (add_sink l) h = ring_holds l h"
  by (simp add: ring_holds_def add_sink_def)

lemma ring_holds_sink_record [simp]: "ring_holds (sink_record d i l) h = ring_holds l h"
  by (simp add: ring_holds_def)

lemma ring_holds_record: "ring_holds l h \<Longrightarrow> ring_holds (log_record d l) (h @ [d])"
proof -
  assume r: "ring_holds l h"
  define size where "size = length (lg_entries l)"
  have s: "0 < size" "lg_next l = length h mod size" "lg_full l \<longleftrightarrow> size \<le> length h"
    and e: "\<And>k. length h - size \<le> k \<Longrightarrow> k < length h \<Longrightarrow> lg_entries l ! (k mod size) = h ! k"
    using r by (auto simp: ring_holds_def size_def Let_def)
  have full: "(if (lg_next l + 1) mod size = 0 then True else lg_full l) \<longleftrightarrow> size \<le> length (h @ [d])"
  proof (cases "(lg_next l + 1) mod size = 0")
    case True
    then have "size dvd length h + 1" using s(2) by (simp add: mod_Suc_eq mod_eq_0_iff_dvd)
    then show ?thesis using True by (auto dest: dvd_imp_le)
  next
    case False
    then have "size \<noteq> length h + 1" using s(2) by (auto simp: mod_Suc_eq)
    then show ?thesis using False s(3) by auto
  qed
  have "((lg_entries l)[lg_next l := d]) ! (k mod size) = (h @ [d]) ! k"
    if k: "length (h @ [d]) - size \<le> k" "k < length (h @ [d])" for k
  proof (cases "k = length h")
    case True
    then show ?thesis using s by (simp add: size_def)
  next
    case False
    then have "k < length h" "length h < k + size" using k s(1) by auto
    then have "k mod size \<noteq> length h mod size"
      by (metis False less_imp_le_nat mod_eq_dvd_iff_nat nat_dvd_not_less zero_less_diff less_diff_conv2 add.commute)
    with \<open>k < length h\<close> show ?thesis using e [of k] k s(1,2) by (simp add: nth_append)
  qed
  then show ?thesis
    using s full by (auto simp: ring_holds_def log_record_eq Let_def size_def mod_Suc_eq)
qed

lemma ring_recent: "ring_holds l h \<Longrightarrow> log_recent n l = keep_last n (last_n (length (lg_entries l)) h)"
proof -
  assume r: "ring_holds l h"
  define size where "size = length (lg_entries l)"
  have s: "0 < size" "lg_next l = length h mod size" "lg_full l \<longleftrightarrow> size \<le> length h"
    and e: "\<And>k. length h - size \<le> k \<Longrightarrow> k < length h \<Longrightarrow> lg_entries l ! (k mod size) = h ! k"
    using r by (auto simp: ring_holds_def size_def Let_def)
  have "map (\<lambda>i. lg_entries l ! (((if lg_full l then lg_next l else 0) + i) mod size))
      [0..<(if lg_full l then size else lg_next l)] = last_n size h"
  proof (rule nth_equalityI)
    show len: "length (map (\<lambda>i. lg_entries l ! (((if lg_full l then lg_next l else 0) + i) mod size))
      [0..<(if lg_full l then size else lg_next l)]) = length (last_n size h)"
      using s by auto
    fix i assume "i < length (map (\<lambda>i. lg_entries l ! (((if lg_full l then lg_next l else 0) + i) mod size))
      [0..<(if lg_full l then size else lg_next l)])"
    then have i: "i < (if lg_full l then size else lg_next l)" by simp
    show "map (\<lambda>i. lg_entries l ! (((if lg_full l then lg_next l else 0) + i) mod size))
      [0..<(if lg_full l then size else lg_next l)] ! i = last_n size h ! i"
    proof (cases "lg_full l")
      case True
      then have ge: "size \<le> length h" using s by simp
      have "(length h mod size + i) mod size = (length h - size + i) mod size"
        using ge by (metis le_mod_geq mod_add_left_eq)
      then show ?thesis using True i ge e [of "length h - size + i"] s(2) by (simp add: last_n_def)
    next
      case False
      then have "length h < size" using s by simp
      then show ?thesis using False i s(2) e [of i] by (simp add: last_n_def)
    qed
  qed
  then show ?thesis by (cases "lg_full l") (simp_all add: log_recent_def Let_def size_def)
qed

interpretation ring: decision_log log_record log_recent ring_holds "\<lambda>l. length (lg_entries l)"
  by unfold_locales
    (erule ring_holds_record, simp add: log_record_eq Let_def, erule ring_recent, auto simp: ring_holds_def Let_def)

subsection \<open>Records that interleave\<close>

text \<open>
  Enforcement points record from their own goroutines. A call that has left the lock still has to hand
  its decision to the rest of the sinks it copied, and other calls may run in between; the pairs are
  the calls under way, each with the positions of the sinks it has yet to reach. The first argument
  is what has been stored since the log had the given state.
\<close>

inductive recording :: "log \<Rightarrow> decision list \<Rightarrow> log \<Rightarrow> (decision \<times> nat list) list \<Rightarrow> bool" for l0 where
  start: "recording l0 [] l0 []"
| stored: "recording l0 ds l ps \<Longrightarrow>
    recording l0 (ds @ [d]) (log_store d l) (ps @ [(d, [0..<length (lg_sinks l)])])"
| handed: "recording l0 ds l (ps @ (d, i # is) # qs) \<Longrightarrow>
    recording l0 ds (sink_record d i l) (ps @ (d, is) # qs)"
| sink_added: "recording l0 ds l ps \<Longrightarrow> recording l0 ds (add_sink l) ps"

inductive_cases recording_stored: "recording l0 (ds @ [d]) l ps"

text \<open>What sink \<open>i\<close> has yet to receive.\<close>

definition due :: "nat \<Rightarrow> (decision \<times> nat list) list \<Rightarrow> decision multiset" where
  "due i ps = (\<Sum>(d, is) \<leftarrow> ps. if i \<in> set is then {#d#} else {#})"

lemma due_simps [simp]:
  "due i [] = {#}" "due i ((d, is) # ps) = (if i \<in> set is then {#d#} else {#}) + due i ps"
  "due i (ps @ qs) = due i ps + due i qs"
  by (simp_all add: due_def)

lemma recording_pending:
  "recording l0 ds l ps \<Longrightarrow> length (lg_sinks l0) \<le> length (lg_sinks l) \<and>
     (\<forall>(d, is) \<in> set ps. distinct is \<and> (\<forall>i\<in>set is. i < length (lg_sinks l)))"
  by (induction rule: recording.induct) (fastforce simp: add_sink_def)+

lemma recording_ring: "recording l0 ds l ps \<Longrightarrow> ring_holds l0 h \<Longrightarrow> ring_holds l (h @ ds)"
proof (induction rule: recording.induct)
  case (stored ds l ps d)
  have "ring_holds (log_store d l) h = ring_holds (log_record d l) h" for h
    by (simp add: ring_holds_def log_record_eq) (simp add: log_store_def Let_def)
  then show ?case using stored ring_holds_record [of l "h @ ds" d] by simp
qed simp_all

lemma recording_sinks:
  "recording l0 ds l ps \<Longrightarrow> i < length (lg_sinks l0) \<Longrightarrow>
     mset (lg_sinks l ! i) + due i ps = mset (lg_sinks l0 ! i) + mset ds"
proof (induction rule: recording.induct)
  case (stored ds l ps d)
  then show ?case using recording_pending [OF stored.hyps] by simp
next
  case (handed ds l ps d j js qs)
  then have "j < length (lg_sinks l)" "j \<notin> set js" using recording_pending [OF handed.hyps] by auto
  then show ?case using handed by (cases "i = j") (auto simp: sink_record_def)
next
  case (sink_added ds l ps)
  then show ?case using recording_pending [OF sink_added.hyps] by (simp add: add_sink_def nth_append)
qed simp

subsection \<open>Reading and displaying a log\<close>

text \<open>
  Reading decodes one value after another and stops at the first that does not decode; the argument
  lists what decoding yields.
\<close>

fun decode_all :: "decision option list \<Rightarrow> decision list" where
  "decode_all [] = []"
| "decode_all (None # ds) = []"
| "decode_all (Some d # ds) = d # decode_all ds"

definition read_decisions :: "decision option list \<Rightarrow> int \<Rightarrow> decision list" where
  "read_decisions ds n = keep_last n (decode_all ds)"

record filter_spec =
  fl_sandbox :: string
  fl_since :: int

definition filter_match :: "filter_spec \<Rightarrow> decision \<Rightarrow> bool" where
  "filter_match f d =
     (if fl_sandbox f \<noteq> [] \<and> d_sandbox d \<noteq> fl_sandbox f then False
      else if fl_since f \<noteq> 0 \<and> d_time d < fl_since f then False else True)"

definition filter_empty :: "filter_spec \<Rightarrow> bool" where
  "filter_empty f \<longleftrightarrow> fl_sandbox f = [] \<and> fl_since f = 0"

definition filter_apply :: "filter_spec \<Rightarrow> decision list \<Rightarrow> decision list" where
  "filter_apply f ds = (if filter_empty f then ds else filter (filter_match f) ds)"

text \<open>
  \<open>ParseSince\<close>, with the parsers of package \<open>time\<close> as arguments: one for durations and one for the
  five layouts, tried in order.
\<close>

definition parse_since ::
    "(string \<Rightarrow> int option) \<Rightarrow> (string \<Rightarrow> string \<Rightarrow> int option) \<Rightarrow> string \<Rightarrow> int \<Rightarrow> int option" where
  "parse_since duration layout s0 now =
     (let s = trim_space s0
      in if s = [] then Some 0
         else (case duration s of
             Some d \<Rightarrow> Some (now - (if d < 0 then - d else d))
           | None \<Rightarrow>
               (case List.find (\<lambda>l. layout l s \<noteq> None)
                   [''2006-01-02T15:04:05Z07:00'', ''2006-01-02T15:04:05'', ''2006-01-02 15:04:05'',
                    ''2006-01-02 15:04'', ''2006-01-02''] of
                  Some l \<Rightarrow> layout l s
                | None \<Rightarrow> None)))"

record aggregate =
  ag_sandbox :: string
  ag_type :: string
  ag_host :: string
  ag_port :: int
  ag_mode :: mode
  ag_allowed :: bool
  ag_rule :: string
  ag_reason :: string
  ag_first :: int
  ag_last :: int
  ag_count :: nat

type_synonym agg_key = "string \<times> string \<times> string \<times> int \<times> mode \<times> bool \<times> string \<times> string"

definition decision_key :: "decision \<Rightarrow> agg_key" where
  "decision_key d =
     (d_sandbox d, d_type d, d_host d, d_port d, d_mode d, d_allowed d, d_rule d, d_reason d)"

definition aggregate_key :: "aggregate \<Rightarrow> agg_key" where
  "aggregate_key a =
     (ag_sandbox a, ag_type a, ag_host a, ag_port a, ag_mode a, ag_allowed a, ag_rule a, ag_reason a)"

definition first_seen :: "decision \<Rightarrow> aggregate" where
  "first_seen d =
     \<lparr>ag_sandbox = d_sandbox d, ag_type = d_type d, ag_host = d_host d, ag_port = d_port d, ag_mode = d_mode d,
      ag_allowed = d_allowed d, ag_rule = d_rule d, ag_reason = d_reason d,
      ag_first = d_time d, ag_last = d_time d, ag_count = 1\<rparr>"

definition seen_again :: "decision \<Rightarrow> aggregate \<Rightarrow> aggregate" where
  "seen_again d a =
     a\<lparr>ag_count := ag_count a + 1,
       ag_last := (if ag_last a < d_time d then d_time d else ag_last a),
       ag_first := (if d_time d < ag_first a then d_time d else ag_first a)\<rparr>"

text \<open>The map from key to position finds the one row with the key; the row is updated in place.\<close>

fun count_in :: "decision \<Rightarrow> aggregate list \<Rightarrow> aggregate list" where
  "count_in d [] = [first_seen d]"
| "count_in d (a # as) = (if aggregate_key a = decision_key d then seen_again d a # as else a # count_in d as)"

definition aggregated :: "decision list \<Rightarrow> aggregate list" where
  "aggregated ds = sort_key (\<lambda>a. (- ag_last a, ag_host a)) (foldl (\<lambda>out d. count_in d out) [] ds)"

definition destination :: "aggregate \<Rightarrow> string" where
  "destination a =
     (if CHR '':'' \<in> set (ag_host a) then ''['' @ ag_host a @ '']:'' @ itoa (ag_port a)
      else ag_host a @ '':'' @ itoa (ag_port a))"

subsection \<open>The engine\<close>

record engine =
  en_policy :: policy
  en_log :: log
  en_sandbox :: string

definition new_engine :: "policy \<Rightarrow> log option \<Rightarrow> engine" where
  "new_engine p l =
     \<lparr>en_policy = p, en_log = (case l of None \<Rightarrow> new_log 512 | Some l \<Rightarrow> l), en_sandbox = []\<rparr>"

definition with_sandbox :: "string \<Rightarrow> engine \<Rightarrow> engine" where
  "with_sandbox name e = e\<lparr>en_sandbox := name\<rparr>"

definition replace_policy :: "policy \<Rightarrow> engine \<Rightarrow> engine" where
  "replace_policy p e = e\<lparr>en_policy := p\<rparr>"

definition update_policy :: "(policy \<Rightarrow> policy) \<Rightarrow> engine \<Rightarrow> engine" where
  "update_policy f e = e\<lparr>en_policy := f (en_policy e)\<rparr>"

definition engine_record :: "int \<Rightarrow> stage \<Rightarrow> target \<Rightarrow> verdict \<Rightarrow> mode \<Rightarrow> string \<Rightarrow> engine \<Rightarrow> decision \<times> engine" where
  "engine_record now st t v m name e =
     (let d = \<lparr>d_time = now, d_type = ''network'', d_stage = st, d_host = t_host t, d_port = t_port t,
               d_allowed = v_allowed v, d_action = ''net:connect:tcp'', d_resource = resource_of t,
               d_reason = v_reason v, d_rule = (if v_rule v = [] then no_rule_for t else v_rule v),
               d_policy = name, d_mode = m, d_sandbox = en_sandbox e\<rparr>
      in (d, e\<lparr>en_log := log_record d (en_log e)\<rparr>))"

definition check_mode :: "int \<Rightarrow> stage \<Rightarrow> target \<Rightarrow> mode \<Rightarrow> engine \<Rightarrow> decision \<times> engine" where
  "check_mode now st t m e =
     engine_record now st t (evaluate (en_policy e) t) m (pol_name (en_policy e)) e"

definition engine_check :: "int \<Rightarrow> stage \<Rightarrow> target \<Rightarrow> engine \<Rightarrow> decision \<times> engine" where
  "engine_check now st t e = check_mode now st t No_mode e"

definition check_resolved :: "int \<Rightarrow> target \<Rightarrow> mode \<Rightarrow> engine \<Rightarrow> decision \<times> engine" where
  "check_resolved now t m e =
     engine_record now Stage_dial t (evaluate_deny (en_policy e) t) m (pol_name (en_policy e)) e"

definition engine_note :: "int \<Rightarrow> stage \<Rightarrow> target \<Rightarrow> mode \<Rightarrow> string \<Rightarrow> engine \<Rightarrow> decision \<times> engine" where
  "engine_note now st t m reason e =
     engine_record now st t \<lparr>v_allowed = True, v_rule = [], v_scope = [], v_reason = reason\<rparr> m (pol_name (en_policy e)) e"

definition note_refused :: "int \<Rightarrow> stage \<Rightarrow> target \<Rightarrow> mode \<Rightarrow> string \<Rightarrow> engine \<Rightarrow> decision \<times> engine" where
  "note_refused now st t m reason e =
     engine_record now st t \<lparr>v_allowed = False, v_rule = [], v_scope = [], v_reason = reason\<rparr> m (pol_name (en_policy e)) e"

text \<open>A call to the engine, in the order the callers take its locks.\<close>

datatype engine_call =
    Call_check int stage target mode | Call_resolved int target mode
  | Call_note int stage target mode string | Call_refused int stage target mode string
  | Call_replace policy

fun engine_step :: "engine_call \<Rightarrow> engine \<Rightarrow> decision list \<times> engine" where
  "engine_step (Call_check now st t m) e = (case check_mode now st t m e of (d, e') \<Rightarrow> ([d], e'))"
| "engine_step (Call_resolved now t m) e = (case check_resolved now t m e of (d, e') \<Rightarrow> ([d], e'))"
| "engine_step (Call_note now st t m r) e = (case engine_note now st t m r e of (d, e') \<Rightarrow> ([d], e'))"
| "engine_step (Call_refused now st t m r) e = (case note_refused now st t m r e of (d, e') \<Rightarrow> ([d], e'))"
| "engine_step (Call_replace p) e = ([], replace_policy p e)"

fun engine_run :: "engine_call list \<Rightarrow> engine \<Rightarrow> decision list \<times> engine" where
  "engine_run [] e = ([], e)"
| "engine_run (c # cs) e =
     (let (ds, e1) = engine_step c e; (ds', e2) = engine_run cs e1 in (ds @ ds', e2))"

subsection \<open>Lemmas on the engine\<close>

definition decides_call :: "engine_call \<Rightarrow> bool" where
  "decides_call c = (case c of Call_replace _ \<Rightarrow> False | _ \<Rightarrow> True)"

text \<open>The policy a call sees: the last one put in place before it.\<close>

fun policy_in_force :: "engine_call list \<Rightarrow> policy \<Rightarrow> policy" where
  "policy_in_force [] p = p"
| "policy_in_force (Call_replace q # cs) p = policy_in_force cs q"
| "policy_in_force (_ # cs) p = policy_in_force cs p"

text \<open>What the decision returned for a call has to say when the policy \<open>p\<close> is in force.\<close>

definition says :: "int \<Rightarrow> stage \<Rightarrow> target \<Rightarrow> mode \<Rightarrow> policy \<Rightarrow> bool \<Rightarrow> string \<Rightarrow> decision \<Rightarrow> bool" where
  "says now st t m p allowed reason d \<longleftrightarrow>
     d_time d = now \<and> d_stage d = st \<and> d_host d = t_host t \<and> d_port d = t_port t \<and> d_mode d = m \<and>
     d_policy d = pol_name p \<and> d_allowed d = allowed \<and> d_reason d = reason"

fun answers :: "engine_call \<Rightarrow> policy \<Rightarrow> decision \<Rightarrow> bool" where
  "answers (Call_check now st t m) p d \<longleftrightarrow>
     says now st t m p (v_allowed (evaluate p t)) (v_reason (evaluate p t)) d"
| "answers (Call_resolved now t m) p d \<longleftrightarrow>
     says now Stage_dial t m p (v_allowed (evaluate_deny p t)) (v_reason (evaluate_deny p t)) d"
| "answers (Call_note now st t m r) p d \<longleftrightarrow> says now st t m p True r d"
| "answers (Call_refused now st t m r) p d \<longleftrightarrow> says now st t m p False r d"
| "answers (Call_replace q) p d \<longleftrightarrow> False"

lemmas engine_defs = check_mode_def check_resolved_def engine_note_def note_refused_def engine_record_def
  replace_policy_def Let_def

lemma engine_step_effect:
  "engine_step c e = (ds, e') \<Longrightarrow>
     en_log e' = foldl (\<lambda>l d. log_record d l) (en_log e) ds \<and>
     length ds = (if decides_call c then 1 else 0) \<and>
     en_policy e' = policy_in_force [c] (en_policy e) \<and> en_sandbox e' = en_sandbox e"
  by (cases c) (auto simp: engine_defs decides_call_def)

lemma engine_run_effect:
  "engine_run cs e = (ds, e') \<Longrightarrow>
     en_log e' = foldl (\<lambda>l d. log_record d l) (en_log e) ds \<and>
     length ds = length (filter decides_call cs) \<and> en_policy e' = policy_in_force cs (en_policy e)"
proof (induction cs arbitrary: e ds e')
  case (Cons c cs)
  obtain ds1 e1 where 1: "engine_step c e = (ds1, e1)" by (meson surj_pair)
  obtain ds2 e2 where 2: "engine_run cs e1 = (ds2, e2)" by (meson surj_pair)
  have "ds = ds1 @ ds2" "e' = e2" using Cons.prems 1 2 by auto
  moreover have "policy_in_force (c # cs) p = policy_in_force cs (policy_in_force [c] p)" for p
    by (cases c) auto
  ultimately show ?case using engine_step_effect [OF 1] Cons.IH [OF 2] by auto
qed auto

lemma engine_run_append: "engine_run (cs @ cs') e =
    (case engine_run cs e of (ds, e1) \<Rightarrow> (case engine_run cs' e1 of (ds', e2) \<Rightarrow> (ds @ ds', e2)))"
  by (induction cs arbitrary: e) (auto split: prod.splits)

lemma engine_step_answers:
  "engine_step c e = (ds, e') \<Longrightarrow> decides_call c \<Longrightarrow> \<exists>d. ds = [d] \<and> answers c (en_policy e) d"
  by (cases c) (auto simp: engine_defs decides_call_def says_def)

lemma engine_run_answers:
  assumes "engine_run (before @ c # after) e = (ds, e')" "decides_call c"
  shows "answers c (policy_in_force before (en_policy e)) (ds ! length (filter decides_call before))"
proof -
  obtain ds1 e1 where 1: "engine_run before e = (ds1, e1)" by (meson surj_pair)
  obtain ds2 e2 where 2: "engine_step c e1 = (ds2, e2)" by (meson surj_pair)
  obtain ds3 e3 where 3: "engine_run after e2 = (ds3, e3)" by (meson surj_pair)
  have "ds = ds1 @ ds2 @ ds3" using assms(1) 1 2 3 by (simp add: engine_run_append)
  then show ?thesis
    using engine_step_answers [OF 2 assms(2)] engine_run_effect [OF 1] by (auto simp: nth_append)
qed

lemma put_all_ring: "ring.put_all ds l = foldl (\<lambda>l d. log_record d l) l ds"
  by (simp add: ring.put_all_def)

lemma sinks_record: "lg_sinks (foldl (\<lambda>l d. log_record d l) l ds) = map (\<lambda>s. s @ ds) (lg_sinks l)"
  by (induction ds arbitrary: l) (auto simp: log_record_eq Let_def)

subsection \<open>Lemmas on aggregation\<close>

lemma count_in_keys: "aggregate_key ` set (count_in d as) = insert (decision_key d) (aggregate_key ` set as)"
  by (induction as) (auto simp: first_seen_def seen_again_def aggregate_key_def decision_key_def)

lemma count_in_distinct: "distinct (map aggregate_key as) \<Longrightarrow> distinct (map aggregate_key (count_in d as))"
proof (induction as)
  case (Cons a as)
  have "aggregate_key (seen_again d a) = aggregate_key a" by (simp add: seen_again_def aggregate_key_def)
  then show ?case using Cons count_in_keys [of d as] by (auto simp: image_iff)
qed simp

text \<open>What a row says of the decisions counted so far.\<close>

definition row_of :: "decision list \<Rightarrow> aggregate \<Rightarrow> bool" where
  "row_of ds a \<longleftrightarrow>
     (let same = filter (\<lambda>d. decision_key d = aggregate_key a) ds
      in same \<noteq> [] \<and> ag_count a = length same \<and>
         ag_first a = Min (d_time ` set same) \<and> ag_last a = Max (d_time ` set same))"

lemma row_of_other: "row_of ds a \<Longrightarrow> aggregate_key a \<noteq> decision_key d \<Longrightarrow> row_of (ds @ [d]) a"
  by (auto simp: row_of_def)

lemma row_of_same: "row_of ds a \<Longrightarrow> aggregate_key a = decision_key d \<Longrightarrow> row_of (ds @ [d]) (seen_again d a)"
proof -
  assume r: "row_of ds a" and k: "aggregate_key a = decision_key d"
  define S where "S = d_time ` set (filter (\<lambda>x. decision_key x = decision_key d) ds)"
  have S: "finite S" "S \<noteq> {}" "ag_first a = Min S" "ag_last a = Max S"
    "ag_count a = length (filter (\<lambda>x. decision_key x = decision_key d) ds)"
    using r k by (auto simp: row_of_def Let_def S_def filter_empty_conv)
  have "d_time ` set (filter (\<lambda>x. decision_key x = decision_key d) (ds @ [d])) = insert (d_time d) S"
    by (auto simp: S_def)
  moreover have "Min (insert (d_time d) S) = (if d_time d < Min S then d_time d else Min S)"
    "Max (insert (d_time d) S) = (if Max S < d_time d then d_time d else Max S)"
    using Min_insert [OF S(1,2)] Max_insert [OF S(1,2)] by (auto simp: min_def max_def not_less)
  moreover have "aggregate_key (seen_again d a) = decision_key d"
    using k by (simp add: seen_again_def aggregate_key_def)
  ultimately show ?thesis using S by (simp add: row_of_def Let_def seen_again_def)
qed

lemma count_in_rows:
  assumes "list_all (row_of ds) as" "distinct (map aggregate_key as)" "aggregate_key ` set as = decision_key ` set ds"
  shows "list_all (row_of (ds @ [d])) (count_in d as)"
proof -
  have new: "row_of (ds @ [d]) (first_seen d)" if "decision_key d \<notin> decision_key ` set ds"
  proof -
    have "aggregate_key (first_seen d) = decision_key d"
      by (simp add: first_seen_def aggregate_key_def decision_key_def)
    moreover have "filter (\<lambda>x. decision_key x = decision_key d) ds = []"
      using that by (metis (mono_tags, lifting) filter_empty_conv image_eqI)
    ultimately show ?thesis by (simp add: row_of_def first_seen_def)
  qed
  have "decision_key d \<notin> aggregate_key ` set bs \<longrightarrow> decision_key d \<notin> decision_key ` set ds \<or> bs \<noteq> as" for bs
    using assms(3) by auto
  have "list_all (row_of (ds @ [d])) (count_in d bs)"
    if "list_all (row_of ds) bs" "distinct (map aggregate_key bs)"
      "decision_key d \<in> aggregate_key ` set bs \<or> decision_key d \<notin> decision_key ` set ds" for bs
    using that
  proof (induction bs)
    case (Cons b bs)
    show ?case
    proof (cases "aggregate_key b = decision_key d")
      case True
      then have "decision_key d \<notin> aggregate_key ` set bs" using Cons.prems(2) by auto
      then have "\<forall>x\<in>set bs. aggregate_key x \<noteq> decision_key d" by (metis image_eqI)
      then have "list_all (row_of (ds @ [d])) bs"
        using Cons.prems(1) row_of_other [of ds _ d] by (auto simp: list_all_iff)
      then show ?thesis using True Cons.prems(1) row_of_same by simp
    next
      case False
      then show ?thesis using Cons row_of_other by auto
    qed
  qed (simp add: new)
  then show ?thesis using assms by blast
qed

lemma counted:
  "list_all (row_of ds) (foldl (\<lambda>out d. count_in d out) [] ds) \<and>
   distinct (map aggregate_key (foldl (\<lambda>out d. count_in d out) [] ds)) \<and>
   aggregate_key ` set (foldl (\<lambda>out d. count_in d out) [] ds) = decision_key ` set ds"
proof (induction ds rule: rev_induct)
  case (snoc d ds)
  then show ?case using count_in_rows [of ds _ d] count_in_distinct count_in_keys by simp
qed simp

subsection \<open>Properties\<close>

text \<open>
  C7: nothing is decided unlogged. Whatever is asked of an engine, one call after another, and however
  often its policy is replaced in between, the decisions returned, one per question, are exactly what
  the log gained: they end its history and every sink received them in order. Each of them names the
  target and the policy, and its verdict is the one the policy in force at that moment gives: that of
  the whole policy for a check, of its deny rules for the check of a resolved address, and the one
  noted for a note.
\<close>

theorem engine_logs_everything:
  assumes "engine_run cs e = (ds, e')" "ring_holds (en_log e) h"
  shows "log_recent 0 (en_log e') = last_n (length (lg_entries (en_log e))) (h @ ds) \<and>
    lg_sinks (en_log e') = map (\<lambda>s. s @ ds) (lg_sinks (en_log e)) \<and>
    length ds = length (filter decides_call cs) \<and>
    (\<forall>before c after. cs = before @ c # after \<and> decides_call c \<longrightarrow>
       answers c (policy_in_force before (en_policy e)) (ds ! length (filter decides_call before)))"
  using engine_run_effect [OF assms(1)] engine_run_answers [of _ _ _ e ds e'] assms(1)
    ring.recent_put_all [OF assms(2), of ds]
  by (auto simp: put_all_ring sinks_record)

text \<open>
  The witness asks an engine with one sink for a check, puts a policy with a deny in place and asks for
  the check of a resolved target that the deny covers: the first is allowed, the second refused, and
  both are logged.
\<close>

theorem engine_logs_everything_witness:
  "\<exists>p q t u ds e'. engine_run [Call_check 5 Stage_connect t No_mode, Call_replace q, Call_resolved 6 u No_mode]
       (new_engine p (Some (add_sink (new_log 4)))) = (ds, e') \<and>
     map d_allowed ds = [True, False] \<and> log_recent 0 (en_log e') = ds \<and> lg_sinks (en_log e') = [ds]"
proof -
  let ?p = "\<lparr>pol_name = ''open'', pol_default = Allow, pol_rules = []\<rparr>"
  let ?q = "?p\<lparr>pol_rules := [rule_ex Deny]\<rparr>"
  let ?t = "\<lparr>t_host = ''a.b.com'', t_addr = Addr_none, t_port = 443\<rparr>"
  let ?c = "[Call_check 5 Stage_connect ?t No_mode, Call_replace ?q, Call_resolved 6 ?t No_mode]"
  let ?e = "new_engine ?p (Some (add_sink (new_log 4)))"
  obtain ds e' where run: "engine_run ?c ?e = (ds, e')" by (meson surj_pair)
  have e: "ring_holds (en_log ?e) []" "length (lg_entries (en_log ?e)) = 4" "lg_sinks (en_log ?e) = [[]]"
    "en_policy ?e = ?p"
    by (simp_all add: new_engine_def ring_holds_new) (simp_all add: new_log_def add_sink_def)
  have n: "filter decides_call ?c = [Call_check 5 Stage_connect ?t No_mode, Call_resolved 6 ?t No_mode]"
    by (simp add: decides_call_def)
  have v: "v_allowed (evaluate ?p ?t)" "\<not> v_allowed (evaluate_deny ?q ?t)" by code_simp+
  note logged = engine_logs_everything [OF run e(1)]
  have "answers c (policy_in_force before ?p) (ds ! length (filter decides_call before))"
    if "?c = before @ c # after" "decides_call c" for before c after
    using logged that e(4) by auto
  from this [of "[]" "Call_check 5 Stage_connect ?t No_mode"]
    this [of "[Call_check 5 Stage_connect ?t No_mode, Call_replace ?q]" "Call_resolved 6 ?t No_mode" "[]"]
  have "d_allowed (ds ! 0)" "\<not> d_allowed (ds ! 1)" using v by (simp_all add: decides_call_def says_def)
  moreover have len: "length ds = 2" using logged n by simp
  ultimately have verdicts: "map d_allowed ds = [True, False]" by (auto simp: length_Suc_conv numeral_2_eq_2)
  have kept: "log_recent 0 (en_log e') = ds" "lg_sinks (en_log e') = [ds]"
    using logged e len by (simp_all add: last_n_def)
  show ?thesis
    by (rule exI [of _ ?p], rule exI [of _ ?q], rule exI [of _ ?t], rule exI [of _ ?t], rule exI [of _ ds],
      rule exI [of _ e'], intro conjI run verdicts kept)
qed

text \<open>
  What interleaved records leave. However the calls of several goroutines and the additions of sinks
  interleave, the log holds what was stored in the order it was stored in, and once every call has
  handed its decision on, each sink that was there from the start has received each decision exactly
  once; only the order in which it received them may differ from the order of the log.
\<close>

theorem records_reach_sinks:
  assumes "recording l0 ds l ps" "ring_holds l0 h" "\<forall>p\<in>set ps. snd p = []" "i < length (lg_sinks l0)"
  shows "log_recent 0 l = last_n (length (lg_entries l)) (h @ ds) \<and>
    mset (lg_sinks l ! i) = mset (lg_sinks l0 ! i @ ds)"
proof -
  have "due i ps = {#}" using assms(3) by (induction ps) auto
  then show ?thesis
    using recording_ring [OF assms(1,2)] recording_sinks [OF assms(1,4)] ring_recent [of l "h @ ds" 0]
    by (simp add: keep_last_def)
qed

theorem records_reach_sinks_witness:
  "\<exists>l d. recording (add_sink (new_log 4)) [zero_decision, d] l [(zero_decision, []), (d, [])] \<and>
     lg_sinks l = [[d, zero_decision]] \<and> log_recent 0 l = [zero_decision, d] \<and> d \<noteq> zero_decision"
proof -
  let ?d = "zero_decision\<lparr>d_port := 80\<rparr>" and ?l0 = "add_sink (new_log 4)"
  let ?l2 = "log_store ?d (log_store zero_decision ?l0)"
  have k: "length (lg_sinks ?l0) = 1" "lg_sinks ?l0 = [[]]" by (simp_all add: add_sink_def new_log_def)
  have "recording ?l0 [zero_decision] (log_store zero_decision ?l0) [(zero_decision, [0])]"
    using recording.stored [OF recording.start, of ?l0 zero_decision] k by simp
  from recording.stored [OF this, of ?d]
  have two: "recording ?l0 [zero_decision, ?d] ?l2 [(zero_decision, [0]), (?d, [0])]" using k by simp
  have "recording ?l0 [zero_decision, ?d] (sink_record ?d 0 ?l2) [(zero_decision, [0]), (?d, [])]"
    using recording.handed [of ?l0 _ ?l2 "[(zero_decision, [0])]" ?d 0 "[]" "[]"] two by simp
  then have run: "recording ?l0 [zero_decision, ?d] (sink_record zero_decision 0 (sink_record ?d 0 ?l2))
      [(zero_decision, []), (?d, [])]"
    using recording.handed [of ?l0 _ _ "[]" zero_decision 0 "[]" "[(?d, [])]"] by simp
  have "log_recent 0 (sink_record zero_decision 0 (sink_record ?d 0 ?l2)) =
      last_n (length (lg_entries (sink_record zero_decision 0 (sink_record ?d 0 ?l2)))) ([] @ [zero_decision, ?d])"
    using records_reach_sinks [OF run, of "[]" 0] k by (simp add: ring_holds_new)
  moreover have "length (lg_entries ?l2) = 4" by (simp add: log_store_def Let_def add_sink_def new_log_def)
  moreover have "lg_sinks (sink_record zero_decision 0 (sink_record ?d 0 ?l2)) = [[?d, zero_decision]]"
    using k by (simp add: sink_record_def)
  moreover have "?d \<noteq> zero_decision" by (simp add: zero_decision_def)
  ultimately show ?thesis using run by (simp add: last_n_def) blast
qed

text \<open>
  The log keeps the most recent decisions. After any sequence of records into a new log, reading
  it back gives the last ones recorded, as many as it retains, oldest first, cut to the number asked
  for; the one recorded last is always among them.
\<close>

theorem log_keeps_recent:
  "log_recent n (foldl (\<lambda>l d. log_record d l) (new_log c) ds) =
     keep_last n (last_n (nat (if c \<le> 0 then 512 else c)) ds) \<and>
   log_recent 1 (log_record d (foldl (\<lambda>l d. log_record d l) (new_log c) ds)) = [d]"
proof -
  have holds: "ring_holds (foldl (\<lambda>l d. log_record d l) (new_log c) ds) ds"
    using ring.put_all_holds [OF ring_holds_new, of ds c] by (simp add: put_all_ring)
  have "length (lg_entries (foldl (\<lambda>l d. log_record d l) (new_log c) ds)) = nat (if c \<le> 0 then 512 else c)"
    using ring.put_all_size [of ds "new_log c"] by (simp add: put_all_ring new_log_def)
  then show ?thesis using ring.recent_holds [OF holds, of n] ring.latest [OF holds, of d] by simp
qed

text \<open>
  The aggregated view loses nothing. Its rows are one per kind of decision in the log, each with
  the number of such decisions and the times of the first and the last of them, and the row seen most
  recently comes first.
\<close>

theorem aggregated_correct:
  "distinct (map aggregate_key (aggregated ds)) \<and>
   aggregate_key ` set (aggregated ds) = decision_key ` set ds \<and>
   list_all (row_of ds) (aggregated ds) \<and>
   sorted_wrt (\<lambda>a b. ag_last b \<le> ag_last a) (aggregated ds)"
proof -
  define out where "out = foldl (\<lambda>out d. count_in d out) [] ds"
  have agg: "aggregated ds = sort_key (\<lambda>a. (- ag_last a, ag_host a)) out"
    by (simp add: aggregated_def out_def)
  then have set_eq: "set (aggregated ds) = set out" by simp
  have "distinct (map aggregate_key (aggregated ds)) = distinct (map aggregate_key out)"
    by (simp add: distinct_map agg)
  moreover have "sorted (map (\<lambda>a. (- ag_last a, ag_host a)) (aggregated ds))" by (simp add: agg)
  then have "sorted_wrt (\<lambda>a b. ag_last b \<le> ag_last a) (aggregated ds)"
    by (auto simp: sorted_map less_eq_prod_def elim!: sorted_wrt_mono_rel [rotated])
  ultimately show ?thesis using counted [of ds] set_eq by (auto simp: out_def list_all_iff)
qed

text \<open>
  One damaged line hides the rest of the log. Reading stops at the first value that does not
  decode, so what follows it is not read, although the documentation says such lines are skipped.
\<close>

theorem read_stops_at_damage: "read_decisions (map Some ds @ None # rest) n = keep_last n ds"
proof -
  have "decode_all (map Some ds @ None # rest) = ds" by (induction ds) auto
  then show ?thesis by (simp add: read_decisions_def)
qed

end
