(* ===== verification/Enforce_Reload.thy ===== *)
theory Enforce_Reload
  imports Policy_Resolve Policy_Log
begin

section \<open>Reloading the policy of a running sandbox: \<open>internal/enforce/enforce.go\<close>\<close>

text \<open>
  A supervisor re-reads the policy store when asked to, resolves the request its sandbox was started
  with again, and merges the result into the policy of its engine: the denies and the default of the
  running policy stay, the allows are replaced. The theory models \<open>Session.reloadPolicy\<close> with its
  error paths, and shows what any number of reloads can and cannot do to a running sandbox.
\<close>

subsection \<open>The session\<close>

record session =
  ss_engine :: "engine option"
  ss_resolution :: "resolution option"
  ss_sandbox :: string

datatype reload_error =
    Nothing_to_reload | Reload_store store_error | Reload_resolve resolve_error | Reload_compile resolve_error

definition is_deny :: "rule \<Rightarrow> bool" where
  "is_deny r \<longleftrightarrow> rl_action r = Deny"

text \<open>The function given to \<open>Engine.Update\<close>, and what it counts on the way.\<close>

definition merge_policy :: "policy \<Rightarrow> policy \<Rightarrow> policy" where
  "merge_policy new old =
     new\<lparr>pol_default := (if pol_default new \<noteq> pol_default old then pol_default old else pol_default new),
         pol_rules := filter is_deny (pol_rules old) @ filter (\<lambda>r. \<not> is_deny r) (pol_rules new)\<rparr>"

definition new_denies :: "policy \<Rightarrow> policy \<Rightarrow> nat" where
  "new_denies new old =
     length (filter (\<lambda>r. is_deny r \<and> rule_spec r \<notin> set (map rule_spec (filter is_deny (pol_rules old)))) (pol_rules new))"

definition reload_warning :: "string \<Rightarrow> nat \<Rightarrow> string" where
  "reload_warning sandbox n =
     (if 0 < n then ''policy reload for '' @ sandbox @ '': '' @ itoa (int n)
        @ '' new deny rule(s) will not take effect until the sandbox is restarted''
      else [])"

text \<open>The argument is what loading the store gave.\<close>

definition reload_policy :: "store_error + store \<Rightarrow> session \<Rightarrow> (reload_error + string) \<times> session" where
  "reload_policy loaded s =
     (case (ss_engine s, ss_resolution s) of
        (Some e, Some res) \<Rightarrow>
          (case loaded of
             Inl err \<Rightarrow> (Inl (Reload_store err), s)
           | Inr st \<Rightarrow>
               (case resolve (to_request res (Some st)) of
                  Inl err \<Rightarrow> (Inl (Reload_resolve err), s)
                | Inr new_res \<Rightarrow>
                    (case resolution_policy new_res of
                       Inl err \<Rightarrow> (Inl (Reload_compile err), s)
                     | Inr new \<Rightarrow>
                         (Inr (reload_warning (ss_sandbox s) (new_denies new (en_policy e))),
                          s\<lparr>ss_engine := Some (update_policy (merge_policy new) e)\<rparr>))))
      | _ \<Rightarrow> (Inl Nothing_to_reload, s))"

text \<open>A run of the supervisor, as far as reloads go: one store after another.\<close>

definition reloads :: "(store_error + store) list \<Rightarrow> session \<Rightarrow> session" where
  "reloads ls s = foldl (\<lambda>s l. snd (reload_policy l s)) s ls"

subsection \<open>Lemmas\<close>

lemma merge_policy_rules [simp]:
  "pol_rules (merge_policy new old) = filter is_deny (pol_rules old) @ filter (\<lambda>r. \<not> is_deny r) (pol_rules new)"
  "pol_default (merge_policy new old) = pol_default old" "pol_name (merge_policy new old) = pol_name new"
  by (simp_all add: merge_policy_def)

lemma covers_filter [simp]:
  "covers Deny (filter is_deny rs) t = covers Deny rs t" "\<not> covers Deny (filter (\<lambda>r. \<not> is_deny r) rs) t"
  "covers Allow (filter (\<lambda>r. \<not> is_deny r) rs) t = covers Allow rs t" "\<not> covers Allow (filter is_deny rs) t"
  by (auto simp: covers_iff is_deny_def)

lemma covers_append [simp]: "covers a (rs @ rs') t \<longleftrightarrow> covers a rs t \<or> covers a rs' t"
  by (auto simp: covers_iff)

lemma merge_policy_permits: "permits (merge_policy new old) t \<longleftrightarrow>
    \<not> covers Deny (pol_rules old) t \<and> (covers Allow (pol_rules new) t \<or> pol_default old = Allow)"
  by (auto simp: permits_def)

lemma merge_policy_idem: "merge_policy new (merge_policy new old) = merge_policy new old"
  by (simp add: merge_policy_def)

lemma new_denies_merge: "new_denies new (merge_policy new old) = new_denies new old"
  by (simp add: new_denies_def)

lemma new_denies_0: "new_denies new old = 0 \<longleftrightarrow>
    rule_spec ` set (filter is_deny (pol_rules new)) \<subseteq> rule_spec ` set (filter is_deny (pol_rules old))"
  by (auto simp: new_denies_def filter_empty_conv)

lemma reload_Inr:
  assumes "reload_policy l s = (Inr w, s')"
  obtains e res st new_res new where "ss_engine s = Some e" "ss_resolution s = Some res" "l = Inr st"
    "resolve (to_request res (Some st)) = Inr new_res" "resolution_policy new_res = Inr new"
    "s' = s\<lparr>ss_engine := Some (update_policy (merge_policy new) e)\<rparr>"
    "w = reload_warning (ss_sandbox s) (new_denies new (en_policy e))"
  using assms by (auto simp: reload_policy_def split: option.splits sum.splits)

lemma reload_Inl: "reload_policy l s = (Inl err, s') \<Longrightarrow> s' = s"
  by (auto simp: reload_policy_def split: option.splits sum.splits)

text \<open>What no reload changes: the denies, the default, the log and the sandbox's name.\<close>

definition same_boundary :: "engine \<Rightarrow> engine \<Rightarrow> bool" where
  "same_boundary e e' \<longleftrightarrow> filter is_deny (pol_rules (en_policy e')) = filter is_deny (pol_rules (en_policy e)) \<and>
     pol_default (en_policy e') = pol_default (en_policy e) \<and> en_log e' = en_log e \<and> en_sandbox e' = en_sandbox e"

lemma same_boundary_trans: "same_boundary a b \<Longrightarrow> same_boundary b c \<Longrightarrow> same_boundary a c"
  by (simp add: same_boundary_def)

lemma same_boundary_merge: "same_boundary e (update_policy (merge_policy new) e)"
  by (simp add: same_boundary_def update_policy_def)

lemma reload_boundary:
  assumes "ss_engine s = Some e"
  obtains e' where "ss_engine (snd (reload_policy l s)) = Some e'" "same_boundary e e'"
proof (cases "reload_policy l s")
  case (Pair r s')
  show thesis
  proof (cases r)
    case (Inl err)
    with Pair reload_Inl have "s' = s" by blast
    with Pair assms that show thesis by (simp add: same_boundary_def)
  next
    case (Inr w)
    with Pair have "reload_policy l s = (Inr w, s')" by simp
    then show thesis by (rule reload_Inr) (use assms Pair that same_boundary_merge in auto)
  qed
qed

lemma reloads_boundary:
  assumes "ss_engine s = Some e"
  obtains e' where "ss_engine (reloads ls s) = Some e'" "same_boundary e e'"
  using assms
proof (induction ls arbitrary: s e thesis)
  case Nil
  then show ?case by (simp add: reloads_def same_boundary_def)
next
  case (Cons l ls)
  obtain e1 where e1: "ss_engine (snd (reload_policy l s)) = Some e1" "same_boundary e e1"
    using reload_boundary [OF Cons.prems(2)] by blast
  obtain e' where "ss_engine (reloads ls (snd (reload_policy l s))) = Some e'" "same_boundary e1 e'"
    using Cons.IH [OF _ e1(1)] by blast
  with e1(2) Cons.prems(1) same_boundary_trans show ?case by (simp add: reloads_def)
qed

lemma covers_Deny_filter: "filter is_deny rs = filter is_deny rs' \<Longrightarrow> covers Deny rs t = covers Deny rs' t"
  by (metis covers_filter(1))

lemma same_boundary_deny: "same_boundary e e' \<Longrightarrow>
    covers Deny (pol_rules (en_policy e')) t = covers Deny (pol_rules (en_policy e)) t"
  unfolding same_boundary_def using covers_Deny_filter by blast

lemma first_rule_Deny_filter: "first_rule Deny t (filter is_deny rs) = first_rule Deny t rs"
  by (induction rs) (auto simp: is_deny_def)

lemma same_boundary_verdict:
  assumes "same_boundary e e'"
  shows "evaluate_deny (en_policy e') t = evaluate_deny (en_policy e) t"
proof -
  have "first_rule Deny t (pol_rules (en_policy e')) = first_rule Deny t (pol_rules (en_policy e))"
    using assms first_rule_Deny_filter unfolding same_boundary_def by metis
  then show ?thesis by (simp add: evaluate_deny_def)
qed

subsection \<open>Examples\<close>

definition spec_of :: "action \<Rightarrow> string \<Rightarrow> Policy_Store.rule_spec" where
  "spec_of a text0 = \<lparr>rs_action = a, rs_spec = text0, rs_note = [], rs_scope = []\<rparr>"

text \<open>A store with these rules for every sandbox, and the request of a run that has read it.\<close>

definition store_with :: "Policy_Store.rule_spec list \<Rightarrow> store" where
  "store_with rs = (new_store [])\<lparr>st_global := rs\<rparr>"

definition request_with :: "string \<Rightarrow> Policy_Store.rule_spec list \<Rightarrow> Policy_Store.rule_spec list \<Rightarrow> request" where
  "request_with p rs kit = (request_ex p [] [] [])\<lparr>rq_store := Some (store_with rs),
     rq_kit := (if kit = [] then [] else ''k''), rq_kit_allow := kit\<rparr>"

definition session_of :: "resolution \<Rightarrow> policy \<Rightarrow> session" where
  "session_of res p = \<lparr>ss_engine = Some (new_engine p None), ss_resolution = Some res, ss_sandbox = ''s''\<rparr>"

lemma request_with_simps [simp]:
  "rq_store (request_with p rs kit) = Some (store_with rs)" "rq_preset (request_with p rs kit) = p"
  "rq_profile (request_with p rs kit) = []" "rq_allow (request_with p rs kit) = []"
  "rq_deny (request_with p rs kit) = []" "rq_agent (request_with p rs kit) = []"
  "rq_agent_allow (request_with p rs kit) = []" "rq_kit_allow (request_with p rs kit) = kit"
  "rq_kit_deny (request_with p rs kit) = []" "rq_sandbox (request_with p rs kit) = []"
  "rq_kit (request_with p rs kit) = [] \<longleftrightarrow> kit = []"
  by (simp_all add: request_with_def request_ex_def)

lemma request_with_base: "p \<noteq> [] \<Longrightarrow> base_preset_name (request_with p rs kit) = p"
  by (simp add: base_preset_name_def)

lemma request_with_ok:
  assumes "rules_ok rs" "rules_ok kit" "p \<noteq> []" "preset_known p" "preset_known ''standard''"
  shows "request_ok (request_with p rs kit)"
  using assms by (simp add: request_ok_def request_with_base store_ok_iff)
    (simp add: store_with_def new_store_def store_version_def rules_ok_def list_all_iff validate_sandbox_None)

text \<open>The presets of the examples, and a target neither of them has a rule for.\<close>

definition quiet :: "string \<Rightarrow> bool" where
  "quiet p \<longleftrightarrow> p = ''locked'' \<or> p = ''standard''"

definition target_ex :: target where
  "target_ex = \<lparr>t_host = ''b.com'', t_addr = Addr_none, t_port = 80\<rparr>"

lemma quiet_preset:
  assumes "quiet p"
  obtains b where "preset p = Some (Inr b)" "pol_name b = p" "pol_default b = Deny" "\<And>a. \<not> covers a (pol_rules b) target_ex"
proof -
  have "\<not> rule_match (host_rule Allow h https_only why) target_ex" for h why
    by (simp add: host_rule_match target_ex_def https_only_def ports_match_iff)
  then have "\<not> covers a (map (\<lambda>(h, why). host_rule Allow h https_only why) standard_hosts) target_ex" for a
    by (auto simp: covers_iff)
  then show thesis
    using assms that by (auto simp: quiet_def preset_by_name locked_policy_def standard_policy_rules covers_iff)
qed

lemma request_with_run:
  assumes "quiet p" "rules_ok rs" "rules_ok kit"
  obtains res pol where "resolve (request_with p rs kit) = Inr res" "resolution_policy res = Inr pol" "pol_default pol = Deny"
    "\<And>a. covers a (pol_rules pol) target_ex \<longleftrightarrow>
       specs_cover a rs target_ex \<or> p \<noteq> ''locked'' \<and> specs_cover a kit target_ex"
    "\<And>st. resolve (to_request res st) = resolve ((request_with p [] [])\<lparr>rq_store := st\<rparr>)"
proof -
  have p: "p \<noteq> []" "preset_known p" "preset_known ''standard''"
    using assms(1) by (auto simp: quiet_def preset_known_def preset_by_name locked_policy_def standard_policy_rules)
  then obtain res pol where res: "resolve (request_with p rs kit) = Inr res" "resolution_policy res = Inr pol"
    using resolve_total request_with_ok [OF assms(2,3)] by blast
  obtain b where b: "preset p = Some (Inr b)" "pol_name b = p" "pol_default b = Deny" "\<And>a. \<not> covers a (pol_rules b) target_ex"
    using quiet_preset [OF assms(1)] by blast
  have "sources_cover a (request_with p rs kit) l target_ex \<longleftrightarrow> specs_cover a rs target_ex \<or> \<not> l \<and> specs_cover a kit target_ex" for a l
    by (auto simp: sources_cover_def sources_def set_covers_simps rules_at_def scope_rules_def global_scope_def store_with_def)
  moreover obtain b' where "preset (base_preset_name (request_with p rs kit)) = Some (Inr b')" "pol_default pol = pol_default b'"
    "\<And>a t. covers a (pol_rules pol) t \<longleftrightarrow>
       covers a (pol_rules b') t \<or> sources_cover a (request_with p rs kit) (pol_name b' = ''locked'') t"
    by (rule resolve_covers [OF res], rule that)
  ultimately have cov: "pol_default pol = Deny" "\<And>a. covers a (pol_rules pol) target_ex \<longleftrightarrow>
      specs_cover a rs target_ex \<or> p \<noteq> ''locked'' \<and> specs_cover a kit target_ex"
    using b p(1) by (simp_all add: request_with_base)
  have "request_base (request_with p rs kit) = Inr (b, p)"
    using b p(1) by (simp add: request_base_def preset_result_def)
  then have "resolve (to_request res st) = resolve ((request_with p [] [])\<lparr>rq_store := st\<rparr>)" for st
    using resolve_to_request [OF res(1)] b(2) by (simp add: request_with_def request_ex_def)
  with res cov show thesis using that by blast
qed

text \<open>What one reload does in such a run.\<close>

lemma reload_example:
  assumes "quiet p" "rules_ok rs" "rules_ok kit" "rules_ok rs'"
  shows "\<exists>res pol pol' w s' e'. resolve (request_with p rs kit) = Inr res \<and> resolution_policy res = Inr pol \<and>
    (\<exists>res'. resolve (request_with p rs' []) = Inr res' \<and> resolution_policy res' = Inr pol') \<and>
    reload_policy (Inr (store_with rs')) (session_of res pol) = (Inr w, s') \<and> ss_engine s' = Some e' \<and>
    (permits pol target_ex \<longleftrightarrow> \<not> (specs_cover Deny rs target_ex \<or> p \<noteq> ''locked'' \<and> specs_cover Deny kit target_ex) \<and>
       (specs_cover Allow rs target_ex \<or> p \<noteq> ''locked'' \<and> specs_cover Allow kit target_ex)) \<and>
    (permits pol' target_ex \<longleftrightarrow> \<not> specs_cover Deny rs' target_ex \<and> specs_cover Allow rs' target_ex) \<and>
    (permits (en_policy e') target_ex \<longleftrightarrow>
       \<not> (specs_cover Deny rs target_ex \<or> p \<noteq> ''locked'' \<and> specs_cover Deny kit target_ex) \<and> specs_cover Allow rs' target_ex)"
proof -
  obtain res pol where old: "resolve (request_with p rs kit) = Inr res" "resolution_policy res = Inr pol" "pol_default pol = Deny"
    "\<And>a. covers a (pol_rules pol) target_ex \<longleftrightarrow>
       specs_cover a rs target_ex \<or> p \<noteq> ''locked'' \<and> specs_cover a kit target_ex"
    "\<And>st. resolve (to_request res st) = resolve ((request_with p [] [])\<lparr>rq_store := st\<rparr>)"
    by (rule request_with_run [OF assms(1-3)], rule that)
  have nil: "rules_ok []" by (simp add: rules_ok_def)
  obtain res' pol' where new: "resolve (request_with p rs' []) = Inr res'" "resolution_policy res' = Inr pol'" "pol_default pol' = Deny"
    "\<And>a. covers a (pol_rules pol') target_ex \<longleftrightarrow> specs_cover a rs' target_ex \<or> p \<noteq> ''locked'' \<and> specs_cover a [] target_ex"
    by (rule request_with_run [OF assms(1,4) nil], rule that)
  have "(request_with p [] [])\<lparr>rq_store := Some (store_with rs')\<rparr> = request_with p rs' []"
    by (simp add: request_with_def)
  then have "resolve (to_request res (Some (store_with rs'))) = Inr res'" using old(5) new(1) by simp
  then obtain w s' where "reload_policy (Inr (store_with rs')) (session_of res pol) = (Inr w, s')"
    "ss_engine s' = Some (update_policy (merge_policy pol') (new_engine pol None))"
    using new(2) by (auto simp: reload_policy_def session_of_def)
  moreover have "en_policy (update_policy (merge_policy pol') (new_engine pol None)) = merge_policy pol' pol"
    by (simp add: update_policy_def new_engine_def)
  ultimately show ?thesis
    using old new
    by (intro exI [of _ res] exI [of _ pol] exI [of _ pol'] exI [of _ w] exI [of _ s']
        exI [of _ "update_policy (merge_policy pol') (new_engine pol None)"])
      (simp add: permits_def [of pol] permits_def [of pol'] merge_policy_permits)
qed

text \<open>The policy such a run is reloaded to.\<close>

lemma reload_of_example:
  assumes "quiet p" "rules_ok rs" "rules_ok kit" "rules_ok rs'" "resolve (request_with p rs kit) = Inr res"
  obtains res' pol' where "resolve (to_request res (Some (store_with rs'))) = Inr res'" "resolution_policy res' = Inr pol'"
    "permits pol' target_ex \<longleftrightarrow> \<not> specs_cover Deny rs' target_ex \<and> specs_cover Allow rs' target_ex"
proof -
  have nil: "rules_ok []" by (simp add: rules_ok_def)
  have "(request_with p [] [])\<lparr>rq_store := Some (store_with rs')\<rparr> = request_with p rs' []"
    by (simp add: request_with_def)
  moreover obtain r where "resolve (request_with p rs kit) = Inr r"
    "\<And>st. resolve (to_request r st) = resolve ((request_with p [] [])\<lparr>rq_store := st\<rparr>)"
    by (rule request_with_run [OF assms(1-3)], rule that)
  ultimately have "resolve (to_request res (Some (store_with rs'))) = resolve (request_with p rs' [])"
    using assms(5) by simp
  moreover obtain res' pol' where "resolve (request_with p rs' []) = Inr res'" "resolution_policy res' = Inr pol'"
    "pol_default pol' = Deny"
    "\<And>a. covers a (pol_rules pol') target_ex \<longleftrightarrow> specs_cover a rs' target_ex \<or> p \<noteq> ''locked'' \<and> specs_cover a [] target_ex"
    by (rule request_with_run [OF assms(1,4) nil], rule that)
  ultimately show thesis using that by (simp add: permits_def)
qed

lemmas reload_rules_ok = rules_ok_def spec_of_def

subsection \<open>Properties\<close>

text \<open>
  What a reload puts in force. When it succeeds, a target is allowed exactly when none of the
  denies in force before covers it and an allow of the newly resolved policy does, or the default in
  force before allows; the check of resolved addresses is as it was; nothing is said exactly when the
  new policy has no deny that was not already in force; and a second reload of the same store changes
  nothing and says the same.
\<close>

theorem reload_spec:
  assumes "reload_policy (Inr st) s = (Inr w, s')"
  shows "\<exists>e e' res new. ss_engine s = Some e \<and> ss_engine s' = Some e' \<and>
    resolve (to_request (the (ss_resolution s)) (Some st)) = Inr res \<and> resolution_policy res = Inr new \<and>
    (\<forall>t. v_allowed (evaluate (en_policy e') t) \<longleftrightarrow>
       (\<forall>r\<in>set (pol_rules (en_policy e)). rule_match r t \<longrightarrow> rl_action r \<noteq> Deny) \<and>
       ((\<exists>r\<in>set (pol_rules new). rule_match r t \<and> rl_action r = Allow) \<or> pol_default (en_policy e) = Allow)) \<and>
    (\<forall>t. v_allowed (evaluate_deny (en_policy e') t) = v_allowed (evaluate_deny (en_policy e) t)) \<and>
    (w = [] \<longleftrightarrow> rule_spec ` set (filter is_deny (pol_rules new)) \<subseteq> rule_spec ` set (filter is_deny (pol_rules (en_policy e)))) \<and>
    reload_policy (Inr st) s' = (Inr w, s')"
  using assms
proof (rule reload_Inr)
  fix e res st' new_res new
  assume *: "ss_engine s = Some e" "ss_resolution s = Some res" "Inr st = Inr st'"
    "resolve (to_request res (Some st')) = Inr new_res" "resolution_policy new_res = Inr new"
    "s' = s\<lparr>ss_engine := Some (update_policy (merge_policy new) e)\<rparr>"
    "w = reload_warning (ss_sandbox s) (new_denies new (en_policy e))"
  have "w = [] \<longleftrightarrow> new_denies new (en_policy e) = 0" by (simp add: * reload_warning_def)
  moreover have "reload_policy (Inr st) s' = (Inr w, s')"
    using * by (simp add: reload_policy_def update_policy_def merge_policy_idem new_denies_merge)
  moreover have "v_allowed (evaluate (merge_policy new (en_policy e)) t) \<longleftrightarrow>
      \<not> covers Deny (pol_rules (en_policy e)) t \<and> (covers Allow (pol_rules new) t \<or> pol_default (en_policy e) = Allow)" for t
    by (simp add: evaluate_allowed merge_policy_permits)
  moreover have "v_allowed (evaluate_deny (merge_policy new (en_policy e)) t) = v_allowed (evaluate_deny (en_policy e) t)" for t
    by (simp add: evaluate_deny_allowed)
  ultimately show ?thesis
    using * by (auto simp: covers_iff update_policy_def new_denies_0)
qed

theorem reload_spec_witness:
  "\<exists>s st w s' e. reload_policy (Inr st) s = (Inr w, s') \<and> reload_policy (Inr st) s' = (Inr w, s') \<and> ss_engine s' = Some e"
proof -
  have "rules_ok []" "quiet ''locked''" by (simp_all add: rules_ok_def quiet_def)
  from reload_example [OF this(2,1,1,1)] obtain res pol w s' e where r: "reload_policy (Inr (store_with [])) (session_of res pol) = (Inr w, s')"
    and "ss_engine s' = Some e"
    by blast
  moreover from reload_spec [OF r] have "reload_policy (Inr (store_with [])) s' = (Inr w, s')" by blast
  ultimately show ?thesis by blast
qed

text \<open>
  C8: no reload lifts a deny. Through any number of reloads, successful or not and whatever the store
  holds, the deny rules in force are those the sandbox started with: the check of resolved addresses
  gives the verdict it gave at the start, down to the rule it names, and a target it denies is denied
  by the whole policy too. The default action, the log and the sandbox's name stay in any case.
\<close>

theorem reload_never_lifts_deny:
  assumes "ss_engine s = Some e"
  shows "\<exists>e'. ss_engine (reloads ls s) = Some e' \<and>
    (\<forall>t. evaluate_deny (en_policy e') t = evaluate_deny (en_policy e) t \<and>
         (\<not> v_allowed (evaluate_deny (en_policy e) t) \<longrightarrow> \<not> v_allowed (evaluate (en_policy e') t))) \<and>
    pol_default (en_policy e') = pol_default (en_policy e) \<and> en_log e' = en_log e \<and> en_sandbox e' = en_sandbox e"
proof -
  obtain e' where e': "ss_engine (reloads ls s) = Some e'" "same_boundary e e'"
    using reloads_boundary [OF assms] by blast
  have "evaluate_deny (en_policy e') t = evaluate_deny (en_policy e) t \<and>
      (\<not> v_allowed (evaluate_deny (en_policy e) t) \<longrightarrow> \<not> v_allowed (evaluate (en_policy e') t))" for t
    using e'(2) same_boundary_deny [OF e'(2), of t] same_boundary_verdict [OF e'(2), of t]
    by (simp add: evaluate_allowed evaluate_deny_allowed permits_def)
  with e' show ?thesis by (auto simp: same_boundary_def)
qed

text \<open>
  In the witness the sandbox starts with a deny of port 80 of a host, and the store it is reloaded from
  no longer has that deny and allows the host.
\<close>

theorem reload_never_lifts_deny_witness:
  "\<exists>res pol st w s' e new. reload_policy (Inr st) (session_of res pol) = (Inr w, s') \<and>
     v_allowed (evaluate new target_ex) \<and> (\<exists>res'. resolve (to_request res (Some st)) = Inr res' \<and> resolution_policy res' = Inr new) \<and>
     ss_engine (reloads [Inr st] (session_of res pol)) = Some e \<and>
     \<not> v_allowed (evaluate_deny (en_policy e) target_ex) \<and> \<not> v_allowed (evaluate (en_policy e) target_ex)"
proof -
  let ?rs = "[spec_of Deny ''b.com:80'']" and ?rs' = "[spec_of Allow ''b.com'']"
  have ok: "quiet ''locked''" "rules_ok []" "rules_ok ?rs" "rules_ok ?rs'" by (simp add: quiet_def, code_simp+)
  have cov: "specs_cover Deny ?rs target_ex" "specs_cover Allow ?rs' target_ex" "\<not> specs_cover Deny ?rs' target_ex"
    by code_simp+
  obtain res pol where 1: "resolve (request_with ''locked'' ?rs []) = Inr res" "resolution_policy res = Inr pol"
    "covers Deny (pol_rules pol) target_ex"
    by (rule request_with_run [OF ok(1,3,2)]) (use cov in blast)
  obtain res2 pol2 pol' w s' e where 2: "resolve (request_with ''locked'' ?rs []) = Inr res2"
    "resolution_policy res2 = Inr pol2"
    "reload_policy (Inr (store_with ?rs')) (session_of res2 pol2) = (Inr w, s')" "ss_engine s' = Some e"
    using reload_example [OF ok(1,3,2,4)] by blast
  have same: "res2 = res" "pol2 = pol" using 1 2 by auto
  let ?s = "session_of res pol"
  have s: "ss_engine ?s = Some (new_engine pol None)" "en_policy (new_engine pol None) = pol"
    by (simp_all add: session_of_def new_engine_def)
  have d: "\<not> v_allowed (evaluate_deny pol target_ex)" using 1(3) by (simp add: evaluate_deny_allowed)
  obtain e' where e': "ss_engine (reloads [Inr (store_with ?rs')] ?s) = Some e'"
    "\<not> v_allowed (evaluate_deny (en_policy e') target_ex)" "\<not> v_allowed (evaluate (en_policy e') target_ex)"
    using reload_never_lifts_deny [OF s(1), of "[Inr (store_with ?rs')]"] d s(2) by auto
  have "reload_policy (Inr (store_with ?rs')) ?s = (Inr w, s')" using 2(3) same by simp
  moreover obtain res' new where "resolve (to_request res (Some (store_with ?rs'))) = Inr res'"
    "resolution_policy res' = Inr new" "v_allowed (evaluate new target_ex)"
    using reload_of_example [OF ok(1,3,2,4) 1(1)] cov(2,3) by (auto simp: evaluate_allowed)
  ultimately show ?thesis using e' by blast
qed

text \<open>
  A reload can allow what neither policy allows. There are rules which, written to the store
  of a running sandbox, leave a destination denied by the policy the sandbox started with and denied by
  the policy the store now describes, and allowed by the one in force after the reload: the new allow
  takes effect without the new deny that narrows it.
\<close>

theorem reload_wider_than_both:
  "\<exists>st req res old new w s' e t. resolve req = Inr res \<and> resolution_policy res = Inr old \<and>
     reload_policy (Inr st) (session_of res old) = (Inr w, s') \<and> ss_engine s' = Some e \<and>
     (\<exists>res'. resolve (req\<lparr>rq_store := Some st\<rparr>) = Inr res' \<and> resolution_policy res' = Inr new) \<and>
     \<not> v_allowed (evaluate old t) \<and> \<not> v_allowed (evaluate new t) \<and> v_allowed (evaluate (en_policy e) t)"
proof -
  let ?rs = "[spec_of Allow ''b.com'', spec_of Deny ''b.com:80'']"
  have ok: "quiet ''locked''" "rules_ok []" "rules_ok ?rs" by (simp add: quiet_def, code_simp, code_simp)
  have cov: "specs_cover Allow ?rs target_ex" "specs_cover Deny ?rs target_ex" by code_simp+
  have eq: "(request_with ''locked'' [] [])\<lparr>rq_store := Some (store_with ?rs)\<rparr> = request_with ''locked'' ?rs []"
    by (simp add: request_with_def)
  obtain res pol pol' w s' e' where r: "resolve (request_with ''locked'' [] []) = Inr res" "resolution_policy res = Inr pol"
    "\<exists>res'. resolve (request_with ''locked'' ?rs []) = Inr res' \<and> resolution_policy res' = Inr pol'"
    "reload_policy (Inr (store_with ?rs)) (session_of res pol) = (Inr w, s')" "ss_engine s' = Some e'"
    and "\<not> permits pol target_ex" "\<not> permits pol' target_ex" "permits (en_policy e') target_ex"
    using reload_example [OF ok(1,2,2,3)] cov by (simp only: specs_cover_simps simp_thms) blast
  then have "\<not> v_allowed (evaluate pol target_ex)" "\<not> v_allowed (evaluate pol' target_ex)"
    "v_allowed (evaluate (en_policy e') target_ex)"
    by (simp_all add: evaluate_allowed)
  with r eq show ?thesis
    by (intro exI [of _ "store_with ?rs"] exI [of _ "request_with ''locked'' [] []"] exI [of _ res] exI [of _ pol]
        exI [of _ pol'] exI [of _ w] exI [of _ s'] exI [of _ e'] exI [of _ target_ex]) simp
qed

text \<open>
  A reload takes a kit's destinations away. The reconstruction does not carry the kit, so a
  destination a sandbox reaches because its kit allows it is denied after a reload of the very store
  the sandbox was started with.
\<close>

theorem reload_loses_kit:
  "\<exists>st req res old w s' e t. resolve req = Inr res \<and> resolution_policy res = Inr old \<and> rq_store req = Some st \<and>
     reload_policy (Inr st) (session_of res old) = (Inr w, s') \<and> ss_engine s' = Some e \<and>
     v_allowed (evaluate old t) \<and> \<not> v_allowed (evaluate (en_policy e) t)"
proof -
  let ?kit = "[spec_of Allow ''b.com'']"
  have ok: "quiet ''standard''" "rules_ok []" "rules_ok ?kit" by (simp add: quiet_def, code_simp, code_simp)
  have cov: "specs_cover Allow ?kit target_ex" "\<not> specs_cover Deny ?kit target_ex" by code_simp+
  obtain res pol w s' e' where r: "resolve (request_with ''standard'' [] ?kit) = Inr res" "resolution_policy res = Inr pol"
    "reload_policy (Inr (store_with [])) (session_of res pol) = (Inr w, s')" "ss_engine s' = Some e'"
    and "permits pol target_ex" "\<not> permits (en_policy e') target_ex"
    using reload_example [OF ok(1,2,3,2)] cov by (simp only: specs_cover_simps simp_thms) blast
  then have "v_allowed (evaluate pol target_ex)" "\<not> v_allowed (evaluate (en_policy e') target_ex)"
    by (simp_all add: evaluate_allowed)
  with r show ?thesis
    by (intro exI [of _ "store_with []"] exI [of _ "request_with ''standard'' [] ?kit"] exI [of _ res] exI [of _ pol]
        exI [of _ w] exI [of _ s'] exI [of _ e'] exI [of _ target_ex]) simp
qed

subsection \<open>Well-formed rules\<close>

lemma compiled_rules_ok: "compile_rules rs = Inr rules \<Longrightarrow> list_all rule_ok rules"
  by (induction rs arbitrary: rules) (auto simp: spec_rule_rule_ok split: sum.splits)

lemma resolution_policy_rules_ok: "resolution_policy res = Inr p \<Longrightarrow> list_all rule_ok (pol_rules p)"
  by (auto simp: resolution_policy_def compiled_rules_ok split: sum.splits)

lemma merge_rules_ok:
  "list_all rule_ok (pol_rules new) \<Longrightarrow> list_all rule_ok (pol_rules old) \<Longrightarrow> list_all rule_ok (pol_rules (merge_policy new old))"
  by (auto simp: merge_policy_def list_all_iff)

lemma reload_keeps_rules_ok:
  assumes "ss_engine s = Some e" "list_all rule_ok (pol_rules (en_policy e))"
  obtains e' where "ss_engine (snd (reload_policy l s)) = Some e'" "list_all rule_ok (pol_rules (en_policy e'))"
proof (cases "reload_policy l s")
  case (Pair r s')
  show thesis
  proof (cases r)
    case (Inl err)
    with Pair reload_Inl have "s' = s" by blast
    with Pair assms that show thesis by simp
  next
    case (Inr w)
    with Pair have "reload_policy l s = (Inr w, s')" by simp
    then show thesis
    proof (rule reload_Inr)
      fix e1 res st new_res new
      assume r: "ss_engine s = Some e1" "resolution_policy new_res = Inr new" "s' = s\<lparr>ss_engine := Some (update_policy (merge_policy new) e1)\<rparr>"
      have "list_all rule_ok (pol_rules (merge_policy new (en_policy e)))"
        using assms(2) resolution_policy_rules_ok [OF r(2)] by (intro merge_rules_ok)
      then show thesis using that [of "update_policy (merge_policy new) e"] r(1,3) assms(1) Pair by (simp add: update_policy_def)
    qed
  qed
qed

lemma reloads_rules_ok:
  assumes "ss_engine s = Some e" "list_all rule_ok (pol_rules (en_policy e))"
  obtains e' where "ss_engine (reloads ls s) = Some e'" "list_all rule_ok (pol_rules (en_policy e'))"
  using assms
proof (induction ls arbitrary: s e thesis)
  case Nil
  then show ?case by (simp add: reloads_def)
next
  case (Cons l ls)
  obtain e1 where e1: "ss_engine (snd (reload_policy l s)) = Some e1" "list_all rule_ok (pol_rules (en_policy e1))"
    using reload_keeps_rules_ok [OF Cons.prems(2,3)] by blast
  from Cons.IH [OF _ e1] Cons.prems(1) show ?case by (auto simp: reloads_def)
qed

text \<open>
  C26: the rules in force are well formed. A session that starts with a compiled resolution holds, through any
  number of reloads, only rules whose pattern and ports satisfy the invariant of the parsers, and each is the rule
  its own text parses to.
\<close>

theorem rules_in_force_well_formed:
  assumes "resolution_policy res = Inr p" "ss_engine s = Some e" "en_policy e = p"
  shows "\<exists>e'. ss_engine (reloads ls s) = Some e' \<and>
    list_all (\<lambda>r. rule_ok r \<and> parse_rule (rl_action r) (rule_spec r) = Inr (r\<lparr>rl_why := [], rl_scope := []\<rparr>)) (pol_rules (en_policy e'))"
proof -
  have "list_all rule_ok (pol_rules (en_policy e))" using resolution_policy_rules_ok [OF assms(1)] assms(3) by simp
  then obtain e' where e: "ss_engine (reloads ls s) = Some e'" "list_all rule_ok (pol_rules (en_policy e'))"
    using reloads_rules_ok [OF assms(2)] by blast
  have "parse_rule (rl_action r) (rule_spec r) = Inr (r\<lparr>rl_why := [], rl_scope := []\<rparr>)" if "rule_ok r" for r
    using parse_rule_spec [OF that] by simp
  with e show ?thesis by (auto simp: list_all_iff)
qed

theorem rules_in_force_well_formed_witness:
  "\<exists>res p e'. resolution_policy res = Inr p \<and> ss_engine (reloads [Inl Store_malformed] (session_of res p)) = Some e' \<and>
     list_all rule_ok (pol_rules (en_policy e'))"
proof -
  obtain res p where r: "resolution_policy res = Inr p" by (rule locked_request)
  have s: "ss_engine (session_of res p) = Some (new_engine p None)" "en_policy (new_engine p None) = p"
    by (simp_all add: session_of_def new_engine_def)
  obtain e' where "ss_engine (reloads [Inl Store_malformed] (session_of res p)) = Some e'"
      "list_all (\<lambda>r. rule_ok r \<and> parse_rule (rl_action r) (rule_spec r) = Inr (r\<lparr>rl_why := [], rl_scope := []\<rparr>)) (pol_rules (en_policy e'))"
    using rules_in_force_well_formed [OF r s] by blast
  then show ?thesis using r by (auto simp: list_all_iff)
qed

end
