(* ===== verification/Ports_Spec.thy ===== *)
theory Ports_Spec
  imports Netip
begin

section \<open>Port specifications: \<open>internal/ports/spec.go\<close>\<close>

text \<open>
  What a user asks for when publishing a port: the grammar in both directions, the addresses a
  request binds on the host, and when a published binding is the one a request names. What matters
  is that a specification without an address binds loopback and nothing else.
\<close>

subsection \<open>Protocols\<close>

datatype protocol = TCP | TCP4 | TCP6 | UDP | UDP4 | UDP6

fun protocol_string :: "protocol \<Rightarrow> string" where
  "protocol_string TCP = ''tcp''" | "protocol_string TCP4 = ''tcp4''" | "protocol_string TCP6 = ''tcp6''"
| "protocol_string UDP = ''udp''" | "protocol_string UDP4 = ''udp4''" | "protocol_string UDP6 = ''udp6''"

definition protocols :: "protocol list" where
  "protocols = [TCP, TCP4, TCP6, UDP, UDP4, UDP6]"

definition is_udp :: "protocol \<Rightarrow> bool" where
  "is_udp p \<longleftrightarrow> p = UDP \<or> p = UDP4 \<or> p = UDP6"

definition family :: "protocol \<Rightarrow> nat" where
  "family p = (if p = TCP4 \<or> p = UDP4 then 4 else if p = TCP6 \<or> p = UDP6 then 6 else 0)"

definition parse_protocol :: "string \<Rightarrow> protocol option" where
  "parse_protocol s = List.find (\<lambda>p. protocol_string p = to_lower s) protocols"

subsection \<open>Specifications\<close>

record port_spec =
  ps_host_ip :: addr
  ps_host_port :: int
  ps_sandbox_port :: int
  ps_protocol :: protocol

datatype spec_error =
    Empty_spec | Unknown_protocol string | Host_not_closed | Bad_host_address string | Host_needs_port
  | Port_not_a_number string | Port_outside int | Too_many_fields | No_host_port | Wrong_family

definition split_host_ip :: "string \<Rightarrow> spec_error + addr \<times> string" where
  "split_host_ip text0 =
     (if prefix ''['' text0 then
        (case cut CHR '']'' text0 of (before, after, found) \<Rightarrow>
           if \<not> found then Inl Host_not_closed
           else (case parse_addr (tl before) of
               None \<Rightarrow> Inl (Bad_host_address (tl before))
             | Some a \<Rightarrow> Inr (unmap a, if prefix '':'' after then tl after else after)))
      else
        (case split_on CHR '':'' text0 of
           [h, hp, sp] \<Rightarrow>
             (case parse_addr h of
                None \<Rightarrow> Inl (Bad_host_address h)
              | Some a \<Rightarrow> Inr (unmap a, join_with '':'' [hp, sp]))
         | _ \<Rightarrow> Inr (Addr_none, text0)))"

definition parse_port_field :: "string \<Rightarrow> spec_error + int" where
  "parse_port_field s =
     (case atoi (trim_space s) of
        None \<Rightarrow> Inl (Port_not_a_number s)
      | Some n \<Rightarrow> if n < 1 \<or> 65535 < n then Inl (Port_outside n) else Inr n)"

definition check_family :: "port_spec \<Rightarrow> bool" where
  "check_family s =
     (if \<not> addr_valid (ps_host_ip s) then True
      else (let want = family (ps_protocol s); got = (if is6 (ps_host_ip s) then 6 else 4)
            in \<not> (want \<noteq> 0 \<and> want \<noteq> got)))"

text \<open>The two ports of the fields after the host address; an empty host port is 0.\<close>

definition parse_fields :: "bool \<Rightarrow> string list \<Rightarrow> spec_error + int \<times> int" where
  "parse_fields has_host fs =
     (if has_host \<and> length fs \<noteq> 2 then Inl Host_needs_port
      else (case fs of
          [sp] \<Rightarrow> (case parse_port_field sp of Inl e \<Rightarrow> Inl e | Inr n \<Rightarrow> Inr (0, n))
        | [hp, sp] \<Rightarrow>
            (case (if hp \<noteq> [] then parse_port_field hp else Inr 0) of
               Inl e \<Rightarrow> Inl e
             | Inr m \<Rightarrow> (case parse_port_field sp of Inl e \<Rightarrow> Inl e | Inr n \<Rightarrow> Inr (m, n)))
        | _ \<Rightarrow> Inl Too_many_fields))"

definition parse_port_spec :: "bool \<Rightarrow> string \<Rightarrow> spec_error + port_spec" where
  "parse_port_spec need_host_port s =
     (let text0 = trim_space s
      in if text0 = [] then Inl Empty_spec
         else (case (case rcut CHR ''/'' text0 of
                   None \<Rightarrow> Inr (text0, TCP)
                 | Some (body, proto) \<Rightarrow>
                     (case parse_protocol proto of
                        None \<Rightarrow> Inl (Unknown_protocol proto) | Some p \<Rightarrow> Inr (body, p))) of
             Inl e \<Rightarrow> Inl e
           | Inr (body, proto) \<Rightarrow>
               (case split_host_ip body of
                  Inl e \<Rightarrow> Inl e
                | Inr (host, rest) \<Rightarrow>
                    (case parse_fields (addr_valid host) (split_on CHR '':'' rest) of
                       Inl e \<Rightarrow> Inl e
                     | Inr (hp, sp) \<Rightarrow>
                         (let spec = \<lparr>ps_host_ip = host, ps_host_port = hp, ps_sandbox_port = sp, ps_protocol = proto\<rparr>
                          in if need_host_port \<and> hp = 0 then Inl No_host_port
                             else if \<not> check_family spec then Inl Wrong_family
                             else Inr spec)))))"

definition parse_publish :: "string \<Rightarrow> spec_error + port_spec" where
  "parse_publish s = parse_port_spec False s"

definition parse_unpublish :: "string \<Rightarrow> spec_error + port_spec" where
  "parse_unpublish s = parse_port_spec True s"

definition port_spec_string :: "port_spec \<Rightarrow> string" where
  "port_spec_string s =
     (if addr_valid (ps_host_ip s) then
        (if is6 (ps_host_ip s) then ''['' @ addr_string (ps_host_ip s) @ '']:''
         else addr_string (ps_host_ip s) @ '':'') @
        (if 0 < ps_host_port s then itoa (ps_host_port s) else []) @ '':''
      else if 0 < ps_host_port s then itoa (ps_host_port s) @ '':'' else []) @
     itoa (ps_sandbox_port s) @ ''/'' @ protocol_string (ps_protocol s)"

subsection \<open>Bindings\<close>

definition loopback4 :: addr where "loopback4 = A4 0x7F000001"
definition loopback6 :: addr where "loopback6 = A6 1 []"

definition binds :: "port_spec \<Rightarrow> bool \<Rightarrow> addr list" where
  "binds s has_ipv6 =
     (if addr_valid (ps_host_ip s) then [ps_host_ip s]
      else if family (ps_protocol s) = 4 then [loopback4]
      else if family (ps_protocol s) = 6 then [loopback6]
      else if has_ipv6 then [loopback4, loopback6] else [loopback4])"

record published =
  pb_host_ip :: string
  pb_host_port :: int
  pb_sandbox_port :: int
  pb_protocol :: string
  pb_last_error :: string

definition published_string :: "published \<Rightarrow> string" where
  "published_string p =
     (let host = (case parse_addr (pb_host_ip p) of
            None \<Rightarrow> pb_host_ip p
          | Some a \<Rightarrow> if is6 a then ''['' @ pb_host_ip p @ '']'' else pb_host_ip p)
      in host @ '':'' @ itoa (pb_host_port p) @ ''->'' @ itoa (pb_sandbox_port p) @ ''/'' @ pb_protocol p)"

text \<open>\<open>IsUDP\<close> of a protocol that is held as text.\<close>

definition text_is_udp :: "string \<Rightarrow> bool" where
  "text_is_udp p \<longleftrightarrow> p = ''udp'' \<or> p = ''udp4'' \<or> p = ''udp6''"

definition same_transport :: "string \<Rightarrow> protocol \<Rightarrow> bool" where
  "same_transport a b \<longleftrightarrow> text_is_udp a = is_udp b"

definition pub_matches :: "published \<Rightarrow> port_spec \<Rightarrow> bool" where
  "pub_matches p s \<longleftrightarrow>
     pb_host_port p = ps_host_port s \<and> pb_sandbox_port p = ps_sandbox_port s \<and>
     same_transport (pb_protocol p) (ps_protocol s) \<and>
     (\<not> addr_valid (ps_host_ip s) \<or> addr_string (ps_host_ip s) = pb_host_ip p)"

subsection \<open>The invariant of a specification\<close>

definition port_spec_ok :: "port_spec \<Rightarrow> bool" where
  "port_spec_ok s \<longleftrightarrow>
     \<not> is4in6 (ps_host_ip s) \<and> CHR '']'' \<notin> set (addr_zone (ps_host_ip s)) \<and>
     0 \<le> ps_host_port s \<and> ps_host_port s \<le> 65535 \<and>
     1 \<le> ps_sandbox_port s \<and> ps_sandbox_port s \<le> 65535 \<and> check_family s"

lemma unmap_not_4in6: "\<not> is4in6 (unmap a)"
  by (auto simp: unmap_def is4in6_def split: addr.splits)

lemma parse_addr_zone: "parse_addr s = Some a \<Longrightarrow> set (addr_zone a) \<subseteq> set s"
proof -
  have "set (fst (snd (cut c s))) \<subseteq> set s" for c
    by (auto simp: cut_def dest: set_dropWhileD in_set_dropD)
  from this [of "CHR ''%''"] show "parse_addr s = Some a \<Longrightarrow> ?thesis"
    by (auto simp: parse_addr_def parse_v6_def addr_zone_def Let_def split: option.splits if_splits prod.splits)
qed

lemma unmap_zone: "set (addr_zone (unmap a)) \<subseteq> set (addr_zone a)"
  by (auto simp: unmap_def addr_zone_def split: addr.splits)

lemma parse_port_field_ok: "parse_port_field s = Inr n \<Longrightarrow> 1 \<le> n \<and> n \<le> 65535"
  by (auto simp: parse_port_field_def split: option.splits if_splits)

lemma parse_fields_ok: "parse_fields b fs = Inr (m, n) \<Longrightarrow> 0 \<le> m \<and> m \<le> 65535 \<and> 1 \<le> n \<and> n \<le> 65535"
  by (auto simp: parse_fields_def dest: parse_port_field_ok split: if_splits list.splits sum.splits)

lemma split_host_ip_ok: "split_host_ip t = Inr (a, rest) \<Longrightarrow> \<not> is4in6 a \<and> CHR '']'' \<notin> set (addr_zone a)"
proof -
  assume *: "split_host_ip t = Inr (a, rest)"
  show ?thesis
  proof (cases "prefix ''['' t")
    case True
    then obtain before after b where cut: "cut CHR '']'' t = (before, after, True)" "parse_addr (tl before) = Some b" "a = unmap b"
      using * by (auto simp: split_host_ip_def split: prod.splits if_splits option.splits)
    have "CHR '']'' \<notin> set before" using cut(1) by (auto simp: cut_def dest: set_takeWhileD)
    then have "CHR '']'' \<notin> set (tl before)" by (cases before) auto
    then show ?thesis
      using cut(2,3) parse_addr_zone [OF cut(2)] unmap_zone [of b] unmap_not_4in6 by blast
  next
    case False
    then consider "a = Addr_none" | h b where "h \<in> set (split_on CHR '':'' t)" "parse_addr h = Some b" "a = unmap b"
      using * by (fastforce simp: split_host_ip_def split: list.splits option.splits)
    then show ?thesis
    proof cases
      case 1
      then show ?thesis by (simp add: is4in6_def addr_zone_def)
    next
      case 2
      have "CHR '':'' \<notin> set h" by (rule split_on_notin [OF 2(1)])
      then have "is4 b"
      proof -
        have "find (\<lambda>c. c \<in> {CHR ''.'', CHR '':'', CHR ''%''}) h \<noteq> Some CHR '':''"
          using \<open>CHR '':'' \<notin> set h\<close> by (auto simp: find_Some_iff)
        then show ?thesis using 2(2) by (auto simp: parse_addr_def is4_def split: option.splits if_splits)
      qed
      then show ?thesis using 2(3) by (auto simp: is4_def unmap_def is4in6_def addr_zone_def split: addr.splits)
    qed
  qed
qed

lemma parse_port_spec_ok: "parse_port_spec b s = Inr spec \<Longrightarrow> port_spec_ok spec"
  by (auto simp: parse_port_spec_def port_spec_ok_def Let_def dest: split_host_ip_ok parse_fields_ok
      split: if_splits sum.splits prod.splits option.splits)

subsection \<open>Round trip\<close>

lemma parse_protocol_string [simp]: "parse_protocol (protocol_string p) = Some p"
proof -
  have "list_all (\<lambda>q. to_lower (protocol_string q) = protocol_string q) protocols" by code_simp
  moreover have "q \<in> set protocols" for q by (cases q) (simp_all add: protocols_def)
  ultimately have lower: "to_lower (protocol_string q) = protocol_string q" for q by (simp add: list_all_iff)
  show ?thesis
    using lower [of TCP] lower [of TCP4] lower [of TCP6] lower [of UDP] lower [of UDP4] lower [of UDP6]
    by (cases p) (auto simp: parse_protocol_def protocols_def)
qed

lemma protocol_string_text: "CHR ''/'' \<notin> set (protocol_string p)" "protocol_string p \<noteq> []"
  "graph (last (protocol_string p))"
  by (cases p; simp add: graph_def)+

lemma itoa_text: "0 \<le> n \<Longrightarrow> CHR '':'' \<notin> set (itoa n) \<and> CHR ''/'' \<notin> set (itoa n) \<and> CHR ''['' \<notin> set (itoa n)"
  using itoa_set [of n "CHR '':''"] itoa_set [of n "CHR ''/''"] itoa_set [of n "CHR ''[''"] by (auto simp: is_digit_def)

lemma parse_port_field_itoa: "1 \<le> n \<Longrightarrow> n \<le> 65535 \<Longrightarrow> parse_port_field (itoa n) = Inr n"
  by (simp add: parse_port_field_def itoa_nonneg trim_show_nat atoi_show_nat)

text \<open>What follows the host address, and what it parses to.\<close>

definition ports_text :: "port_spec \<Rightarrow> string" where
  "ports_text s =
     (if addr_valid (ps_host_ip s) then (if 0 < ps_host_port s then itoa (ps_host_port s) else []) @ '':''
      else if 0 < ps_host_port s then itoa (ps_host_port s) @ '':'' else []) @ itoa (ps_sandbox_port s)"

lemma split_two: "CHR '':'' \<notin> set a \<Longrightarrow> CHR '':'' \<notin> set b \<Longrightarrow> split_on CHR '':'' (a @ '':'' @ b) = [a, b]"
  by (simp add: split_on_append split_on_single)

lemma parse_ports_text:
  assumes "port_spec_ok s"
  shows "parse_fields (addr_valid (ps_host_ip s)) (split_on CHR '':'' (ports_text s)) = Inr (ps_host_port s, ps_sandbox_port s)"
proof -
  have r: "0 \<le> ps_host_port s" "ps_host_port s \<le> 65535" "1 \<le> ps_sandbox_port s" "ps_sandbox_port s \<le> 65535"
    using assms by (auto simp: port_spec_ok_def)
  note pt = itoa_text [OF r(1)] itoa_text [of "ps_sandbox_port s"]
  show ?thesis
  proof (cases "0 < ps_host_port s")
    case True
    then have "split_on CHR '':'' (ports_text s) = [itoa (ps_host_port s), itoa (ps_sandbox_port s)]"
      using pt r split_two by (simp add: ports_text_def)
    then show ?thesis using True r by (simp add: parse_fields_def parse_port_field_itoa)
  next
    case False
    then have "split_on CHR '':'' (ports_text s) =
        (if addr_valid (ps_host_ip s) then [[], itoa (ps_sandbox_port s)] else [itoa (ps_sandbox_port s)])"
      using pt r split_two [of "[]" "itoa (ps_sandbox_port s)"] by (simp add: ports_text_def split_on_single)
    then show ?thesis using False r by (simp add: parse_fields_def parse_port_field_itoa)
  qed
qed

lemma string4_no_colon: "CHR '':'' \<notin> set (string4 n)" "CHR ''['' \<notin> set (string4 n)"
  using string4_set [of "CHR '':''" n] string4_set [of "CHR ''[''" n] by (auto simp: is_digit_def)

lemma addr_string_bracket:
  assumes "CHR '']'' \<notin> set (addr_zone a)" "addr_valid a"
  shows "CHR '']'' \<notin> set (addr_string a)"
proof (cases a)
  case (A6 w z)
  have "CHR '']'' \<notin> set (string6 gs)" "CHR '']'' \<notin> set (string4 n)" for gs n
    using string6_set [of "CHR '']''" gs] string4_set [of "CHR '']''" n] by (auto simp: is_hex_def is_digit_def)
  then show ?thesis using A6 assms(1) by (simp add: addr_zone_def zone_suffix_def)
qed (use assms string4_set [of "CHR '']''"] in \<open>auto simp: addr_valid_def is_digit_def\<close>)

lemma split_host_text:
  assumes "port_spec_ok s"
  shows "split_host_ip ((if addr_valid (ps_host_ip s) then
        (if is6 (ps_host_ip s) then ''['' @ addr_string (ps_host_ip s) @ '']:''
         else addr_string (ps_host_ip s) @ '':'') else []) @ ports_text s) = Inr (ps_host_ip s, ports_text s)"
proof -
  have r: "0 \<le> ps_host_port s" "1 \<le> ps_sandbox_port s" using assms by (auto simp: port_spec_ok_def)
  have u: "unmap (ps_host_ip s) = ps_host_ip s"
    using assms by (auto simp: port_spec_ok_def unmap_def split: addr.split)
  note pt = itoa_text [OF r(1)] itoa_text [of "ps_sandbox_port s"]
  show ?thesis
  proof (cases "addr_valid (ps_host_ip s)")
    case False
    then have "split_on CHR '':'' (ports_text s) = (if 0 < ps_host_port s
        then [itoa (ps_host_port s), itoa (ps_sandbox_port s)] else [itoa (ps_sandbox_port s)])"
      using pt r split_two by (simp add: ports_text_def split_on_single)
    moreover have "\<not> prefix ''['' (ports_text s)"
      using pt r itoa_not_Nil False by (auto simp: ports_text_def prefix_def append_eq_Cons_conv dest: arg_cong [of _ _ set])
    ultimately show ?thesis using False by (simp add: split_host_ip_def addr_valid_def)
  next
    case valid: True
    show ?thesis
    proof (cases "is6 (ps_host_ip s)")
      case True
      have "CHR '']'' \<notin> set (''['' @ addr_string (ps_host_ip s))"
        using addr_string_bracket [OF _ valid] assms by (auto simp: port_spec_ok_def)
      then have "cut CHR '']'' (''['' @ addr_string (ps_host_ip s) @ '']:'' @ ports_text s) =
          (''['' @ addr_string (ps_host_ip s), CHR '':'' # ports_text s, True)"
        using cut_found [of "CHR '']''" "''['' @ addr_string (ps_host_ip s)"] by simp
      then show ?thesis using valid True u parse_addr_string [OF valid] by (simp add: split_host_ip_def)
    next
      case False
      then obtain w where w: "ps_host_ip s = A4 w" using valid by (auto simp: is6_def addr_valid_def split: addr.splits)
      let ?hp = "if 0 < ps_host_port s then itoa (ps_host_port s) else []"
      have "split_on CHR '':'' (addr_string (A4 w) @ '':'' @ ?hp @ '':'' @ itoa (ps_sandbox_port s)) =
          [addr_string (A4 w), ?hp, itoa (ps_sandbox_port s)]"
        using pt r string4_no_colon(1) by (simp add: split_on_append split_on_single)
      moreover have "\<not> prefix ''['' (addr_string (A4 w) @ x)" for x
        using string4_pos [of "unat w"] string4_no_colon(2) [of "unat w"] by (cases "string4 (unat w)") auto
      ultimately show ?thesis using valid False u w parse_addr_A4 [of w]
        by (simp add: split_host_ip_def ports_text_def)
    qed
  qed
qed

lemma port_spec_string_eq: "port_spec_string s =
    ((if addr_valid (ps_host_ip s) then
        (if is6 (ps_host_ip s) then ''['' @ addr_string (ps_host_ip s) @ '']:''
         else addr_string (ps_host_ip s) @ '':'') else []) @ ports_text s) @ ''/'' @ protocol_string (ps_protocol s)"
  by (simp add: port_spec_string_def ports_text_def)

lemma port_spec_string_hd: "port_spec_ok s \<Longrightarrow> port_spec_string s \<noteq> [] \<and> graph (hd (port_spec_string s))"
proof -
  assume ok: "port_spec_ok s"
  then have r: "0 \<le> ps_host_port s" "0 \<le> ps_sandbox_port s" by (auto simp: port_spec_ok_def)
  have digit: "0 \<le> n \<Longrightarrow> graph (hd (itoa n @ x))" for n x
    using itoa_set [of n "hd (itoa n)"] itoa_not_Nil by (simp add: is_digit_graph)
  have dots: "graph (hd (string4 n @ x))" for n x
    using string4_set [of "hd (string4 n)" n] string4_pos [of n] by (auto simp: is_digit_graph graph_def [of "CHR ''.''"])
  have "graph CHR ''[''" by (simp add: graph_def)
  with r digit dots itoa_not_Nil string4_pos show ?thesis
    by (cases "ps_host_ip s") (auto simp: port_spec_string_def addr_valid_def is6_def)
qed

lemma parse_port_spec_string:
  assumes "port_spec_ok s"
  shows "parse_publish (port_spec_string s) = Inr s"
proof -
  have "trim_space (port_spec_string s) = port_spec_string s"
    using port_spec_string_hd [OF assms] protocol_string_text(2,3) [of "ps_protocol s"]
    by (intro trim_space_id) (simp add: port_spec_string_eq)
  moreover have "rcut CHR ''/'' (port_spec_string s) = Some ((if addr_valid (ps_host_ip s) then
        (if is6 (ps_host_ip s) then ''['' @ addr_string (ps_host_ip s) @ '']:''
         else addr_string (ps_host_ip s) @ '':'') else []) @ ports_text s, protocol_string (ps_protocol s))"
    unfolding port_spec_string_eq by (simp only: append_Cons append_Nil rcut_found protocol_string_text(1) not_False_eq_True)
  moreover have "check_family \<lparr>ps_host_ip = ps_host_ip s, ps_host_port = ps_host_port s,
      ps_sandbox_port = ps_sandbox_port s, ps_protocol = ps_protocol s\<rparr>"
    using assms by (cases s) (simp add: port_spec_ok_def)
  ultimately show ?thesis
    using port_spec_string_hd [OF assms] split_host_text [OF assms] parse_ports_text [OF assms]
    by (simp add: parse_publish_def parse_port_spec_def Let_def)
qed

interpretation port_spec_text: canonical_parse port_spec_string
    "\<lambda>s. case parse_publish s of Inl _ \<Rightarrow> None | Inr p \<Rightarrow> Some p" port_spec_ok
  by unfold_locales
    (auto simp: parse_port_spec_string dest: parse_port_spec_ok [of False, folded parse_publish_def] split: sum.splits)

subsection \<open>Properties\<close>

text \<open>
  A specification is recorded without loss. Whatever a publish argument parses to, within its
  bounds and with a consistent address family, its text parses to the same specification.
\<close>

theorem port_spec_round_trip:
  assumes "parse_publish s = Inr spec"
  shows "parse_publish (port_spec_string spec) = Inr spec \<and>
    0 \<le> ps_host_port spec \<and> ps_host_port spec \<le> 65535 \<and>
    1 \<le> ps_sandbox_port spec \<and> ps_sandbox_port spec \<le> 65535"
proof -
  have "port_spec_ok spec" using assms parse_port_spec_ok by (simp add: parse_publish_def)
  then show ?thesis by (simp add: parse_port_spec_string) (simp add: port_spec_ok_def)
qed

theorem port_spec_round_trip_witness:
  "parse_publish ''[::1]:8080:3000/tcp'' = Inr \<lparr>ps_host_ip = A6 1 [], ps_host_port = 8080, ps_sandbox_port = 3000, ps_protocol = TCP\<rparr>"
proof -
  let ?s = "\<lparr>ps_host_ip = A6 1 [], ps_host_port = 8080, ps_sandbox_port = 3000, ps_protocol = TCP\<rparr>"
  have "parse_publish '' [0:0::1]:8080:3000'' = Inr ?s" "port_spec_string ?s = ''[::1]:8080:3000/tcp''" by code_simp+
  then show ?thesis using port_spec_round_trip [of "'' [0:0::1]:8080:3000''" ?s] by simp
qed

text \<open>
  Without an address only loopback is bound. The addresses a specification binds are the one it
  names, or else loopback addresses, at least one and none twice, of the family its protocol selects;
  never the unspecified address.
\<close>

theorem binds_loopback:
  assumes "parse_publish s = Inr spec"
  shows "binds spec v6 \<noteq> [] \<and> distinct (binds spec v6) \<and>
    (if addr_valid (ps_host_ip spec) then binds spec v6 = [ps_host_ip spec]
     else set (binds spec v6) \<subseteq> {loopback4, loopback6}) \<and>
    (\<forall>a\<in>set (binds spec v6). family (ps_protocol spec) \<noteq> 0 \<longrightarrow> is6 a = (family (ps_protocol spec) = 6))"
proof -
  have "check_family spec" using assms parse_port_spec_ok by (simp add: parse_publish_def port_spec_ok_def)
  moreover have "family p \<in> {0, 4, 6}" for p by (simp add: family_def)
  ultimately show ?thesis
    by (auto simp: binds_def check_family_def loopback4_def loopback6_def is6_def Let_def split: if_splits)
qed

theorem binds_loopback_witness: "\<exists>spec. parse_publish ''3000'' = Inr spec \<and> set (binds spec False) \<subseteq> {loopback4, loopback6}"
proof -
  let ?s = "\<lparr>ps_host_ip = Addr_none, ps_host_port = 0, ps_sandbox_port = 3000, ps_protocol = TCP\<rparr>"
  have p: "parse_publish ''3000'' = Inr ?s" by code_simp
  show ?thesis using binds_loopback [OF p, of False] p by (auto simp: addr_valid_def)
qed

end
