(* ===== verification/Ports_Forward.thy ===== *)
theory Ports_Forward
  imports Ports_Spec "HOL-Library.Multiset" "HOL-Library.Product_Lexorder" "HOL-Library.List_Lexorder"
begin

section \<open>Publishing ports: \<open>internal/ports/forward.go\<close>\<close>

text \<open>
  The forwarder owns every host listener published for one sandbox. Its operations hold a lock for
  parts of their work only: a publish checks, binds without the lock and commits; an unpublish and the
  final close remove entries under the lock and close the listeners afterwards. The theory models each
  critical section as a function, composes them as the code does, and lets them interleave in a step
  relation in which the operating system may refuse any bind.
\<close>

subsection \<open>State\<close>

text \<open>
  A listener has an identity of its own, the address and the port it is bound to; an entry is known
  by its listener, and the key of an entry leaves the address family out.
\<close>

record socket =
  sk_id :: nat
  sk_host :: string
  sk_port :: int

type_synonym port_key = "string \<times> int \<times> int \<times> bool"

record entry =
  en_listener :: socket
  en_pub :: published

record forwarder =
  fw_has_ipv6 :: bool
  fw_closed :: bool
  fw_entries :: "(port_key \<times> entry) list"
  fw_conns :: "nat list"

definition new_forwarder :: "bool \<Rightarrow> forwarder" where
  "new_forwarder v6 = \<lparr>fw_has_ipv6 = v6, fw_closed = False, fw_entries = [], fw_conns = []\<rparr>"

datatype forward_error =
    Udp_not_carried | No_sandbox_port | Shut_down | Already_published string
  | Bind_failed port_spec addr int string | Not_published port_spec

definition key_of :: "published \<Rightarrow> port_key" where
  "key_of p = (pb_host_ip p, pb_host_port p, pb_sandbox_port p, text_is_udp (pb_protocol p))"

definition transport_of :: "protocol \<Rightarrow> protocol" where
  "transport_of p = (if is_udp p then UDP else TCP)"

subsection \<open>Listing\<close>

definition publish_order :: "published \<Rightarrow> int \<times> string \<times> string" where
  "publish_order p = (pb_host_port p, pb_host_ip p, pb_protocol p)"

definition sort_published :: "published list \<Rightarrow> published list" where
  "sort_published ps = sort_key publish_order ps"

definition list_locked :: "forwarder \<Rightarrow> published list" where
  "list_locked f = sort_published (map (en_pub \<circ> snd) (fw_entries f))"

subsection \<open>Publishing\<close>

text \<open>The check before the bind, under the lock: the addresses to bind, or the refusal.\<close>

definition publish_check :: "port_spec \<Rightarrow> forwarder \<Rightarrow> forward_error + addr list" where
  "publish_check spec f =
     (if is_udp (ps_protocol spec) then Inl Udp_not_carried
      else if ps_sandbox_port spec = 0 then Inl No_sandbox_port
      else (let addrs = binds spec (fw_has_ipv6 f);
                key = (\<lambda>a. (addr_string a, ps_host_port spec, ps_sandbox_port spec, is_udp (ps_protocol spec)))
            in if fw_closed f then Inl Shut_down
               else if ps_host_port spec \<noteq> 0 then
                 (case List.find (\<lambda>a. map_of (fw_entries f) (key a) \<noteq> None) addrs of
                    Some a \<Rightarrow> Inl (Already_published (published_string (en_pub (the (map_of (fw_entries f) (key a))))))
                  | None \<Rightarrow> Inr addrs)
               else Inr addrs))"

text \<open>
  A publish that passed the check goes on outside the lock with what it still has to bind, the port it
  asks for and what it has bound.
\<close>

type_synonym binding = "socket \<times> published"

type_synonym in_flight = "port_spec \<times> addr list \<times> int \<times> binding list"

definition publish_begin :: "port_spec \<Rightarrow> forwarder \<Rightarrow> forward_error + in_flight" where
  "publish_begin spec f = map_sum id (\<lambda>addrs. (spec, addrs, ps_host_port spec, [])) (publish_check spec f)"

text \<open>
  One address bound: an ephemeral request keeps the number the first listener was given for the
  addresses that remain.
\<close>

definition bound_port :: "int \<Rightarrow> socket \<Rightarrow> int" where
  "bound_port port l = (if port = 0 then sk_port l else port)"

definition published_at :: "port_spec \<Rightarrow> addr \<Rightarrow> int \<Rightarrow> published" where
  "published_at spec a port =
     \<lparr>pb_host_ip = addr_string a, pb_host_port = port, pb_sandbox_port = ps_sandbox_port spec,
      pb_protocol = protocol_string (transport_of (ps_protocol spec)), pb_last_error = []\<rparr>"

fun bind_all :: "(string \<Rightarrow> int \<Rightarrow> string + socket) \<Rightarrow> port_spec \<Rightarrow> addr list \<Rightarrow> int \<Rightarrow>
    binding list \<times> forward_error option" where
  "bind_all listen spec [] port = ([], None)"
| "bind_all listen spec (a # addrs) port =
     (case listen (addr_string a) port of
        Inl e \<Rightarrow> ([], Some (Bind_failed spec a port e))
      | Inr l \<Rightarrow>
          (let port' = bound_port port l; (bs, err) = bind_all listen spec addrs port'
           in ((l, published_at spec a port') # bs, err)))"

text \<open>The commit, under the lock again: every binding becomes an entry, or none does.\<close>

definition add_entry :: "binding \<Rightarrow> (port_key \<times> entry) list \<Rightarrow> (port_key \<times> entry) list" where
  "add_entry b = AList.update (key_of (snd b)) \<lparr>en_listener = fst b, en_pub = snd b\<rparr>"

definition publish_commit :: "binding list \<Rightarrow> forwarder \<Rightarrow> forward_error + forwarder" where
  "publish_commit bs f =
     (if fw_closed f then Inl Shut_down
      else (case List.find (\<lambda>b. map_of (fw_entries f) (key_of (snd b)) \<noteq> None) bs of
              Some b \<Rightarrow> Inl (Already_published (published_string (snd b)))
            | None \<Rightarrow> Inr (f\<lparr>fw_entries := foldl (\<lambda>m b. add_entry b m) (fw_entries f) bs\<rparr>)))"

text \<open>
  A whole publish, with nothing else running: its result, the forwarder, the listeners it closed
  again and the list it announced, if it did.
\<close>

definition publish ::
    "(string \<Rightarrow> int \<Rightarrow> string + socket) \<Rightarrow> port_spec \<Rightarrow> forwarder \<Rightarrow>
     (forward_error + published list) \<times> forwarder \<times> socket list \<times> published list option" where
  "publish listen spec f =
     (case publish_begin spec f of
        Inl e \<Rightarrow> (Inl e, f, [], None)
      | Inr (spec, addrs, port, _) \<Rightarrow>
          (case bind_all listen spec addrs port of
             (bs, Some e) \<Rightarrow> (Inl e, f, map fst bs, None)
           | (bs, None) \<Rightarrow>
               (case publish_commit bs f of
                  Inl e \<Rightarrow> (Inl e, f, map fst bs, None)
                | Inr f' \<Rightarrow> (Inr (map snd bs), f', [], Some (list_locked f')))))"

subsection \<open>Unpublishing and closing\<close>

text \<open>Under the lock: the entries left, the ones removed, and the list to announce.\<close>

definition unpublish_locked :: "port_spec \<Rightarrow> forwarder \<Rightarrow> forwarder \<times> entry list" where
  "unpublish_locked spec f =
     (f\<lparr>fw_entries := filter (\<lambda>(k, e). \<not> pub_matches (en_pub e) spec) (fw_entries f)\<rparr>,
      map snd (filter (\<lambda>(k, e). pub_matches (en_pub e) spec) (fw_entries f)))"

definition unpublish ::
    "port_spec \<Rightarrow> forwarder \<Rightarrow> (forward_error + published list) \<times> forwarder \<times> socket list \<times> published list option" where
  "unpublish spec f =
     (case unpublish_locked spec f of
        (f', []) \<Rightarrow> (Inl (Not_published spec), f', [], None)
      | (f', es) \<Rightarrow> (Inr (sort_published (map en_pub es)), f', map en_listener es, Some (list_locked f')))"

text \<open>Every listener and connection that is closed once the lock is released.\<close>

definition close_forwarder :: "forwarder \<Rightarrow> forwarder \<times> socket list \<times> nat list" where
  "close_forwarder f =
     (if fw_closed f then (f, [], [])
      else (f\<lparr>fw_closed := True, fw_entries := [], fw_conns := []\<rparr>, map (en_listener \<circ> snd) (fw_entries f), fw_conns f))"

subsection \<open>Connections\<close>

definition track :: "nat list \<Rightarrow> forwarder \<Rightarrow> bool \<times> forwarder" where
  "track cs f =
     (if fw_closed f then (False, f)
      else (True, f\<lparr>fw_conns := foldl (\<lambda>m c. List.insert c m) (fw_conns f) cs\<rparr>))"

definition untrack :: "nat list \<Rightarrow> forwarder \<Rightarrow> forwarder" where
  "untrack cs f = f\<lparr>fw_conns := filter (\<lambda>c. c \<notin> set cs) (fw_conns f)\<rparr>"

text \<open>
  The reason connections do not reach the guest, recorded on the entry the connection came in on,
  unless that entry is gone.
\<close>

definition set_error :: "string \<Rightarrow> entry \<Rightarrow> entry" where
  "set_error reason e = e\<lparr>en_pub := (en_pub e)\<lparr>pb_last_error := reason\<rparr>\<rparr>"

definition note_error :: "entry \<Rightarrow> string \<Rightarrow> forwarder \<Rightarrow> forwarder \<times> published list option" where
  "note_error e reason f =
     (case map_of (fw_entries f) (key_of (en_pub e)) of
        None \<Rightarrow> (f, None)
      | Some e' \<Rightarrow>
          if en_listener e' \<noteq> en_listener e \<or> pb_last_error (en_pub e') = reason then (f, None)
          else (let f' = f\<lparr>fw_entries := AList.update (key_of (en_pub e)) (set_error reason e') (fw_entries f)\<rparr>
                in (f', Some (list_locked f'))))"

text \<open>
  One accepted connection up to the point where it is spliced: the guest is dialled, the outcome is
  noted, and the pair is tracked unless the forwarder has been closed meanwhile. The last component
  are the connections closed at once.
\<close>

definition em_dash :: string where "em_dash = [CHR 0xE2, CHR 0x80, CHR 0x94]"

definition forward_conn :: "entry \<Rightarrow> nat \<Rightarrow> string + nat \<Rightarrow> forwarder \<Rightarrow> bool \<times> forwarder \<times> nat list" where
  "forward_conn e host dialled f =
     (case dialled of
        Inl err \<Rightarrow> (False, fst (note_error e
            (''nothing answered on port '' @ itoa (pb_sandbox_port (en_pub e)) @ '' inside the sandbox: '' @ err
             @ '' '' @ em_dash @ '' the service in the sandbox must listen on the VM's external interface (bind 0.0.0.0 or ::, not only 127.0.0.1)'') f), [host])
      | Inr guest \<Rightarrow>
          (case track [host, guest] (fst (note_error e [] f)) of
             (False, f') \<Rightarrow> (False, f', [host, guest])
           | (True, f') \<Rightarrow> (True, f', [])))"


subsection \<open>Interleaving\<close>

text \<open>
  Everything that runs at the same time in one supervisor: the forwarder, the sockets its process has
  bound, the publishes between their two critical sections (what they still have to bind, the port
  they have settled on, what they have bound), the listeners that are out of the map and not yet closed,
  the lists that are computed and not yet announced, and what the state file holds. The last field
  remembers which specifications were ever accepted for publishing.
\<close>

record world =
  wd_fw :: forwarder
  wd_bound :: "socket list"
  wd_flight :: "in_flight list"
  wd_closing :: "socket list"
  wd_unsent :: "published list list"
  wd_recorded :: "published list"
  wd_asked :: "port_spec list"

definition socket_addr :: "socket \<Rightarrow> string \<times> int" where
  "socket_addr l = (sk_host l, sk_port l)"

text \<open>
  What the operating system does when it grants a bind: a new listener, at the address and the port
  asked for (any port, if none is named), and never an address another listener holds.
\<close>

definition grants :: "socket list \<Rightarrow> string \<Rightarrow> int \<Rightarrow> socket \<Rightarrow> bool" where
  "grants bound host port l \<longleftrightarrow> sk_host l = host \<and> (port \<noteq> 0 \<longrightarrow> sk_port l = port) \<and> sk_port l \<noteq> 0 \<and>
     sk_id l \<notin> sk_id ` set bound \<and> socket_addr l \<notin> socket_addr ` set bound"

definition bound_by :: "in_flight \<Rightarrow> socket list" where
  "bound_by x = map fst (snd (snd (snd x)))"

definition start_world :: "bool \<Rightarrow> world" where
  "start_world v6 = \<lparr>wd_fw = new_forwarder v6, wd_bound = [], wd_flight = [], wd_closing = [], wd_unsent = [],
     wd_recorded = [], wd_asked = []\<rparr>"

inductive fwd_step :: "world \<Rightarrow> world \<Rightarrow> bool" where
  step_begin: "publish_begin spec (wd_fw w) = Inr x \<Longrightarrow>
    fwd_step w (w\<lparr>wd_flight := x # wd_flight w, wd_asked := spec # wd_asked w\<rparr>)"
| step_bind: "wd_flight w = xs @ (spec, a # addrs, port, bs) # ys \<Longrightarrow> grants (wd_bound w) (addr_string a) port l \<Longrightarrow>
    fwd_step w (w\<lparr>wd_flight := xs @ (spec, addrs, bound_port port l,
        bs @ [(l, published_at spec a (bound_port port l))]) # ys, wd_bound := l # wd_bound w\<rparr>)"
| step_refused: "wd_flight w = xs @ (spec, a # addrs, port, bs) # ys \<Longrightarrow>
    fwd_step w (w\<lparr>wd_flight := xs @ ys, wd_closing := map fst bs @ wd_closing w\<rparr>)"
| step_commit: "wd_flight w = xs @ (spec, [], port, bs) # ys \<Longrightarrow> publish_commit bs (wd_fw w) = Inr f \<Longrightarrow>
    fwd_step w (w\<lparr>wd_flight := xs @ ys, wd_fw := f, wd_unsent := list_locked f # wd_unsent w\<rparr>)"
| step_abort: "wd_flight w = xs @ (spec, [], port, bs) # ys \<Longrightarrow> publish_commit bs (wd_fw w) = Inl e \<Longrightarrow>
    fwd_step w (w\<lparr>wd_flight := xs @ ys, wd_closing := map fst bs @ wd_closing w\<rparr>)"
| step_unpublish: "unpublish_locked spec (wd_fw w) = (f, es) \<Longrightarrow>
    fwd_step w (w\<lparr>wd_fw := f, wd_closing := map en_listener es @ wd_closing w,
        wd_unsent := (if es = [] then [] else [list_locked f]) @ wd_unsent w\<rparr>)"
| step_shutdown: "close_forwarder (wd_fw w) = (f, ls, cs) \<Longrightarrow>
    fwd_step w (w\<lparr>wd_fw := f, wd_closing := ls @ wd_closing w\<rparr>)"
| step_closed: "wd_closing w = xs @ l # ys \<Longrightarrow>
    fwd_step w (w\<lparr>wd_closing := xs @ ys, wd_bound := remove1 l (wd_bound w)\<rparr>)"
| step_announce: "wd_unsent w = xs @ p # ys \<Longrightarrow> fwd_step w (w\<lparr>wd_unsent := xs @ ys, wd_recorded := p\<rparr>)"
| step_note: "note_error e reason (wd_fw w) = (f, news) \<Longrightarrow>
    fwd_step w (w\<lparr>wd_fw := f, wd_unsent := (case news of None \<Rightarrow> [] | Some p \<Rightarrow> [p]) @ wd_unsent w\<rparr>)"
| step_track: "track cs (wd_fw w) = (ok, f) \<Longrightarrow> fwd_step w (w\<lparr>wd_fw := f\<rparr>)"
| step_untrack: "fwd_step w (w\<lparr>wd_fw := untrack cs (wd_fw w)\<rparr>)"

inductive fwd_reachable :: "world \<Rightarrow> bool" where
  fwd_start: "fwd_reachable (start_world v6)"
| fwd_next: "fwd_reachable w \<Longrightarrow> fwd_step w w' \<Longrightarrow> fwd_reachable w'"

inductive_cases fwd_stepE: "fwd_step w w'"

subsection \<open>The invariant\<close>

definition binding_ok :: "bool \<Rightarrow> port_spec \<Rightarrow> binding \<Rightarrow> bool" where
  "binding_ok v6 spec b \<longleftrightarrow> pb_host_ip (snd b) = sk_host (fst b) \<and> pb_host_port (snd b) = sk_port (fst b) \<and>
     \<not> text_is_udp (pb_protocol (snd b)) \<and> pb_sandbox_port (snd b) = ps_sandbox_port spec \<and>
     pb_host_ip (snd b) \<in> addr_string ` set (binds spec v6) \<and>
     pb_host_port (snd b) \<noteq> 0 \<and> (ps_host_port spec \<noteq> 0 \<longrightarrow> pb_host_port (snd b) = ps_host_port spec)"

definition entry_ok :: "bool \<Rightarrow> port_spec list \<Rightarrow> port_key \<Rightarrow> entry \<Rightarrow> bool" where
  "entry_ok v6 asked k e \<longleftrightarrow> k = key_of (en_pub e) \<and> (\<exists>spec\<in>set asked. binding_ok v6 spec (en_listener e, en_pub e))"

definition flight_ok :: "bool \<Rightarrow> port_spec list \<Rightarrow> in_flight \<Rightarrow> bool" where
  "flight_ok v6 asked x = (case x of (spec, addrs, port, bs) \<Rightarrow>
     spec \<in> set asked \<and> \<not> is_udp (ps_protocol spec) \<and> set addrs \<subseteq> set (binds spec v6) \<and>
     (ps_host_port spec \<noteq> 0 \<longrightarrow> port = ps_host_port spec) \<and> (\<forall>b\<in>set bs. binding_ok v6 spec b))"

definition entry_sockets :: "forwarder \<Rightarrow> socket list" where
  "entry_sockets f = map (en_listener \<circ> snd) (fw_entries f)"

definition owned :: "world \<Rightarrow> socket list" where
  "owned w = entry_sockets (wd_fw w) @ concat (map bound_by (wd_flight w)) @ wd_closing w"

definition world_ok :: "world \<Rightarrow> bool" where
  "world_ok w \<longleftrightarrow> mset (owned w) = mset (wd_bound w) \<and> distinct (map socket_addr (wd_bound w)) \<and>
     map_ok (entry_ok (fw_has_ipv6 (wd_fw w)) (wd_asked w)) (fw_entries (wd_fw w)) \<and>
     (\<forall>x\<in>set (wd_flight w). flight_ok (fw_has_ipv6 (wd_fw w)) (wd_asked w) x) \<and>
     (fw_closed (wd_fw w) \<longrightarrow> fw_entries (wd_fw w) = [] \<and> fw_conns (wd_fw w) = [])"


lemma start_world_ok: "world_ok (start_world v6)"
  by (simp add: world_ok_def start_world_def owned_def entry_sockets_def new_forwarder_def)

text \<open>Changing the last error of an entry changes nothing the invariant speaks about.\<close>

lemma key_of_error [simp]: "key_of (p\<lparr>pb_last_error := r\<rparr>) = key_of p"
  by (simp add: key_of_def)

lemma binding_ok_error [simp]: "binding_ok v6 spec (l, p\<lparr>pb_last_error := r\<rparr>) = binding_ok v6 spec (l, p)"
  by (simp add: binding_ok_def)

lemma entry_ok_error [simp]: "entry_ok v6 asked k (set_error r e) = entry_ok v6 asked k e"
  by (simp add: entry_ok_def set_error_def)

lemma set_error_listener [simp]: "en_listener (set_error r e) = en_listener e"
  by (simp add: set_error_def)

lemma update_map_of: "map_of m k = Some v \<Longrightarrow> f w = f v \<Longrightarrow> map (f \<circ> snd) (AList.update k w m) = map (f \<circ> snd) m"
  by (induction m) auto

lemma note_error_simps:
  assumes "note_error e r f = (f', news)"
  shows "fw_closed f' = fw_closed f" "fw_has_ipv6 f' = fw_has_ipv6 f" "fw_conns f' = fw_conns f"
    "entry_sockets f' = entry_sockets f" "fw_entries f = [] \<Longrightarrow> fw_entries f' = []"
    "map_ok (entry_ok v6 asked) (fw_entries f) \<Longrightarrow> map_ok (entry_ok v6 asked) (fw_entries f')"
proof -
  have "fw_closed f' = fw_closed f \<and> fw_has_ipv6 f' = fw_has_ipv6 f \<and> fw_conns f' = fw_conns f \<and>
      (fw_entries f = [] \<longrightarrow> fw_entries f' = [])"
    using assms by (auto simp: note_error_def Let_def split: option.splits if_splits)
  then show "fw_closed f' = fw_closed f" "fw_has_ipv6 f' = fw_has_ipv6 f" "fw_conns f' = fw_conns f"
    "fw_entries f = [] \<Longrightarrow> fw_entries f' = []" by auto
  consider "f' = f" | e' where "map_of (fw_entries f) (key_of (en_pub e)) = Some e'"
    "fw_entries f' = AList.update (key_of (en_pub e)) (set_error r e') (fw_entries f)"
    using assms by (auto simp: note_error_def Let_def split: option.splits if_splits)
  then have "entry_sockets f' = entry_sockets f \<and>
      (map_ok (entry_ok v6 asked) (fw_entries f) \<longrightarrow> map_ok (entry_ok v6 asked) (fw_entries f'))" for v6 asked
  proof cases
    case 2
    then have "entry_sockets f' = entry_sockets f"
      using update_map_of [where f = en_listener, OF 2(1), of "set_error r e'"] by (simp add: entry_sockets_def 2(2))
    moreover have "map_ok (entry_ok v6 asked) (fw_entries f')" if "map_ok (entry_ok v6 asked) (fw_entries f)"
      using map_ok_get [OF that 2(1)] by (simp add: 2(2) map_ok_update [OF that])
    ultimately show ?thesis by blast
  qed simp
  then show "entry_sockets f' = entry_sockets f"
    "map_ok (entry_ok v6 asked) (fw_entries f) \<Longrightarrow> map_ok (entry_ok v6 asked) (fw_entries f')" by auto
qed

lemma filter_snd: "filter (\<lambda>(k, v). q v) m = filter (\<lambda>x. q (snd x)) m"
  by (induction m) auto

subsection \<open>Every step keeps the invariant\<close>

lemma entry_ok_more: "entry_ok v6 asked k e \<Longrightarrow> set asked \<subseteq> set asked' \<Longrightarrow> entry_ok v6 asked' k e"
  by (auto simp: entry_ok_def)

lemma flight_ok_more: "flight_ok v6 asked x \<Longrightarrow> set asked \<subseteq> set asked' \<Longrightarrow> flight_ok v6 asked' x"
  by (auto simp: flight_ok_def)

lemma map_ok_mono: "map_ok P m \<Longrightarrow> (\<And>k v. P k v \<Longrightarrow> Q k v) \<Longrightarrow> map_ok Q m"
  by (simp add: map_ok_def)

lemma map_ok_filter: "map_ok P m \<Longrightarrow> map_ok P (filter (\<lambda>(k, v). q v) m)"
  by (auto simp: map_ok_def distinct_map inj_on_filter_key_eq dest: map_of_SomeD
      intro!: inj_on_subset [of fst "set m"])

lemma publish_check_Inr:
  "publish_check spec f = Inr addrs \<Longrightarrow> addrs = binds spec (fw_has_ipv6 f) \<and> \<not> is_udp (ps_protocol spec) \<and> \<not> fw_closed f \<and>
     ps_sandbox_port spec \<noteq> 0"
  by (auto simp: publish_check_def Let_def split: if_splits option.splits)

lemma publish_begin_Inr: "publish_begin spec f = Inr x \<longleftrightarrow>
    (\<exists>addrs. publish_check spec f = Inr addrs \<and> x = (spec, addrs, ps_host_port spec, []))"
  by (cases "publish_check spec f") (auto simp: publish_begin_def)

lemma published_at_ok: "\<not> is_udp (ps_protocol spec) \<Longrightarrow> a \<in> set (binds spec v6) \<Longrightarrow> sk_host l = addr_string a \<Longrightarrow>
    sk_port l = port \<Longrightarrow> port \<noteq> 0 \<Longrightarrow> (ps_host_port spec \<noteq> 0 \<longrightarrow> port = ps_host_port spec) \<Longrightarrow>
    binding_ok v6 spec (l, published_at spec a port)"
  by (simp add: binding_ok_def published_at_def transport_of_def text_is_udp_def)

lemma bound_port_granted: "grants bound h port l \<Longrightarrow> bound_port port l = sk_port l"
  by (auto simp: grants_def bound_port_def)

text \<open>The commit appends its bindings, whose keys are new and distinct.\<close>

lemma add_entries:
  assumes "distinct (map (key_of \<circ> snd) bs)" "\<forall>b\<in>set bs. map_of m (key_of (snd b)) = None"
  shows "foldl (\<lambda>m b. add_entry b m) m bs = m @ map (\<lambda>b. (key_of (snd b), \<lparr>en_listener = fst b, en_pub = snd b\<rparr>)) bs"
  using assms
proof (induction bs arbitrary: m)
  case (Cons b bs)
  have new: "AList.update k v m = m @ [(k, v)]" if "map_of m k = None" for k :: port_key and v :: entry and m
    using that by (induction m) (auto split: if_splits)
  have "add_entry b m = m @ [(key_of (snd b), \<lparr>en_listener = fst b, en_pub = snd b\<rparr>)]"
    using Cons.prems(2) by (simp add: add_entry_def new)
  moreover have "\<forall>c\<in>set bs. map_of (m @ [(key_of (snd b), \<lparr>en_listener = fst b, en_pub = snd b\<rparr>)]) (key_of (snd c)) = None"
  proof
    fix c assume c: "c \<in> set bs"
    then have "key_of (snd c) \<in> set (map (key_of \<circ> snd) bs)" by auto
    then have "key_of (snd c) \<noteq> key_of (snd b)" using Cons.prems(1) by (metis comp_apply distinct.simps(2) list.map(2))
    moreover have "map_of m (key_of (snd c)) = None" using Cons.prems(2) c by simp
    ultimately show "map_of (m @ [(key_of (snd b), \<lparr>en_listener = fst b, en_pub = snd b\<rparr>)]) (key_of (snd c)) = None"
      by (simp add: map_add_def)
  qed
  ultimately show ?case using Cons.IH Cons.prems(1) by simp
qed simp

lemma publish_commit_Inr:
  assumes "publish_commit bs f = Inr f'" "distinct (map (key_of \<circ> snd) bs)"
  shows "\<not> fw_closed f" "fw_closed f' = fw_closed f" "fw_has_ipv6 f' = fw_has_ipv6 f"
    "fw_entries f' = fw_entries f @ map (\<lambda>b. (key_of (snd b), \<lparr>en_listener = fst b, en_pub = snd b\<rparr>)) bs"
    "\<forall>b\<in>set bs. map_of (fw_entries f) (key_of (snd b)) = None"
proof -
  have none: "\<forall>b\<in>set bs. map_of (fw_entries f) (key_of (snd b)) = None" and *: "\<not> fw_closed f"
    "f' = f\<lparr>fw_entries := foldl (\<lambda>m b. add_entry b m) (fw_entries f) bs\<rparr>"
    using assms(1) by (auto simp: publish_commit_def find_None_iff split: if_splits option.splits)
  then show "\<not> fw_closed f" "fw_closed f' = fw_closed f" "fw_has_ipv6 f' = fw_has_ipv6 f"
    "fw_entries f' = fw_entries f @ map (\<lambda>b. (key_of (snd b), \<lparr>en_listener = fst b, en_pub = snd b\<rparr>)) bs"
    "\<forall>b\<in>set bs. map_of (fw_entries f) (key_of (snd b)) = None"
    using add_entries [OF assms(2) none] by simp_all
qed


text \<open>The sockets of a world are distinct, so those of one publish, and with them its keys, are.\<close>

lemma mset_distinct_map: "mset xs = mset ys \<Longrightarrow> distinct (map f xs) = distinct (map f ys)"
  by (rule mset_eq_imp_distinct_iff) simp

lemma owned_distinct: "world_ok w \<Longrightarrow> distinct (map socket_addr (owned w))"
  unfolding world_ok_def using mset_distinct_map by blast

lemma distinct_map_lift: "distinct (map f xs) \<Longrightarrow> (\<And>x y. x \<in> set xs \<Longrightarrow> y \<in> set xs \<Longrightarrow> g x = g y \<Longrightarrow> f x = f y) \<Longrightarrow> distinct (map g xs)"
  unfolding distinct_map inj_on_def by meson

lemma flight_keys:
  assumes "world_ok w" "wd_flight w = xs @ (spec, addrs, port, bs) # ys"
  shows "distinct (map (key_of \<circ> snd) bs)" "flight_ok (fw_has_ipv6 (wd_fw w)) (wd_asked w) (spec, addrs, port, bs)"
proof -
  show ok: "flight_ok (fw_has_ipv6 (wd_fw w)) (wd_asked w) (spec, addrs, port, bs)"
    using assms by (simp add: world_ok_def)
  have d: "distinct (map (socket_addr \<circ> fst) bs)"
    using owned_distinct [OF assms(1)] by (simp add: owned_def assms(2) bound_by_def)
  have addr: "socket_addr (fst b) = (pb_host_ip (snd b), pb_host_port (snd b))" if "b \<in> set bs" for b
    using ok that by (auto simp: flight_ok_def binding_ok_def socket_addr_def)
  show "distinct (map (key_of \<circ> snd) bs)"
    using d by (rule distinct_map_lift) (auto simp: addr key_of_def)
qed

lemmas world_simps = world_ok_def owned_def entry_sockets_def bound_by_def

lemma ok_begin:
  assumes "world_ok w" "publish_begin spec (wd_fw w) = Inr x"
  shows "world_ok (w\<lparr>wd_flight := x # wd_flight w, wd_asked := spec # wd_asked w\<rparr>)"
proof -
  have "map_ok (entry_ok (fw_has_ipv6 (wd_fw w)) (spec # wd_asked w)) (fw_entries (wd_fw w))"
    using assms(1) by (auto simp: world_ok_def elim!: map_ok_mono entry_ok_more)
  moreover have "flight_ok (fw_has_ipv6 (wd_fw w)) (spec # wd_asked w) x" if "x \<in> set (wd_flight w)" for x
    using assms(1) that by (auto simp: world_ok_def elim!: flight_ok_more)
  ultimately show ?thesis
    using assms(1) publish_check_Inr [of spec] assms(2)
    by (clarsimp simp: world_simps publish_begin_Inr) (simp add: flight_ok_def)
qed

lemma ok_bind:
  assumes "world_ok w" "wd_flight w = xs @ (spec, a # addrs, port, bs) # ys" "grants (wd_bound w) (addr_string a) port l"
  shows "world_ok (w\<lparr>wd_flight := xs @ (spec, addrs, bound_port port l,
      bs @ [(l, published_at spec a (bound_port port l))]) # ys, wd_bound := l # wd_bound w\<rparr>)"
proof -
  note fl = flight_keys(2) [OF assms(1,2)]
  have "binding_ok (fw_has_ipv6 (wd_fw w)) spec (l, published_at spec a (bound_port port l))"
    using fl assms(3) bound_port_granted [OF assms(3)]
    by (intro published_at_ok) (auto simp: flight_ok_def grants_def bound_port_def)
  with fl have "flight_ok (fw_has_ipv6 (wd_fw w)) (wd_asked w) (spec, addrs, bound_port port l,
      bs @ [(l, published_at spec a (bound_port port l))])"
    by (auto simp: flight_ok_def bound_port_def)
  moreover have "socket_addr l \<notin> socket_addr ` set (wd_bound w)" using assms(3) by (simp add: grants_def)
  ultimately show ?thesis
    using assms(1,2) by (simp add: world_simps)
qed

lemma ok_drop_flight:
  assumes "world_ok w" "wd_flight w = xs @ (spec, addrs, port, bs) # ys"
  shows "world_ok (w\<lparr>wd_flight := xs @ ys, wd_closing := map fst bs @ wd_closing w\<rparr>)"
  using assms by (simp add: world_simps union_ac)

lemma ok_commit:
  assumes "world_ok w" "wd_flight w = xs @ (spec, [], port, bs) # ys" "publish_commit bs (wd_fw w) = Inr f"
  shows "world_ok (w\<lparr>wd_flight := xs @ ys, wd_fw := f, wd_unsent := u\<rparr>)"
proof -
  note fl = flight_keys [OF assms(1,2)]
  note f = publish_commit_Inr [OF assms(3) fl(1)]
  let ?new = "map (\<lambda>b. (key_of (snd b), \<lparr>en_listener = fst b, en_pub = snd b\<rparr>)) bs"
  have old: "map_ok (entry_ok (fw_has_ipv6 (wd_fw w)) (wd_asked w)) (fw_entries (wd_fw w))"
    using assms(1) by (simp add: world_ok_def)
  have keys: "distinct (map fst (fw_entries (wd_fw w) @ ?new))"
    using fl(1) f(5) map_ok_distinct [OF old] by (fastforce simp: map_of_eq_None_iff comp_def image_iff)
  have "entry_ok (fw_has_ipv6 (wd_fw w)) (wd_asked w) k e" if get: "map_of (fw_entries (wd_fw w) @ ?new) k = Some e" for k e
  proof -
    consider "map_of (fw_entries (wd_fw w)) k = Some e"
      | b where "b \<in> set bs" "k = key_of (snd b)" "e = \<lparr>en_listener = fst b, en_pub = snd b\<rparr>"
      using get by (auto simp: map_add_Some_iff dest!: map_of_SomeD [of "map _ bs"])
    then show ?thesis
      by cases (use map_ok_get [OF old] fl(2) in \<open>auto simp: entry_ok_def flight_ok_def\<close>)
  qed
  with keys have "map_ok (entry_ok (fw_has_ipv6 f) (wd_asked w)) (fw_entries f)"
    by (simp add: map_ok_def f)
  moreover have "entry_sockets f = entry_sockets (wd_fw w) @ map fst bs"
    by (simp add: entry_sockets_def f comp_def)
  ultimately show ?thesis
    using assms(1,2) f by (simp add: world_ok_def owned_def bound_by_def union_ac)
qed

lemma ok_unpublish:
  assumes "world_ok w" "unpublish_locked spec (wd_fw w) = (f, es)"
  shows "world_ok (w\<lparr>wd_fw := f, wd_closing := map en_listener es @ wd_closing w, wd_unsent := u\<rparr>)"
proof -
  have f: "f = (wd_fw w)\<lparr>fw_entries := filter (\<lambda>(k, e). \<not> pub_matches (en_pub e) spec) (fw_entries (wd_fw w))\<rparr>"
    "es = map snd (filter (\<lambda>(k, e). pub_matches (en_pub e) spec) (fw_entries (wd_fw w)))"
    using assms(2) by (auto simp: unpublish_locked_def)
  have split: "mset (map (en_listener \<circ> snd) (filter (\<lambda>(k, e). \<not> pub_matches (en_pub e) spec) m)) +
      mset (map en_listener (map snd (filter (\<lambda>(k, e). pub_matches (en_pub e) spec) m))) = mset (map (en_listener \<circ> snd) m)"
    for m :: "(port_key \<times> entry) list"
    by (induction m) auto
  have "map_ok (entry_ok (fw_has_ipv6 f) (wd_asked w)) (fw_entries f)"
    using assms(1) by (simp add: world_ok_def f map_ok_filter)
  moreover have "mset (entry_sockets f) + mset (map en_listener es) = mset (entry_sockets (wd_fw w))"
    using split [of "fw_entries (wd_fw w)"] by (simp add: f entry_sockets_def)
  ultimately show ?thesis
    using assms(1) by (simp add: world_ok_def owned_def f(1) add.assoc [symmetric]) (simp add: f union_ac)
qed

lemma ok_shutdown:
  assumes "world_ok w" "close_forwarder (wd_fw w) = (f, ls, cs)"
  shows "world_ok (w\<lparr>wd_fw := f, wd_closing := ls @ wd_closing w\<rparr>)"
  using assms by (auto simp: close_forwarder_def world_simps union_ac split: if_splits)

lemma ok_closed:
  assumes "world_ok w" "wd_closing w = xs @ l # ys"
  shows "world_ok (w\<lparr>wd_closing := xs @ ys, wd_bound := remove1 l (wd_bound w)\<rparr>)"
proof -
  have "distinct (map socket_addr (remove1 l (wd_bound w)))"
    using assms(1) by (auto simp: world_ok_def distinct_map inj_on_def dest: notin_set_remove1)
  moreover have "mset (owned w) = mset (wd_bound w)" using assms(1) by (simp add: world_ok_def)
  then have "mset (wd_bound w) = add_mset l (mset (owned (w\<lparr>wd_closing := xs @ ys\<rparr>)))"
    by (simp add: owned_def assms(2))
  ultimately show ?thesis
    using assms by (simp add: world_simps)
qed

lemma ok_note:
  assumes "world_ok w" "note_error e r (wd_fw w) = (f, news)"
  shows "world_ok (w\<lparr>wd_fw := f, wd_unsent := u\<rparr>)"
  using assms note_error_simps [OF assms(2)] by (simp add: world_ok_def owned_def)

lemma ok_track: "world_ok w \<Longrightarrow> track cs (wd_fw w) = (b, f) \<Longrightarrow> world_ok (w\<lparr>wd_fw := f\<rparr>)"
  by (auto simp: track_def world_simps split: if_splits)

lemma ok_untrack: "world_ok w \<Longrightarrow> world_ok (w\<lparr>wd_fw := untrack cs (wd_fw w)\<rparr>)"
  by (auto simp: untrack_def world_simps)

lemma ok_announce: "world_ok w \<Longrightarrow> world_ok (w\<lparr>wd_unsent := u, wd_recorded := p\<rparr>)"
  by (simp add: world_simps)

lemma fwd_step_ok: "fwd_step w w' \<Longrightarrow> world_ok w \<Longrightarrow> world_ok w'"
  by (induction rule: fwd_step.induct)
    (blast intro: ok_begin ok_bind ok_drop_flight ok_commit ok_unpublish ok_shutdown ok_closed ok_note ok_track
      ok_untrack ok_announce)+

lemma fwd_reachable_ok: "fwd_reachable w \<Longrightarrow> world_ok w"
  by (induction rule: fwd_reachable.induct) (auto intro: start_world_ok fwd_step_ok)


subsection \<open>What is left to do after the close\<close>

definition flight_work :: "in_flight \<Rightarrow> nat" where
  "flight_work x = (case x of (spec, addrs, port, bs) \<Rightarrow> 3 * length addrs + length bs + 1)"

definition wd_work :: "world \<Rightarrow> nat" where
  "wd_work w = sum_list (map flight_work (wd_flight w)) + length (wd_closing w) + length (wd_unsent w)"

lemma closed_step:
  assumes "fwd_step w w'" "world_ok w" "fw_closed (wd_fw w)"
  shows "fw_closed (wd_fw w') \<and> (w' = w \<or> wd_work w' < wd_work w)"
  using assms
proof (induction rule: fwd_step.induct)
  case (step_begin spec w x)
  then show ?case using publish_check_Inr by (auto simp: publish_begin_Inr)
next
  case (step_commit w xs spec port bs ys f)
  then show ?case by (simp add: publish_commit_def)
next
  case (step_unpublish spec w f es)
  then have "f = wd_fw w" "es = []" by (auto simp: unpublish_locked_def world_ok_def)
  then show ?case using step_unpublish by simp
next
  case (step_shutdown w f ls cs)
  then show ?case by (simp add: close_forwarder_def)
next
  case (step_note e reason w f news)
  then show ?case by (auto simp: note_error_def world_ok_def)
next
  case (step_track cs w ok f)
  then show ?case by (simp add: track_def)
next
  case (step_untrack w cs)
  then show ?case by (simp add: untrack_def world_ok_def)
qed (simp_all add: wd_work_def flight_work_def)

lemma work_progress:
  assumes "fw_closed (wd_fw w)" "wd_work w \<noteq> 0"
  shows "\<exists>w'. fwd_step w w' \<and> wd_work w' < wd_work w"
proof -
  have "wd_flight w \<noteq> [] \<or> wd_closing w \<noteq> [] \<or> wd_unsent w \<noteq> []"
    using assms(2) by (auto simp: wd_work_def)
  then consider spec addrs port bs ys where "wd_flight w = [] @ (spec, addrs, port, bs) # ys"
    | l ys where "wd_closing w = [] @ l # ys" | p ys where "wd_unsent w = [] @ p # ys"
    by (metis append_Nil list.exhaust surj_pair)
  then show ?thesis
  proof cases
    case (1 spec addrs port bs ys)
    let ?w = "w\<lparr>wd_flight := [] @ ys, wd_closing := map fst bs @ wd_closing w\<rparr>"
    have "fwd_step w ?w"
    proof (cases addrs)
      case Nil
      moreover have "publish_commit bs (wd_fw w) = Inl Shut_down" by (simp add: publish_commit_def assms(1))
      ultimately show ?thesis using 1 step_abort by blast
    next
      case (Cons a as)
      then show ?thesis using 1 step_refused by blast
    qed
    moreover have "wd_work ?w < wd_work w" using 1 by (simp add: wd_work_def flight_work_def)
    ultimately show ?thesis by blast
  next
    case (2 l ys)
    show ?thesis by (rule exI, rule conjI, rule step_closed [OF 2]) (simp add: wd_work_def 2)
  next
    case (3 p ys)
    show ?thesis by (rule exI, rule conjI, rule step_announce [OF 3]) (simp add: wd_work_def 3)
  qed
qed

subsection \<open>A publish with nothing else running\<close>

lemma binds_distinct: "distinct (map addr_string (binds spec v6))"
proof -
  have "addr_string loopback4 \<noteq> addr_string loopback6" by code_simp
  then show ?thesis by (auto simp: binds_def)
qed

lemma bind_all_hosts: "bind_all listen spec addrs port = (bs, None) \<Longrightarrow> map (pb_host_ip \<circ> snd) bs = map addr_string addrs"
  by (induction listen spec addrs port arbitrary: bs rule: bind_all.induct)
    (auto simp: published_at_def Let_def split: sum.splits prod.splits)

text \<open>A listener that is granted has a port.\<close>

definition listens :: "(string \<Rightarrow> int \<Rightarrow> string + socket) \<Rightarrow> bool" where
  "listens listen \<longleftrightarrow> (\<forall>h p l. listen h p = Inr l \<longrightarrow> sk_port l \<noteq> 0)"

lemma bind_all_port_named:
  assumes "bind_all listen spec addrs port = (bs, e)" "port \<noteq> 0"
  shows "\<forall>b\<in>set bs. pb_host_port (snd b) = port \<and> pb_sandbox_port (snd b) = ps_sandbox_port spec \<and>
     pb_protocol (snd b) = protocol_string (transport_of (ps_protocol spec)) \<and> pb_host_ip (snd b) \<in> addr_string ` set addrs"
  using assms
proof (induction addrs arbitrary: bs)
  case (Cons a addrs)
  show ?case
  proof (cases "listen (addr_string a) port")
    case (Inr l)
    obtain bs' e' where "bind_all listen spec addrs port = (bs', e')" by fastforce
    with Cons Inr show ?thesis by (auto simp: published_at_def bound_port_def)
  qed (use Cons in simp)
qed simp

lemma bind_all_port:
  assumes "bind_all listen spec addrs port = (bs, e)" "listens listen"
  shows "\<exists>p. p \<noteq> 0 \<and> (port \<noteq> 0 \<longrightarrow> p = port) \<and> (\<forall>b\<in>set bs. pb_host_port (snd b) = p \<and>
    pb_sandbox_port (snd b) = ps_sandbox_port spec \<and>
    pb_protocol (snd b) = protocol_string (transport_of (ps_protocol spec)) \<and> pb_host_ip (snd b) \<in> addr_string ` set addrs)"
proof (cases "port = 0 \<and> bs \<noteq> []")
  case False
  then show ?thesis using bind_all_port_named [OF assms(1)] by (cases "port = 0") (auto intro: exI [of _ 1])
next
  case True
  then obtain a as l bs' where *: "addrs = a # as" "listen (addr_string a) 0 = Inr l"
    "bind_all listen spec as (sk_port l) = (bs', e)" "bs = (l, published_at spec a (sk_port l)) # bs'"
    using assms(1) by (cases addrs) (auto simp: bound_port_def Let_def split: sum.splits prod.splits)
  then have "sk_port l \<noteq> 0" using assms(2) by (auto simp: listens_def)
  with * True bind_all_port_named [OF *(3)] show ?thesis
    by (intro exI [of _ "sk_port l"]) (auto simp: published_at_def)
qed

text \<open>
  The listeners the operating system grants a publish of these addresses, up to the first it refuses:
  on the port asked for, or, if none was, on the port of the first.
\<close>

fun granted :: "(string \<Rightarrow> int \<Rightarrow> string + socket) \<Rightarrow> int \<Rightarrow> string list \<Rightarrow> socket list" where
  "granted listen port [] = []"
| "granted listen port (h # hs) =
     (case listen h port of Inl _ \<Rightarrow> []
      | Inr l \<Rightarrow> l # granted listen (if port = 0 then sk_port l else port) hs)"

lemma bind_all_granted: "map fst (fst (bind_all listen spec addrs port)) = granted listen port (map addr_string addrs)"
proof (induction addrs arbitrary: port)
  case (Cons a addrs)
  show ?case
  proof (cases "listen (addr_string a) port")
    case (Inr l)
    then show ?thesis using Cons.IH [of "bound_port port l"] by (simp add: case_prod_beta Let_def) (simp add: bound_port_def)
  qed simp
qed simp

text \<open>The three outcomes of a publish.\<close>

lemma publish_cases:
  assumes "publish listen spec f = (r, f', closed, news)"
  obtains e where "r = Inl e" "f' = f" "closed = []" "news = None" "publish_check spec f = Inl e"
  | e bs err where "r = Inl e" "f' = f" "news = None" "\<not> is_udp (ps_protocol spec)"
      "publish_check spec f = Inr (binds spec (fw_has_ipv6 f))"
      "bind_all listen spec (binds spec (fw_has_ipv6 f)) (ps_host_port spec) = (bs, err)" "closed = map fst bs"
  | bs where "r = Inr (map snd bs)" "closed = []" "news = Some (list_locked f')" "\<not> is_udp (ps_protocol spec)" "\<not> fw_closed f"
      "bind_all listen spec (binds spec (fw_has_ipv6 f)) (ps_host_port spec) = (bs, None)"
      "fw_entries f' = fw_entries f @ map (\<lambda>b. (key_of (snd b), \<lparr>en_listener = fst b, en_pub = snd b\<rparr>)) bs"
proof (cases "publish_check spec f")
  case (Inl e)
  then show thesis using assms by (intro that(1) [of e]) (auto simp: publish_def publish_begin_def)
next
  case (Inr addrs)
  have begun: "publish_begin spec f = Inr (spec, addrs, ps_host_port spec, [])" using Inr by (simp add: publish_begin_Inr)
  note chk = publish_check_Inr [OF Inr]
  obtain bs err where b: "bind_all listen spec addrs (ps_host_port spec) = (bs, err)" by (cases "bind_all listen spec addrs (ps_host_port spec)")
  note out = assms [unfolded publish_def, simplified begun b sum.case prod.case]
  show thesis
  proof (cases err)
    case (Some e)
    then show ?thesis using out chk b Inr by (intro that(2) [of e bs err]) auto
  next
    case None
    then have "map (pb_host_ip \<circ> snd) bs = map addr_string addrs" using b bind_all_hosts by blast
    then have "distinct (map (pb_host_ip \<circ> snd) bs)" using chk binds_distinct by simp
    then have keys: "distinct (map (key_of \<circ> snd) bs)"
      by (rule distinct_map_lift) (auto simp: key_of_def)
    show ?thesis
    proof (cases "publish_commit bs f")
      case (Inl e)
      then show ?thesis using out chk b None Inr by (intro that(2) [of e bs err]) auto
    next
      case c: (Inr f1)
      then show ?thesis using out chk b None publish_commit_Inr(4) [OF c keys] by (intro that(3) [of bs]) auto
    qed
  qed
qed

lemma binds_not_Nil: "binds spec v6 \<noteq> []"
  by (simp add: binds_def)

lemma pub_matches_published:
  assumes "b = published_at spec a p" "\<not> is_udp (ps_protocol spec)" "a \<in> set (binds spec v6)"
  shows "pub_matches b (spec\<lparr>ps_host_port := p\<rparr>)"
  using assms by (auto simp: pub_matches_def published_at_def same_transport_def transport_of_def text_is_udp_def
      is_udp_def binds_def split: if_splits)


text \<open>One publish from start to end inside a run, for the example.\<close>

lemma publish_run:
  assumes "fwd_reachable w" "publish_check spec (wd_fw w) = Inr [a]"
    "grants (wd_bound w) (addr_string a) (ps_host_port spec) l"
    "publish_commit [(l, published_at spec a (bound_port (ps_host_port spec) l))] (wd_fw w) = Inr f"
  shows "fwd_reachable (w\<lparr>wd_fw := f, wd_bound := l # wd_bound w, wd_unsent := list_locked f # wd_unsent w,
    wd_asked := spec # wd_asked w\<rparr>)"
proof -
  let ?w1 = "w\<lparr>wd_flight := (spec, [a], ps_host_port spec, []) # wd_flight w, wd_asked := spec # wd_asked w\<rparr>"
  let ?b = "(l, published_at spec a (bound_port (ps_host_port spec) l))"
  let ?w2 = "?w1\<lparr>wd_flight := [] @ (spec, [], bound_port (ps_host_port spec) l, [] @ [?b]) # wd_flight w, wd_bound := l # wd_bound ?w1\<rparr>"
  let ?w3 = "?w2\<lparr>wd_flight := [] @ wd_flight w, wd_fw := f, wd_unsent := list_locked f # wd_unsent ?w2\<rparr>"
  have "fwd_step w ?w1" by (rule step_begin) (simp add: publish_begin_Inr assms(2))
  moreover have "fwd_step ?w1 ?w2" by (rule step_bind) (use assms(3) in auto)
  moreover have "fwd_step ?w2 ?w3" by (rule step_commit) (use assms(4) in auto)
  ultimately have "fwd_reachable ?w3" using assms(1) by (blast intro: fwd_next)
  then show ?thesis by (cases w) simp
qed

definition spec_port :: "int \<Rightarrow> port_spec" where
  "spec_port n = \<lparr>ps_host_ip = Addr_none, ps_host_port = n, ps_sandbox_port = 3000, ps_protocol = TCP\<rparr>"

definition socket_at :: "int \<Rightarrow> socket" where
  "socket_at n = \<lparr>sk_id = nat n, sk_host = ''127.0.0.1'', sk_port = n\<rparr>"

definition entry_at :: "int \<Rightarrow> port_key \<times> entry" where
  "entry_at n = (let p = published_at (spec_port n) loopback4 n in (key_of p, \<lparr>en_listener = socket_at n, en_pub = p\<rparr>))"

definition one_published :: world where
  "one_published = (let f = (new_forwarder False)\<lparr>fw_entries := [entry_at 8080]\<rparr>
     in (start_world False)\<lparr>wd_fw := f, wd_bound := [socket_at 8080], wd_unsent := [list_locked f],
          wd_asked := [spec_port 8080]\<rparr>)"

lemma loopback_text: "addr_string loopback4 = ''127.0.0.1''"
  by code_simp

lemma one_published_reachable: "fwd_reachable one_published"
proof -
  let ?w0 = "start_world False" and ?f = "(new_forwarder False)\<lparr>fw_entries := [entry_at 8080]\<rparr>"
  have "fwd_reachable (?w0\<lparr>wd_fw := ?f, wd_bound := socket_at 8080 # wd_bound ?w0,
      wd_unsent := list_locked ?f # wd_unsent ?w0, wd_asked := spec_port 8080 # wd_asked ?w0\<rparr>)"
  proof (rule publish_run [OF fwd_start])
    show "publish_check (spec_port 8080) (wd_fw ?w0) = Inr [loopback4]"
      "publish_commit [(socket_at 8080, published_at (spec_port 8080) loopback4
         (bound_port (ps_host_port (spec_port 8080)) (socket_at 8080)))] (wd_fw ?w0) = Inr ?f"
      by code_simp+
    show "grants (wd_bound ?w0) (addr_string loopback4) (ps_host_port (spec_port 8080)) (socket_at 8080)"
      by (simp add: grants_def start_world_def loopback_text socket_at_def spec_port_def)
  qed
  then show ?thesis by (simp add: one_published_def start_world_def Let_def)
qed

subsection \<open>Properties\<close>

text \<open>
  C11: no listener is lost and none is shared. In every state any interleaving of publishes,
  unpublishes, refusals, failures, connection errors and the close can reach, each socket the
  supervisor has bound belongs to exactly one entry, one publish in flight or one pending close, no two
  are bound to the same address, and each entry is found under its own key, is bound where it says, and
  is what an accepted specification asked for: it forwards to its sandbox port, from an address that
  specification binds, on the host port it names, or on one the operating system chose if it names none.
\<close>

theorem forwarder_owns_sockets:
  assumes "fwd_reachable w"
  shows "mset (wd_bound w) = mset (entry_sockets (wd_fw w)) + mset (concat (map bound_by (wd_flight w))) + mset (wd_closing w) \<and>
    distinct (map socket_addr (wd_bound w)) \<and>
    (\<forall>k e. map_of (fw_entries (wd_fw w)) k = Some e \<longrightarrow> k = key_of (en_pub e) \<and>
       socket_addr (en_listener e) = (pb_host_ip (en_pub e), pb_host_port (en_pub e)) \<and>
       (\<exists>spec\<in>set (wd_asked w). pb_sandbox_port (en_pub e) = ps_sandbox_port spec \<and>
          pb_host_ip (en_pub e) \<in> addr_string ` set (binds spec (fw_has_ipv6 (wd_fw w))) \<and>
          pb_host_port (en_pub e) \<noteq> 0 \<and> (ps_host_port spec = 0 \<or> pb_host_port (en_pub e) = ps_host_port spec)))"
proof -
  have ok: "world_ok w" by (rule fwd_reachable_ok [OF assms])
  have "k = key_of (en_pub e) \<and> socket_addr (en_listener e) = (pb_host_ip (en_pub e), pb_host_port (en_pub e)) \<and>
      (\<exists>spec\<in>set (wd_asked w). pb_sandbox_port (en_pub e) = ps_sandbox_port spec \<and>
         pb_host_ip (en_pub e) \<in> addr_string ` set (binds spec (fw_has_ipv6 (wd_fw w))) \<and>
         pb_host_port (en_pub e) \<noteq> 0 \<and> (ps_host_port spec = 0 \<or> pb_host_port (en_pub e) = ps_host_port spec))"
    if "map_of (fw_entries (wd_fw w)) k = Some e" for k e
  proof -
    have "entry_ok (fw_has_ipv6 (wd_fw w)) (wd_asked w) k e"
      using ok map_ok_get [OF _ that] by (auto simp: world_ok_def)
    then obtain spec where "spec \<in> set (wd_asked w)" "k = key_of (en_pub e)"
      "binding_ok (fw_has_ipv6 (wd_fw w)) spec (en_listener e, en_pub e)"
      by (auto simp: entry_ok_def)
    then show ?thesis unfolding binding_ok_def socket_addr_def by (metis fst_conv snd_conv)
  qed
  with ok show ?thesis by (simp add: world_ok_def owned_def union_ac)
qed

theorem forwarder_owns_sockets_witness:
  "\<exists>w e. fwd_reachable w \<and> map snd (fw_entries (wd_fw w)) = [e] \<and> mset (wd_bound w) = {#en_listener e#} \<and>
     socket_addr (en_listener e) = (''127.0.0.1'', 8080) \<and> pb_host_port (en_pub e) = 8080"
proof -
  obtain k e where e: "entry_at 8080 = (k, e)" "en_pub e = published_at (spec_port 8080) loopback4 8080"
    by (simp add: entry_at_def Let_def)
  have w: "fw_entries (wd_fw one_published) = [(k, e)]" "wd_flight one_published = []" "wd_closing one_published = []"
    by (simp_all add: one_published_def start_world_def e(1) Let_def)
  note owns = forwarder_owns_sockets [OF one_published_reachable]
  have bound: "mset (wd_bound one_published) = {#en_listener e#}"
    using conjunct1 [OF owns] by (simp add: w entry_sockets_def)
  have "map_of (fw_entries (wd_fw one_published)) k = Some e" by (simp add: w)
  with owns have "socket_addr (en_listener e) = (pb_host_ip (en_pub e), pb_host_port (en_pub e))" by blast
  then have "socket_addr (en_listener e) = (''127.0.0.1'', 8080)" "pb_host_port (en_pub e) = 8080"
    by (simp_all add: e(2) published_at_def loopback_text)
  moreover have "map snd (fw_entries (wd_fw one_published)) = [e]" by (simp add: w)
  ultimately show ?thesis using one_published_reachable bound
    by (intro exI [of _ one_published] exI [of _ e] conjI)
qed

text \<open>
  C12: a close is complete and ends. Once the forwarder is closed it stays closed, every step that
  changes anything leaves less to do, as long as something is left to do there is a step that does
  some of it, and when nothing is left no host socket is bound: neither a publish that was in flight
  nor a pending unpublish leaves one behind.
\<close>

theorem shutdown_completes:
  assumes "fwd_reachable w" "fw_closed (wd_fw w)"
  shows "(\<forall>w'. fwd_step w w' \<longrightarrow> fw_closed (wd_fw w') \<and> (w' = w \<or> wd_work w' < wd_work w)) \<and>
    (wd_work w \<noteq> 0 \<longrightarrow> (\<exists>w'. fwd_step w w' \<and> wd_work w' < wd_work w)) \<and>
    (wd_work w = 0 \<longrightarrow> wd_bound w = [])"
proof -
  have ok: "world_ok w" by (rule fwd_reachable_ok [OF assms(1)])
  have "wd_bound w = []" if "wd_work w = 0"
  proof -
    have "wd_flight w = []" "wd_closing w = []"
      using that by (cases "wd_flight w"; auto simp: wd_work_def flight_work_def)+
    then have "owned w = []" using ok assms(2) by (simp add: owned_def entry_sockets_def world_ok_def)
    then show ?thesis using ok by (simp add: world_ok_def)
  qed
  then show ?thesis using closed_step ok assms(2) work_progress by blast
qed

theorem shutdown_completes_witness:
  "\<exists>w. fwd_reachable w \<and> fw_closed (wd_fw w) \<and> wd_bound w = []"
proof -
  let ?f = "(new_forwarder False)\<lparr>fw_closed := True\<rparr>"
  let ?w = "(start_world False)\<lparr>wd_fw := ?f, wd_closing := [] @ wd_closing (start_world False)\<rparr>"
  have "fwd_step (start_world False) ?w"
    by (rule step_shutdown [of _ _ "[]" "[]"]) (simp add: close_forwarder_def start_world_def new_forwarder_def)
  then have r: "fwd_reachable ?w" using fwd_start fwd_next by blast
  moreover have "wd_work ?w = 0" by (simp add: wd_work_def start_world_def)
  ultimately show ?thesis using shutdown_completes [OF r] by (intro exI [of _ ?w]) simp
qed

text \<open>
  C32: a publish is all or nothing. With nothing else running, a publish that fails leaves the
  forwarder as it was and announces nothing, and closes every listener the operating system had granted
  it, none if the check refused it before the first bind; one that succeeds closes none, adds one entry
  for each address the specification binds, each with the listener granted for it and all with the same
  port, the one named if one was, and announces the new list.
\<close>

theorem publish_all_or_nothing:
  assumes "publish listen spec f = (r, f', closed, news)" "listens listen"
  shows "case r of
      Inl e \<Rightarrow> f' = f \<and> news = None \<and>
        closed = (if publish_check spec f = Inl e then []
                  else granted listen (ps_host_port spec) (map addr_string (binds spec (fw_has_ipv6 f))))
    | Inr pubs \<Rightarrow> closed = [] \<and> news = Some (list_locked f') \<and>
        map pb_host_ip pubs = map addr_string (binds spec (fw_has_ipv6 f)) \<and>
        map (en_pub \<circ> snd) (fw_entries f') = map (en_pub \<circ> snd) (fw_entries f) @ pubs \<and>
        entry_sockets f' = entry_sockets f @
          granted listen (ps_host_port spec) (map addr_string (binds spec (fw_has_ipv6 f))) \<and>
        (\<exists>port. port \<noteq> 0 \<and> (ps_host_port spec \<noteq> 0 \<longrightarrow> port = ps_host_port spec) \<and>
           (\<forall>p\<in>set pubs. pb_host_port p = port \<and> pb_sandbox_port p = ps_sandbox_port spec))"
  using assms(1)
proof (cases rule: publish_cases)
  case (2 e bs err)
  then show ?thesis using bind_all_granted [of listen spec "binds spec (fw_has_ipv6 f)" "ps_host_port spec"] by simp
next
  case (3 bs)
  have "map (pb_host_ip \<circ> snd) bs = map addr_string (binds spec (fw_has_ipv6 f))" by (rule bind_all_hosts [OF 3(6)])
  moreover have "map fst bs = granted listen (ps_host_port spec) (map addr_string (binds spec (fw_has_ipv6 f)))"
    using bind_all_granted [of listen spec "binds spec (fw_has_ipv6 f)" "ps_host_port spec"] by (simp add: 3(6))
  ultimately show ?thesis using 3 bind_all_port [OF 3(6) assms(2)] by (auto simp: comp_def entry_sockets_def)
qed auto

text \<open>
  In the witness the second address of a port published on both loopbacks is taken: the listener of the
  first is closed again.
\<close>

theorem publish_all_or_nothing_witness:
  "\<exists>e. publish (\<lambda>h p. if h = ''127.0.0.1'' then Inr (socket_at 8080) else Inl ''in use'') (spec_port 8080) (new_forwarder True) =
     (Inl e, new_forwarder True, [socket_at 8080], None)"
proof -
  let ?listen = "\<lambda>h p. if h = ''127.0.0.1'' then Inr (socket_at 8080) else Inl ''in use'' :: string + socket"
  obtain r f' closed news where r: "publish ?listen (spec_port 8080) (new_forwarder True) = (r, f', closed, news)"
    by (cases "publish ?listen (spec_port 8080) (new_forwarder True)") auto
  have l: "listens ?listen" by (simp add: listens_def socket_at_def)
  have "map_sum (\<lambda>_. ()) (\<lambda>_. ()) (fst (publish ?listen (spec_port 8080) (new_forwarder True))) = Inl ()" by code_simp
  then obtain e where e: "r = Inl e" using r by (cases r) auto
  have "map_sum (\<lambda>_. ()) (\<lambda>_. ()) (publish_check (spec_port 8080) (new_forwarder True)) = Inr ()" by code_simp
  then have "publish_check (spec_port 8080) (new_forwarder True) \<noteq> Inl e" by auto
  moreover have "granted ?listen (ps_host_port (spec_port 8080))
      (map addr_string (binds (spec_port 8080) (fw_has_ipv6 (new_forwarder True)))) = [socket_at 8080]" by code_simp
  ultimately show ?thesis using publish_all_or_nothing [OF r l] e r by auto
qed

text \<open>
  What is published can be taken back. Unpublishing a specification that was just published, with
  the port it was given, succeeds, removes every binding of it and closes their listeners, and what
  is listed afterwards is what was listed before without the bindings the specification matches.
\<close>

theorem publish_then_unpublish:
  assumes "publish listen spec f = (Inr pubs, f1, closed1, news1)" "listens listen"
    "unpublish (spec\<lparr>ps_host_port := pb_host_port (hd pubs)\<rparr>) f1 = (r, f2, closed2, news2)"
  shows "\<exists>ps. r = Inr ps \<and> set pubs \<subseteq> set ps \<and> length closed2 = length ps \<and> news2 = Some (list_locked f2) \<and>
    list_locked f2 = filter (\<lambda>p. \<not> pub_matches p (spec\<lparr>ps_host_port := pb_host_port (hd pubs)\<rparr>)) (list_locked f)"
  using assms(1)
proof (cases rule: publish_cases)
  case (3 bs)
  let ?spec = "spec\<lparr>ps_host_port := pb_host_port (hd pubs)\<rparr>"
  let ?match = "\<lambda>p. pub_matches p ?spec"
  have pubs: "pubs = map snd bs" using 3(1) by simp
  have hosts: "map (pb_host_ip \<circ> snd) bs = map addr_string (binds spec (fw_has_ipv6 f))" by (rule bind_all_hosts [OF 3(6)])
  then have ne: "bs \<noteq> []" using binds_not_Nil by auto
  obtain port where port: "\<forall>b\<in>set bs. pb_host_port (snd b) = port \<and> pb_sandbox_port (snd b) = ps_sandbox_port spec \<and>
      pb_protocol (snd b) = protocol_string (transport_of (ps_protocol spec)) \<and>
      pb_host_ip (snd b) \<in> addr_string ` set (binds spec (fw_has_ipv6 f))"
    using bind_all_port [OF 3(6) assms(2)] by blast
  then have "pb_host_port (hd pubs) = port" using ne pubs by (cases bs) auto
  then have all: "?match (snd b)" if "b \<in> set bs" for b
    using port that 3(4) by (auto simp: pub_matches_def same_transport_def transport_of_def text_is_udp_def is_udp_def
        binds_def split: if_splits)
  define es where "es = map snd (filter (\<lambda>(k, e). ?match (en_pub e)) (fw_entries f1))"
  have pubs_in: "set pubs \<subseteq> en_pub ` set es"
    using all by (force simp: es_def 3(7) pubs)
  then have "es \<noteq> []" using ne pubs by auto
  then have u: "r = Inr (sort_published (map en_pub es))" "closed2 = map en_listener es" "news2 = Some (list_locked f2)"
    "fw_entries f2 = filter (\<lambda>(k, e). \<not> ?match (en_pub e)) (fw_entries f1)"
    using assms(3) by (auto simp: unpublish_def unpublish_locked_def es_def [symmetric] split: list.splits)
  have "fw_entries f2 = filter (\<lambda>(k, e). \<not> ?match (en_pub e)) (fw_entries f)"
    using all by (auto simp: u(4) 3(7) filter_empty_conv)
  then have "list_locked f2 = filter (\<lambda>p. \<not> ?match p) (list_locked f)"
    by (simp add: list_locked_def sort_published_def filter_sort filter_map comp_def filter_snd)
  with u pubs_in show ?thesis by (auto simp: sort_published_def)
qed auto

theorem publish_then_unpublish_witness:
  "\<exists>f1 ps. fst (publish (\<lambda>h p. Inr (socket_at 8080)) (spec_port 0) (new_forwarder False)) =
       Inr [published_at (spec_port 0) loopback4 8080] \<and>
     fst (unpublish (spec_port 8080) f1) = Inr ps \<and> published_at (spec_port 0) loopback4 8080 \<in> set ps"
proof -
  let ?listen = "\<lambda>h p. Inr (socket_at 8080) :: string + socket"
  have p: "fst (publish ?listen (spec_port 0) (new_forwarder False)) =
      Inr [published_at (spec_port 0) loopback4 8080]" by code_simp
  then obtain f1 closed1 news1 where r: "publish ?listen (spec_port 0) (new_forwarder False) =
      (Inr [published_at (spec_port 0) loopback4 8080], f1, closed1, news1)"
    by (cases "publish ?listen (spec_port 0) (new_forwarder False)") auto
  have l: "listens ?listen" by (simp add: listens_def socket_at_def)
  have s: "(spec_port 0)\<lparr>ps_host_port := pb_host_port (hd [published_at (spec_port 0) loopback4 8080])\<rparr> = spec_port 8080"
    by (simp add: published_at_def spec_port_def)
  obtain r2 f2 c2 n2 where u: "unpublish (spec_port 8080) f1 = (r2, f2, c2, n2)" by (cases "unpublish (spec_port 8080) f1")
  with publish_then_unpublish [OF r l, unfolded s, OF u] p show ?thesis by (intro exI [of _ f1]) auto
qed

text \<open>
  The recorded ports can be stale. The list to announce is computed under the lock and announced
  after it is released, so two publishes can announce in the other order: everything has settled, and
  the state file still lists one port where two are published.
\<close>

theorem stale_announcement:
  "\<exists>w. fwd_reachable w \<and> wd_work w = 0 \<and> length (list_locked (wd_fw w)) = 2 \<and> length (wd_recorded w) = 1"
proof -
  let ?f1 = "(new_forwarder False)\<lparr>fw_entries := [entry_at 8080]\<rparr>"
  let ?f2 = "(new_forwarder False)\<lparr>fw_entries := [entry_at 8080, entry_at 9090]\<rparr>"
  let ?w1 = one_published
  have w1: "wd_fw ?w1 = ?f1" "wd_bound ?w1 = [socket_at 8080]" "wd_unsent ?w1 = [list_locked ?f1]" "wd_flight ?w1 = []"
    "wd_closing ?w1 = []"
    by (simp_all add: one_published_def start_world_def Let_def)
  let ?w2 = "?w1\<lparr>wd_fw := ?f2, wd_bound := socket_at 9090 # wd_bound ?w1, wd_unsent := list_locked ?f2 # wd_unsent ?w1,
      wd_asked := spec_port 9090 # wd_asked ?w1\<rparr>"
  have r2: "fwd_reachable ?w2"
  proof (rule publish_run [OF one_published_reachable])
    have "publish_check (spec_port 9090) ?f1 = Inr [loopback4]"
      "publish_commit [(socket_at 9090, published_at (spec_port 9090) loopback4
         (bound_port (ps_host_port (spec_port 9090)) (socket_at 9090)))] ?f1 = Inr ?f2"
      by code_simp+
    then show "publish_check (spec_port 9090) (wd_fw ?w1) = Inr [loopback4]"
      "publish_commit [(socket_at 9090, published_at (spec_port 9090) loopback4
         (bound_port (ps_host_port (spec_port 9090)) (socket_at 9090)))] (wd_fw ?w1) = Inr ?f2"
      by (simp_all add: w1)
    show "grants (wd_bound ?w1) (addr_string loopback4) (ps_host_port (spec_port 9090)) (socket_at 9090)"
      by (simp add: grants_def w1 loopback_text socket_at_def spec_port_def socket_addr_def)
  qed
  let ?w3 = "?w2\<lparr>wd_unsent := [] @ [list_locked ?f1], wd_recorded := list_locked ?f2\<rparr>"
  let ?w4 = "?w3\<lparr>wd_unsent := [] @ [], wd_recorded := list_locked ?f1\<rparr>"
  have "fwd_step ?w2 ?w3" by (rule step_announce) (simp add: w1)
  moreover have "fwd_step ?w3 ?w4" by (rule step_announce) simp
  ultimately have "fwd_reachable ?w4" using r2 by (blast intro: fwd_next)
  moreover have "length (list_locked ?f2) = 2" "length (list_locked ?f1) = 1"
    by (simp_all add: list_locked_def sort_published_def)
  ultimately show ?thesis
    by (intro exI [of _ ?w4]) (simp add: wd_work_def w1)
qed

end
