(* ===== verification/Network_Stack.thy ===== *)
theory Network_Stack
  imports Policy_Log
begin

section \<open>The host side of the virtual network: \<open>internal/network/stack.go\<close> and \<open>gateway.go\<close>\<close>

text \<open>
  Every frame of the guest passes a filter; the TCP connections that survive it are judged by the policy on
  their address and port, dialled and spliced. The packet accessors and the stack behind the filter
  are a library's: a packet is the record of what those accessors return. Connections are
  numbers; what the operational log and the dialer see is kept in the state.
\<close>

subsection \<open>The filter\<close>

record packet =
  pk_length :: nat
  pk_dst :: addr
  pk_transport :: nat
  pk_fragment :: nat
  pk_header :: nat
  pk_port :: nat

record drop_reason =
  dr_operational :: string
  dr_reason :: string
  dr_target :: "target option"

definition hex4 :: "nat \<Rightarrow> string" where
  "hex4 n = (let h = show_hex n in replicate (4 - length h) CHR ''0'' @ h)"

definition udp_destination_port :: "packet \<Rightarrow> nat option" where
  "udp_destination_port p =
     (if pk_fragment p \<noteq> 0 then None
      else if pk_header p < 20 then None
      else if pk_length p < pk_header p + 8 then None
      else Some (pk_port p))"

text \<open>\<open>classify\<close>: \<open>None\<close> where the frame may pass.\<close>

definition classify :: "addr \<Rightarrow> nat \<Rightarrow> packet \<Rightarrow> drop_reason option" where
  "classify gateway protocol p =
     (if protocol = 0x0806 then None
      else if protocol \<noteq> 0x0800 then
        Some \<lparr>dr_operational = ''a frame of ethertype 0x'' @ hex4 protocol @ '', which this stack does not carry'', dr_reason = [], dr_target = None\<rparr>
      else if pk_length p < 20 then Some \<lparr>dr_operational = ''a truncated IPv4 packet'', dr_reason = [], dr_target = None\<rparr>
      else (let dst = unmap (pk_dst p)
        in if pk_transport p = 6 then None
           else if pk_transport p = 17 then
             (case udp_destination_port p of
                None \<Rightarrow> Some \<lparr>dr_operational = ''a truncated or fragmented UDP datagram to '' @ addr_string dst, dr_reason = [], dr_target = None\<rparr>
              | Some port \<Rightarrow>
                  if port = 53 \<and> dst = gateway then None
                  else if port = 67 then None
                  else Some \<lparr>dr_operational = ''udp to '' @ addr_string dst @ '':'' @ itoa (int port) @ '' (only DNS to the gateway is carried)'',
                             dr_reason = ''udp is not carried; only DNS to the sandbox's own resolver is'',
                             dr_target = Some (target_from_addr dst port)\<rparr>)
           else if pk_transport p = 1 then
             Some \<lparr>dr_operational = ''icmp to '' @ addr_string dst @ '' (icmp is not carried)'',
                   dr_reason = ''icmp is not carried, and no rule can permit it'', dr_target = Some (target_from_addr dst 0)\<rparr>
           else
             Some \<lparr>dr_operational = ''ip protocol '' @ itoa (int (pk_transport p)) @ '' to '' @ addr_string dst @ '' (only tcp is carried)'',
                   dr_reason = ''ip protocol '' @ itoa (int (pk_transport p)) @ '' is not carried; only tcp is'',
                   dr_target = Some (target_from_addr dst 0)\<rparr>))"

subsection \<open>The stack\<close>

record host_stack =
  hs_subnet :: ip_prefix
  hs_gateway :: addr
  hs_metadata :: bool
  hs_engine :: "engine option"
  hs_closed :: bool
  hs_conns :: "nat list"
  hs_noticed :: "string list"
  hs_logged :: "string list"

definition max_noticed :: nat where "max_noticed = 64"

definition note_drop :: "string \<Rightarrow> host_stack \<Rightarrow> host_stack" where
  "note_drop what h =
     (if what \<in> set (hs_noticed h) \<or> max_noticed \<le> length (hs_noticed h) then h
      else h\<lparr>hs_noticed := hs_noticed h @ [what], hs_logged := hs_logged h @ [''network: dropped '' @ what]\<rparr>)"

definition note_dropped_flow :: "int \<Rightarrow> target \<Rightarrow> string \<Rightarrow> string \<Rightarrow> host_stack \<Rightarrow> host_stack" where
  "note_dropped_flow now t reason operational h =
     (let seen = operational \<in> set (hs_noticed h); full = max_noticed \<le> length (hs_noticed h);
          h1 = (if \<not> seen \<and> \<not> full then h\<lparr>hs_noticed := hs_noticed h @ [operational]\<rparr> else h)
      in if seen \<or> full then h1
         else h1\<lparr>hs_logged := hs_logged h1 @ [''network: dropped '' @ operational],
                 hs_engine := map_option (\<lambda>e. snd (note_refused now Stage_network t Mode_transparent reason e)) (hs_engine h1)\<rparr>)"

definition note_link_drop :: "int \<Rightarrow> drop_reason \<Rightarrow> host_stack \<Rightarrow> host_stack" where
  "note_link_drop now why h =
     (case dr_target why of
        None \<Rightarrow> note_drop (dr_operational why) h
      | Some t \<Rightarrow> note_dropped_flow now t (dr_reason why) (dr_operational why) h)"

text \<open>\<open>DeliverNetworkPacket\<close>: whether the frame reaches the stack.\<close>

definition deliver :: "int \<Rightarrow> nat \<Rightarrow> packet \<Rightarrow> host_stack \<Rightarrow> bool \<times> host_stack" where
  "deliver now protocol p h =
     (case classify (hs_gateway h) protocol p of
        None \<Rightarrow> (True, h)
      | Some why \<Rightarrow> (False, if dr_operational why \<noteq> [] then note_link_drop now why h else h))"

definition judge :: "int \<Rightarrow> target \<Rightarrow> host_stack \<Rightarrow> bool \<times> host_stack" where
  "judge now t h =
     (case hs_engine h of
        None \<Rightarrow> (False, note_drop (''tcp to '' @ target_string t @ '' with no policy attached to this stack'') h)
      | Some e \<Rightarrow> (case check_mode now Stage_network t Mode_transparent e of (d, e') \<Rightarrow> (d_allowed d, h\<lparr>hs_engine := Some e'\<rparr>)))"

text \<open>\<open>IsLinkLocalUnicast\<close> of \<open>net/netip\<close>.\<close>

definition link_local :: "addr \<Rightarrow> bool" where
  "link_local a = (case a of A4 w \<Rightarrow> unat w div 2 ^ 16 = 0xA9FE | A6 w _ \<Rightarrow> unat w div 2 ^ 118 = 0xFE80 div 2 ^ 6 | Addr_none \<Rightarrow> False)"

text \<open>
  A connection the guest opens: reset, taken but not accepted, or spliced with the outbound one. The dial
  is given by its error, if any, and the accept by whether it works. The addresses dialled are returned.
\<close>

datatype tcp_end = Tcp_reset | Tcp_not_accepted | Tcp_spliced

definition forward_tcp :: "int \<Rightarrow> addr option \<Rightarrow> nat \<Rightarrow> string option \<Rightarrow> bool \<Rightarrow> host_stack \<Rightarrow> tcp_end \<times> (addr \<times> nat) list \<times> host_stack" where
  "forward_tcp now local port dialled accepted h =
     (case local of
        None \<Rightarrow> (Tcp_reset, [], h)
      | Some a \<Rightarrow>
          (let dst = unmap a; t = target_from_addr dst port
           in if prefix_contains (hs_subnet h) dst then
                (Tcp_reset, [], note_drop (''tcp to '' @ addr_string dst @ '':'' @ itoa (int port) @ '' inside the sandbox's own network, where nothing answers'') h)
              else if \<not> hs_metadata h \<and> link_local dst then
                (Tcp_reset, [],
                 note_drop (''tcp to link-local '' @ addr_string dst @ '':'' @ itoa (int port) @ '', which includes the instance metadata endpoint'') h)
              else (case judge now t h of (allowed, h1) \<Rightarrow>
                if \<not> allowed then (Tcp_reset, [], h1)
                else (case dialled of
                    Some err \<Rightarrow> (Tcp_reset, [(dst, port)], note_drop (''tcp to '' @ target_string t @ '': '' @ err) h1)
                  | None \<Rightarrow>
                      if \<not> accepted then
                        (Tcp_not_accepted, [(dst, port)], h1\<lparr>hs_logged := hs_logged h1 @ [''network: accepting the guest's connection to '' @ target_string t]\<rparr>)
                      else (Tcp_spliced, [(dst, port)], h1)))))"

definition track_flow :: "nat list \<Rightarrow> host_stack \<Rightarrow> bool \<times> host_stack" where
  "track_flow cs h = (if hs_closed h then (False, h) else (True, h\<lparr>hs_conns := foldl (\<lambda>xs c. List.insert c xs) (hs_conns h) cs\<rparr>))"

definition untrack_flow :: "nat list \<Rightarrow> host_stack \<Rightarrow> host_stack" where
  "untrack_flow cs h = h\<lparr>hs_conns := foldl (\<lambda>xs c. removeAll c xs) (hs_conns h) cs\<rparr>"

text \<open>\<open>stop\<close>: the connections it closes.\<close>

definition stop_stack :: "host_stack \<Rightarrow> nat list \<times> host_stack" where
  "stop_stack h = (if hs_closed h then ([], h) else (hs_conns h, h\<lparr>hs_closed := True, hs_conns := []\<rparr>))"

text \<open>
  The connections of the stack as they interleave: an outbound one is opened for a flow, the flow is tracked or turned
  away, it ends by itself, and the stack stops, which closes what it took from the table afterwards.
\<close>

record flows =
  fl_stack :: host_stack
  fl_flying :: "nat list"
  fl_closing :: "nat list"
  fl_open :: "nat set"

inductive flow_step :: "flows \<Rightarrow> flows \<Rightarrow> bool" where
  flow_dial: "c \<notin> fl_open w \<Longrightarrow> forward_tcp now a port None True (fl_stack w) = (Tcp_spliced, ds, h) \<Longrightarrow>
    flow_step w (w\<lparr>fl_stack := h, fl_flying := c # fl_flying w, fl_open := insert c (fl_open w)\<rparr>)"
| flow_track: "fl_flying w = xs @ c # ys \<Longrightarrow> track_flow [c] (fl_stack w) = (True, h) \<Longrightarrow>
    flow_step w (w\<lparr>fl_stack := h, fl_flying := xs @ ys\<rparr>)"
| flow_refused: "fl_flying w = xs @ c # ys \<Longrightarrow> track_flow [c] (fl_stack w) = (False, h) \<Longrightarrow>
    flow_step w (w\<lparr>fl_stack := h, fl_flying := xs @ ys, fl_open := fl_open w - {c}\<rparr>)"
| flow_end: "c \<notin> set (fl_flying w) \<Longrightarrow>
    flow_step w (w\<lparr>fl_stack := untrack_flow [c] (fl_stack w), fl_open := fl_open w - {c}\<rparr>)"
| flow_stop: "stop_stack (fl_stack w) = (cs, h) \<Longrightarrow> flow_step w (w\<lparr>fl_stack := h, fl_closing := cs @ fl_closing w\<rparr>)"
| flow_close: "fl_closing w = xs @ c # ys \<Longrightarrow> flow_step w (w\<lparr>fl_closing := xs @ ys, fl_open := fl_open w - {c}\<rparr>)"
| flow_frame: "deliver now protocol p (fl_stack w) = (passed, h) \<Longrightarrow> flow_step w (w\<lparr>fl_stack := h\<rparr>)"

inductive flow_reachable :: "flows \<Rightarrow> bool" where
  flow_start: "hs_conns h = [] \<Longrightarrow> \<not> hs_closed h \<Longrightarrow> flow_reachable \<lparr>fl_stack = h, fl_flying = [], fl_closing = [], fl_open = {}\<rparr>"
| flow_next: "flow_reachable w \<Longrightarrow> flow_step w w' \<Longrightarrow> flow_reachable w'"

subsection \<open>Lemmas\<close>

lemma note_drop_keeps [simp]: "hs_conns (note_drop s h) = hs_conns h" "hs_closed (note_drop s h) = hs_closed h" "hs_engine (note_drop s h) = hs_engine h"
  by (simp_all add: note_drop_def)

lemma deliver_keeps: "deliver now protocol p h = (passed, h') \<Longrightarrow> hs_conns h' = hs_conns h \<and> hs_closed h' = hs_closed h"
  by (auto simp: deliver_def note_link_drop_def note_dropped_flow_def Let_def split: option.splits if_splits)

lemma judge_keeps:
  assumes "judge now t h = (ok, h')"
  shows "hs_conns h' = hs_conns h" "hs_closed h' = hs_closed h" "ok \<longleftrightarrow> (\<exists>e. hs_engine h = Some e \<and> v_allowed (evaluate (en_policy e) t))"
    "map_option en_policy (hs_engine h') = map_option en_policy (hs_engine h)"
  using assms by (auto simp: judge_def engine_defs split: option.splits prod.splits)

lemma forward_keeps: "forward_tcp now a port d acc h = (r, ds, h') \<Longrightarrow> hs_conns h' = hs_conns h \<and> hs_closed h' = hs_closed h"
  by (auto simp: forward_tcp_def Let_def dest: judge_keeps split: option.splits if_splits prod.splits)

definition flows_ok :: "flows \<Rightarrow> bool" where
  "flows_ok w \<longleftrightarrow> fl_open w \<subseteq> set (fl_flying w) \<union> set (hs_conns (fl_stack w)) \<union> set (fl_closing w) \<and>
     (hs_closed (fl_stack w) \<longrightarrow> hs_conns (fl_stack w) = [])"

lemma flow_step_ok:
  assumes "flow_step w w'" "flows_ok w"
  shows "flows_ok w'"
  using assms
proof (induction rule: flow_step.induct)
  case (flow_dial c w now a port ds h)
  then show ?case using forward_keeps [OF flow_dial(2)] by (auto simp: flows_ok_def)
next
  case (flow_frame now protocol p w passed h)
  then show ?case using deliver_keeps [OF flow_frame(1)] by (auto simp: flows_ok_def)
qed (auto simp: flows_ok_def track_flow_def untrack_flow_def stop_stack_def split: if_splits)

lemma flow_reachable_ok: "flow_reachable w \<Longrightarrow> flows_ok w"
proof (induction rule: flow_reachable.induct)
  case (flow_next w w')
  then show ?case by (blast intro: flow_step_ok)
qed (auto simp: flows_ok_def)

text \<open>A sequence of frames, and what it adds to the logs.\<close>

fun deliver_all :: "(int \<times> nat \<times> packet) list \<Rightarrow> host_stack \<Rightarrow> host_stack" where
  "deliver_all [] h = h"
| "deliver_all ((now, protocol, p) # fs) h = deliver_all fs (snd (deliver now protocol p h))"

definition noticed_ok :: "string list \<Rightarrow> engine option \<Rightarrow> host_stack \<Rightarrow> bool" where
  "noticed_ok lines e h \<longleftrightarrow> distinct (hs_noticed h) \<and> length (hs_noticed h) \<le> max_noticed \<and>
     hs_logged h = lines @ map (\<lambda>w. ''network: dropped '' @ w) (hs_noticed h) \<and>
     (case e of None \<Rightarrow> hs_engine h = None
      | Some e0 \<Rightarrow> \<exists>e1 ds. hs_engine h = Some e1 \<and> en_policy e1 = en_policy e0 \<and> length ds \<le> length (hs_noticed h) \<and>
          list_all (\<lambda>d. \<not> d_allowed d) ds \<and> lg_sinks (en_log e1) = map (\<lambda>s. s @ ds) (lg_sinks (en_log e0)))"

lemma sinks_note_refused: "lg_sinks (en_log (snd (note_refused now stg t m r e))) =
    map (\<lambda>s. s @ [fst (note_refused now stg t m r e)]) (lg_sinks (en_log e))"
  by (simp add: engine_defs log_record_eq Let_def)

lemma note_refused_denied: "\<not> d_allowed (fst (note_refused now stg t m r e))" "en_policy (snd (note_refused now stg t m r e)) = en_policy e"
  by (simp_all add: engine_defs Let_def)

lemma note_drop_ok: "noticed_ok lines e h \<Longrightarrow> noticed_ok lines e (note_drop w h)"
  by (cases e) (auto simp: noticed_ok_def note_drop_def intro: le_SucI)

lemma note_flow_ok:
  assumes "noticed_ok lines e h"
  shows "noticed_ok lines e (note_dropped_flow now t r w h)"
proof (cases "w \<in> set (hs_noticed h) \<or> max_noticed \<le> length (hs_noticed h)")
  case True
  then have "note_dropped_flow now t r w h = h" by (auto simp: note_dropped_flow_def Let_def)
  then show ?thesis using assms by simp
next
  case False
  then have h: "note_dropped_flow now t r w h = h\<lparr>hs_noticed := hs_noticed h @ [w], hs_logged := hs_logged h @ [''network: dropped '' @ w],
      hs_engine := map_option (\<lambda>e. snd (note_refused now Stage_network t Mode_transparent r e)) (hs_engine h)\<rparr>"
    by (simp add: note_dropped_flow_def Let_def)
  show ?thesis
  proof (cases e)
    case None
    then show ?thesis using assms False unfolding h by (auto simp: noticed_ok_def)
  next
    case (Some e0)
    then obtain e1 ds where e1: "hs_engine h = Some e1" "en_policy e1 = en_policy e0" "length ds \<le> length (hs_noticed h)"
        "list_all (\<lambda>d. \<not> d_allowed d) ds" "lg_sinks (en_log e1) = map (\<lambda>s. s @ ds) (lg_sinks (en_log e0))"
      using assms by (auto simp: noticed_ok_def)
    let ?e2 = "note_refused now Stage_network t Mode_transparent r e1"
    have "en_policy (snd ?e2) = en_policy e0" "list_all (\<lambda>d. \<not> d_allowed d) (ds @ [fst ?e2])" "length (ds @ [fst ?e2]) \<le> Suc (length (hs_noticed h))"
        "lg_sinks (en_log (snd ?e2)) = map (\<lambda>s. s @ (ds @ [fst ?e2])) (lg_sinks (en_log e0))"
      using e1 by (simp_all add: note_refused_denied sinks_note_refused)
    then have "\<exists>ds'. length ds' \<le> Suc (length (hs_noticed h)) \<and> list_all (\<lambda>d. \<not> d_allowed d) ds' \<and>
        lg_sinks (en_log (snd ?e2)) = map (\<lambda>s. s @ ds') (lg_sinks (en_log e0))" by blast
    then show ?thesis using assms False e1(1,2) Some unfolding h
      by (simp add: noticed_ok_def note_refused_denied(2))
  qed
qed

lemma deliver_ok: "noticed_ok lines e h \<Longrightarrow> noticed_ok lines e (snd (deliver now protocol p h))"
  by (auto simp: deliver_def note_link_drop_def intro: note_drop_ok note_flow_ok split: option.split)

lemma deliver_all_ok: "noticed_ok lines e h \<Longrightarrow> noticed_ok lines e (deliver_all fs h)"
  by (induction fs h rule: deliver_all.induct) (auto intro: deliver_ok)

subsection \<open>Properties\<close>

text \<open>
  What the filter lets through, which is a list of four: ARP, TCP over IPv4 whatever its destination, which the
  forwarder judges, datagrams to port 53 of the gateway, and datagrams to port 67. Everything else is dropped, and
  a dropped frame with a legible destination is recorded as refused if it is the first of its kind.
\<close>

theorem filter_whitelist:
  "classify gateway protocol p = None \<longleftrightarrow>
     protocol = 0x0806 \<or>
     protocol = 0x0800 \<and> 20 \<le> pk_length p \<and>
       (pk_transport p = 6 \<or>
        pk_transport p = 17 \<and> pk_fragment p = 0 \<and> 20 \<le> pk_header p \<and> pk_header p + 8 \<le> pk_length p \<and>
          (pk_port p = 53 \<and> unmap (pk_dst p) = gateway \<or> pk_port p = 67))"
  by (auto simp: classify_def udp_destination_port_def Let_def)

lemma forward_tcp_dials:
  assumes "forward_tcp now a port dialled accepted h = (r, ds, h')"
  shows "list_all (\<lambda>(dst, p). p = port \<and> map_option unmap a = Some dst \<and> \<not> prefix_contains (hs_subnet h) dst \<and> (hs_metadata h \<or> \<not> link_local dst) \<and>
      (\<exists>e. hs_engine h = Some e \<and> v_allowed (evaluate (en_policy e) (target_from_addr dst port)))) ds \<and>
    (r = Tcp_spliced \<longrightarrow> ds \<noteq> []) \<and> map_option en_policy (hs_engine h') = map_option en_policy (hs_engine h)"
  using assms
  by (auto simp: forward_tcp_def Let_def split: option.splits if_splits prod.splits dest: judge_keeps(3,4))

text \<open>
  C5: what the stack dials. Only for a connection outside the sandbox's own network and, unless the metadata endpoint is
  enabled, outside the link-local addresses, and only to the address and port the guest's packet names,
  where a policy is attached that allows them. A connection is spliced only to an address dialled.
\<close>

theorem stack_dials_allowed:
  assumes "forward_tcp now a port dialled accepted h = (r, ds, h')"
  shows "list_all (\<lambda>(dst, p). p = port \<and> map_option unmap a = Some dst \<and> \<not> prefix_contains (hs_subnet h) dst \<and> (hs_metadata h \<or> \<not> link_local dst) \<and>
      (\<exists>e. hs_engine h = Some e \<and> v_allowed (evaluate (en_policy e) (target_from_addr dst port)))) ds \<and>
    (r = Tcp_spliced \<longrightarrow> ds \<noteq> []) \<and> map_option en_policy (hs_engine h') = map_option en_policy (hs_engine h)"
  by (rule forward_tcp_dials [OF assms])

definition stack_ex :: "policy \<Rightarrow> host_stack" where
  "stack_ex p =
     \<lparr>hs_subnet = \<lparr>pfx_addr = A4 0xC0A87F00, pfx_bits = 24\<rparr>, hs_gateway = A4 0xC0A87F01, hs_metadata = False,
      hs_engine = Some (new_engine p (Some (new_log 1))), hs_closed = False, hs_conns = [], hs_noticed = [], hs_logged = []\<rparr>"

theorem stack_dials_allowed_witness:
  "\<exists>h'. forward_tcp 0 (Some (A4 0x01020304)) 443 None True (stack_ex \<lparr>pol_name = ''p'', pol_default = Allow, pol_rules = []\<rparr>) =
     (Tcp_spliced, [(A4 0x01020304, 443)], h') \<and> \<not> link_local (A4 0x01020304)"
proof -
  let ?h = "stack_ex \<lparr>pol_name = ''p'', pol_default = Allow, pol_rules = []\<rparr>"
  have "fst (forward_tcp 0 (Some (A4 0x01020304)) 443 None True ?h) = Tcp_spliced \<and>
      fst (snd (forward_tcp 0 (Some (A4 0x01020304)) 443 None True ?h)) = [(A4 0x01020304, 443)]" by code_simp
  then obtain h' where run: "forward_tcp 0 (Some (A4 0x01020304)) 443 None True ?h = (Tcp_spliced, [(A4 0x01020304, 443)], h')"
    by (metis prod.collapse)
  from stack_dials_allowed [OF run] show ?thesis using run by (auto simp: stack_ex_def)
qed

text \<open>
  The guest does not choose how large the logs get. Whatever frames it sends to a stack that has noticed nothing yet,
  at most 64 lines are added to the operational log, all different, and at most as many
  decisions to every sink of the policy log, all of them refusals.
\<close>

theorem drops_bounded:
  assumes "hs_noticed h = []"
  shows "\<exists>lines. hs_logged (deliver_all fs h) = hs_logged h @ lines \<and> length lines \<le> 64 \<and> distinct lines \<and>
    (case hs_engine h of None \<Rightarrow> hs_engine (deliver_all fs h) = None
     | Some e0 \<Rightarrow> \<exists>e1 ds. hs_engine (deliver_all fs h) = Some e1 \<and> en_policy e1 = en_policy e0 \<and> length ds \<le> 64 \<and>
         list_all (\<lambda>d. \<not> d_allowed d) ds \<and> lg_sinks (en_log e1) = map (\<lambda>s. s @ ds) (lg_sinks (en_log e0)))"
proof -
  have "noticed_ok (hs_logged h) (hs_engine h) h"
    using assms by (auto simp: noticed_ok_def max_noticed_def split: option.split intro!: exI [of _ "[]"])
  note ok = deliver_all_ok [OF this, of fs, unfolded noticed_ok_def max_noticed_def]
  let ?lines = "map (\<lambda>w. ''network: dropped '' @ w) (hs_noticed (deliver_all fs h))"
  have "distinct ?lines" "length ?lines \<le> 64" "hs_logged (deliver_all fs h) = hs_logged h @ ?lines"
    using ok by (auto simp: distinct_map inj_on_def)
  moreover have "case hs_engine h of None \<Rightarrow> hs_engine (deliver_all fs h) = None
     | Some e0 \<Rightarrow> \<exists>e1 ds. hs_engine (deliver_all fs h) = Some e1 \<and> en_policy e1 = en_policy e0 \<and> length ds \<le> 64 \<and>
         list_all (\<lambda>d. \<not> d_allowed d) ds \<and> lg_sinks (en_log e1) = map (\<lambda>s. s @ ds) (lg_sinks (en_log e0))"
  proof (cases "hs_engine h")
    case None
    then show ?thesis using ok by simp
  next
    case (Some e0)
    then show ?thesis using ok unfolding Some option.case by (meson le_trans)
  qed
  ultimately show ?thesis by blast
qed

theorem drops_bounded_witness:
  "\<exists>lines. hs_logged (deliver_all [(0, 0x86DD, \<lparr>pk_length = 40, pk_dst = Addr_none, pk_transport = 58, pk_fragment = 0, pk_header = 40, pk_port = 0\<rparr>)]
     (stack_ex \<lparr>pol_name = ''p'', pol_default = Allow, pol_rules = []\<rparr>)) = lines \<and> length lines \<le> 64"
  using drops_bounded [of "stack_ex \<lparr>pol_name = ''p'', pol_default = Allow, pol_rules = []\<rparr>"
      "[(0, 0x86DD, \<lparr>pk_length = 40, pk_dst = Addr_none, pk_transport = 58, pk_fragment = 0, pk_header = 40, pk_port = 0\<rparr>)]"]
  by (auto simp: stack_ex_def)

text \<open>
  Nothing outlives the stack. In every interleaving of flows, frames and the stop, once the stack is stopped its table
  is empty, and a connection still open is one the stop is about to close or one that is about to be turned away.
\<close>

theorem flows_end_with_stack:
  assumes "flow_reachable w" "hs_closed (fl_stack w)"
  shows "hs_conns (fl_stack w) = [] \<and> fl_open w \<subseteq> set (fl_closing w) \<union> set (fl_flying w) \<and> \<not> fst (track_flow [c] (fl_stack w))"
  using flow_reachable_ok [OF assms(1)] assms(2) by (auto simp: flows_ok_def track_flow_def)

theorem flows_end_with_stack_witness:
  "\<exists>h. snd (stop_stack (stack_ex \<lparr>pol_name = ''p'', pol_default = Allow, pol_rules = []\<rparr>)) = h \<and> \<not> fst (track_flow [1] h)"
proof -
  let ?h = "stack_ex \<lparr>pol_name = ''p'', pol_default = Allow, pol_rules = []\<rparr>"
  let ?w = "\<lparr>fl_stack = ?h, fl_flying = [], fl_closing = [], fl_open = {}\<rparr>"
  have "flow_reachable ?w" by (rule flow_start) (simp_all add: stack_ex_def)
  moreover have "stop_stack (fl_stack ?w) = ([], ?h\<lparr>hs_closed := True, hs_conns := []\<rparr>)" by (simp add: stop_stack_def stack_ex_def)
  ultimately have "flow_reachable (?w\<lparr>fl_stack := ?h\<lparr>hs_closed := True, hs_conns := []\<rparr>, fl_closing := [] @ fl_closing ?w\<rparr>)"
    by (rule flow_next [OF _ flow_stop])
  from flows_end_with_stack [OF this, of 1] show ?thesis by (simp add: stop_stack_def stack_ex_def)
qed

end
