(* ===== verification/Network_Gateway.thy ===== *)
theory Network_Gateway
  imports Network_Stack
begin

section \<open>The link of one VM: \<open>internal/network/gateway.go\<close> and \<open>provider.go\<close>\<close>

text \<open>
  A gateway owns the socket a VM connects to and takes one connection at a time. Connections are numbers; each
  critical section is a function, and the step relation interleaves them with the closing that
  happens outside the lock. A network around it is started and stopped once; the engine it judges with is a
  reference, given by a number.
\<close>

subsection \<open>The gateway\<close>

record gateway =
  gw_listening :: bool
  gw_conn :: "nat option"
  gw_stopped :: bool
  gw_notices :: nat
  gw_attached :: bool

definition new_gateway :: gateway where
  "new_gateway = \<lparr>gw_listening = False, gw_conn = None, gw_stopped = False, gw_notices = 0, gw_attached = False\<rparr>"

definition max_link_notices :: nat where "max_link_notices = 16"

text \<open>\<open>notice\<close>: how many lines are written.\<close>

definition notice :: "gateway \<Rightarrow> nat \<times> gateway" where
  "notice g =
     (let count = gw_notices g + 1
      in (if count < max_link_notices then 1 else if count = max_link_notices then 2 else 0, g\<lparr>gw_notices := count\<rparr>))"

definition claim :: "nat \<Rightarrow> gateway \<Rightarrow> bool \<times> gateway" where
  "claim c g = (if gw_stopped g \<or> gw_conn g \<noteq> None then (False, g) else (True, g\<lparr>gw_conn := Some c, gw_attached := True\<rparr>))"

definition release :: "nat \<Rightarrow> gateway \<Rightarrow> gateway" where
  "release c g = (if gw_conn g = Some c then g\<lparr>gw_conn := None\<rparr> else g)"

text \<open>What is closed when the context ends, and when the gateway is stopped: the listener, and connections.\<close>

definition close_link :: "gateway \<Rightarrow> bool \<times> nat list" where
  "close_link g = (gw_listening g, case gw_conn g of None \<Rightarrow> [] | Some c \<Rightarrow> [c])"

definition stop_gateway :: "gateway \<Rightarrow> (bool \<times> nat list) \<times> gateway" where
  "stop_gateway g =
     (if gw_stopped g then ((False, []), g)
      else ((gw_listening g, case gw_conn g of None \<Rightarrow> [] | Some c \<Rightarrow> [c]), g\<lparr>gw_stopped := True, gw_conn := None\<rparr>))"

subsection \<open>Interleaving\<close>

record link_world =
  lw_gateway :: gateway
  lw_live :: "nat set"
  lw_closing :: "nat list"
  lw_lines :: nat

inductive link_step :: "link_world \<Rightarrow> link_world \<Rightarrow> bool" where
  link_claimed: "c \<notin> lw_live w \<Longrightarrow> claim c (lw_gateway w) = (True, g) \<Longrightarrow>
    link_step w (w\<lparr>lw_gateway := g, lw_live := insert c (lw_live w)\<rparr>)"
| link_refused: "c \<notin> lw_live w \<Longrightarrow> claim c (lw_gateway w) = (False, g) \<Longrightarrow> notice g = (n, g') \<Longrightarrow>
    link_step w (w\<lparr>lw_gateway := g', lw_lines := lw_lines w + n\<rparr>)"
| link_ended: "notice (lw_gateway w) = (n, g) \<Longrightarrow> link_step w (w\<lparr>lw_gateway := g, lw_lines := lw_lines w + n\<rparr>)"
| link_released: "link_step w (w\<lparr>lw_gateway := release c (lw_gateway w), lw_live := lw_live w - {c}\<rparr>)"
| link_cancelled: "close_link (lw_gateway w) = (l, cs) \<Longrightarrow> link_step w (w\<lparr>lw_closing := cs @ lw_closing w\<rparr>)"
| link_stopped: "stop_gateway (lw_gateway w) = ((l, cs), g) \<Longrightarrow> link_step w (w\<lparr>lw_gateway := g, lw_closing := cs @ lw_closing w\<rparr>)"
| link_closed: "lw_closing w = xs @ c # ys \<Longrightarrow> link_step w (w\<lparr>lw_closing := xs @ ys, lw_live := lw_live w - {c}\<rparr>)"

inductive link_reachable :: "link_world \<Rightarrow> bool" where
  link_start: "link_reachable \<lparr>lw_gateway = new_gateway\<lparr>gw_listening := True\<rparr>, lw_live = {}, lw_closing = [], lw_lines = 0\<rparr>"
| link_next: "link_reachable w \<Longrightarrow> link_step w w' \<Longrightarrow> link_reachable w'"

definition links_ok :: "link_world \<Rightarrow> bool" where
  "links_ok w \<longleftrightarrow> lw_live w \<subseteq> set_option (gw_conn (lw_gateway w)) \<union> set (lw_closing w) \<and>
     (gw_stopped (lw_gateway w) \<longrightarrow> gw_conn (lw_gateway w) = None) \<and>
     (lw_live w \<noteq> {} \<or> gw_conn (lw_gateway w) \<noteq> None \<longrightarrow> gw_attached (lw_gateway w)) \<and>
     lw_lines w = min (gw_notices (lw_gateway w)) 16 + (if 16 \<le> gw_notices (lw_gateway w) then 1 else 0)"

lemmas gateway_defs = claim_def release_def notice_def close_link_def stop_gateway_def max_link_notices_def

lemma link_step_ok: "link_step w w' \<Longrightarrow> links_ok w \<Longrightarrow> links_ok w'"
proof (induction rule: link_step.induct)
  case (link_claimed c w g)
  then show ?case by (auto simp: links_ok_def claim_def split: if_splits)
next
  case (link_refused c w g n g')
  then show ?case by (auto simp: links_ok_def claim_def notice_def max_link_notices_def Let_def split: if_splits)
next
  case (link_ended w n g)
  then show ?case by (auto simp: links_ok_def notice_def max_link_notices_def Let_def split: if_splits)
next
  case (link_released w c)
  then show ?case by (auto simp: links_ok_def release_def)
next
  case (link_cancelled w l cs)
  then show ?case by (auto simp: links_ok_def close_link_def)
next
  case (link_stopped w l cs g)
  then show ?case by (auto simp: links_ok_def stop_gateway_def split: if_splits option.splits)
next
  case (link_closed w xs c ys)
  then show ?case by (auto simp: links_ok_def)
qed

lemma link_reachable_ok: "link_reachable w \<Longrightarrow> links_ok w"
proof (induction rule: link_reachable.induct)
  case (link_next w w')
  then show ?case by (blast intro: link_step_ok)
qed (auto simp: links_ok_def new_gateway_def)

subsection \<open>The link of a sandbox without a network\<close>

record blackhole =
  bh_listening :: bool
  bh_conns :: "nat list"
  bh_stopped :: bool
  bh_attached :: bool

definition hole_track :: "nat \<Rightarrow> blackhole \<Rightarrow> bool \<times> blackhole" where
  "hole_track c b = (if bh_stopped b then (False, b) else (True, b\<lparr>bh_conns := List.insert c (bh_conns b), bh_attached := True\<rparr>))"

definition hole_untrack :: "nat \<Rightarrow> blackhole \<Rightarrow> blackhole" where
  "hole_untrack c b = b\<lparr>bh_conns := removeAll c (bh_conns b)\<rparr>"

text \<open>The stop: the connections it closes; nothing where it was never started or is stopped already.\<close>

definition hole_stop :: "blackhole \<Rightarrow> nat list \<times> blackhole" where
  "hole_stop b = (if \<not> bh_listening b \<or> bh_stopped b then ([], b) else (bh_conns b, b\<lparr>bh_stopped := True, bh_conns := []\<rparr>))"

subsection \<open>The network\<close>

record network =
  nw_engine :: "nat option"
  nw_started :: bool
  nw_stopped :: bool

datatype network_error = Already_started | Already_stopped | No_directory | Stale_socket | Provider_failed | Not_running

definition network_running :: "network \<Rightarrow> network_error option" where
  "network_running n = (if \<not> nw_started n \<or> nw_stopped n then Some Not_running else None)"

definition set_policy :: "nat \<Rightarrow> network \<Rightarrow> network" where
  "set_policy e n = (if nw_started n then n else n\<lparr>nw_engine := Some e\<rparr>)"

text \<open>The start, with what becomes of the directory, the stale socket and the provider.\<close>

definition start_network :: "bool \<Rightarrow> bool \<Rightarrow> bool \<Rightarrow> network \<Rightarrow> network_error option \<times> network" where
  "start_network dir stale provider n =
     (if nw_started n then (Some Already_started, n)
      else if nw_stopped n then (Some Already_stopped, n)
      else if \<not> dir then (Some No_directory, n)
      else if \<not> stale then (Some Stale_socket, n)
      else if \<not> provider then (Some Provider_failed, n)
      else (None, n\<lparr>nw_started := True\<rparr>))"

text \<open>The stop: whether the provider is stopped.\<close>

definition stop_network :: "network \<Rightarrow> bool \<times> network" where
  "stop_network n = (if nw_stopped n then (False, n) else (nw_started n, n\<lparr>nw_stopped := True\<rparr>))"

datatype network_call = Do_policy nat | Do_start bool bool bool | Do_stop

fun do_network_call :: "network_call \<Rightarrow> network \<Rightarrow> network" where
  "do_network_call (Do_policy e) n = set_policy e n"
| "do_network_call (Do_start d s p) n = snd (start_network d s p n)"
| "do_network_call Do_stop n = snd (stop_network n)"

primrec run_network :: "network_call list \<Rightarrow> network \<Rightarrow> network" where
  "run_network [] n = n"
| "run_network (c # cs) n = run_network cs (do_network_call c n)"

lemma started_call:
  assumes "nw_started n"
  shows "nw_started (do_network_call c n)" and "nw_engine (do_network_call c n) = nw_engine n"
    and "nw_stopped (do_network_call c n) \<longleftrightarrow> nw_stopped n \<or> c = Do_stop"
  using assms by (cases c; simp add: set_policy_def start_network_def stop_network_def)+

lemma started_run:
  assumes "nw_started n"
  shows "nw_started (run_network cs n) \<and> nw_engine (run_network cs n) = nw_engine n \<and>
    (nw_stopped (run_network cs n) \<longleftrightarrow> nw_stopped n \<or> Do_stop \<in> set cs)"
  using assms
proof (induction cs arbitrary: n)
  case (Cons c cs)
  show ?case using Cons.IH [OF started_call(1) [OF Cons.prems, of c]] started_call [OF Cons.prems, of c] by auto
qed simp

subsection \<open>Properties\<close>

text \<open>
  One VM per sandbox. In every interleaving at most one connection is held that nothing is about to close, none is taken
  after the stop, and the log holds at most 17 lines about the link however often a second one tries.
\<close>

theorem one_link:
  assumes "link_reachable w"
  shows "lw_live w - set (lw_closing w) \<subseteq> set_option (gw_conn (lw_gateway w)) \<and> lw_lines w \<le> 17 \<and>
    (gw_stopped (lw_gateway w) \<longrightarrow> lw_live w \<subseteq> set (lw_closing w) \<and> \<not> fst (claim c (lw_gateway w))) \<and>
    (gw_conn (lw_gateway w) \<noteq> None \<longrightarrow> \<not> fst (claim c (lw_gateway w)) \<and> gw_attached (lw_gateway w))"
  using link_reachable_ok [OF assms] by (auto simp: links_ok_def claim_def)

theorem one_link_witness: "\<not> fst (claim 2 (snd (claim 1 (new_gateway\<lparr>gw_listening := True\<rparr>))))"
proof -
  let ?w = "\<lparr>lw_gateway = new_gateway\<lparr>gw_listening := True\<rparr>, lw_live = {}, lw_closing = [], lw_lines = 0\<rparr>"
  have "link_reachable (?w\<lparr>lw_gateway := snd (claim 1 (lw_gateway ?w)), lw_live := insert 1 (lw_live ?w)\<rparr>)"
    by (rule link_next [OF link_start link_claimed]) (auto simp: claim_def new_gateway_def)
  from one_link [OF this, of 2] show ?thesis by (auto simp: claim_def new_gateway_def)
qed

text \<open>
  The judge of a running network is fixed. Whatever is called afterwards, a network that was started keeps the engine it was
  started with, never starts again, and once stopped serves nobody.
\<close>

theorem network_engine_fixed:
  assumes "nw_started n"
  shows "nw_engine (run_network cs n) = nw_engine n \<and>
    fst (start_network d s p (run_network cs n)) = Some Already_started \<and>
    (Do_stop \<in> set cs \<longrightarrow> network_running (run_network cs n) = Some Not_running)"
  using started_run [OF assms, of cs] by (simp add: start_network_def network_running_def)

theorem network_engine_fixed_witness:
  "nw_engine (run_network [Do_policy 2, Do_stop] \<lparr>nw_engine = None, nw_started = True, nw_stopped = False\<rparr>) = None"
  using network_engine_fixed [of "\<lparr>nw_engine = None, nw_started = True, nw_stopped = False\<rparr>" "[Do_policy 2, Do_stop]" True True True] by simp

end
