(* ===== verification/Enforce_Session.thy ===== *)
theory Enforce_Session
  imports Enforce_Control Network_Gateway
begin

section \<open>Opening and closing a sandbox's network: \<open>internal/enforce/enforce.go\<close>\<close>

text \<open>
  A session is the engine, the stack, the proxy inside it and the forwarder, opened in that order and closed
  together. The steps that reach the system succeed or fail as an argument says; what is held open is
  a field each, so that an error path that leaves something behind shows.
\<close>

subsection \<open>State\<close>

record open_session =
  os_super :: supervisor
  os_network :: network
  os_proxy :: bool
  os_listener :: bool
  os_sink :: bool
  os_closed :: bool

record session_spec =
  se_sandbox :: string
  se_none :: bool
  se_resolution :: "resolution option"
  se_log_path :: string
  se_publish :: "string list"

text \<open>The answers of the system: the log file, the start of the network, the proxy up to its construction, and the listener in the network.\<close>

record answers =
  an_sink :: "string option"
  an_network :: "bool \<times> bool \<times> bool"
  an_proxy :: "string option"
  an_listen :: "string option"
  an_system :: system

datatype open_error =
    Open_publish_none | Open_network network_error | Open_preset | Open_policy resolve_error | Open_sink string
  | Open_proxy string | Open_listen string | Open_ports control_error

subsection \<open>Operations\<close>

text \<open>\<open>Spec.Policy\<close>: the resolution compiled, or the default preset where there is none.\<close>

definition spec_policy :: "session_spec \<Rightarrow> open_error + policy" where
  "spec_policy s =
     (case se_resolution s of
        None \<Rightarrow> (case preset ''standard'' of Some (Inr p) \<Rightarrow> Inr p | _ \<Rightarrow> Inl Open_preset)
      | Some r \<Rightarrow> (case resolution_policy r of Inl e \<Rightarrow> Inl (Open_policy e) | Inr p \<Rightarrow> Inr p))"

definition fresh_session :: "session_spec \<Rightarrow> open_session" where
  "fresh_session s =
     \<lparr>os_super = \<lparr>sv_session = \<lparr>ss_engine = None, ss_resolution = se_resolution s, ss_sandbox = se_sandbox s\<rparr>, sv_forwarder = None\<rparr>,
      os_network = \<lparr>nw_engine = None, nw_started = False, nw_stopped = False\<rparr>,
      os_proxy = False, os_listener = False, os_sink = False, os_closed = False\<rparr>"

text \<open>\<open>newEngine\<close>: the log has a sink where the decisions are kept in a file.\<close>

definition new_session_engine :: "answers \<Rightarrow> session_spec \<Rightarrow> open_session \<Rightarrow> (open_error + engine) \<times> open_session" where
  "new_session_engine an s o1 =
     (case spec_policy s of
        Inl e \<Rightarrow> (Inl e, o1)
      | Inr p \<Rightarrow>
          if se_log_path s = [] then (Inr (with_sandbox (se_sandbox s) (new_engine p (Some (new_log 512)))), o1)
          else (case an_sink an of
              Some e \<Rightarrow> (Inl (Open_sink e), o1)
            | None \<Rightarrow> (Inr (with_sandbox (se_sandbox s) (new_engine p (Some (add_sink (new_log 512))))), o1\<lparr>os_sink := True\<rparr>)))"

definition close_session :: "open_session \<Rightarrow> (socket list \<times> nat list) \<times> open_session" where
  "close_session s =
     (if os_closed s then (([], []), s)
      else (let (closed, fw) = (case sv_forwarder (os_super s) of
                  None \<Rightarrow> (([], []), None)
                | Some f \<Rightarrow> (case close_forwarder f of (f', socks, conns) \<Rightarrow> ((socks, conns), Some f')))
        in (closed, s\<lparr>os_super := (os_super s)\<lparr>sv_forwarder := fw\<rparr>, os_proxy := False, os_listener := False,
              os_network := snd (stop_network (os_network s)), os_sink := False, os_closed := True\<rparr>)))"

definition start_proxy :: "answers \<Rightarrow> open_session \<Rightarrow> open_error option \<times> open_session" where
  "start_proxy an s =
     (case an_proxy an of
        Some e \<Rightarrow> (Some (Open_proxy e), s)
      | None \<Rightarrow>
          (let s = s\<lparr>os_proxy := True\<rparr>
           in case network_running (os_network s) of
                Some e \<Rightarrow> (Some (Open_network e), s)
              | None \<Rightarrow> (case an_listen an of Some e \<Rightarrow> (Some (Open_listen e), s) | None \<Rightarrow> (None, s\<lparr>os_listener := True\<rparr>))))"

text \<open>
  \<open>Open\<close>: the result, and what is held afterwards in either case. The engine is a new one, known to the network
  by a reference.
\<close>

definition open_session :: "answers \<Rightarrow> nat \<Rightarrow> session_spec \<Rightarrow> open_error option \<times> open_session" where
  "open_session an ref s =
     (let o1 = fresh_session s; (dir, stale, provider) = an_network an in
      if se_none s then
        if se_publish s \<noteq> [] then (Some Open_publish_none, o1)
        else (case start_network dir stale provider (os_network o1) of
            (Some e, n) \<Rightarrow> (Some (Open_network e), o1\<lparr>os_network := n\<rparr>)
          | (None, n) \<Rightarrow> (None, o1\<lparr>os_network := n\<rparr>))
      else (case new_session_engine an s o1 of
          (Inl e, o2) \<Rightarrow> (Some e, o2)
        | (Inr eng, o2) \<Rightarrow>
            (let o3 = o2\<lparr>os_super := (os_super o2)\<lparr>sv_session := (sv_session (os_super o2))\<lparr>ss_engine := Some eng\<rparr>\<rparr>,
                         os_network := set_policy ref (os_network o2)\<rparr>
             in case start_network dir stale provider (os_network o3) of
                  (Some e, n) \<Rightarrow> (Some (Open_network e), snd (close_session (o3\<lparr>os_network := n\<rparr>)))
                | (None, n) \<Rightarrow>
                    (case start_proxy an (o3\<lparr>os_network := n\<rparr>) of
                       (Some e, o4) \<Rightarrow> (Some e, snd (close_session o4))
                     | (None, o4) \<Rightarrow>
                         (case publish_initial (an_system an) (se_publish s) (new_forwarder False) of
                            (e, f) \<Rightarrow>
                              (let o5 = o4\<lparr>os_super := (os_super o4)\<lparr>sv_forwarder := Some f\<rparr>\<rparr>
                               in case e of
                                    Some err \<Rightarrow> (Some (Open_ports err), snd (close_session o5))
                                  | None \<Rightarrow> (None, o5)))))))"

subsection \<open>Nothing held\<close>

definition nothing_held :: "open_session \<Rightarrow> bool" where
  "nothing_held s \<longleftrightarrow> \<not> os_proxy s \<and> \<not> os_listener s \<and> \<not> os_sink s \<and> network_running (os_network s) \<noteq> None \<and>
     (case sv_forwarder (os_super s) of None \<Rightarrow> True | Some f \<Rightarrow> fw_closed f \<and> fw_entries f = [] \<and> fw_conns f = [])"

definition forwarder_tidy :: "open_session \<Rightarrow> bool" where
  "forwarder_tidy s \<longleftrightarrow> (case sv_forwarder (os_super s) of None \<Rightarrow> True | Some f \<Rightarrow> fw_closed f \<longrightarrow> fw_entries f = [] \<and> fw_conns f = [])"

lemma close_held: "\<not> os_closed s \<Longrightarrow> forwarder_tidy s \<Longrightarrow> nothing_held (snd (close_session s))"
  by (auto simp: close_session_def nothing_held_def forwarder_tidy_def close_forwarder_def stop_network_def network_running_def
      split: option.splits)

lemma commit_closed: "publish_commit bs f = Inr f' \<Longrightarrow> fw_closed f' = fw_closed f"
  by (auto simp: publish_commit_def split: if_splits option.splits)

lemma publish_closed: "publish listen spec f = (r, f', x) \<Longrightarrow> fw_closed f' = fw_closed f"
  unfolding publish_def
  by (cases "publish_check spec f"; simp split: prod.splits option.splits sum.splits) (auto dest: commit_closed)

lemma publish_specs_closed: "publish_specs sys ss changed f = (e, c, f') \<Longrightarrow> fw_closed f' = fw_closed f"
proof (induction sys ss changed f arbitrary: e c f' rule: publish_specs.induct)
  case (2 sys s ss changed f)
  show ?case
  proof (cases "parse_publish s")
    case (Inr spec)
    obtain r f1 x where p: "publish (sys f) spec f = (r, f1, x)" by (cases "publish (sys f) spec f")
    show ?thesis
    proof (cases r)
      case (Inl err)
      then show ?thesis using 2(2) Inr p publish_closed [OF p] by simp
    next
      case r: (Inr added)
      then have "publish_specs sys ss (changed @ added) f1 = (e, c, f')" using 2(2) Inr p by (cases x) simp
      from 2(1) [OF Inr p [symmetric] r refl this] show ?thesis using publish_closed [OF p] by simp
    qed
  qed (use 2 in simp)
qed simp

lemma engine_failed: "new_session_engine an s o1 = (Inl e, o2) \<Longrightarrow> o2 = o1"
  by (auto simp: new_session_engine_def split: sum.splits if_splits option.splits)

lemma engine_made:
  assumes "new_session_engine an s o1 = (Inr eng, o2)" "\<not> os_sink o1"
  shows "spec_policy s = Inr (en_policy eng) \<and> en_sandbox eng = se_sandbox s \<and> o2 = o1\<lparr>os_sink := (se_log_path s \<noteq> [])\<rparr>"
  using assms
  by (auto simp: new_session_engine_def new_engine_def with_sandbox_def split: sum.splits if_splits option.splits)

lemma start_proxy_cases:
  assumes "start_proxy an s = (r, s')" "network_running (os_network s) = None"
  shows "\<exists>p. s' = s\<lparr>os_proxy := p \<or> os_proxy s, os_listener := (r = None \<or> os_listener s)\<rparr> \<and> (r = None \<longrightarrow> p)"
  using assms by (auto simp: start_proxy_def Let_def split: option.splits intro: exI [of _ True] exI [of _ False])

lemma initial_forwarder: "publish_initial sys ss (new_forwarder False) = (e, f) \<Longrightarrow> \<not> fw_closed f"
  by (auto simp: publish_initial_def new_forwarder_def dest!: publish_specs_closed split: prod.splits)

lemma network_cases:
  "start_network d st p n = (Some e, n') \<Longrightarrow> n' = n"
  "start_network d st p n = (None, n') \<Longrightarrow> n' = n\<lparr>nw_started := True\<rparr> \<and> \<not> nw_started n \<and> \<not> nw_stopped n"
  by (auto simp: start_network_def split: if_splits)

lemma open_result:
  assumes "open_session an ref s = (r, o')" "\<not> se_none s"
  shows "(\<exists>e. r = Some e) \<and> nothing_held o' \<or>
    (\<exists>eng f. r = None \<and> spec_policy s = Inr (en_policy eng) \<and> en_sandbox eng = se_sandbox s \<and>
       publish_initial (an_system an) (se_publish s) (new_forwarder False) = (None, f) \<and>
       o' = (fresh_session s)\<lparr>os_super := \<lparr>sv_session = \<lparr>ss_engine = Some eng, ss_resolution = se_resolution s, ss_sandbox = se_sandbox s\<rparr>, sv_forwarder = Some f\<rparr>,
          os_network := \<lparr>nw_engine = Some ref, nw_started = True, nw_stopped = False\<rparr>, os_proxy := True, os_listener := True,
          os_sink := (se_log_path s \<noteq> [])\<rparr>)"
proof -
  obtain dir stale provider where an: "an_network an = (dir, stale, provider)" by (cases "an_network an") auto
  obtain re o2 where en: "new_session_engine an s (fresh_session s) = (re, o2)" by (cases "new_session_engine an s (fresh_session s)")
  have held: "nothing_held (fresh_session s)" by (simp add: nothing_held_def fresh_session_def network_running_def)
  note open_eq = assms(1) [unfolded open_session_def Let_def an prod.case if_not_P [OF assms(2)] en]
  show ?thesis
  proof (cases re)
    case (Inl e)
    then have "r = Some e" "o' = fresh_session s" using open_eq en engine_failed [of an s "fresh_session s" e o2] by simp_all
    with held show ?thesis by blast
  next
    case (Inr eng)
    have made: "spec_policy s = Inr (en_policy eng)" "en_sandbox eng = se_sandbox s" "o2 = (fresh_session s)\<lparr>os_sink := (se_log_path s \<noteq> [])\<rparr>"
      using engine_made [OF en [unfolded Inr]] by (simp_all add: fresh_session_def)
    let ?o3 = "(fresh_session s)\<lparr>os_super := \<lparr>sv_session = \<lparr>ss_engine = Some eng, ss_resolution = se_resolution s, ss_sandbox = se_sandbox s\<rparr>, sv_forwarder = None\<rparr>,
      os_network := \<lparr>nw_engine = Some ref, nw_started = False, nw_stopped = False\<rparr>, os_sink := (se_log_path s \<noteq> [])\<rparr>"
    have o3: "o2\<lparr>os_super := (os_super o2)\<lparr>sv_session := (sv_session (os_super o2))\<lparr>ss_engine := Some eng\<rparr>\<rparr>,
        os_network := set_policy ref (os_network o2)\<rparr> = ?o3"
      by (simp add: made(3) fresh_session_def set_policy_def)
    have closes: "nothing_held (snd (close_session (?o3\<lparr>os_network := n, os_proxy := p, os_listener := l,
        os_super := (os_super ?o3)\<lparr>sv_forwarder := fw\<rparr>\<rparr>)))" if "\<And>f. fw = Some f \<Longrightarrow> \<not> fw_closed f" for n p l fw
      by (rule close_held) (use that in \<open>auto simp: fresh_session_def forwarder_tidy_def split: option.split\<close>)
    obtain rn n where n: "start_network dir stale provider (os_network ?o3) = (rn, n)" by (cases "start_network dir stale provider (os_network ?o3)")
    show ?thesis
    proof (cases rn)
      case (Some e)
      then have "r = Some (Open_network e)" "nothing_held o'" using open_eq Inr o3 n closes [where fw = None and n = n and p = False and l = False] by (simp_all add: fresh_session_def)
      then show ?thesis by blast
    next
      case None
      then have run: "n = \<lparr>nw_engine = Some ref, nw_started = True, nw_stopped = False\<rparr>" using n network_cases(2) by fastforce
      obtain rp o4 where p: "start_proxy an (?o3\<lparr>os_network := n\<rparr>) = (rp, o4)" by (cases "start_proxy an (?o3\<lparr>os_network := n\<rparr>)")
      then obtain b where o4: "o4 = ?o3\<lparr>os_network := n, os_proxy := b, os_listener := (rp = None)\<rparr>" "rp = None \<longrightarrow> b"
        using start_proxy_cases [OF p] by (auto simp: run network_running_def fresh_session_def)
      show ?thesis
      proof (cases rp)
        case (Some e)
        then have "r = Some e" "nothing_held o'" using open_eq Inr o3 n None p o4 closes [where fw = None and n = n and p = b and l = False] by (simp_all add: fresh_session_def)
        then show ?thesis by blast
      next
        case rp: None
        obtain e f where f: "publish_initial (an_system an) (se_publish s) (new_forwarder False) = (e, f)" by fastforce
        show ?thesis
        proof (cases e)
          case (Some err)
          then have "r = Some (Open_ports err)" "nothing_held o'"
            using open_eq Inr o3 n None p o4 rp f closes [where fw = "Some f" and n = n and p = True and l = True] initial_forwarder [OF f] by (simp_all add: fresh_session_def)
          then show ?thesis by blast
        next
          case e: None
          then have "r = None" "o' = o4\<lparr>os_super := (os_super o4)\<lparr>sv_forwarder := Some f\<rparr>\<rparr>"
            using open_eq Inr o3 n None p rp f by simp_all
          then show ?thesis using made f e o4 rp run by (auto simp: fresh_session_def)
        qed
      qed
    qed
  qed
qed

subsection \<open>Properties\<close>

text \<open>
  C10: a network opens whole or not at all. An \<open>Open\<close> that fails, at whichever step, leaves no stack running, no proxy,
  no listener, no published port and no log file open; one that succeeds holds all of them, judges with the policy of its specification
  under its sandbox's name, and publishes what was asked; a close then leaves nothing, and a second one does nothing.
\<close>

theorem open_all_or_nothing:
  assumes "open_session an ref s = (r, o')"
  shows "(r \<noteq> None \<longrightarrow> nothing_held o') \<and>
    (r = None \<longrightarrow> network_running (os_network o') = None \<and> nothing_held (snd (close_session o')) \<and>
       close_session (snd (close_session o')) = (([], []), snd (close_session o')) \<and>
       (if se_none s then se_publish s = [] \<and> \<not> os_proxy o' \<and> \<not> os_listener o' \<and> sv_forwarder (os_super o') = None \<and> nw_engine (os_network o') = None
        else os_proxy o' \<and> os_listener o' \<and> (os_sink o' \<longleftrightarrow> se_log_path s \<noteq> []) \<and> nw_engine (os_network o') = Some ref \<and>
          (\<exists>eng. ss_engine (sv_session (os_super o')) = Some eng \<and> spec_policy s = Inr (en_policy eng) \<and> en_sandbox eng = se_sandbox s) \<and>
          (\<exists>f. sv_forwarder (os_super o') = Some f \<and> publish_initial (an_system an) (se_publish s) (new_forwarder False) = (None, f))))"
proof -
  have twice: "close_session (snd (close_session o')) = (([], []), snd (close_session o'))"
    by (auto simp: close_session_def Let_def split: option.splits prod.splits)
  show ?thesis
  proof (cases "se_none s")
    case True
    obtain d st p where an: "an_network an = (d, st, p)" by (cases "an_network an") auto
    show ?thesis
    proof (cases "se_publish s = []")
      case pub: True
      obtain rn n where n: "start_network d st p (os_network (fresh_session s)) = (rn, n)" by fastforce
      show ?thesis
      proof (cases rn)
        case (Some e)
        then have "o' = (fresh_session s)\<lparr>os_network := n\<rparr>" "r = Some (Open_network e)" "n = os_network (fresh_session s)"
          using assms True pub n network_cases(1) [of d st p "os_network (fresh_session s)" e n] by (simp_all add: open_session_def Let_def an)
        then show ?thesis by (simp add: nothing_held_def fresh_session_def network_running_def)
      next
        case None
        then have o': "o' = (fresh_session s)\<lparr>os_network := n\<rparr>" "r = None" "n = (os_network (fresh_session s))\<lparr>nw_started := True\<rparr>"
          using assms True pub n network_cases(2) [of d st p "os_network (fresh_session s)" n] by (simp_all add: open_session_def Let_def an)
        then have "nothing_held (snd (close_session o'))" by (intro close_held) (simp_all add: fresh_session_def forwarder_tidy_def)
        with o' twice True pub show ?thesis by (simp add: fresh_session_def network_running_def)
      qed
    next
      case False
      then have "r = Some Open_publish_none" "o' = fresh_session s" using assms True by (simp_all add: open_session_def Let_def an)
      then show ?thesis by (simp add: nothing_held_def fresh_session_def network_running_def)
    qed
  next
    case False
    from open_result [OF assms False] show ?thesis
    proof (elim disjE exE conjE)
      fix eng f
      assume ok: "r = None" "spec_policy s = Inr (en_policy eng)" "en_sandbox eng = se_sandbox s"
        "publish_initial (an_system an) (se_publish s) (new_forwarder False) = (None, f)"
        and o': "o' = (fresh_session s)\<lparr>os_super := \<lparr>sv_session = \<lparr>ss_engine = Some eng, ss_resolution = se_resolution s, ss_sandbox = se_sandbox s\<rparr>, sv_forwarder = Some f\<rparr>,
          os_network := \<lparr>nw_engine = Some ref, nw_started = True, nw_stopped = False\<rparr>, os_proxy := True, os_listener := True,
          os_sink := (se_log_path s \<noteq> [])\<rparr>"
      have "nothing_held (snd (close_session o'))"
        using initial_forwarder [OF ok(4)] by (intro close_held) (simp_all add: o' fresh_session_def forwarder_tidy_def)
      with ok o' twice False show ?thesis by (simp add: network_running_def fresh_session_def)
    qed simp
  qed
qed

definition answers_ex :: answers where
  "answers_ex = \<lparr>an_sink = Some ''disk full'', an_network = (True, True, True), an_proxy = None, an_listen = None, an_system = (\<lambda>f h p. Inl [])\<rparr>"

theorem open_all_or_nothing_witness:
  "\<exists>e o'. open_session answers_ex 1 \<lparr>se_sandbox = ''s'', se_none = False, se_resolution = None, se_log_path = ''l'', se_publish = []\<rparr> =
     (Some e, o') \<and> nothing_held o'"
proof -
  let ?s = "\<lparr>se_sandbox = ''s'', se_none = False, se_resolution = None, se_log_path = ''l'', se_publish = []\<rparr>"
  have "fst (open_session answers_ex 1 ?s) \<noteq> None"
    by (simp add: open_session_def new_session_engine_def answers_ex_def Let_def split: sum.split)
  then obtain e o' where o': "open_session answers_ex 1 ?s = (Some e, o')" by (cases "open_session answers_ex 1 ?s") auto
  with open_all_or_nothing [OF o'] show ?thesis by simp
qed

end
