(* ===== verification/Enforce_Supervisor.thy ===== *)
theory Enforce_Supervisor
  imports Network_Plan Sandbox_Name
begin

section \<open>The supervisors of the sandboxes: \<open>internal/enforce/supervisor.go\<close> and \<open>reuse.go\<close>\<close>

text \<open>
  Every running sandbox has a supervisor process, known to other commands by a directory: the state it wrote
  there and the lock it holds. The directories are kept as they are on disk, by path; a process is its number, and
  what becomes of a spawn or a signal is an argument.
\<close>

subsection \<open>State\<close>

record stack_state =
  sk_sandbox :: string
  sk_pid :: nat
  sk_intercept :: bool
  sk_services :: "string list"

record stack_dir =
  sd_state :: "stack_state option"
  sd_holder :: "nat option"

type_synonym net_dirs = "(string \<times> stack_dir) list"

record stack_spec =
  sp_sandbox :: string
  sp_state_dir :: string
  sp_inject :: "string list"
  sp_oauth :: "string list"
  sp_intercept :: bool

datatype stack_error = No_spec_sandbox | Spawn_error string | Ready_without_state | Terminate_error string | Remove_error string

definition dir_for :: "string \<Rightarrow> string \<Rightarrow> string" where
  "dir_for state_dir sandbox =
     (let net_dir = path_join [state_dir, ''net''] in path_join [net_dir, sandbox_dir_name net_dir sandbox])"

subsection \<open>Credentials of a stack\<close>

definition rule_name :: "string \<Rightarrow> string" where
  "rule_name rule = (let name = takeWhile (\<lambda>c. c \<noteq> CHR '':'') rule in if CHR '':'' \<in> set rule \<and> name \<noteq> [] then name else rule)"

definition credential_summary :: "stack_spec \<Rightarrow> string list" where
  "credential_summary s = sort (remdups (filter (\<lambda>n. n \<noteq> []) (map rule_name (sp_inject s)) @ sp_oauth s))"

definition spec_intercepts :: "stack_spec \<Rightarrow> bool" where
  "spec_intercepts s \<longleftrightarrow> sp_intercept s \<and> (sp_inject s \<noteq> [] \<or> sp_oauth s \<noteq> [])"

text \<open>\<open>reusedStackNote\<close>: the credentials running and asked for, and whether a recreate may be needed; \<open>None\<close> where nothing is said.\<close>

definition reused_stack_note :: "stack_state \<Rightarrow> stack_spec \<Rightarrow> (string list \<times> string list \<times> bool) option" where
  "reused_stack_note st s =
     (if sk_intercept st = spec_intercepts s \<and> sk_services st = credential_summary s then None
      else Some (sk_services st, credential_summary s, spec_intercepts s \<and> \<not> sk_intercept st))"

subsection \<open>Operations\<close>

definition lookup_stack :: "string \<Rightarrow> string \<Rightarrow> net_dirs \<Rightarrow> stack_state option" where
  "lookup_stack state_dir sandbox h =
     (case map_of h (dir_for state_dir sandbox) of
        None \<Rightarrow> None
      | Some d \<Rightarrow> (case sd_state d of None \<Rightarrow> None | Some st \<Rightarrow> if sd_holder d = None then None else Some st))"

definition list_stacks :: "net_dirs \<Rightarrow> stack_state list" where
  "list_stacks h = sort_key sk_sandbox (concat (map (\<lambda>(_, d). if sd_holder d = None then [] else case sd_state d of None \<Rightarrow> [] | Some st \<Rightarrow> [st]) h))"

definition serve_state :: "stack_spec \<Rightarrow> nat \<Rightarrow> stack_state" where
  "serve_state s pid =
     \<lparr>sk_sandbox = sp_sandbox s, sk_pid = pid, sk_intercept = spec_intercepts s, sk_services = credential_summary s\<rparr>"

text \<open>What a spawn comes to: a supervisor that reports ready, or an error and what it leaves of the directory.\<close>

datatype spawned = Spawn_ready nat | Spawn_failed string "stack_dir option"

definition spawn_stack :: "spawned \<Rightarrow> stack_spec \<Rightarrow> net_dirs \<Rightarrow> (stack_error + stack_state) \<times> net_dirs" where
  "spawn_stack out s h =
     (let d = dir_for (sp_state_dir s) (sp_sandbox s) in
      case out of
        Spawn_failed e rest \<Rightarrow> (Inl (Spawn_error e), case rest of None \<Rightarrow> AList.delete d h | Some x \<Rightarrow> AList.update d x h)
      | Spawn_ready pid \<Rightarrow>
          (let h' = AList.update d \<lparr>sd_state = Some (serve_state s pid), sd_holder = Some pid\<rparr> h
           in case lookup_stack (sp_state_dir s) (sp_sandbox s) h' of None \<Rightarrow> (Inl Ready_without_state, h') | Some st \<Rightarrow> (Inr st, h')))"

definition ensure_stack ::
    "spawned \<Rightarrow> stack_spec \<Rightarrow> net_dirs \<Rightarrow> (stack_error + stack_state) \<times> (string list \<times> string list \<times> bool) option \<times> net_dirs" where
  "ensure_stack out s h =
     (if sp_sandbox s = [] then (Inl No_spec_sandbox, None, h)
      else (case lookup_stack (sp_state_dir s) (sp_sandbox s) h of
          Some st \<Rightarrow> (Inr st, reused_stack_note st s, h)
        | None \<Rightarrow> (case spawn_stack out s (AList.delete (dir_for (sp_state_dir s) (sp_sandbox s)) h) of (r, h') \<Rightarrow> (r, None, h'))))"

text \<open>The signal may fail; a supervisor that gets it removes its directory as it exits.\<close>

definition stop_stack_of :: "string option \<Rightarrow> string \<Rightarrow> string \<Rightarrow> net_dirs \<Rightarrow> stack_error option \<times> net_dirs" where
  "stop_stack_of signal state_dir sandbox h =
     (let d = dir_for state_dir sandbox in
      case lookup_stack state_dir sandbox h of
        None \<Rightarrow> (None, AList.delete d h)
      | Some st \<Rightarrow> (case (0 < sk_pid st, signal) of (True, Some e) \<Rightarrow> (Some (Terminate_error e), h) | _ \<Rightarrow> (None, AList.delete d h)))"

text \<open>A supervisor can also die with its state left behind, or exit by itself.\<close>

inductive dirs_step :: "string \<Rightarrow> net_dirs \<Rightarrow> net_dirs \<Rightarrow> bool" for state_dir where
  dirs_ensure: "sp_state_dir s = state_dir \<Longrightarrow> (\<And>e x. out = Spawn_failed e (Some x) \<Longrightarrow> sd_state x = None) \<Longrightarrow> ensure_stack out s h = (r, n, h') \<Longrightarrow> dirs_step state_dir h h'"
| dirs_stop: "stop_stack_of signal state_dir sandbox h = (e, h') \<Longrightarrow> dirs_step state_dir h h'"
| dirs_crash: "map_of h d = Some x \<Longrightarrow> dirs_step state_dir h (AList.update d (x\<lparr>sd_holder := None\<rparr>) h)"
| dirs_exit: "dirs_step state_dir h (AList.delete d h)"

inductive dirs_reachable :: "string \<Rightarrow> net_dirs \<Rightarrow> bool" for state_dir where
  dirs_start: "dirs_reachable state_dir []"
| dirs_next: "dirs_reachable state_dir h \<Longrightarrow> dirs_step state_dir h h' \<Longrightarrow> dirs_reachable state_dir h'"

subsection \<open>Lemmas\<close>

definition dirs_ok :: "string \<Rightarrow> net_dirs \<Rightarrow> bool" where
  "dirs_ok state_dir h = map_ok (\<lambda>d x. \<forall>st. sd_state x = Some st \<longrightarrow> dir_for state_dir (sk_sandbox st) = d) h"

lemma lookup_stack_Some:
  "lookup_stack state_dir sandbox h = Some st \<longleftrightarrow>
     (\<exists>d. map_of h (dir_for state_dir sandbox) = Some d \<and> sd_state d = Some st \<and> sd_holder d \<noteq> None)"
  by (auto simp: lookup_stack_def split: option.splits)

lemma lookup_cong: "map_of h (dir_for state_dir sandbox) = map_of h' (dir_for state_dir sandbox) \<Longrightarrow>
    lookup_stack state_dir sandbox h = lookup_stack state_dir sandbox h'"
  by (simp add: lookup_stack_def)

lemma dirs_step_ok: "dirs_step state_dir h h' \<Longrightarrow> dirs_ok state_dir h \<Longrightarrow> dirs_ok state_dir h'"
  unfolding dirs_ok_def
proof (induction rule: dirs_step.induct)
  case (dirs_ensure s out h r n h')
  then show ?case
    by (auto simp: ensure_stack_def spawn_stack_def Let_def serve_state_def split: if_splits option.splits spawned.splits
        intro!: map_ok_update map_ok_delete)
next
  case (dirs_stop signal sandbox h e h')
  then show ?case by (auto simp: stop_stack_of_def Let_def split: option.splits bool.splits intro: map_ok_delete)
next
  case (dirs_crash h d x)
  then show ?case using map_ok_get [OF dirs_crash(2) dirs_crash(1)] by (intro map_ok_update) auto
next
  case (dirs_exit h d)
  then show ?case by (rule map_ok_delete)
qed

lemma dirs_reachable_ok: "dirs_reachable state_dir h \<Longrightarrow> dirs_ok state_dir h"
  by (induction rule: dirs_reachable.induct) (auto simp: dirs_ok_def intro: dirs_step_ok [unfolded dirs_ok_def])

lemma path_join_not_Nil: "e \<noteq> [] \<Longrightarrow> path_join (e # es) \<noteq> []"
proof -
  have "path_text r es \<noteq> []" if "\<And>w. w \<in> set es \<Longrightarrow> w \<noteq> []" for r es
  proof (cases es rule: rev_cases)
    case (snoc ys y)
    then have "y \<noteq> []" using that by simp
    then show ?thesis using snoc by (cases "ys = []") (auto simp: path_text_def join_Cons)
  qed (simp add: path_text_def)
  moreover have "w \<noteq> []" if "w \<in> set (foldl (clean_step r) [] ws)" for w r ws
  proof -
    have step: "(\<forall>w\<in>set es. w \<noteq> []) \<Longrightarrow> \<forall>w\<in>set (clean_step r es e). w \<noteq> []" for es e
      by (auto simp: clean_step_def split: list.splits if_splits)
    have "(\<forall>w\<in>set es. w \<noteq> []) \<Longrightarrow> \<forall>w\<in>set (foldl (clean_step r) es ws). w \<noteq> []" for es
    proof (induction ws arbitrary: es)
      case (Cons e ws)
      show ?case using Cons.IH [OF step [OF Cons.prems, of e]] by simp
    qed simp
    from this [of "[]"] that show ?thesis by auto
  qed
  ultimately show "e \<noteq> [] \<Longrightarrow> path_join (e # es) \<noteq> []"
    by (auto simp: path_join_def path_clean_def path_elems_def)
qed

lemma dir_for_inj: "state_dir \<noteq> [] \<Longrightarrow> a \<noteq> [] \<Longrightarrow> b \<noteq> [] \<Longrightarrow> dir_for state_dir a = dir_for state_dir b \<Longrightarrow>
    sandbox_dir_name (path_join [state_dir, ''net'']) a = sandbox_dir_name (path_join [state_dir, ''net'']) b"
  using path_join_plain(1) [OF path_join_not_Nil dir_name_plain, of state_dir a "[''net'']" "path_join [state_dir, ''net'']"]
    path_join_plain(1) [OF path_join_not_Nil dir_name_plain, of state_dir b "[''net'']" "path_join [state_dir, ''net'']"]
  by (simp add: dir_for_def Let_def)

text \<open>Two sandboxes share a directory only through the sanitised name or through the digest of a long one.\<close>

lemma dir_name_eq:
  assumes "sandbox_dir_name dir a = sandbox_dir_name dir b"
  shows "sanitize a = sanitize b \<or> digest 12 a = digest 12 b \<or> suffix (digest 12 a) (sanitize b) \<or> suffix (digest 12 b) (sanitize a)"
proof -
  have cases: "sandbox_dir_name dir s = sanitize s \<or> (\<exists>p. sandbox_dir_name dir s = p @ digest 12 s)" for s
    by (auto simp: sandbox_dir_name_def Let_def)
  consider "sanitize a = sanitize b" | p where "sanitize b = p @ digest 12 a" | p where "sanitize a = p @ digest 12 b"
    | p q where "p @ digest 12 a = q @ digest 12 b"
    using cases [of a] cases [of b] assms by metis
  then show ?thesis by cases (auto simp: suffix_def append_eq_append_conv)
qed

subsection \<open>Properties\<close>

text \<open>
  C24: the supervisor found is the sandbox's own, up to its directory. Whatever was started, stopped, crashed or exited, a live
  supervisor found for a sandbox was started for a sandbox of the same directory: of the same name where neither
  has a character outside letters, digits, hyphens and underscores, unless digests collide.
\<close>

theorem own_supervisor:
  assumes "dirs_reachable state_dir h" "lookup_stack state_dir sandbox h = Some st"
    "state_dir \<noteq> []" "sandbox \<noteq> []" "sk_sandbox st \<noteq> []"
  shows "dir_for state_dir (sk_sandbox st) = dir_for state_dir sandbox \<and>
    (list_all dir_char sandbox \<and> list_all dir_char (sk_sandbox st) \<longrightarrow> sk_sandbox st = sandbox \<or>
       digest 12 (sk_sandbox st) = digest 12 sandbox \<or> suffix (digest 12 (sk_sandbox st)) sandbox \<or> suffix (digest 12 sandbox) (sk_sandbox st))"
proof -
  obtain d where d: "map_of h (dir_for state_dir sandbox) = Some d" "sd_state d = Some st"
    using assms(2) by (auto simp: lookup_stack_Some)
  have "dir_for state_dir (sk_sandbox st) = dir_for state_dir sandbox"
    using map_ok_get [OF dirs_reachable_ok [OF assms(1), unfolded dirs_ok_def] d(1)] d(2) by blast
  with dir_name_eq [OF dir_for_inj [OF assms(3,5,4) this]] show ?thesis by (auto simp: sanitize_id)
qed

definition stack_spec_ex :: "string \<Rightarrow> stack_spec" where
  "stack_spec_ex n = \<lparr>sp_sandbox = n, sp_state_dir = ''/s'', sp_inject = [], sp_oauth = [], sp_intercept = False\<rparr>"

definition dirs_ex :: "string \<Rightarrow> net_dirs" where
  "dirs_ex n = [(dir_for ''/s'' n, \<lparr>sd_state = Some (serve_state (stack_spec_ex n) 7), sd_holder = Some 7\<rparr>)]"

lemma started_ex: "n \<noteq> [] \<Longrightarrow> ensure_stack (Spawn_ready 7) (stack_spec_ex n) [] = (Inr (serve_state (stack_spec_ex n) 7), None, dirs_ex n)"
  by (simp add: ensure_stack_def spawn_stack_def lookup_stack_def stack_spec_ex_def dirs_ex_def Let_def)

lemma reachable_ex: "n \<noteq> [] \<Longrightarrow> dirs_reachable ''/s'' (dirs_ex n)"
  by (rule dirs_next [OF dirs_start dirs_ensure [OF _ _ started_ex]]) (simp_all add: stack_spec_ex_def)

theorem own_supervisor_witness:
  "dirs_reachable ''/s'' (dirs_ex ''ab'') \<and> dir_for ''/s'' (sk_sandbox (serve_state (stack_spec_ex ''ab'') 7)) = dir_for ''/s'' ''ab''"
proof -
  have "lookup_stack ''/s'' ''ab'' (dirs_ex ''ab'') = Some (serve_state (stack_spec_ex ''ab'') 7)"
    by (simp add: lookup_stack_def dirs_ex_def)
  with reachable_ex [of "''ab''"] show ?thesis
    using own_supervisor [of "''/s''" "dirs_ex ''ab''" "''ab''" "serve_state (stack_spec_ex ''ab'') 7"]
    by (simp add: serve_state_def stack_spec_ex_def)
qed

text \<open>
  An ensured sandbox has a running stack and no other directory is touched. Where one was running it is reused as it
  stands, with a note exactly when its credentials or its interception are not those asked for; a failed spawn or stop
  reports the error and leaves no stack that was not there.
\<close>

theorem ensure_outcome:
  assumes "ensure_stack out s h = (r, note, h')"
  shows "(\<forall>d. d \<noteq> dir_for (sp_state_dir s) (sp_sandbox s) \<longrightarrow> map_of h' d = map_of h d) \<and>
    (case r of
       Inr st \<Rightarrow> lookup_stack (sp_state_dir s) (sp_sandbox s) h' = Some st \<and>
         (case lookup_stack (sp_state_dir s) (sp_sandbox s) h of
            Some old \<Rightarrow> st = old \<and> h' = h \<and>
              (note = None \<longleftrightarrow> sk_intercept st = spec_intercepts s \<and> sk_services st = credential_summary s)
          | None \<Rightarrow> note = None \<and> sk_sandbox st = sp_sandbox s \<and> sk_services st = credential_summary s)
     | Inl e \<Rightarrow> e = No_spec_sandbox \<and> h' = h \<or> (\<exists>msg rest. out = Spawn_failed msg rest \<and> e = Spawn_error msg \<and>
         lookup_stack (sp_state_dir s) (sp_sandbox s) h = None \<and> map_of h' (dir_for (sp_state_dir s) (sp_sandbox s)) = rest))"
  using assms
  by (auto simp: ensure_stack_def spawn_stack_def lookup_stack_def reused_stack_note_def serve_state_def Let_def map_of_delete
      update_conv' delete_conv' split: if_splits option.splits spawned.splits)

theorem ensure_outcome_witness:
  "lookup_stack ''/s'' ''ab'' (dirs_ex ''ab'') = Some (serve_state (stack_spec_ex ''ab'') 7)"
  using ensure_outcome [OF started_ex, of "''ab''"] by (simp add: stack_spec_ex_def)

text \<open>
  Two sandboxes can be one. \<open>a.b\<close> and \<open>a-b\<close> are both accepted as names, and have the same directory: where the first
  runs, ensuring the second returns the first's supervisor without starting any, and stopping the second ends it.
\<close>

theorem shared_supervisor:
  "\<exists>a b h st. validate_name a = None \<and> validate_name b = None \<and> a \<noteq> b \<and> dirs_reachable ''/s'' h \<and>
     lookup_stack ''/s'' a h = Some st \<and> sk_sandbox st = a \<and>
     ensure_stack (Spawn_ready 8) (stack_spec_ex b) h = (Inr st, None, h) \<and>
     lookup_stack ''/s'' a (snd (stop_stack_of None ''/s'' b h)) = None"
proof -
  let ?st = "serve_state (stack_spec_ex ''a.b'') 7"
  have names: "validate_name ''a.b'' = None" "validate_name ''a-b'' = None" "(''a.b'' :: string) \<noteq> ''a-b''" by code_simp+
  have dirs: "dir_for ''/s'' ''a.b'' = dir_for ''/s'' ''a-b''" by code_simp
  have run: "lookup_stack ''/s'' ''a.b'' (dirs_ex ''a.b'') = Some ?st" by (simp add: lookup_stack_def dirs_ex_def)
  then have other: "lookup_stack ''/s'' ''a-b'' (dirs_ex ''a.b'') = Some ?st" by (simp add: lookup_stack_def dirs)
  have "ensure_stack (Spawn_ready 8) (stack_spec_ex ''a-b'') (dirs_ex ''a.b'') = (Inr ?st, None, dirs_ex ''a.b'')"
    using other by (simp add: ensure_stack_def stack_spec_ex_def reused_stack_note_def serve_state_def credential_summary_def spec_intercepts_def)
  moreover have "lookup_stack ''/s'' ''a.b'' (snd (stop_stack_of None ''/s'' ''a-b'' (dirs_ex ''a.b''))) = None"
    using other by (simp add: stop_stack_of_def lookup_stack_def dirs Let_def dirs_ex_def split: bool.split)
  ultimately show ?thesis using names run reachable_ex [of "''a.b''"]
    by (intro exI [of _ "''a.b''"] exI [of _ "''a-b''"] exI [of _ "dirs_ex ''a.b''"] exI [of _ ?st]) (simp add: serve_state_def stack_spec_ex_def)
qed

end
