(* ===== verification/Proxy_Sni.thy ===== *)
theory Proxy_Sni
  imports Boks_Prelude "HOL-Library.Word"
begin

section \<open>The server name of a TLS handshake: \<open>internal/proxy/sni.go\<close>\<close>

text \<open>
  The walk over a ClientHello record that finds the name a client greets, and the loop that reads the
  first bytes of a tunnel until it has one. Every read of the walk checks what is left; a failed read
  is \<open>None\<close>. A length has at most two bytes here, so the machine integer it is accumulated in does
  not overflow and is a natural number.
\<close>

type_synonym bytes = "8 word list"

subsection \<open>The cursor\<close>

definition rd_u8 :: "bytes \<Rightarrow> (8 word \<times> bytes) option" where
  "rd_u8 r = (case r of [] \<Rightarrow> None | b # bs \<Rightarrow> Some (b, bs))"

definition rd_u16 :: "bytes \<Rightarrow> (nat \<times> bytes) option" where
  "rd_u16 r = (case r of a # b # bs \<Rightarrow> Some (256 * unat a + unat b, bs) | _ \<Rightarrow> None)"

definition rd_take :: "nat \<Rightarrow> bytes \<Rightarrow> (bytes \<times> bytes) option" where
  "rd_take n r = (if length r < n then None else Some (take n r, drop n r))"

definition rd_skip :: "nat \<Rightarrow> bytes \<Rightarrow> (bytes \<times> bytes) option" where
  "rd_skip n r = rd_take n r"

fun rd_length :: "nat \<Rightarrow> nat \<Rightarrow> bytes \<Rightarrow> (nat \<times> bytes) option" where
  "rd_length 0 n r = Some (n, r)"
| "rd_length (Suc k) n r = (case rd_u8 r of None \<Rightarrow> None | Some (b, r') \<Rightarrow> rd_length k (256 * n + unat b) r')"

definition rd_vector :: "nat \<Rightarrow> bytes \<Rightarrow> (bytes \<times> bytes) option" where
  "rd_vector k r = (case rd_length k 0 r of None \<Rightarrow> None | Some (n, r') \<Rightarrow> rd_take n r')"

lemma rd_take_length: "rd_take n r = Some (x, r') \<Longrightarrow> length r' \<le> length r"
  by (auto simp: rd_take_def split: if_splits)

lemma rd_length_length: "rd_length k n r = Some (m, r') \<Longrightarrow> length r' + k = length r"
  by (induction k n r rule: rd_length.induct) (auto simp: rd_u8_def split: list.splits)

lemma rd_vector_length: "rd_vector k r = Some (x, r') \<Longrightarrow> length r' + k \<le> length r"
  by (fastforce simp: rd_vector_def split: option.splits dest: rd_take_length rd_length_length)

subsection \<open>The walk\<close>

datatype sni_error = No_client_hello | Implausible_length nat | No_sni

type_synonym sni_result = "string \<times> bool \<times> sni_error option"

text \<open>The three ways the walk returns: a name, a request for more bytes, an error.\<close>

abbreviation found_name :: "string \<Rightarrow> sni_result" where "found_name s \<equiv> (s, False, None)"
abbreviation need_more :: sni_result where "need_more \<equiv> ([], True, None)"
abbreviation not_found :: "sni_error \<Rightarrow> sni_result" where "not_found e \<equiv> ([], False, Some e)"

definition bytes_string :: "bytes \<Rightarrow> string" where
  "bytes_string bs = map (\<lambda>b. char_of (unat b)) bs"

function find_name :: "bytes \<Rightarrow> sni_result" where
  "find_name l =
     (if l = [] then not_found No_sni
      else (case rd_u8 l of
          None \<Rightarrow> not_found No_sni
        | Some (ty, l1) \<Rightarrow>
            (case rd_vector 2 l1 of
               None \<Rightarrow> not_found No_sni
             | Some (host, l2) \<Rightarrow>
                 if ty = 0 then (if host = [] then not_found No_sni else found_name (bytes_string host))
                 else find_name l2)))"
  by pat_completeness auto
termination
  by (relation "measure length") (auto simp: rd_u8_def dest!: rd_vector_length split: list.splits)

function find_extension :: "bytes \<Rightarrow> sni_result" where
  "find_extension e =
     (if e = [] then not_found No_sni
      else (case rd_u16 e of
          None \<Rightarrow> not_found No_sni
        | Some (ty, e1) \<Rightarrow>
            (case rd_vector 2 e1 of
               None \<Rightarrow> not_found No_sni
             | Some (data, e2) \<Rightarrow>
                 if ty \<noteq> 0 then find_extension e2
                 else (case rd_vector 2 data of None \<Rightarrow> not_found No_sni | Some (l, _) \<Rightarrow> find_name l))))"
  by pat_completeness auto
termination
  by (relation "measure length") (auto simp: rd_u16_def dest!: rd_vector_length split: list.splits)

declare find_name.simps [simp del] find_extension.simps [simp del]

definition hello_body :: "bytes \<Rightarrow> sni_result" where
  "hello_body h =
     (case rd_u8 h of
        None \<Rightarrow> not_found No_client_hello
      | Some (ty, h1) \<Rightarrow>
          if ty \<noteq> 1 then not_found No_client_hello
          else (case rd_skip 3 h1 of None \<Rightarrow> not_found No_client_hello | Some (_, h2) \<Rightarrow>
               (case rd_skip (2 + 32) h2 of None \<Rightarrow> not_found No_client_hello | Some (_, h3) \<Rightarrow>
               (case rd_vector 1 h3 of None \<Rightarrow> not_found No_client_hello | Some (_, h4) \<Rightarrow>
               (case rd_vector 2 h4 of None \<Rightarrow> not_found No_client_hello | Some (_, h5) \<Rightarrow>
               (case rd_vector 1 h5 of None \<Rightarrow> not_found No_client_hello | Some (_, h6) \<Rightarrow>
               (case rd_vector 2 h6 of None \<Rightarrow> not_found No_sni | Some (exts, _) \<Rightarrow> find_extension exts)))))))"

definition max_client_hello :: nat where "max_client_hello = 16 * 1024"

definition extract_sni :: "bytes \<Rightarrow> sni_result" where
  "extract_sni buf =
     (case rd_u8 buf of
        None \<Rightarrow> need_more
      | Some (ty, r1) \<Rightarrow>
          if ty \<noteq> 0x16 then not_found No_client_hello
          else (case rd_skip 2 r1 of None \<Rightarrow> need_more | Some (_, r2) \<Rightarrow>
               (case rd_u16 r2 of None \<Rightarrow> need_more | Some (n, r3) \<Rightarrow>
                  if n = 0 \<or> max_client_hello < n then not_found (Implausible_length n)
                  else (case rd_take n r3 of None \<Rightarrow> need_more | Some (body, _) \<Rightarrow> hello_body body))))"

subsection \<open>Reading a tunnel's first bytes: \<open>readClientHello\<close> of \<open>internal/proxy/proxy.go\<close>\<close>

text \<open>
  A read yields bytes, an error, or both. When the list of reads ends the client says nothing more, and
  the read deadline passes.
\<close>

datatype read_error = Read_timeout | Read_eof | Read_failed

fun read_client_hello :: "bytes \<Rightarrow> (bytes \<times> read_error option) list \<Rightarrow> (bytes \<times> read_error) + (bytes \<times> string)" where
  "read_client_hello head [] = Inr (head, [])"
| "read_client_hello head ((bs, err) # reads) =
     (if max_client_hello \<le> length head then Inr (head, [])
      else
        (let head1 = head @ bs; (name, more, perr) = extract_sni head1;
             after = (case err of
                 Some e \<Rightarrow> if e = Read_timeout \<or> e = Read_eof then Inr (head1, []) else Inl (head1, e)
               | None \<Rightarrow> read_client_hello head1 reads)
         in if bs \<noteq> [] then
              (if perr = None then Inr (head1, name) else if \<not> more then Inr (head1, []) else after)
            else after))"

subsection \<open>Writing a handshake\<close>

definition wr_u16 :: "nat \<Rightarrow> bytes" where
  "wr_u16 n = [of_nat (n div 256), of_nat (n mod 256)]"

definition wr_vector8 :: "bytes \<Rightarrow> bytes" where
  "wr_vector8 x = of_nat (length x) # x"

definition wr_vector16 :: "bytes \<Rightarrow> bytes" where
  "wr_vector16 x = wr_u16 (length x) @ x"

definition wr_extension :: "nat \<times> bytes \<Rightarrow> bytes" where
  "wr_extension e = wr_u16 (fst e) @ wr_vector16 (snd e)"

text \<open>The extension that names a server.\<close>

definition wr_server_name :: "bytes \<Rightarrow> bytes" where
  "wr_server_name host = wr_extension (0, wr_vector16 (0 # wr_vector16 host))"

definition wr_body :: "bytes \<Rightarrow> bytes \<Rightarrow> bytes \<Rightarrow> bytes \<Rightarrow> bytes \<Rightarrow> bytes" where
  "wr_body fixed sid ciphers comps exts =
     1 # fixed @ wr_vector8 sid @ wr_vector16 ciphers @ wr_vector8 comps @ wr_vector16 exts"

definition wr_record :: "bytes \<Rightarrow> bytes" where
  "wr_record body = [0x16, 3, 1] @ wr_u16 (length body) @ body"

lemma unat_byte: "n < 256 \<Longrightarrow> unat (of_nat n :: 8 word) = n"
  by (simp add: unsigned_of_nat take_bit_nat_eq_self_iff)

lemma rd_u16_wr: "n < 65536 \<Longrightarrow> rd_u16 (wr_u16 n @ r) = Some (n, r)"
  by (simp add: rd_u16_def wr_u16_def unat_byte)

lemma rd_vector8_wr: "length x < 256 \<Longrightarrow> rd_vector 1 (wr_vector8 x @ r) = Some (x, r)"
  by (simp add: rd_vector_def wr_vector8_def rd_u8_def rd_take_def unat_byte)

lemma rd_vector16_wr: "length x < 65536 \<Longrightarrow> rd_vector 2 (wr_vector16 x @ r) = Some (x, r)"
  by (simp add: rd_vector_def wr_vector16_def wr_u16_def rd_u8_def rd_take_def unat_byte numeral_2_eq_2)

lemma find_name_wr: "host \<noteq> [] \<Longrightarrow> length host < 65536 \<Longrightarrow> find_name (0 # wr_vector16 host @ r) = found_name (bytes_string host)"
  by (simp add: find_name.simps rd_u8_def rd_vector16_wr)

lemma find_extension_skip:
  assumes "ty \<noteq> 0" "ty < 65536" "length data < 65536"
  shows "find_extension (wr_extension (ty, data) @ x) = find_extension x"
proof -
  have "wr_u16 ty \<noteq> []" by (simp add: wr_u16_def)
  then show ?thesis
    using assms by (subst find_extension.simps) (simp add: wr_extension_def rd_u16_wr rd_vector16_wr)
qed

lemma find_extension_wr:
  assumes "\<forall>(ty, data)\<in>set es. ty \<noteq> 0 \<and> ty < 65536 \<and> length data < 65536" "host \<noteq> []" "length host + 5 < 65536"
  shows "find_extension (concat (map wr_extension es) @ wr_server_name host @ r) = found_name (bytes_string host)"
  using assms(1)
proof (induction es)
  case Nil
  have "length (wr_vector16 (0 # wr_vector16 host)) < 65536" "length (0 # wr_vector16 host) < 65536"
    using assms(3) by (simp_all add: wr_vector16_def wr_u16_def)
  moreover have "wr_server_name host @ r \<noteq> []" by (simp add: wr_server_name_def wr_extension_def wr_u16_def)
  moreover have "rd_vector 2 (wr_vector16 (0 # wr_vector16 host)) = Some (0 # wr_vector16 host, [])"
    using rd_vector16_wr [of "0 # wr_vector16 host" "[]"] calculation(2) by simp
  moreover have "find_name (0 # wr_vector16 host) = found_name (bytes_string host)"
    using find_name_wr [of host "[]"] assms(2,3) by simp
  ultimately show ?case
    by (simp add: find_extension.simps wr_server_name_def wr_extension_def rd_u16_wr rd_vector16_wr)
next
  case (Cons e es)
  then show ?case by (cases e) (simp add: find_extension_skip)
qed

subsection \<open>Prefixes\<close>

lemma rd_take_append: "rd_take n r = Some (x, r') \<Longrightarrow> rd_take n (r @ s) = Some (x, r' @ s)"
  by (auto simp: rd_take_def split: if_splits)

lemma rd_take_Some: "rd_take n r = Some (x, r') \<longleftrightarrow> n \<le> length r \<and> x = take n r \<and> r' = drop n r"
  by (auto simp: rd_take_def)

lemma extract_sni_append:
  assumes "extract_sni buf \<noteq> need_more"
  shows "extract_sni (buf @ s) = extract_sni buf"
proof -
  obtain ty r1 where 1: "rd_u8 buf = Some (ty, r1)" "rd_u8 (buf @ s) = Some (ty, r1 @ s)"
    using assms by (cases buf) (auto simp: extract_sni_def rd_u8_def)
  show ?thesis
  proof (cases "ty = 0x16")
    case True
    then obtain v r2 where 2: "rd_skip 2 r1 = Some (v, r2)" "rd_skip 2 (r1 @ s) = Some (v, r2 @ s)"
      using assms 1 rd_take_append by (fastforce simp: extract_sni_def rd_skip_def split: option.splits)
    then obtain n r3 where 3: "rd_u16 r2 = Some (n, r3)" "rd_u16 (r2 @ s) = Some (n, r3 @ s)"
      using assms 1 True by (auto simp: extract_sni_def rd_u16_def split: list.splits)
    show ?thesis
    proof (cases "n = 0 \<or> max_client_hello < n")
      case False
      then obtain body r4 where "rd_take n r3 = Some (body, r4)"
        using assms 1 2 3 True by (auto simp: extract_sni_def split: option.splits)
      moreover from this have "rd_take n (r3 @ s) = Some (body, r4 @ s)" by (rule rd_take_append)
      ultimately show ?thesis using 1 2 3 True False by (simp add: extract_sni_def)
    qed (use 1 2 3 True in \<open>simp add: extract_sni_def\<close>)
  qed (use 1 in \<open>simp add: extract_sni_def\<close>)
qed

text \<open>Inside the record nothing more is asked for, and a name that is found is not empty.\<close>

definition settled :: "sni_result \<Rightarrow> bool" where
  "settled r \<longleftrightarrow> \<not> fst (snd r) \<and> (snd (snd r) = None \<longleftrightarrow> fst r \<noteq> [])"

lemma settled_simps [simp]: "settled (not_found e)" "n \<noteq> [] \<Longrightarrow> settled (found_name n)"
  by (simp_all add: settled_def)

lemma find_name_settled: "settled (find_name l)"
proof (induction l rule: find_name.induct)
  case (1 l)
  then show ?case
    by (subst find_name.simps) (auto simp: bytes_string_def split: option.split)
qed

lemma find_extension_settled: "settled (find_extension l)"
proof (induction l rule: find_extension.induct)
  case (1 l)
  then show ?case
    by (subst find_extension.simps) (auto simp: find_name_settled split: option.split)
qed

lemma hello_body_settled: "settled (hello_body h)"
  by (auto simp: hello_body_def find_extension_settled split: option.split)

lemma extract_sni_settled: "extract_sni b = need_more \<or> settled (extract_sni b)"
  by (auto simp: extract_sni_def hello_body_settled split: option.split)

subsection \<open>Properties\<close>

text \<open>
  The name a client greets is the name that is read. For every ClientHello, whatever its random,
  session, ciphers and the extensions before the server name, and whatever follows the record, the
  walk returns the host name the extension carries.
\<close>

theorem sni_round_trip:
  assumes "length fixed = 37" "length sid < 256" "length ciphers < 65536" "length comps < 256"
    "\<forall>(ty, data)\<in>set es. ty \<noteq> 0 \<and> ty < 65536 \<and> length data < 65536" "host \<noteq> []"
    "body = wr_body fixed sid ciphers comps (concat (map wr_extension es) @ wr_server_name host @ more)"
    "length body \<le> max_client_hello"
  shows "extract_sni (wr_record body @ rest) = found_name (bytes_string host)"
proof -
  let ?exts = "concat (map wr_extension es) @ wr_server_name host @ more"
  have "length ?exts \<le> length body" by (simp add: assms(7) wr_body_def wr_vector16_def)
  then have exts: "length ?exts < 65536" using assms(8) by (simp add: max_client_hello_def)
  have "length host + 5 \<le> length (wr_server_name host)"
    by (simp add: wr_server_name_def wr_extension_def wr_vector16_def wr_u16_def)
  then have host: "length host + 5 < 65536" using exts by simp
  have skip: "rd_skip n (x @ y) = Some (x, y)" if "length x = n" for n x y
    using that by (simp add: rd_skip_def rd_take_def)
  have fixed: "rd_skip 3 (fixed @ y) = Some (take 3 fixed, drop 3 fixed @ y)" for y
    using assms(1) by (simp add: rd_skip_def rd_take_def)
  have "hello_body body = found_name (bytes_string host)"
    using assms(1-6) exts host skip [of "drop 3 fixed" 34] find_extension_wr [OF assms(5,6) host]
    by (simp add: assms(7) wr_body_def hello_body_def rd_u8_def fixed rd_vector8_wr rd_vector16_wr
        rd_vector16_wr [of _ "[]", simplified] del: One_nat_def)
  moreover have "length body \<noteq> 0" by (simp add: assms(7) wr_body_def)
  ultimately show ?thesis
    using assms(8) by (simp add: extract_sni_def wr_record_def rd_u8_def rd_skip_def rd_take_def max_client_hello_def
        rd_u16_wr)
qed

definition hello_ex :: bytes where
  "hello_ex = wr_record (wr_body (replicate 37 0) [] [0x13, 1] [0] (wr_extension (43, [2, 3, 4]) @ wr_server_name [97, 46, 98] @ []))"

lemma hello_ex_name: "extract_sni hello_ex = found_name ''a.b''"
  by code_simp

theorem sni_round_trip_witness:
  "extract_sni (wr_record (wr_body (replicate 37 0) [] [0x13, 1] [0] (wr_extension (43, [2, 3, 4]) @ wr_server_name [97, 46, 98] @ [])) @ [1, 2]) =
     found_name ''a.b''"
proof -
  let ?body = "wr_body (replicate 37 0) [] [0x13, 1] [0] (wr_extension (43, [2, 3, 4]) @ wr_server_name [97, 46, 98] @ [])"
  have "length ?body \<le> max_client_hello" "bytes_string [97, 46, 98] = ''a.b''" by code_simp+
  then show ?thesis
    using sni_round_trip [of "replicate 37 0" "[]" "[0x13, 1]" "[0]" "[(43, [2, 3, 4])]" "[97, 46, 98]" ?body "[]" "[1, 2]"]
    by simp
qed

text \<open>
  The walk is decided by the record alone. Once a beginning of the stream gives an answer, be it a
  name or an error, no bytes after it change the answer; inside a complete record it never asks for
  more; and a name it returns is not empty.
\<close>

theorem sni_prefix:
  "(extract_sni buf = need_more \<or> extract_sni (buf @ s) = extract_sni buf) \<and>
   (extract_sni buf = need_more \<or> (\<exists>n. n \<noteq> [] \<and> extract_sni buf = found_name n) \<or> (\<exists>e. extract_sni buf = not_found e))"
proof -
  have "(\<exists>n. n \<noteq> [] \<and> r = found_name n) \<or> (\<exists>e. r = not_found e)" if "settled r" for r
    using that by (cases r) (auto simp: settled_def split: prod.splits)
  then show ?thesis using extract_sni_append extract_sni_settled [of buf] by blast
qed

text \<open>
  Only the first bytes are looked at. The loop that is to read until a server name is complete
  returns after the first read that yields anything: a request for more bytes is taken for an answer
  without a name. A handshake that arrives in two pieces is therefore carried without the cross-check
  of the name it greets.
\<close>

theorem split_hello_unchecked:
  "(bs \<noteq> [] \<longrightarrow> read_client_hello [] ((bs, err) # reads) = Inr (bs, fst (extract_sni bs))) \<and>
   (\<exists>a b name. name \<noteq> [] \<and> extract_sni (a @ b) = found_name name \<and>
      read_client_hello [] [(a @ b, None)] = Inr (a @ b, name) \<and>
      read_client_hello [] [(a, None), (b, None)] = Inr (a, []))"
proof -
  have first: "read_client_hello [] ((bs, err) # reads) = Inr (bs, fst (extract_sni bs))" if "bs \<noteq> []" for bs err reads
    using that extract_sni_settled [of bs]
    by (cases "extract_sni bs") (auto simp: settled_def max_client_hello_def)
  have ne: "hello_ex \<noteq> []" by (simp add: hello_ex_def wr_record_def)
  have "extract_sni (take 10 hello_ex) = need_more" by code_simp
  moreover have "take 10 hello_ex \<noteq> []" by (simp add: hello_ex_def wr_record_def)
  ultimately have "read_client_hello [] [(take 10 hello_ex, None), (drop 10 hello_ex, None)] = Inr (take 10 hello_ex, [])"
    using first by simp
  moreover have "read_client_hello [] [(take 10 hello_ex @ drop 10 hello_ex, None)] = Inr (take 10 hello_ex @ drop 10 hello_ex, ''a.b'')"
    using first [of hello_ex None "[]", OF ne] by (simp only: append_take_drop_id hello_ex_name fst_conv)
  moreover have "extract_sni (take 10 hello_ex @ drop 10 hello_ex) = found_name ''a.b''" by (simp add: hello_ex_name)
  ultimately show ?thesis using first by (metis list.distinct(1))
qed

theorem split_hello_unchecked_witness:
  "read_client_hello [] [([0x16], None), ([3], None)] = Inr ([0x16], [])"
proof -
  have "extract_sni [0x16] = need_more" by code_simp
  then show ?thesis using split_hello_unchecked [of "[0x16]" None "[([3], None)]"] by simp
qed

end
