(* ===== verification/Proxy_Connect.thy ===== *)
theory Proxy_Connect
  imports Policy_Log Secret_Injector Proxy_Sni
begin

section \<open>The forward proxy: \<open>internal/proxy/proxy.go\<close> and \<open>host.go\<close>\<close>

text \<open>
  A request or a tunnel is judged by the policy, the addresses its name resolves to are judged before
  they are contacted, and a tunnel is spliced unread or handed to the inspection. The resolver, the
  dialer and the origin are functions on the world the injector already works on. The addresses
  contacted are kept in the state, in order. A proxy without an injector is one whose injector
  has no credentials: every method of a nil injector returns what one without credentials returns.
\<close>

subsection \<open>The server\<close>

record http_response =
  rs_status :: nat
  rs_header :: header
  rs_close :: bool

record 'w proxy =
  px_injector :: "'w injector"
  px_authority :: bool
  px_resolve :: "'w \<Rightarrow> string \<Rightarrow> addr list option"
  px_dial :: "'w \<Rightarrow> addr \<Rightarrow> nat \<Rightarrow> bool \<times> 'w"
  px_origin :: "'w \<Rightarrow> target \<Rightarrow> header \<Rightarrow> http_response option \<times> 'w"
  px_now :: "'w \<Rightarrow> int"
  px_host_ports :: "int list"

record 'w proxy_state =
  ps_engine :: engine
  ps_injector :: "'w inj_state"
  ps_contacted :: "(addr \<times> nat) list"

definition world :: "'w proxy_state \<Rightarrow> 'w" where
  "world st = is_world (ps_injector st)"

definition set_world :: "'w \<Rightarrow> 'w proxy_state \<Rightarrow> 'w proxy_state" where
  "set_world w st = st\<lparr>ps_injector := (ps_injector st)\<lparr>is_world := w\<rparr>\<rparr>"

text \<open>A question to the engine.\<close>

definition ask :: "(int \<Rightarrow> engine \<Rightarrow> decision \<times> engine) \<Rightarrow> 'w proxy \<Rightarrow> 'w proxy_state \<Rightarrow> decision \<times> 'w proxy_state" where
  "ask q px st = (case q (px_now px (world st)) (ps_engine st) of (d, e) \<Rightarrow> (d, st\<lparr>ps_engine := e\<rparr>))"

definition ask_mode :: "stage \<Rightarrow> target \<Rightarrow> mode \<Rightarrow> 'w proxy \<Rightarrow> 'w proxy_state \<Rightarrow> decision \<times> 'w proxy_state" where
  "ask_mode stg t m = ask (\<lambda>now. check_mode now stg t m)"

definition ask_resolved :: "target \<Rightarrow> mode \<Rightarrow> 'w proxy \<Rightarrow> 'w proxy_state \<Rightarrow> decision \<times> 'w proxy_state" where
  "ask_resolved t m = ask (\<lambda>now. check_resolved now t m)"

definition tell :: "stage \<Rightarrow> target \<Rightarrow> mode \<Rightarrow> string \<Rightarrow> 'w proxy \<Rightarrow> 'w proxy_state \<Rightarrow> decision \<times> 'w proxy_state" where
  "tell stg t m reason = ask (\<lambda>now. engine_note now stg t m reason)"

definition tell_refused :: "stage \<Rightarrow> target \<Rightarrow> mode \<Rightarrow> string \<Rightarrow> 'w proxy \<Rightarrow> 'w proxy_state \<Rightarrow> decision \<times> 'w proxy_state" where
  "tell_refused stg t m reason = ask (\<lambda>now. note_refused now stg t m reason)"

definition connect_to :: "addr \<Rightarrow> nat \<Rightarrow> 'w proxy \<Rightarrow> 'w proxy_state \<Rightarrow> bool \<times> 'w proxy_state" where
  "connect_to a port px st =
     (case px_dial px (world st) a port of (ok, w) \<Rightarrow>
        (ok, set_world w st\<lparr>ps_contacted := ps_contacted st @ [(a, port)]\<rparr>))"

subsection \<open>The host\<close>

definition host_name :: string where "host_name = ''host.boks.internal''"

definition is_host :: "target \<Rightarrow> bool" where
  "is_host t \<longleftrightarrow> \<not> target_is_ip t \<and>
     equal_fold (if t_host t \<noteq> [] \<and> last (t_host t) = CHR ''.'' then butlast (t_host t) else t_host t) host_name"

definition host_port_open :: "'w proxy \<Rightarrow> int \<Rightarrow> bool" where
  "host_port_open px port = list_ex (\<lambda>p. p = port) (px_host_ports px)"

definition host_decision :: "stage \<Rightarrow> target \<Rightarrow> 'w proxy \<Rightarrow> 'w proxy_state \<Rightarrow> decision \<times> 'w proxy_state" where
  "host_decision stg t px st =
     (let port = itoa (t_port t)
      in if \<not> host_port_open px (t_port t)
         then tell_refused stg t Mode_forward
                (''port '' @ port @ '' on the host is not open to this sandbox; start it with --allow-host-port '' @ port) px st
         else tell stg t Mode_forward (''host port '' @ port @ '', opened with --allow-host-port; forwarded to 127.0.0.1:'' @ port) px st)"

subsection \<open>Dialling\<close>

datatype dial_error = Resolve_failed | No_addresses | Dial_denied decision | Dial_failed | Host_port_closed

definition loopback :: addr where "loopback = A4 0x7F000001"

definition dial_host :: "target \<Rightarrow> 'w proxy \<Rightarrow> 'w proxy_state \<Rightarrow> dial_error option \<times> 'w proxy_state" where
  "dial_host t px st =
     (if \<not> host_port_open px (t_port t) then (Some Host_port_closed, st)
      else (case connect_to loopback (nat (t_port t)) px st of (ok, st1) \<Rightarrow> (if ok then None else Some Dial_failed, st1)))"

text \<open>
  The candidates in turn; the flags are the last denial and whether a connection failed. A candidate
  loses its zone and its mapping before it is judged and contacted.
\<close>

fun dial_candidates ::
    "target \<Rightarrow> mode \<Rightarrow> addr list \<Rightarrow> decision option \<Rightarrow> bool \<Rightarrow> 'w proxy \<Rightarrow> 'w proxy_state \<Rightarrow> dial_error option \<times> 'w proxy_state" where
  "dial_candidates t m [] denied failed px st =
     (Some (case (failed, denied) of (False, Some d) \<Rightarrow> Dial_denied d | _ \<Rightarrow> Dial_failed), st)"
| "dial_candidates t m (a # as) denied failed px st =
     (let a = with_zone [] (unmap a);
          (refusal, st1) =
            (if target_is_ip t then (None, st)
             else (case ask_resolved (target_from_addr a (nat (t_port t))) m px st of (d, st1) \<Rightarrow> (if d_allowed d then None else Some d, st1)))
      in case refusal of
           Some d \<Rightarrow> dial_candidates t m as (Some d) failed px st1
         | None \<Rightarrow>
             (case connect_to a (nat (t_port t)) px st1 of
                (True, st2) \<Rightarrow> (None, st2)
              | (False, st2) \<Rightarrow> dial_candidates t m as denied True px st2))"

definition dial :: "target \<Rightarrow> mode \<Rightarrow> 'w proxy \<Rightarrow> 'w proxy_state \<Rightarrow> dial_error option \<times> 'w proxy_state" where
  "dial t m px st =
     (if is_host t then dial_host t px st
      else (case (if target_is_ip t then Some [t_addr t] else px_resolve px (world st) (t_host t)) of
          None \<Rightarrow> (Some Resolve_failed, st)
        | Some [] \<Rightarrow> (Some No_addresses, st)
        | Some candidates \<Rightarrow> dial_candidates t m candidates None False px st))"

subsection \<open>Answers\<close>

datatype fault =
    Not_a_proxy_request | Bad_destination target_error | Injection_failed "inj_error list"
  | Not_dialled dial_error | No_response | No_hijacker

text \<open>A response of the origin, a refusal by the policy, or an error the proxy reports itself.\<close>

datatype answer = Origin nat header | Denial decision | Fault nat fault

fun answer_status :: "answer \<Rightarrow> nat" where
  "answer_status (Origin s _) = s"
| "answer_status (Denial _) = 403"
| "answer_status (Fault s _) = s"

definition stage_text :: "stage \<Rightarrow> string" where
  "stage_text s =
     (case s of Stage_http \<Rightarrow> ''http'' | Stage_connect \<Rightarrow> ''connect'' | Stage_sni \<Rightarrow> ''sni'' | Stage_dial \<Rightarrow> ''dial''
      | Stage_request \<Rightarrow> ''request'' | Stage_network \<Rightarrow> ''network'')"

definition nl :: string where "nl = [CHR 0x0A]"

definition denial_text :: "decision \<Rightarrow> string" where
  "denial_text d =
     ''boks: blocked by network policy'' @ nl @ nl @
     ''  destination: '' @ d_host d @ '':'' @ itoa (d_port d) @ nl @
     ''  stage:       '' @ stage_text (d_stage d) @ nl @
     ''  policy:      '' @ d_policy d @ nl @
     ''  reason:      '' @ d_reason d @ nl @ nl @
     ''To permit it, add the destination when starting the sandbox:'' @ nl @ nl @
     ''  boks run --allow '' @ d_host d @ '':'' @ itoa (d_port d) @ '' ...'' @ nl @ nl @
     ''Recent decisions: boks policy log'' @ nl"

definition denied_header :: "decision \<Rightarrow> header" where
  "denied_header d =
     h_set ''Boks-Policy-Reason'' (d_reason d) (h_set ''Boks-Policy'' ''deny'' (h_set ''Content-Type'' ''text/plain; charset=utf-8'' []))"

definition allowed_header :: "header \<Rightarrow> header" where
  "allowed_header h = h_set ''Boks-Policy'' ''allow'' (strip_hop_by_hop h)"

subsection \<open>Plain requests\<close>

text \<open>A request of a client, and whether the transport has a connection to its destination pooled.\<close>

record http_request =
  hq_scheme :: string
  hq_host :: string
  hq_header :: header
  hq_pooled :: bool

definition default_port_for_scheme :: "string \<Rightarrow> int" where
  "default_port_for_scheme scheme = (if equal_fold scheme ''https'' then 443 else 80)"

text \<open>
  The transport of \<open>net/http\<close>: it dials through the proxy's own \<open>dial\<close> unless it reuses a connection, and
  the target it dials is the one the request names.
\<close>

definition round_trip :: "bool \<Rightarrow> target \<Rightarrow> header \<Rightarrow> 'w proxy \<Rightarrow> 'w proxy_state \<Rightarrow> (fault + http_response) \<times> 'w proxy_state" where
  "round_trip pooled t h px st =
     (case (if pooled then (None, st) else dial t Mode_forward px st) of
        (Some e, st1) \<Rightarrow> (Inl (Not_dialled e), st1)
      | (None, st1) \<Rightarrow>
          (case px_origin px (world st1) t h of (res, w) \<Rightarrow>
            (case res of None \<Rightarrow> Inl No_response | Some r \<Rightarrow> Inr r, set_world w st1)))"

definition inject_plain :: "target \<Rightarrow> header \<Rightarrow> 'w proxy \<Rightarrow> 'w proxy_state \<Rightarrow> (fault + header) \<times> 'w proxy_state" where
  "inject_plain t h px st =
     (case apply_injector (px_injector px) t h Flow_plaintext (ps_injector st) of (res, ij) \<Rightarrow>
       (case res of
          Inl e \<Rightarrow> Inl (Injection_failed [e])
        | Inr (h', _, stale) \<Rightarrow> if stale \<noteq> [] then Inl (Injection_failed stale) else Inr h', st\<lparr>ps_injector := ij\<rparr>))"

definition http_decision :: "target \<Rightarrow> 'w proxy \<Rightarrow> 'w proxy_state \<Rightarrow> decision \<times> 'w proxy_state" where
  "http_decision t px st = (if is_host t then host_decision Stage_http t px st else ask_mode Stage_http t Mode_forward px st)"

definition handle_http :: "http_request \<Rightarrow> 'w proxy \<Rightarrow> 'w proxy_state \<Rightarrow> answer \<times> 'w proxy_state" where
  "handle_http r px st =
     (if hq_scheme r = [] \<or> hq_host r = [] then (Fault 400 Not_a_proxy_request, st)
      else (case parse_target (hq_host r) (default_port_for_scheme (hq_scheme r)) of
          Inl e \<Rightarrow> (Fault 400 (Bad_destination e), st)
        | Inr t \<Rightarrow>
            (case http_decision t px st of (d, st1) \<Rightarrow>
              if \<not> d_allowed d then (Denial d, st1)
              else (case inject_plain t (outbound_header (hq_header r)) px st1 of
                  (Inl f, st2) \<Rightarrow> (Fault 502 f, st2)
                | (Inr h, st2) \<Rightarrow>
                    (case round_trip (hq_pooled r) t h px st2 of
                       (Inl f, st3) \<Rightarrow> (Fault 502 f, st3)
                     | (Inr resp, st3) \<Rightarrow> (Origin (rs_status resp) (allowed_header (rs_header resp)), st3))))))"

subsection \<open>Tunnels\<close>

datatype hijack = Hijack_unsupported | Hijack_failed | Hijacked

text \<open>
  A request inside a tunnel to the host: its header, whether it asks for the connection to be closed, whether
  a connection is pooled, and whether the answer could be written back.
\<close>

record host_request =
  hr_header :: header
  hr_close :: bool
  hr_pooled :: bool
  hr_written :: bool

text \<open>
  What the client's side of a CONNECT does: the host it names, what becomes of the hijacking, whether it takes
  the greeting, what it sends, and for a tunnel to the host the first byte and the requests in it. The last
  field tells whether the origin takes the bytes read so far.
\<close>

record connect_request =
  cn_host :: string
  cn_hijack :: hijack
  cn_greeted :: bool
  cn_reads :: "(bytes \<times> read_error option) list"
  cn_requests :: "host_request list"
  cn_origin_takes :: bool

datatype ending =
    Answered answer | Closed | Spliced target bytes | To_inspect target bytes | Host_served "answer list"

fun serve_host_requests :: "target \<Rightarrow> host_request list \<Rightarrow> 'w proxy \<Rightarrow> 'w proxy_state \<Rightarrow> answer list \<times> 'w proxy_state" where
  "serve_host_requests t [] px st = ([], st)"
| "serve_host_requests t (r # rs) px st =
     (case host_decision Stage_http t px st of (d, st1) \<Rightarrow>
       if \<not> d_allowed d then ([Denial d], st1)
       else (case inject_plain t (outbound_header (hr_header r)) px st1 of
           (Inl f, st2) \<Rightarrow> ([Fault 502 f], st2)
         | (Inr h, st2) \<Rightarrow>
             (case round_trip (hr_pooled r) t h px st2 of
                (Inl f, st3) \<Rightarrow> ([Fault 502 f], st3)
              | (Inr resp, st3) \<Rightarrow>
                  (case (if \<not> hr_written r \<or> hr_close r \<or> rs_close resp then ([], st3) else serve_host_requests t rs px st3) of
                     (as, st4) \<Rightarrow> (Origin (rs_status resp) (allowed_header (rs_header resp)) # as, st4)))))"

text \<open>The byte a TLS record of a handshake starts with.\<close>

definition looks_like_tls :: "bytes \<Rightarrow> bool" where
  "looks_like_tls head \<longleftrightarrow> head \<noteq> [] \<and> hd head = 0x16"

fun peek_byte :: "(bytes \<times> read_error option) list \<Rightarrow> 8 word option" where
  "peek_byte [] = None"
| "peek_byte ((bs, err) # reads) = (if bs \<noteq> [] then Some (hd bs) else if err \<noteq> None then None else peek_byte reads)"

definition handle_host_tunnel :: "connect_request \<Rightarrow> target \<Rightarrow> 'w proxy \<Rightarrow> 'w proxy_state \<Rightarrow> ending \<times> 'w proxy_state" where
  "handle_host_tunnel r t px st =
     (case host_decision Stage_connect t px st of (d, st1) \<Rightarrow>
       if \<not> d_allowed d then (Answered (Denial d), st1)
       else (case cn_hijack r of
           Hijack_unsupported \<Rightarrow> (Answered (Fault 500 No_hijacker), st1)
         | Hijack_failed \<Rightarrow> (Closed, st1)
         | Hijacked \<Rightarrow>
             if \<not> cn_greeted r then (Closed, st1)
             else (case peek_byte (cn_reads r) of
                 None \<Rightarrow> (Closed, st1)
               | Some b \<Rightarrow>
                   if b = 0x16 then
                     (Closed, snd (tell_refused Stage_connect t Mode_forward_bypass
                        ''TLS inside a tunnel to the host; the host is reachable as plain HTTP only, which the proxy can read'' px st1))
                   else (case serve_host_requests t (cn_requests r) px st1 of (as, st2) \<Rightarrow> (Host_served as, st2)))))"

definition should_inspect :: "'w proxy \<Rightarrow> target \<Rightarrow> bool" where
  "should_inspect px t \<longleftrightarrow> px_authority px \<and> handles (ij_credentials (px_injector px)) t"

text \<open>What follows the connection to the origin: the greeting, the name the client greets, and how the tunnel goes on.\<close>

definition open_tunnel :: "connect_request \<Rightarrow> target \<Rightarrow> mode \<Rightarrow> 'w proxy \<Rightarrow> 'w proxy_state \<Rightarrow> ending \<times> 'w proxy_state" where
  "open_tunnel r t m px st =
     (case cn_hijack r of
        Hijack_unsupported \<Rightarrow> (Answered (Fault 500 No_hijacker), st)
      | Hijack_failed \<Rightarrow> (Closed, st)
      | Hijacked \<Rightarrow>
          if \<not> cn_greeted r then (Closed, st)
          else (case read_client_hello [] (cn_reads r) of
              Inl _ \<Rightarrow> (Closed, st)
            | Inr (head, sni) \<Rightarrow>
                (let matches = (sni = [] \<or> equal_fold sni (t_host t));
                     (ok, st1) =
                       (if matches then (True, st)
                        else (case new_target sni (t_port t) of
                            Inl _ \<Rightarrow> (False, st)
                          | Inr greeted \<Rightarrow> (case ask_mode Stage_sni greeted m px st of (d, st1) \<Rightarrow> (d_allowed d, st1))))
                 in if \<not> ok then (Closed, st1)
                    else if m = Mode_forward \<and> matches \<and> looks_like_tls head then (To_inspect t head, st1)
                    else (let st2 = (if m = Mode_forward then snd (tell Stage_connect t Mode_forward_bypass
                                ''marked for inspection, but the tunnel is not TLS for this name; carried blind and no credential attached'' px st1)
                              else st1)
                          in if head \<noteq> [] \<and> \<not> cn_origin_takes r then (Closed, st2) else (Spliced t head, st2)))))"

definition handle_connect :: "connect_request \<Rightarrow> 'w proxy \<Rightarrow> 'w proxy_state \<Rightarrow> ending \<times> 'w proxy_state" where
  "handle_connect r px st =
     (case parse_target (cn_host r) 443 of
        Inl e \<Rightarrow> (Answered (Fault 400 (Bad_destination e)), st)
      | Inr t \<Rightarrow>
          if is_host t then handle_host_tunnel r t px st
          else (let m = (if should_inspect px t then Mode_forward else Mode_forward_bypass)
                in case ask_mode Stage_connect t m px st of (d, st1) \<Rightarrow>
                  if \<not> d_allowed d then (Answered (Denial d), st1)
                  else (let st2 = (if m = Mode_forward_bypass \<and> handles (ij_credentials (px_injector px)) t
                            then snd (tell Stage_connect t Mode_forward_bypass
                              ''a credential rule names this host, but no certificate authority is configured, so the flow is carried blind and nothing is injected''
                              px st1)
                            else st1)
                        in case dial t m px st2 of
                             (Some (Dial_denied d'), st3) \<Rightarrow> (Answered (Denial d'), st3)
                           | (Some e, st3) \<Rightarrow> (Answered (Fault 502 (Not_dialled e)), st3)
                           | (None, st3) \<Rightarrow> open_tunnel r t m px st3)))"

subsection \<open>Lemmas\<close>

abbreviation policy_of :: "'w proxy_state \<Rightarrow> policy" where
  "policy_of st \<equiv> en_policy (ps_engine st)"

text \<open>A step that keeps the policy and appends contacts which are all of one kind.\<close>

definition contacts :: "(addr \<times> nat \<Rightarrow> bool) \<Rightarrow> 'w proxy_state \<Rightarrow> 'w proxy_state \<Rightarrow> bool" where
  "contacts P st st' \<longleftrightarrow> policy_of st' = policy_of st \<and> (\<exists>new. ps_contacted st' = ps_contacted st @ new \<and> list_all P new)"

lemma contacts_none: "contacts (\<lambda>_. False) st st' \<longleftrightarrow> policy_of st' = policy_of st \<and> ps_contacted st' = ps_contacted st"
proof -
  have "list_all (\<lambda>_. False) new \<longleftrightarrow> new = []" for new :: "(addr \<times> nat) list" by (cases new) simp_all
  then show ?thesis by (simp add: contacts_def)
qed

lemma contacts_refl [simp]: "contacts P st st"
  by (simp add: contacts_def)

lemma contacts_trans: "contacts P st st1 \<Longrightarrow> contacts P st1 st2 \<Longrightarrow> contacts P st st2"
  by (auto simp: contacts_def)

lemma contacts_mono: "contacts P st st' \<Longrightarrow> (\<And>x. P x \<Longrightarrow> Q x) \<Longrightarrow> contacts Q st st'"
  unfolding contacts_def list_all_iff by blast

lemma contacts_set_world [simp]: "contacts P st0 (set_world w st) \<longleftrightarrow> contacts P st0 st"
  "contacts P st0 (st\<lparr>ps_injector := ij\<rparr>) \<longleftrightarrow> contacts P st0 st"
  by (simp_all add: contacts_def set_world_def)

lemma ask_effect:
  assumes "ask_mode stg t m px st = (d, st1)"
  shows "contacts P st st1" "d_allowed d = v_allowed (evaluate (policy_of st) t)"
  using assms by (auto simp: ask_mode_def ask_def contacts_def engine_defs split: prod.splits)

lemma ask_resolved_effect:
  assumes "ask_resolved t m px st = (d, st1)"
  shows "contacts P st st1" "d_allowed d \<longleftrightarrow> \<not> covers Deny (pol_rules (policy_of st)) t"
    "d_stage d = Stage_dial"
  using assms by (auto simp: ask_resolved_def ask_def contacts_def engine_defs evaluate_deny_allowed Let_def split: prod.splits)

lemma tell_effect:
  "contacts P st (snd (tell stg t m reason px st))" "contacts P st (snd (tell_refused stg t m reason px st))"
  by (auto simp: tell_def tell_refused_def ask_def contacts_def engine_defs split: prod.split)

lemma tell_allowed: "d_allowed (fst (tell stg t m reason px st))" "\<not> d_allowed (fst (tell_refused stg t m reason px st))"
  by (auto simp: tell_def tell_refused_def ask_def engine_defs split: prod.split)

lemma host_decision_effect:
  assumes "host_decision stg t px st = (d, st1)"
  shows "contacts P st st1" "d_allowed d \<longleftrightarrow> host_port_open px (t_port t)"
proof -
  have tell: "contacts P st s \<and> d_allowed d'" if "tell a b c e px st = (d', s)" for a b c e d' s
    using tell_effect(1) [of P st a b c e px] tell_allowed(1) [of a b c e px st] that by simp
  have refuse: "contacts P st s \<and> \<not> d_allowed d'" if "tell_refused a b c e px st = (d', s)" for a b c e d' s
    using tell_effect(2) [of P st a b c e px] tell_allowed(2) [of a b c e px st] that by simp
  show "contacts P st st1" "d_allowed d \<longleftrightarrow> host_port_open px (t_port t)"
    using assms tell refuse by (auto simp: host_decision_def Let_def split: if_splits)
qed

lemma connect_effect:
  assumes "connect_to a port px st = (ok, st1)" "P (a, port)"
  shows "contacts P st st1"
  using assms by (auto simp: connect_to_def contacts_def set_world_def split: prod.splits)

text \<open>What may be contacted for a target under a policy.\<close>

definition may_contact :: "'w proxy \<Rightarrow> policy \<Rightarrow> target \<Rightarrow> addr \<times> nat \<Rightarrow> bool" where
  "may_contact px p t c \<longleftrightarrow> snd c = nat (t_port t) \<and>
     (if is_host t then fst c = loopback \<and> host_port_open px (t_port t)
      else if target_is_ip t then fst c = with_zone [] (unmap (t_addr t))
      else \<not> covers Deny (pol_rules p) (target_from_addr (fst c) (snd c)))"

lemma candidates_effect:
  assumes "dial_candidates t m as denied failed px st = (r, st')" "\<not> is_host t" "target_is_ip t \<Longrightarrow> set as \<subseteq> {t_addr t}"
  shows "contacts (may_contact px (policy_of st) t) st st'"
  using assms(1,3)
proof (induction as arbitrary: denied failed st)
  case (Cons a as)
  let ?P = "may_contact px (policy_of st) t" and ?a = "with_zone [] (unmap a)" and ?port = "nat (t_port t)"
  have rest: "target_is_ip t \<Longrightarrow> set as \<subseteq> {t_addr t}" using Cons.prems(2) by auto
  have IH: "contacts ?P s st'" if "dial_candidates t m as d f px s = (r, st')" "policy_of s = policy_of st" for d f s
    using Cons.IH [OF that(1) rest] that(2) by simp
  have attempt: "contacts ?P s st'"
    if "(case connect_to ?a ?port px s of (True, s') \<Rightarrow> (None, s') | (False, s') \<Rightarrow> dial_candidates t m as denied True px s') = (r, st')"
      "?P (?a, ?port)" "policy_of s = policy_of st" for s
  proof -
    obtain ok s' where c: "connect_to ?a ?port px s = (ok, s')" by (metis surj_pair)
    then have "contacts ?P s s'" using connect_effect [of ?a ?port px s ok s' ?P] that(2) by blast
    moreover have "contacts ?P s' st'"
      using that(1,3) c calculation IH [of denied True s'] by (cases ok) (auto simp: contacts_def)
    ultimately show ?thesis by (rule contacts_trans)
  qed
  show ?case
  proof (cases "target_is_ip t")
    case True
    then have "?P (?a, ?port)" using Cons.prems(2) assms(2) by (simp add: may_contact_def)
    then show ?thesis using Cons.prems(1) attempt [of st] True by (simp add: Let_def)
  next
    case False
    obtain d s where d: "ask_resolved (target_from_addr ?a ?port) m px st = (d, s)" by (metis surj_pair)
    have s: "contacts ?P st s" "policy_of s = policy_of st"
      using ask_resolved_effect(1) [OF d] by (auto simp: contacts_def)
    show ?thesis
    proof (cases "d_allowed d")
      case True
      then have "?P (?a, ?port)" using ask_resolved_effect(2) [OF d] False assms(2) by (simp add: may_contact_def)
      then have "contacts ?P s st'" using Cons.prems(1) attempt [of s] s(2) False d True by (simp add: Let_def)
      then show ?thesis using s(1) contacts_trans by blast
    next
      case ref: False
      then have "contacts ?P s st'" using Cons.prems(1) IH [of "Some d" failed s] s(2) False d by (simp add: Let_def)
      then show ?thesis using s(1) contacts_trans by blast
    qed
  qed
qed simp

lemma dial_effect:
  assumes "dial t m px st = (r, st')"
  shows "contacts (may_contact px (policy_of st) t) st st'"
proof (cases "is_host t")
  case True
  then show ?thesis using assms connect_effect [of loopback "nat (t_port t)" px st _ st' "may_contact px (policy_of st) t"]
    by (auto simp: dial_def dial_host_def may_contact_def split: if_splits prod.splits)
next
  case False
  then show ?thesis using assms candidates_effect [of t m _ None False px st r st']
    by (auto simp: dial_def simp del: dial_candidates.simps split: if_splits option.splits list.splits)
qed

lemma round_trip_effect: "round_trip pooled t h px st = (r, st') \<Longrightarrow> contacts (may_contact px (policy_of st) t) st st'"
  by (auto simp: round_trip_def split: if_splits prod.splits option.splits dest: dial_effect)

lemma inject_plain_effect: "inject_plain t h px st = (r, st') \<Longrightarrow> contacts P st st'"
  by (auto simp: inject_plain_def split: prod.splits)

text \<open>What an address may be contacted for: an opened port of the host, or a target the policy allows and an address it does not deny.\<close>

definition permitted :: "'w proxy \<Rightarrow> policy \<Rightarrow> target \<Rightarrow> addr \<times> nat \<Rightarrow> bool" where
  "permitted px p t c \<longleftrightarrow> snd c = nat (t_port t) \<and>
     (if is_host t then fst c = loopback \<and> host_port_open px (t_port t)
      else v_allowed (evaluate p t) \<and> \<not> covers Deny (pol_rules p) (target_from_addr (fst c) (snd c)))"

lemma unmap_unzone: "plain a = a \<Longrightarrow> with_zone [] (unmap a) = a"
  by (cases a) (auto simp: addr_defs split: if_splits)

lemma literal_target: "target_ok t \<Longrightarrow> target_is_ip t \<Longrightarrow> target_from_addr (with_zone [] (unmap (t_addr t))) (nat (t_port t)) = t"
  by (cases t) (auto simp: target_ok_def host_ok_def target_is_ip_def target_from_addr_def Let_def unmap_unzone simp flip: plain_def)

lemma may_permitted:
  assumes "target_ok t" "\<not> is_host t \<Longrightarrow> v_allowed (evaluate p t)" "may_contact px p t c"
  shows "permitted px p t c"
proof (cases "is_host t \<or> \<not> target_is_ip t")
  case True
  then show ?thesis using assms by (auto simp: may_contact_def permitted_def)
next
  case False
  then have "\<not> covers Deny (pol_rules p) t" using assms(2) by (simp add: evaluate_allowed permits_def)
  then show ?thesis using False assms literal_target [of t] by (auto simp: may_contact_def permitted_def)
qed

lemma http_decision_effect:
  assumes "http_decision t px st = (d, st1)"
  shows "contacts P st st1" "d_allowed d \<longleftrightarrow> (if is_host t then host_port_open px (t_port t) else v_allowed (evaluate (policy_of st) t))"
  using assms ask_effect [of Stage_http t Mode_forward px st d st1] host_decision_effect [of Stage_http t px st d st1]
  by (auto simp: http_decision_def split: if_splits)

lemma exchange_effect:
  assumes "inject_plain t h px st = (x, st1)" "x = Inr h' \<Longrightarrow> round_trip pooled t h' px st1 = (y, st2)"
  shows "contacts P st st1" "x = Inr h' \<Longrightarrow> contacts (may_contact px (policy_of st) t) st st2"
proof -
  show c: "contacts P st st1" for P by (rule inject_plain_effect [OF assms(1)])
  then show "contacts (may_contact px (policy_of st) t) st st2" if "x = Inr h'"
    using round_trip_effect [OF assms(2) [OF that]] contacts_trans by (metis contacts_def)
qed

lemma handle_http_effect:
  assumes "handle_http r px st = (a, st')"
  shows "if hq_scheme r \<noteq> [] \<and> hq_host r \<noteq> [] \<and> is_ok (parse_target (hq_host r) (default_port_for_scheme (hq_scheme r)))
    then contacts (permitted px (policy_of st) (projr (parse_target (hq_host r) (default_port_for_scheme (hq_scheme r))))) st st'
    else st' = st"
proof (cases "hq_scheme r \<noteq> [] \<and> hq_host r \<noteq> [] \<and> is_ok (parse_target (hq_host r) (default_port_for_scheme (hq_scheme r)))")
  case False
  then show ?thesis using assms by (auto simp: handle_http_def split: sum.splits if_splits)
next
  case True
  then obtain t where t: "parse_target (hq_host r) (default_port_for_scheme (hq_scheme r)) = Inr t"
    by (cases "parse_target (hq_host r) (default_port_for_scheme (hq_scheme r))") auto
  obtain d st1 where d: "http_decision t px st = (d, st1)" by (metis surj_pair)
  have s1: "contacts P st st1" for P using http_decision_effect(1) [OF d] .
  then have pol: "policy_of st1 = policy_of st" by (simp add: contacts_def)
  have "contacts (permitted px (policy_of st) t) st st'"
  proof (cases "d_allowed d")
    case False
    then show ?thesis using assms True t d s1 by (simp add: handle_http_def)
  next
    case allowed: True
    then have ok: "permitted px (policy_of st) t c" if "may_contact px (policy_of st) t c" for c
      using may_permitted [of t "policy_of st" px c] parse_target_ok [OF t] http_decision_effect(2) [OF d] that by auto
    obtain x st2 where x: "inject_plain t (outbound_header (hq_header r)) px st1 = (x, st2)" by (metis surj_pair)
    obtain y st3 where y: "round_trip (hq_pooled r) t (projr x) px st2 = (y, st3)" by (metis surj_pair)
    have "st' = (case x of Inl _ \<Rightarrow> st2 | Inr _ \<Rightarrow> st3)"
      using assms True t d allowed x y by (auto simp: handle_http_def split: sum.splits)
    moreover have "contacts (may_contact px (policy_of st1) t) st1 st2" by (rule inject_plain_effect [OF x])
    moreover have "x = Inr h \<Longrightarrow> contacts (may_contact px (policy_of st1) t) st1 st3" for h
      using exchange_effect(2) [OF x, of h "hq_pooled r" y st3] y by simp
    ultimately have "contacts (may_contact px (policy_of st) t) st1 st'" by (auto simp: pol split: sum.splits)
    then show ?thesis using contacts_trans [OF s1 contacts_mono] ok by blast
  qed
  then show ?thesis using True t by simp
qed

lemma serve_host_effect:
  assumes "is_host t" "serve_host_requests t rs px st = (as, st')"
  shows "contacts (permitted px p t) st st'"
  using assms(2)
proof (induction rs arbitrary: st as st')
  case (Cons r rs)
  have ok: "permitted px p t c" if "may_contact px q t c" for q c
    using that assms(1) by (simp add: may_contact_def permitted_def)
  obtain d st1 where d: "host_decision Stage_http t px st = (d, st1)" by (metis surj_pair)
  obtain x st2 where x: "inject_plain t (outbound_header (hr_header r)) px st1 = (x, st2)" by (metis surj_pair)
  obtain y st3 where y: "round_trip (hr_pooled r) t (projr x) px st2 = (y, st3)" by (metis surj_pair)
  obtain bs st4 where rest: "serve_host_requests t rs px st3 = (bs, st4)" by (metis surj_pair)
  have "contacts (permitted px p t) st st1" by (rule host_decision_effect(1) [OF d])
  moreover have "contacts (permitted px p t) st1 st2" by (rule inject_plain_effect [OF x])
  moreover have "contacts (permitted px p t) st2 st3" using round_trip_effect [OF y] ok contacts_mono by blast
  moreover have "contacts (permitted px p t) st3 st4" by (rule Cons.IH [OF rest])
  ultimately have all: "contacts (permitted px p t) st s" if "s \<in> {st1, st2, st3, st4}" for s
    using that contacts_trans [of "permitted px p t"] by blast
  have "st' \<in> {st1, st2, st3, st4}"
    using Cons.prems d x y rest by (auto split: if_splits sum.splits)
  then show ?case by (rule all)
qed simp

lemma host_tunnel_effect:
  assumes "is_host t" "handle_host_tunnel r t px st = (e, st')"
  shows "contacts (permitted px (policy_of st) t) st st'"
proof -
  obtain d st1 where d: "host_decision Stage_connect t px st = (d, st1)" by (metis surj_pair)
  have "contacts (permitted px (policy_of st) t) st st1" by (rule host_decision_effect(1) [OF d])
  moreover have "contacts (permitted px (policy_of st) t) st1 st'"
    using assms(2) d serve_host_effect [OF assms(1)] tell_effect(2)
    by (auto simp: handle_host_tunnel_def split: if_splits hijack.splits option.splits prod.splits)
  ultimately show ?thesis by (rule contacts_trans)
qed

text \<open>
  What the opened tunnel leads to. The bytes read so far give a name or none: there is none to read
  when the client does not start TLS, sends no server name, or splits its greeting over several records.
  A name other than the one judged is judged too.
\<close>

definition greeted_ok :: "connect_request \<Rightarrow> target \<Rightarrow> policy \<Rightarrow> bytes \<Rightarrow> bool" where
  "greeted_ok r t p head \<longleftrightarrow> (\<exists>sni. read_client_hello [] (cn_reads r) = Inr (head, sni) \<and>
     (sni \<noteq> [] \<and> \<not> equal_fold sni (t_host t) \<longrightarrow> (\<exists>g. new_target sni (t_port t) = Inr g \<and> v_allowed (evaluate p g))))"

lemma open_tunnel_effect:
  assumes "open_tunnel r t m px st = (e, st')"
  shows "contacts P st st'"
    "case e of
       Spliced t' head \<Rightarrow> t' = t \<and> greeted_ok r t (policy_of st) head
     | To_inspect t' head \<Rightarrow> t' = t \<and> m = Mode_forward \<and> looks_like_tls head \<and>
         (\<exists>sni. read_client_hello [] (cn_reads r) = Inr (head, sni) \<and> (sni = [] \<or> equal_fold sni (t_host t)))
     | Answered a \<Rightarrow> a = Fault 500 No_hijacker
     | Host_served _ \<Rightarrow> False
     | Closed \<Rightarrow> True"
proof -
  have note_tell: "contacts P s (snd (tell Stage_connect t Mode_forward_bypass w px s))" for s w by (rule tell_effect(1))
  have "contacts P st st' \<and> (case e of
       Spliced t' head \<Rightarrow> t' = t \<and> greeted_ok r t (policy_of st) head
     | To_inspect t' head \<Rightarrow> t' = t \<and> m = Mode_forward \<and> looks_like_tls head \<and>
         (\<exists>sni. read_client_hello [] (cn_reads r) = Inr (head, sni) \<and> (sni = [] \<or> equal_fold sni (t_host t)))
     | Answered a \<Rightarrow> a = Fault 500 No_hijacker
     | Host_served _ \<Rightarrow> False
     | Closed \<Rightarrow> True)"
  proof (cases "\<exists>head sni. cn_hijack r = Hijacked \<and> cn_greeted r \<and> read_client_hello [] (cn_reads r) = Inr (head, sni)")
    case False
    then show ?thesis using assms
      by (auto simp: open_tunnel_def Let_def split: hijack.splits if_splits sum.splits)
  next
    case True
    then obtain head sni where h: "cn_hijack r = Hijacked" "cn_greeted r" "read_client_hello [] (cn_reads r) = Inr (head, sni)"
      by blast
    let ?matches = "sni = [] \<or> equal_fold sni (t_host t)"
    obtain ok st1 where j: "(if ?matches then (True, st)
        else (case new_target sni (t_port t) of Inl _ \<Rightarrow> (False, st)
           | Inr greeted \<Rightarrow> (case ask_mode Stage_sni greeted m px st of (d, st1) \<Rightarrow> (d_allowed d, st1)))) = (ok, st1)"
      by (metis surj_pair)
    have s1: "contacts P st st1"
      using j by (auto split: if_splits sum.splits prod.splits dest: ask_effect(1))
    have greet: "ok \<Longrightarrow> greeted_ok r t (policy_of st) head"
      using j h(3) by (auto simp: greeted_ok_def split: if_splits sum.splits prod.splits dest: ask_effect(2))
    let ?st2 = "if m = Mode_forward then snd (tell Stage_connect t Mode_forward_bypass
        ''marked for inspection, but the tunnel is not TLS for this name; carried blind and no credential attached'' px st1) else st1"
    have s2: "contacts P st ?st2" using s1 note_tell contacts_trans by auto blast
    have "(e, st') = (if \<not> ok then (Closed, st1)
        else if m = Mode_forward \<and> ?matches \<and> looks_like_tls head then (To_inspect t head, st1)
        else if head \<noteq> [] \<and> \<not> cn_origin_takes r then (Closed, ?st2) else (Spliced t head, ?st2))"
      unfolding assms [symmetric] open_tunnel_def Let_def using h j by simp
    then show ?thesis using s1 s2 greet h(3) by (auto split: if_splits)
  qed
  then show "contacts P st st'" "case e of
       Spliced t' head \<Rightarrow> t' = t \<and> greeted_ok r t (policy_of st) head
     | To_inspect t' head \<Rightarrow> t' = t \<and> m = Mode_forward \<and> looks_like_tls head \<and>
         (\<exists>sni. read_client_hello [] (cn_reads r) = Inr (head, sni) \<and> (sni = [] \<or> equal_fold sni (t_host t)))
     | Answered a \<Rightarrow> a = Fault 500 No_hijacker
     | Host_served _ \<Rightarrow> False
     | Closed \<Rightarrow> True" by blast+
qed

lemma dial_reaches: "dial t m px st = (None, st') \<Longrightarrow> ps_contacted st' \<noteq> ps_contacted st"
proof -
  have longer: "contacts P s s' \<Longrightarrow> length (ps_contacted s) \<le> length (ps_contacted s')" for P s s' by (auto simp: contacts_def)
  have cand: "length (ps_contacted s) < length (ps_contacted s')"
    if "dial_candidates t m as d f px s = (None, s')" for as d f s s'
    using that
  proof (induction as arbitrary: d f s)
    case (Cons a as)
    show ?case
      using Cons.prems Cons.IH longer [OF ask_resolved_effect(1)]
      by (fastforce simp: Let_def connect_to_def set_world_def split: if_splits prod.splits bool.splits)
  qed simp
  show "dial t m px st = (None, st') \<Longrightarrow> ps_contacted st' \<noteq> ps_contacted st"
    using cand [of _ None False st st']
    by (auto simp: dial_def dial_host_def connect_to_def set_world_def simp del: dial_candidates.simps
        split: if_splits option.splits list.splits prod.splits)
qed

text \<open>A CONNECT to another host, step by step.\<close>

lemma connect_steps:
  assumes "handle_connect r px st = (e, st')" "parse_target (cn_host r) 443 = Inr t" "\<not> is_host t"
  obtains (denied) d st1 where "contacts (permitted px (policy_of st) t) st st'" "e = Answered (Denial d)" "\<not> v_allowed (evaluate (policy_of st) t)"
      "ps_contacted st' = ps_contacted st"
  | (unreachable) d where "contacts (permitted px (policy_of st) t) st st'" "v_allowed (evaluate (policy_of st) t)"
      "e = Answered (case d of Dial_denied d' \<Rightarrow> Denial d' | _ \<Rightarrow> Fault 502 (Not_dialled d))"
  | (tunnel) st1 m where "contacts (permitted px (policy_of st) t) st st1" "v_allowed (evaluate (policy_of st) t)"
      "ps_contacted st1 \<noteq> ps_contacted st" "open_tunnel r t m px st1 = (e, st')" "m = Mode_forward \<longleftrightarrow> should_inspect px t"
proof -
  define m where "m = (if should_inspect px t then Mode_forward else Mode_forward_bypass)"
  obtain d st1 where d: "ask_mode Stage_connect t m px st = (d, st1)" by (metis surj_pair)
  have s1: "contacts P st st1" for P by (rule ask_effect(1) [OF d])
  have allowed: "d_allowed d \<longleftrightarrow> v_allowed (evaluate (policy_of st) t)" by (simp add: ask_effect(2) [OF d])
  show ?thesis
  proof (cases "d_allowed d")
    case False
    then have "e = Answered (Denial d)" "st' = st1"
      using assms d by (auto simp: handle_connect_def Let_def m_def)
    moreover have "ps_contacted st1 = ps_contacted st" using s1 [of "\<lambda>_. False"] by (simp add: contacts_none)
    ultimately show ?thesis using denied [of d] s1 allowed False by blast
  next
    case True
    define st2 where "st2 = (if m = Mode_forward_bypass \<and> handles (ij_credentials (px_injector px)) t
        then snd (tell Stage_connect t Mode_forward_bypass
          ''a credential rule names this host, but no certificate authority is configured, so the flow is carried blind and nothing is injected''
          px st1)
        else st1)"
    have s2: "contacts P st st2" for P
      using s1 tell_effect(1) contacts_trans unfolding st2_def by (auto split: if_splits) blast
    obtain x st3 where x: "dial t m px st2 = (x, st3)" by (metis surj_pair)
    have "contacts (may_contact px (policy_of st) t) st2 st3"
      using dial_effect [OF x] s2 [of "\<lambda>_. True"] by (auto simp: contacts_def)
    then have s3: "contacts (permitted px (policy_of st) t) st st3"
      using contacts_trans [OF s2 contacts_mono] may_permitted [OF parse_target_ok [OF assms(2)]] allowed True by blast
    have run: "handle_connect r px st = (case x of
          Some (Dial_denied d') \<Rightarrow> (Answered (Denial d'), st3)
        | Some err \<Rightarrow> (Answered (Fault 502 (Not_dialled err)), st3)
        | None \<Rightarrow> open_tunnel r t m px st3)"
      unfolding handle_connect_def assms(2) sum.case Let_def m_def [symmetric]
      using assms(3) d True x by (simp flip: st2_def)
    show ?thesis
    proof (cases x)
      case (Some err)
      then have "e = Answered (case err of Dial_denied d' \<Rightarrow> Denial d' | _ \<Rightarrow> Fault 502 (Not_dialled err))" "st' = st3"
        using run assms(1) by (auto split: dial_error.splits)
      then show ?thesis using unreachable [of err] s3 allowed True by blast
    next
      case None
      have "ps_contacted st3 \<noteq> ps_contacted st"
        using dial_reaches [of t m px st2 st3] x None s2 [of "\<lambda>_. False"] by (simp add: contacts_none)
      then show ?thesis
        using tunnel [of st3 m] run assms(1) None s3 allowed True by (simp add: m_def)
    qed
  qed
qed

lemma all_denied:
  assumes "\<not> is_host t" "\<not> target_is_ip t" "px_resolve px (world st) (t_host t) = Some as" "as \<noteq> []"
    "list_all (\<lambda>a. covers Deny (pol_rules (policy_of st)) (target_from_addr (with_zone [] (unmap a)) (nat (t_port t)))) as"
  shows "\<exists>d st'. dial t m px st = (Some (Dial_denied d), st') \<and> \<not> d_allowed d \<and> d_stage d = Stage_dial \<and> contacts (\<lambda>_. False) st st'"
proof -
  have run: "\<exists>d st'. dial_candidates t m as den False px s = (Some (Dial_denied d), st') \<and> \<not> d_allowed d \<and> d_stage d = Stage_dial \<and>
      contacts (\<lambda>_. False) s st'"
    if "as \<noteq> [] \<or> (\<exists>d. den = Some d \<and> \<not> d_allowed d \<and> d_stage d = Stage_dial)"
      "list_all (\<lambda>a. covers Deny (pol_rules (policy_of s)) (target_from_addr (with_zone [] (unmap a)) (nat (t_port t)))) as" for as den s
    using that
  proof (induction as arbitrary: den s)
    case (Cons a as)
    let ?t = "target_from_addr (with_zone [] (unmap a)) (nat (t_port t))"
    obtain d s1 where d: "ask_resolved ?t m px s = (d, s1)" by (metis surj_pair)
    have no: "\<not> d_allowed d" "contacts P s s1" "d_stage d = Stage_dial" for P
      using ask_resolved_effect [OF d] Cons.prems(2) by auto
    have "policy_of s1 = policy_of s" using no(2) [of "\<lambda>_. False"] by (simp add: contacts_none)
    then have "\<exists>d' st'. dial_candidates t m as (Some d) False px s1 = (Some (Dial_denied d'), st') \<and> \<not> d_allowed d' \<and> d_stage d' = Stage_dial \<and>
        contacts (\<lambda>_. False) s1 st'"
      using Cons.IH [of "Some d" s1] Cons.prems(2) no by simp
    then show ?case
      using d no assms(2) contacts_trans [OF no(2)] by (auto simp: Let_def)
  qed auto
  have "dial t m px st = dial_candidates t m as None False px st"
    using assms(1-4) by (cases as) (auto simp: dial_def simp del: dial_candidates.simps)
  then show ?thesis using run [of as None st] assms(4,5) by auto
qed

text \<open>All contacts of a request and of a tunnel.\<close>

lemma contacts_permitted:
  "contacts (\<lambda>c. \<exists>t. parse_target (hq_host q) (default_port_for_scheme (hq_scheme q)) = Inr t \<and> permitted px (policy_of st) t c)
     st (snd (handle_http q px st)) \<and>
   contacts (\<lambda>c. \<exists>t. parse_target (cn_host r) 443 = Inr t \<and> permitted px (policy_of st) t c) st (snd (handle_connect r px st))"
proof -
  obtain a st1 where http: "handle_http q px st = (a, st1)" by (metis surj_pair)
  obtain e st2 where connect: "handle_connect r px st = (e, st2)" by (metis surj_pair)
  have "contacts (\<lambda>c. \<exists>t. parse_target (hq_host q) (default_port_for_scheme (hq_scheme q)) = Inr t \<and> permitted px (policy_of st) t c) st st1"
    using handle_http_effect [OF http]
    by (cases "parse_target (hq_host q) (default_port_for_scheme (hq_scheme q))") (auto split: if_splits intro: contacts_mono)
  moreover have "contacts (\<lambda>c. \<exists>t. parse_target (cn_host r) 443 = Inr t \<and> permitted px (policy_of st) t c) st st2"
  proof (cases "parse_target (cn_host r) 443")
    case (Inl f)
    then show ?thesis using connect by (simp add: handle_connect_def)
  next
    case (Inr t)
    have "contacts (permitted px (policy_of st) t) st st2"
    proof (cases "is_host t")
      case True
      then show ?thesis using host_tunnel_effect [OF True] connect Inr by (simp add: handle_connect_def)
    next
      case False
      show ?thesis
        by (rule connect_steps [OF connect Inr False]) (use open_tunnel_effect(1) contacts_trans in blast)+
    qed
    then show ?thesis using Inr by (auto intro: contacts_mono)
  qed
  ultimately show ?thesis by (simp add: http connect)
qed

subsection \<open>Properties\<close>

text \<open>
  C4: nothing is contacted that is not permitted. Every connection the proxy opens for a request or a tunnel, whatever
  the client sends and the resolver answers, goes to the port asked for and either to the
  host's loopback on a port opened for the sandbox, or to an address no deny covers, for a
  destination the policy allows.
\<close>

theorem contacts_only_permitted:
  "contacts (\<lambda>c. \<exists>t. parse_target (hq_host q) (default_port_for_scheme (hq_scheme q)) = Inr t \<and> permitted px (policy_of st) t c)
     st (snd (handle_http q px st)) \<and>
   contacts (\<lambda>c. \<exists>t. parse_target (cn_host r) 443 = Inr t \<and> permitted px (policy_of st) t c) st (snd (handle_connect r px st))"
  by (rule contacts_permitted)

text \<open>
  C34: how a tunnel may end. One that is spliced or handed to the inspection is to a destination the policy
  allows, other than the host, at an address contacted for it. Where a name can be read from the client's
  greeting and is another one, the policy allows that one too; a greeting in which no name can be read,
  a ClientHello split over several records among them, is let through on the destination alone. A tunnel is
  inspected only if there is an authority to sign with and a credential for the destination, and the client
  starts a TLS handshake for that name or for none that can be read.
\<close>

theorem tunnel_endings:
  assumes "handle_connect r px st = (e, st')" "e = Spliced t head \<or> e = To_inspect t head"
  shows "parse_target (cn_host r) 443 = Inr t \<and> \<not> is_host t \<and> v_allowed (evaluate (policy_of st) t) \<and> ps_contacted st' \<noteq> ps_contacted st \<and>
    greeted_ok r t (policy_of st) head \<and>
    (e = To_inspect t head \<longrightarrow> px_authority px \<and> handles (ij_credentials (px_injector px)) t \<and> looks_like_tls head \<and>
       (\<exists>sni. read_client_hello [] (cn_reads r) = Inr (head, sni) \<and> (sni = [] \<or> equal_fold sni (t_host t))))"
proof (cases "parse_target (cn_host r) 443")
  case (Inl f)
  then show ?thesis using assms by (auto simp: handle_connect_def)
next
  case (Inr t')
  have other: "\<not> is_host t'"
    using assms Inr by (auto simp: handle_connect_def handle_host_tunnel_def split: prod.splits if_splits hijack.splits option.splits)
  show ?thesis
  proof (rule connect_steps [OF assms(1) Inr other])
    fix d st1 m
    assume s: "contacts (permitted px (policy_of st) t') st st1" "v_allowed (evaluate (policy_of st) t')" "ps_contacted st1 \<noteq> ps_contacted st"
      and run: "open_tunnel r t' m px st1 = (e, st')" and m: "m = Mode_forward \<longleftrightarrow> should_inspect px t'"
    have pol: "policy_of st1 = policy_of st" and kept: "ps_contacted st' = ps_contacted st1"
      using s(1) open_tunnel_effect(1) [OF run, of "\<lambda>_. False"] by (auto simp: contacts_none) (auto simp: contacts_def)
    note e = open_tunnel_effect(2) [OF run]
    have "t' = t" using e assms(2) by auto
    moreover have "greeted_ok r t (policy_of st) head" using e assms(2) pol by (auto simp: greeted_ok_def)
    ultimately show ?thesis using e assms(2) Inr other s(2,3) kept m by (auto simp: should_inspect_def)
  qed (use assms(2) in auto)
qed

definition proxy_ex :: "nat proxy" where
  "proxy_ex =
     \<lparr>px_injector = injector_ex, px_authority = True, px_resolve = (\<lambda>w h. Some [A4 0x7F000001]), px_dial = (\<lambda>w a p. (True, w)),
      px_origin = (\<lambda>w t h. (Some \<lparr>rs_status = 200, rs_header = [], rs_close = True\<rparr>, w)), px_now = (\<lambda>w. 0), px_host_ports = [8080]\<rparr>"

definition proxy_state_ex :: "rule list \<Rightarrow> nat proxy_state" where
  "proxy_state_ex rs =
     \<lparr>ps_engine = \<lparr>en_policy = \<lparr>pol_name = ''p'', pol_default = Allow, pol_rules = rs\<rparr>, en_log = new_log 1, en_sandbox = []\<rparr>,
      ps_injector = start_state 0, ps_contacted = []\<rparr>"

definition connect_ex :: "string \<Rightarrow> connect_request" where
  "connect_ex h = \<lparr>cn_host = h, cn_hijack = Hijacked, cn_greeted = True, cn_reads = [([0x16], None)], cn_requests = [], cn_origin_takes = True\<rparr>"

definition greeting_ex :: connect_request where
  "greeting_ex = (connect_ex ''c:443'')\<lparr>cn_reads := [(hello_ex, None)]\<rparr>"

text \<open>
  In the witness the client asks for one host and greets another: the tunnel is spliced under a policy that allows both, after a
  connection, and closed under one that denies the second.
\<close>

theorem tunnel_endings_witness:
  "\<exists>t st' g. handle_connect greeting_ex proxy_ex (proxy_state_ex []) = (Spliced t hello_ex, st') \<and> t_host t = ''c'' \<and>
     ps_contacted st' \<noteq> [] \<and> new_target ''a.b'' 443 = Inr g \<and> v_allowed (evaluate (policy_of (proxy_state_ex [])) g) \<and>
     fst (handle_connect greeting_ex proxy_ex (proxy_state_ex [projr (parse_rule Deny ''a.b'')])) = Closed"
proof -
  let ?t = "\<lparr>t_host = ''c'', t_addr = Addr_none, t_port = 443\<rparr>"
  have ends: "fst (handle_connect greeting_ex proxy_ex (proxy_state_ex [])) = Spliced ?t hello_ex"
    "fst (handle_connect greeting_ex proxy_ex (proxy_state_ex [projr (parse_rule Deny ''a.b'')])) = Closed"
    by code_simp+
  then obtain st' where run: "handle_connect greeting_ex proxy_ex (proxy_state_ex []) = (Spliced ?t hello_ex, st')"
    by (metis prod.collapse)
  have read: "read_client_hello [] (cn_reads greeting_ex) = Inr (hello_ex, ''a.b'')" "\<not> equal_fold ''a.b'' ''c''" by code_simp+
  from tunnel_endings [OF run disjI1 [OF refl]] obtain g where
    "new_target ''a.b'' 443 = Inr g" "v_allowed (evaluate (policy_of (proxy_state_ex [])) g)"
    "ps_contacted st' \<noteq> ps_contacted (proxy_state_ex [])"
    using read by (auto simp: greeted_ok_def)
  moreover have "ps_contacted (proxy_state_ex []) = []" by (simp add: proxy_state_ex_def)
  ultimately show ?thesis using run ends(2)
    by (intro exI [of _ ?t] exI [of _ st'] exI [of _ g]) simp
qed

text \<open>
  A name whose addresses are all denied. A tunnel to it is refused with the denial, in a form that says what
  was blocked; a plain request to it, judged by the same rules, is answered as a failed
  upstream, with status 502 and without the text of a refusal. Nothing is contacted in either case.
\<close>

theorem denied_address_answers:
  assumes "parse_target (hq_host q) (default_port_for_scheme (hq_scheme q)) = Inr t" "parse_target (cn_host r) 443 = Inr t"
    "hq_scheme q \<noteq> []" "hq_host q \<noteq> []" "\<not> hq_pooled q" "\<not> is_host t" "\<not> target_is_ip t" "v_allowed (evaluate (policy_of st) t)"
    "ij_credentials (px_injector px) = []" "px_resolve px (world st) (t_host t) = Some as" "as \<noteq> []"
    "list_all (\<lambda>a. covers Deny (pol_rules (policy_of st)) (target_from_addr (with_zone [] (unmap a)) (nat (t_port t)))) as"
  shows "\<exists>d d' st1 st2. handle_connect r px st = (Answered (Denial d), st1) \<and> handle_http q px st = (Fault 502 (Not_dialled (Dial_denied d')), st2) \<and>
    d_stage d = Stage_dial \<and> \<not> d_allowed d \<and> \<not> d_allowed d' \<and> ps_contacted st1 = ps_contacted st \<and> ps_contacted st2 = ps_contacted st"
proof -
  obtain c s1 where c: "ask_mode Stage_connect t Mode_forward_bypass px st = (c, s1)" by (metis surj_pair)
  obtain h s2 where h: "ask_mode Stage_http t Mode_forward px st = (h, s2)" by (metis surj_pair)
  have eff: "d_allowed c" "d_allowed h" using ask_effect(2) [OF c] ask_effect(2) [OF h] assms(8) by simp_all
  have same: "contacts (\<lambda>_. False) st s1" "contacts (\<lambda>_. False) st s2" by (rule ask_effect(1) [OF c], rule ask_effect(1) [OF h])
  have w: "world s1 = world st" "world s2 = world st"
    using c h by (auto simp: ask_mode_def ask_def world_def split: prod.splits)
  obtain d t1 where d: "dial t Mode_forward_bypass px s1 = (Some (Dial_denied d), t1)" "\<not> d_allowed d" "d_stage d = Stage_dial" "contacts (\<lambda>_. False) s1 t1"
    using all_denied [of t px s1 as Mode_forward_bypass] assms(6,7,10-12) same(1) w(1) by (auto simp: contacts_none)
  have inj: "inject_plain t (outbound_header (hq_header q)) px s2 = (Inr (outbound_header (hq_header q)), s2)"
    using assms(9) by (simp add: inject_plain_def apply_injector_def)
  obtain d' t2 where d': "dial t Mode_forward px s2 = (Some (Dial_denied d'), t2)" "\<not> d_allowed d'" "contacts (\<lambda>_. False) s2 t2"
    using all_denied [of t px s2 as Mode_forward] assms(6,7,10-12) same(2) w(2) by (auto simp: contacts_none)
  have "handle_connect r px st = (Answered (Denial d), t1)"
    using assms(2,6,9) c eff(1) d(1) by (simp add: handle_connect_def should_inspect_def handles_def Let_def)
  moreover have "handle_http q px st = (Fault 502 (Not_dialled (Dial_denied d')), t2)"
    using assms(1,3-6) h eff(2) inj d'(1) by (simp add: handle_http_def http_decision_def round_trip_def)
  ultimately show ?thesis using d d' same by (auto simp: contacts_none)
qed

definition denied_state_ex :: "nat proxy_state" where
  "denied_state_ex = proxy_state_ex [projr (parse_rule Deny ''127.0.0.0/8'')]"

definition request_ex :: "string \<Rightarrow> http_request" where
  "request_ex h = \<lparr>hq_scheme = ''http'', hq_host = h, hq_header = [], hq_pooled = False\<rparr>"

theorem denied_address_answers_witness:
  "\<exists>d d' st1 st2. handle_connect (connect_ex ''c:80'') (proxy_ex\<lparr>px_injector := injector_ex\<lparr>ij_credentials := []\<rparr>\<rparr>) denied_state_ex = (Answered (Denial d), st1) \<and>
     handle_http (request_ex ''c'') (proxy_ex\<lparr>px_injector := injector_ex\<lparr>ij_credentials := []\<rparr>\<rparr>) denied_state_ex =
       (Fault 502 (Not_dialled (Dial_denied d')), st2)"
proof -
  let ?t = "\<lparr>t_host = ''c'', t_addr = Addr_none, t_port = 80\<rparr>"
  have "parse_target ''c'' (default_port_for_scheme ''http'') = Inr ?t" "parse_target ''c:80'' 443 = Inr ?t" "\<not> is_host ?t"
      "v_allowed (evaluate (policy_of denied_state_ex) ?t)"
      "covers Deny (pol_rules (policy_of denied_state_ex)) (target_from_addr (with_zone [] (unmap (A4 0x7F000001))) (nat 80))"
    by code_simp+
  then show ?thesis
    using denied_address_answers [of "request_ex ''c''" ?t "connect_ex ''c:80''" denied_state_ex "proxy_ex\<lparr>px_injector := injector_ex\<lparr>ij_credentials := []\<rparr>\<rparr>"
        "[A4 0x7F000001]"]
    by (simp add: request_ex_def connect_ex_def target_is_ip_def addr_valid_def proxy_ex_def) blast
qed

end
