(* ===== verification/Proxy_Inspect.thy ===== *)
theory Proxy_Inspect
  imports Proxy_Connect
begin

section \<open>Inspected flows: \<open>internal/proxy/inspect.go\<close>\<close>

text \<open>
  A flow whose TLS the proxy terminates carries requests one after the other. Each is judged by the host it names,
  loses its hop-by-hop headers, and is answered on the host, relayed and captured, or forwarded with a
  credential. The origin is a function on the world; the texts of errors and JSON documents are
  parameters, since their spelling is the library's. What is written to the log of operational errors is left out.
\<close>

subsection \<open>Requests and replies\<close>

record sent_request =
  sr_method :: string
  sr_host :: string
  sr_path :: string
  sr_header :: header
  sr_body :: string

text \<open>
  The last flags tell whether the whole body could be read and whether the origin closes the connection. What
  the origin sends behind the response comes in two parts: the bytes read together with the
  response, which are in the reader's buffer, and the bytes that come later.
\<close>

record origin_response =
  os_status :: nat
  os_header :: header
  os_body :: string
  os_whole :: bool
  os_close :: bool
  os_buffered :: string
  os_rest :: string

datatype origin_reply = Send_failed | Bad_response | Response origin_response

datatype inspect_fault = Apply_fault inj_error | Exchange_fault inj_error | Acquire_fault acquire_error

text \<open>A text the proxy writes, a JSON answer (and whether it ends the connection), or the origin's response.\<close>

datatype guest_reply = Status_reply nat string | Json_reply bool nat string | Passed nat header string

text \<open>
  What happens on a flow: a request is sent, a reply is given, or, after an upgrade, bytes are carried to the origin
  and to the guest that nobody reads.
\<close>

datatype flow_event = To_origin sent_request | To_guest guest_reply | Opaque string string

record 'w inspector =
  vi_proxy :: "'w proxy"
  vi_exchange :: "'w \<Rightarrow> sent_request \<Rightarrow> origin_reply \<times> 'w"
  vi_decode :: "string \<Rightarrow> json option"
  vi_encode :: "json \<Rightarrow> string"
  vi_fault_text :: "inspect_fault \<Rightarrow> string"
  vi_stale_text :: "inj_error list \<Rightarrow> string"

definition vi_injector :: "'w inspector \<Rightarrow> 'w injector" where
  "vi_injector vi = px_injector (vi_proxy vi)"

text \<open>
  A request of the guest; the body is \<open>None\<close> where reading it fails, the last flag tells whether the guest takes the
  answer, and the last field holds the bytes it sends behind the request if the connection is upgraded.
\<close>

record guest_request =
  gr_method :: string
  gr_host :: string
  gr_path :: string
  gr_header :: header
  gr_body :: "string option"
  gr_close :: bool
  gr_takes :: bool
  gr_rest :: string

text \<open>\<open>net.SplitHostPort\<close>: the host, where the text is a host and a port.\<close>

definition last_index :: "char \<Rightarrow> string \<Rightarrow> nat" where
  "last_index c s = length s - 1 - length (takeWhile (\<lambda>x. x \<noteq> c) (rev s))"

definition net_host :: "string \<Rightarrow> string option" where
  "net_host s =
     (if CHR '':'' \<notin> set s then None
      else (let i = last_index CHR '':'' s
        in if prefix ''['' s then
             (let e = length (takeWhile (\<lambda>x. x \<noteq> CHR '']'') s)
              in if e + 1 = i \<and> CHR ''['' \<notin> set (tl s) \<and> CHR '']'' \<notin> set (drop (e + 1) s) then Some (take (e - 1) (tl s)) else None)
           else if CHR '':'' \<in> set (take i s) \<or> CHR ''['' \<in> set s \<or> CHR '']'' \<in> set s then None
           else Some (take i s)))"

definition request_host :: "string \<Rightarrow> string" where
  "request_host host = (if host = [] then [] else case net_host host of Some h \<Rightarrow> h | None \<Rightarrow> host)"

definition boks_policy_header :: "nat \<Rightarrow> string" where
  "boks_policy_header status = (if status = 403 then ''deny'' else ''error'')"

definition crlf :: string where "crlf = [CHR 0x0D, CHR 0x0A]"

definition write_status :: "(nat \<Rightarrow> string) \<Rightarrow> nat \<Rightarrow> string \<Rightarrow> string" where
  "write_status status_text status body =
     ''HTTP/1.1 '' @ itoa (int status) @ '' '' @ status_text status @ crlf @
     ''Content-Type: text/plain; charset=utf-8'' @ crlf @
     ''Content-Length: '' @ itoa (int (length body)) @ crlf @
     ''Boks-Policy: '' @ boks_policy_header status @ crlf @
     ''Connection: close'' @ crlf @ crlf @ body"

definition write_json :: "(nat \<Rightarrow> string) \<Rightarrow> nat \<Rightarrow> string \<Rightarrow> string" where
  "write_json status_text status body =
     ''HTTP/1.1 '' @ itoa (int status) @ '' '' @ status_text status @ crlf @
     ''Content-Type: application/json'' @ crlf @
     ''Cache-Control: no-store'' @ crlf @
     ''Content-Length: '' @ itoa (int (length body)) @ crlf @
     ''Boks-Policy: allow'' @ crlf @ crlf @ body"

definition write_json_closing :: "(nat \<Rightarrow> string) \<Rightarrow> nat \<Rightarrow> string \<Rightarrow> string" where
  "write_json_closing status_text status body =
     ''HTTP/1.1 '' @ itoa (int status) @ '' '' @ status_text status @ crlf @
     ''Content-Type: application/json'' @ crlf @
     ''Cache-Control: no-store'' @ crlf @
     ''Content-Length: '' @ itoa (int (length body)) @ crlf @
     ''Boks-Policy: allow'' @ crlf @
     ''Connection: close'' @ crlf @ crlf @ body"

subsection \<open>Token requests\<close>

definition max_token_request :: nat where "max_token_request = 65536"

definition max_token_response :: nat where "max_token_response = 1048576"

text \<open>A question to the injector, on the world of the proxy.\<close>

definition with_injector :: "('w inj_state \<Rightarrow> 'a \<times> 'w inj_state) \<Rightarrow> 'w proxy_state \<Rightarrow> 'a \<times> 'w proxy_state" where
  "with_injector f st = (case f (ps_injector st) of (x, ij) \<Rightarrow> (x, st\<lparr>ps_injector := ij\<rparr>))"

definition send_origin :: "'w inspector \<Rightarrow> sent_request \<Rightarrow> 'w proxy_state \<Rightarrow> origin_reply \<times> 'w proxy_state" where
  "send_origin vi sr st = (case vi_exchange vi (world st) sr of (r, w) \<Rightarrow> (r, set_world w st))"

definition answer_token_request ::
    "'w inspector \<Rightarrow> target \<Rightarrow> credential \<Rightarrow> 'w proxy_state \<Rightarrow> flow_event list \<times> bool \<times> 'w proxy_state" where
  "answer_token_request vi t c st =
     (case with_injector (exchange_token (vi_encode vi) (vi_injector vi) c) st of (res, st1) \<Rightarrow>
       (case res of
          Inl e \<Rightarrow>
            (let text = vi_fault_text vi (Exchange_fault e)
             in ([To_guest (Status_reply 502 (''boks: '' @ text @ nl))], False,
                 snd (tell_refused Stage_request t Mode_forward
                   (''the oauth credential '' @ cr_service c @ '' could not be refreshed on the host ('' @ text @
                    ''). If a previous sandbox refreshed it, the rotation invalidated the stored copy: re-run 'boks secret adopt' (or 'boks secret import') to store a current one'')
                   (vi_proxy vi) st1)))
        | Inr x \<Rightarrow>
            ([To_guest (Json_reply False (te_status x) (te_body x))], True,
             snd (tell Stage_request t Mode_forward
               (''oauth token request for '' @ cr_service c @ '' answered on the host; the guest keeps its sentinels'') (vi_proxy vi) st1))))"

definition content_encoding :: string where "content_encoding = ''Content-Encoding''"

definition relay_token_request ::
    "'w inspector \<Rightarrow> target \<Rightarrow> credential \<Rightarrow> sent_request \<Rightarrow> 'w proxy_state \<Rightarrow> flow_event list \<times> bool \<times> 'w proxy_state" where
  "relay_token_request vi t c sr st =
     (let sr = sr\<lparr>sr_header := prepare_relay (sr_header sr)\<rparr>; status = (\<lambda>text. To_guest (Status_reply 502 text))
      in case send_origin vi sr st of (reply, st1) \<Rightarrow>
        (case reply of
           Send_failed \<Rightarrow> ([To_origin sr, status (''boks: the login exchange could not be sent'' @ nl)], False, st1)
         | Bad_response \<Rightarrow> ([To_origin sr, status (''boks: the login exchange got no readable answer'' @ nl)], False, st1)
         | Response resp \<Rightarrow>
             if \<not> os_whole resp \<or> max_token_response < length (os_body resp) then
               ([To_origin sr, status (''boks: the login exchange returned more than boks will read'' @ nl)], False, st1)
             else if h_get content_encoding (os_header resp) \<noteq> [] \<and> \<not> equal_fold (h_get content_encoding (os_header resp)) ''identity'' then
               ([To_origin sr, status (''boks: the login exchange returned an encoded body boks will not forward unread'' @ nl)], False, st1)
             else (case with_injector (acquire_token (vi_decode vi) (vi_encode vi) (vi_injector vi) c (os_status resp) (os_body resp)) st1 of
                 (Inl e, st2) \<Rightarrow> ([To_origin sr, status (''boks: '' @ vi_fault_text vi (Acquire_fault e) @ nl)], False, st2)
               | (Inr out, st2) \<Rightarrow>
                   ([To_origin sr, To_guest (Json_reply True (aq_status out) (aq_body out))], False,
                    if aq_acquired out
                    then snd (tell Stage_request t Mode_forward
                      (''oauth login for '' @ cr_service c @ '' completed inside the sandbox; the tokens were kept on the host and the guest received sentinels'')
                      (vi_proxy vi) st2)
                    else st2))))"

subsection \<open>The loop\<close>

text \<open>
  Forwarding with a credential. The flag tells whether the connection carries another request. A body that
  cannot be read fails the sending, after the head of the request. A request without a host goes out with
  an empty \<open>Host\<close> field: \<open>net/http\<close> reports a missing host only for a request without a URL, which one read from a
  connection has. After the answer to an upgrade the two connections are spliced: the splice reads the
  guest through the reader of the requests, but the origin past the reader of the responses.
\<close>

definition forward_request ::
    "'w inspector \<Rightarrow> target \<Rightarrow> guest_request \<Rightarrow> sent_request \<Rightarrow> 'w proxy_state \<Rightarrow> flow_event list \<times> bool \<times> 'w proxy_state" where
  "forward_request vi t q sr st =
     (case with_injector (apply_injector (vi_injector vi) t (sr_header sr) Flow_tls) st of (res, st1) \<Rightarrow>
       (case res of
          Inl e \<Rightarrow>
            ([To_guest (Status_reply 502 (''boks: credential injection failed: '' @ vi_fault_text vi (Apply_fault e) @ nl))], False, st1)
        | Inr (h, used, stale) \<Rightarrow>
            (let st2 = (if stale = [] then st1
                        else snd (tell Stage_request t Mode_forward
                          (''forwarded without a credential: '' @ vi_stale_text vi stale @
                           ''. The agent will be asked to log in again, and that login is stored on the host; or run 'boks secret adopt' to store a current one'')
                          (vi_proxy vi) st1));
                 sr = sr\<lparr>sr_header := h\<rparr>
             in case (if gr_body q = None then (Send_failed, st2) else send_origin vi sr st2) of (reply, st3) \<Rightarrow>
               (case reply of
                  Send_failed \<Rightarrow> ([To_origin sr], False, st3)
                | Bad_response \<Rightarrow> ([To_origin sr, To_guest (Status_reply 502 (''boks: the origin's response could not be read'' @ nl))], False, st3)
                | Response resp \<Rightarrow>
                    (let events = [To_origin sr, To_guest (Passed (os_status resp) (os_header resp) (os_body resp))]
                     in if \<not> gr_takes q then (events, False, st3)
                        else if os_status resp = 101 then
                          (events @ [Opaque (gr_rest q) (os_rest resp)], False, snd (tell Stage_request t Mode_forward_bypass
                             ''protocol upgrade inside an inspected flow; the remainder is carried opaquely'' (vi_proxy vi) st3))
                        else (events, \<not> gr_close q \<and> \<not> os_close resp, st3))))))"

text \<open>The header a request leaves with, before a credential is added.\<close>

definition inspected_header :: "header \<Rightarrow> header" where
  "inspected_header h =
     (let h = outbound_header h in if h_get ''User-Agent'' h = [] then h_set ''User-Agent'' [] h else h)"

definition token_request ::
    "'w inspector \<Rightarrow> target \<Rightarrow> credential \<Rightarrow> guest_request \<Rightarrow> sent_request \<Rightarrow> 'w proxy_state \<Rightarrow> flow_event list \<times> bool \<times> 'w proxy_state" where
  "token_request vi t c q sr st =
     (case gr_body q of
        None \<Rightarrow> ([To_guest (Status_reply 502 (''boks: the token request could not be read'' @ nl))], False, st)
      | Some b \<Rightarrow>
          (let body = take (max_token_request + 1) b;
               sr = sr\<lparr>sr_body := body\<rparr>;
               kind = (if length body \<le> max_token_request
                       then classify_token_request (vi_decode vi) c (h_get ''Content-Type'' (sr_header sr)) body
                       else Request_foreign)
           in if kind = Request_foreign then
                forward_request vi t q sr (snd (tell Stage_request t Mode_forward
                  (''token request for another oauth client than '' @ cr_service c @ ''; forwarded as the guest wrote it'') (vi_proxy vi) st))
              else (case with_injector (needs_acquisition (vi_injector vi) c) st of (needs, st1) \<Rightarrow>
                if needs then relay_token_request vi t c sr st1 else answer_token_request vi t c st1)))"

definition serve_request :: "'w inspector \<Rightarrow> target \<Rightarrow> guest_request \<Rightarrow> 'w proxy_state \<Rightarrow> flow_event list \<times> bool \<times> 'w proxy_state" where
  "serve_request vi t q st =
     (let host = request_host (gr_host q); status = (\<lambda>code text. [To_guest (Status_reply code text)]);
          sr = \<lparr>sr_method = gr_method q, sr_host = gr_host q, sr_path = gr_path q, sr_header = inspected_header (gr_header q),
                sr_body = (case gr_body q of Some b \<Rightarrow> b | None \<Rightarrow> [])\<rparr>;
          go = (\<lambda>st. case token_endpoint_for (ij_credentials (vi_injector vi)) t (gr_path q) of
                  Some c \<Rightarrow> if gr_method q = ''POST'' then token_request vi t c q sr st else forward_request vi t q sr st
                | None \<Rightarrow> forward_request vi t q sr st)
      in if gr_method q = ''CONNECT'' then (status 400 (''boks: CONNECT is not accepted inside an inspected flow'' @ nl), False, st)
         else if host \<noteq> [] \<and> \<not> equal_fold host (t_host t) then
           (case new_target host (t_port t) of
              Inl _ \<Rightarrow> (status 400 (''boks: the request's Host header is not a usable destination'' @ nl), False, st)
            | Inr named \<Rightarrow>
                (case ask_mode Stage_request named Mode_forward (vi_proxy vi) st of (d, st1) \<Rightarrow>
                  if \<not> d_allowed d then (status 403 (denial_text d), False, st1) else go st1))
         else go st)"

fun serve_inspected :: "'w inspector \<Rightarrow> target \<Rightarrow> guest_request list \<Rightarrow> 'w proxy_state \<Rightarrow> flow_event list \<times> 'w proxy_state" where
  "serve_inspected vi t [] st = ([], st)"
| "serve_inspected vi t (q # qs) st =
     (case serve_request vi t q st of (events, keep, st1) \<Rightarrow>
       if \<not> keep then (events, st1)
       else (case serve_inspected vi t qs st1 of (events', st2) \<Rightarrow> (events @ events', st2)))"

text \<open>
  \<open>inspect\<close>: the certificate for the target, the handshake with the guest, and the one with the origin, whose
  certificate has to be that of the target; the first argument says how far this gets.
\<close>

datatype handshakes = No_certificate | Guest_failed | Origin_unverified string | Both_done

definition inspect :: "handshakes \<Rightarrow> 'w inspector \<Rightarrow> target \<Rightarrow> guest_request list \<Rightarrow> 'w proxy_state \<Rightarrow> flow_event list \<times> 'w proxy_state" where
  "inspect hs vi t qs st =
     (case hs of
        No_certificate \<Rightarrow> ([], st)
      | Guest_failed \<Rightarrow> ([], st)
      | Origin_unverified reason \<Rightarrow>
          ([To_guest (Status_reply 502
             (''boks: refused to connect to '' @ target_string t @ nl @ nl @
              ''This host has a credential rule, so boks terminates TLS for it and verifies'' @ nl @
              ''the origin's certificate itself. That verification failed, so nothing was sent.'' @ nl @ nl @
              ''  reason: '' @ reason @ nl))], st)
      | Both_done \<Rightarrow> serve_inspected vi t qs st)"

subsection \<open>Lemmas\<close>

lemma tell_keeps [simp]:
  "contacts P st0 (snd (tell stg t m reason px st)) \<longleftrightarrow> contacts P st0 st"
  "contacts P st0 (snd (tell_refused stg t m reason px st)) \<longleftrightarrow> contacts P st0 st"
  "contacts P (snd (tell stg t m reason px st)) st0 \<longleftrightarrow> contacts P st st0"
  "ps_injector (snd (tell stg t m reason px st)) = ps_injector st" "ps_injector (snd (tell_refused stg t m reason px st)) = ps_injector st"
  "world (snd (tell stg t m reason px st)) = world st"
  by (auto simp: tell_def tell_refused_def ask_def contacts_def engine_defs world_def split: prod.split)

lemma with_injector_effect: "with_injector f st = (x, st1) \<Longrightarrow> contacts P st st1"
  by (auto simp: with_injector_def split: prod.splits)

lemma send_effect: "send_origin vi sr st = (x, st1) \<Longrightarrow> contacts P st st1"
  by (auto simp: send_origin_def split: prod.splits)

text \<open>The events of one request: what is sent names the host the request names, and the injector's texts aside nothing is contacted.\<close>

definition sends :: "string \<Rightarrow> flow_event list \<Rightarrow> bool" where
  "sends host events \<longleftrightarrow> list_all (\<lambda>e. case e of To_origin sr \<Rightarrow> sr_host sr = host | _ \<Rightarrow> True) events"

text \<open>
  An answer to a request carries nothing unread, or it ends the requests: the request went out, the origin switched
  protocols, and the rest of what the guest sends is carried.
\<close>

definition unread :: "flow_event \<Rightarrow> bool" where
  "unread e \<longleftrightarrow> (case e of Opaque _ _ \<Rightarrow> True | _ \<Rightarrow> False)"

lemma unread_Opaque: "list_ex unread events \<Longrightarrow> \<exists>up down. Opaque up down \<in> set events"
  unfolding list_ex_iff
proof (elim bexE)
  fix e assume e: "e \<in> set events" "unread e"
  from e(2) obtain up down where "e = Opaque up down" by (cases e) (simp_all add: unread_def)
  with e(1) show "\<exists>up down. Opaque up down \<in> set events" by blast
qed

definition upgrade_last :: "guest_request \<Rightarrow> string \<Rightarrow> flow_event list \<Rightarrow> bool \<Rightarrow> bool" where
  "upgrade_last q host events keep \<longleftrightarrow> \<not> list_ex unread events \<or>
     \<not> keep \<and> (\<exists>sr h b down. events = [To_origin sr, To_guest (Passed 101 h b), Opaque (gr_rest q) down] \<and> sr_host sr = host)"

lemma unread_simps [simp]: "\<not> unread (To_origin sr)" "\<not> unread (To_guest r)" "unread (Opaque up down)"
  by (simp_all add: unread_def)

lemma answer_effect:
  assumes "answer_token_request vi t c st = (events, keep, st1)"
  shows "contacts P st st1 \<and> (\<exists>reply. events = [To_guest reply])"
proof -
  obtain x s where x: "with_injector (exchange_token (vi_encode vi) (vi_injector vi) c) st = (x, s)" by (metis surj_pair)
  then have "contacts P st s" by (rule with_injector_effect)
  then show ?thesis using assms by (cases x) (auto simp: answer_token_request_def x Let_def)
qed

lemma relay_effect:
  assumes "relay_token_request vi t c sr st = (events, keep, st1)"
  shows "contacts P st st1 \<and> sends (sr_host sr) events \<and> \<not> list_ex unread events"
proof -
  let ?sr = "sr\<lparr>sr_header := prepare_relay (sr_header sr)\<rparr>"
  obtain r s where r: "send_origin vi ?sr st = (r, s)" by (metis surj_pair)
  have s: "contacts P st s" by (rule send_effect [OF r])
  show ?thesis
  proof (cases r)
    case (Response resp)
    obtain x s2 where x: "with_injector (acquire_token (vi_decode vi) (vi_encode vi) (vi_injector vi) c (os_status resp) (os_body resp)) s = (x, s2)"
      by (metis surj_pair)
    have "contacts P st s2" by (rule contacts_trans [OF s with_injector_effect [OF x]])
    then show ?thesis
      using assms s unfolding relay_token_request_def Let_def r prod.case Response origin_reply.case x
      by (cases x) (auto simp: sends_def split: if_splits)
  qed (use assms s in \<open>auto simp: relay_token_request_def r sends_def Let_def\<close>)
qed

lemma forward_effect:
  assumes "forward_request vi t q sr st = (events, keep, st1)"
  shows "contacts P st st1 \<and> sends (sr_host sr) events \<and> upgrade_last q (sr_host sr) events keep"
proof -
  obtain x s1 where x: "with_injector (apply_injector (vi_injector vi) t (sr_header sr) Flow_tls) st = (x, s1)" by (metis surj_pair)
  have s1: "contacts P st s1" by (rule with_injector_effect [OF x])
  show ?thesis
  proof (cases x)
    case (Inl e)
    then show ?thesis using assms x s1 by (auto simp: forward_request_def sends_def upgrade_last_def)
  next
    case (Inr y)
    obtain h used stale where y: "y = (h, used, stale)" by (metis prod_cases3)
    define s2 where "s2 = (if stale = [] then s1
        else snd (tell Stage_request t Mode_forward
          (''forwarded without a credential: '' @ vi_stale_text vi stale @
           ''. The agent will be asked to log in again, and that login is stored on the host; or run 'boks secret adopt' to store a current one'')
          (vi_proxy vi) s1))"
    have s2: "contacts P st s2" using s1 by (simp add: s2_def)
    obtain r s3 where r: "(if gr_body q = None then (Send_failed, s2) else send_origin vi (sr\<lparr>sr_header := h\<rparr>) s2) = (r, s3)" by (metis surj_pair)
    have s3: "contacts P st s3"
      using r s2 send_effect [of vi "sr\<lparr>sr_header := h\<rparr>" s2 r s3 P] contacts_trans [of P st s2 s3] by (auto split: if_splits)
    show ?thesis
      using assms s3 unfolding forward_request_def x Inr y prod.case sum.case Let_def s2_def [symmetric] r
      by (auto simp: sends_def upgrade_last_def split: origin_reply.splits if_splits)
  qed
qed

lemma token_request_effect:
  assumes "token_request vi t c q sr st = (events, keep, st1)"
  shows "contacts P st st1 \<and> sends (sr_host sr) events \<and> upgrade_last q (sr_host sr) events keep"
proof (cases "gr_body q")
  case None
  then show ?thesis using assms by (auto simp: token_request_def sends_def upgrade_last_def)
next
  case (Some b)
  obtain needs s where n: "with_injector (needs_acquisition (vi_injector vi) c) st = (needs, s)" by (metis surj_pair)
  have s: "contacts P st s" by (rule with_injector_effect [OF n])
  show ?thesis
    using assms s unfolding token_request_def Some option.case Let_def n prod.case
    by (auto split: if_splits dest!: forward_effect [where P=P] relay_effect [where P=P] answer_effect [where P=P] intro: contacts_trans)
      (auto simp: sends_def upgrade_last_def)
qed

text \<open>A host the policy lets a request of an inspected flow name.\<close>

definition host_judged :: "policy \<Rightarrow> target \<Rightarrow> string \<Rightarrow> bool" where
  "host_judged p t host \<longleftrightarrow> request_host host = [] \<or> equal_fold (request_host host) (t_host t) \<or>
     (\<exists>g. new_target (request_host host) (t_port t) = Inr g \<and> v_allowed (evaluate p g))"

definition go_on :: "'w inspector \<Rightarrow> target \<Rightarrow> guest_request \<Rightarrow> 'w proxy_state \<Rightarrow> flow_event list \<times> bool \<times> 'w proxy_state" where
  "go_on vi t q st =
     (let sr = \<lparr>sr_method = gr_method q, sr_host = gr_host q, sr_path = gr_path q, sr_header = inspected_header (gr_header q),
                sr_body = (case gr_body q of Some b \<Rightarrow> b | None \<Rightarrow> [])\<rparr>
      in case token_endpoint_for (ij_credentials (vi_injector vi)) t (gr_path q) of
           Some c \<Rightarrow> if gr_method q = ''POST'' then token_request vi t c q sr st else forward_request vi t q sr st
         | None \<Rightarrow> forward_request vi t q sr st)"

lemma serve_request_eq: "serve_request vi t q st =
    (if gr_method q = ''CONNECT'' then ([To_guest (Status_reply 400 (''boks: CONNECT is not accepted inside an inspected flow'' @ nl))], False, st)
     else if request_host (gr_host q) \<noteq> [] \<and> \<not> equal_fold (request_host (gr_host q)) (t_host t) then
       (case new_target (request_host (gr_host q)) (t_port t) of
          Inl _ \<Rightarrow> ([To_guest (Status_reply 400 (''boks: the request's Host header is not a usable destination'' @ nl))], False, st)
        | Inr named \<Rightarrow>
            (case ask_mode Stage_request named Mode_forward (vi_proxy vi) st of (d, st1) \<Rightarrow>
              if \<not> d_allowed d then ([To_guest (Status_reply 403 (denial_text d))], False, st1) else go_on vi t q st1))
     else go_on vi t q st)"
  unfolding serve_request_def go_on_def Let_def by (rule refl)

lemma go_on_effect:
  "go_on vi t q st = (events, keep, st1) \<Longrightarrow> contacts P st st1 \<and> sends (gr_host q) events \<and> upgrade_last q (gr_host q) events keep"
  unfolding go_on_def Let_def
  by (auto split: option.splits if_splits dest!: forward_effect [where P=P] token_request_effect [where P=P])

lemma serve_request_effect:
  assumes "serve_request vi t q st = (events, keep, st1)"
  shows "contacts P st st1 \<and> sends (gr_host q) events \<and> upgrade_last q (gr_host q) events keep \<and>
    (host_judged (policy_of st) t (gr_host q) \<or> list_all (\<lambda>e. \<exists>r. e = To_guest r) events)"
proof -
  have go: "go_on vi t q s = (events, keep, st1) \<Longrightarrow> contacts P st s \<Longrightarrow>
      contacts P st st1 \<and> sends (gr_host q) events \<and> upgrade_last q (gr_host q) events keep" for s
    using go_on_effect contacts_trans by blast
  show ?thesis
  proof (cases "gr_method q = ''CONNECT'' \<or> request_host (gr_host q) = [] \<or> equal_fold (request_host (gr_host q)) (t_host t)")
    case True
    then show ?thesis using assms go [of st]
      unfolding serve_request_eq by (auto simp: sends_def host_judged_def upgrade_last_def split: if_splits)
  next
    case False
    show ?thesis
    proof (cases "new_target (request_host (gr_host q)) (t_port t)")
      case (Inl e)
      then show ?thesis using assms False unfolding serve_request_eq by (auto simp: sends_def upgrade_last_def)
    next
      case (Inr g)
      obtain d s where d: "ask_mode Stage_request g Mode_forward (vi_proxy vi) st = (d, s)" by (metis surj_pair)
      have "contacts P st s" "d_allowed d = v_allowed (evaluate (policy_of st) g)" by (rule ask_effect(1) [OF d], rule ask_effect(2) [OF d])
      then show ?thesis using assms False go [of s] Inr d
        unfolding serve_request_eq by (auto simp: sends_def host_judged_def upgrade_last_def split: if_splits)
    qed
  qed
qed

text \<open>What leaves on a flow as a request was judged, and what leaves unread follows such a request at the end.\<close>

definition sent_ok :: "policy \<Rightarrow> target \<Rightarrow> guest_request list \<Rightarrow> flow_event \<Rightarrow> bool" where
  "sent_ok p t qs e = (case e of
     To_origin sr \<Rightarrow> host_judged p t (sr_host sr) \<and> sr_host sr \<in> gr_host ` set qs
   | _ \<Rightarrow> True)"

definition upgraded :: "guest_request list \<Rightarrow> flow_event list \<Rightarrow> bool" where
  "upgraded qs events \<longleftrightarrow> (\<exists>pre sr h b q down.
     events = pre @ [To_origin sr, To_guest (Passed 101 h b), Opaque (gr_rest q) down] \<and>
     \<not> list_ex unread pre \<and> q \<in> set qs \<and> sr_host sr = gr_host q)"

lemma upgraded_Cons: "upgraded qs events \<Longrightarrow> \<not> list_ex unread ev \<Longrightarrow> upgraded (q # qs) (ev @ events)"
  unfolding upgraded_def
proof (elim exE conjE)
  fix pre sr h b r down
  assume "events = pre @ [To_origin sr, To_guest (Passed 101 h b), Opaque (gr_rest r) down]" "\<not> list_ex unread pre"
    "\<not> list_ex unread ev" "r \<in> set qs" "sr_host sr = gr_host r"
  then show "\<exists>pre sr h b r down. ev @ events = pre @ [To_origin sr, To_guest (Passed 101 h b), Opaque (gr_rest r) down] \<and>
      \<not> list_ex unread pre \<and> r \<in> set (q # qs) \<and> sr_host sr = gr_host r"
    by (intro exI [of _ "ev @ pre"] exI [of _ sr] exI [of _ h] exI [of _ b] exI [of _ r] exI [of _ down]) simp
qed

lemma upgrade_first: "upgrade_last q (gr_host q) ev keep \<Longrightarrow> \<not> list_ex unread ev \<or> \<not> keep \<and> upgraded (q # qs) ev"
  unfolding upgrade_last_def upgraded_def by (elim disjE conjE exE) (simp, fastforce)

lemma serve_inspected_effect:
  "serve_inspected vi t qs st = (events, st') \<Longrightarrow> contacts (\<lambda>_. False) st st' \<and>
     list_all (sent_ok (policy_of st) t qs) events \<and> (\<not> list_ex unread events \<or> upgraded qs events)"
proof (induction qs arbitrary: st events st')
  case (Cons q qs)
  obtain ev keep s where step: "serve_request vi t q st = (ev, keep, s)" by (metis surj_pair)
  note eff = serve_request_effect [OF step, of "\<lambda>_. False"]
  then have pol: "policy_of s = policy_of st" by (simp add: contacts_none)
  have first: "list_all (sent_ok (policy_of st) t (q # qs)) ev"
    using eff by (fastforce simp: sends_def sent_ok_def list_all_iff split: flow_event.splits)
  obtain ev' s' where rest: "serve_inspected vi t qs s = (ev', s')" by (metis surj_pair)
  note IH = Cons.IH [OF rest]
  have second: "list_all (sent_ok (policy_of st) t (q # qs)) ev'"
    using IH by (fastforce simp: pol sent_ok_def list_all_iff split: flow_event.splits)
  have up: "\<not> list_ex unread ev \<or> \<not> keep \<and> upgraded (q # qs) ev" using upgrade_first eff by blast
  show ?case
  proof (cases keep)
    case True
    then have "events = ev @ ev'" "st' = s'" "\<not> list_ex unread ev" using Cons.prems step rest up by auto
    then show ?thesis using eff IH first second contacts_trans [of _ st s s'] upgraded_Cons [of qs ev' ev q] by auto
  next
    case False
    then have "events = ev" "st' = s" using Cons.prems step by auto
    then show ?thesis using eff first up by blast
  qed
qed simp

lemma unnamed_request:
  assumes "gr_method q = ''POST''" "request_host (gr_host q) = [] \<or> equal_fold (request_host (gr_host q)) (t_host t)"
    "token_endpoint_for (ij_credentials (vi_injector vi)) t (gr_path q) = Some c"
  shows "serve_request vi t q st = token_request vi t c q
    \<lparr>sr_method = ''POST'', sr_host = gr_host q, sr_path = gr_path q, sr_header = inspected_header (gr_header q),
     sr_body = (case gr_body q of Some b \<Rightarrow> b | None \<Rightarrow> [])\<rparr> st"
  using assms unfolding serve_request_eq go_on_def Let_def by auto

text \<open>What the guest gets for a relayed login.\<close>

definition relayed_ok :: "credential \<Rightarrow> 'w proxy_state \<Rightarrow> guest_reply \<Rightarrow> bool" where
  "relayed_ok c st reply =
     (case reply of
        Status_reply code _ \<Rightarrow> code = 502
      | Json_reply closing status body \<Rightarrow> closing \<and>
          (\<not> (200 \<le> status \<and> status < 300) \<or>
           (\<exists>tok. held c (ps_injector st) = Some tok \<and> \<not> tokens_zero tok \<and> \<not> contains_sub (reveal (tk_access tok)) body \<and>
              (reveal (tk_refresh tok) = [] \<or> \<not> contains_sub (reveal (tk_refresh tok)) body)))
      | Passed _ _ _ \<Rightarrow> False)"

lemma relay_reply:
  assumes "relay_token_request vi t c sr st = (events, keep, st1)"
  shows "\<not> keep \<and> (\<exists>reply. events = [To_origin (sr\<lparr>sr_header := prepare_relay (sr_header sr)\<rparr>), To_guest reply] \<and> relayed_ok c st1 reply)"
proof -
  let ?sr = "sr\<lparr>sr_header := prepare_relay (sr_header sr)\<rparr>"
  obtain r s where r: "send_origin vi ?sr st = (r, s)" by (metis surj_pair)
  show ?thesis
  proof (cases r)
    case (Response resp)
    obtain x ij where x: "acquire_token (vi_decode vi) (vi_encode vi) (vi_injector vi) c (os_status resp) (os_body resp) (ps_injector s) = (x, ij)"
      by (metis surj_pair)
    have out: "relayed_ok c st2 (Json_reply True (aq_status out) (aq_body out))"
      if "x = Inr out" "ps_injector st2 = ij" for out st2
    proof (cases "aq_acquired out")
      case True
      note out = that
      obtain o' :: oauth and tok where "parse_token_response (vi_decode vi) (os_body resp) (oa_fields o') (now_of (vi_injector vi) (ps_injector s)) = Inr tok"
          "held c ij = Some tok" "\<not> contains_sub (reveal (tk_access tok)) (aq_body out)"
          "reveal (tk_refresh tok) = [] \<or> \<not> contains_sub (reveal (tk_refresh tok)) (aq_body out)"
        using acquire_result [OF x] True unfolding out(1) by (simp only: sum.case if_True) blast
      moreover from this(1) have "\<not> tokens_zero tok"
        by (auto simp: parse_token_response_Inr tokens_zero_def value_is_zero_def reveal_def)
      ultimately show ?thesis using out(2) by (auto simp: relayed_ok_def)
    next
      case False
      then show ?thesis using acquire_result [OF x] unfolding that(1) by (auto simp: relayed_ok_def)
    qed
    show ?thesis
      using assms out unfolding relay_token_request_def Let_def r prod.case Response origin_reply.case with_injector_def x
      by (cases x) (auto split: if_splits simp: relayed_ok_def [of _ _ "Status_reply _ _"])
  qed (use assms in \<open>auto simp: relay_token_request_def r Let_def relayed_ok_def\<close>)
qed

subsection \<open>Properties\<close>

text \<open>
  C6: a whole inspected flow. Every request that leaves on it names the target itself, no host, or a host the policy
  allows, and is one the guest sent under that name; serving it opens no further connection. The one thing that can leave
  without having been read is what the guest sends after a protocol upgrade: it is the end of the flow, and it follows
  a request that was judged like any other and that the origin answered by switching protocols.
\<close>

theorem inspected_flow_judged:
  assumes "inspect hs vi t qs st = (events, st')"
  shows "list_all (\<lambda>e. case e of To_origin sr \<Rightarrow> host_judged (policy_of st) t (sr_host sr) \<and> sr_host sr \<in> gr_host ` set qs | _ \<Rightarrow> True) events \<and>
    (\<forall>up down. Opaque up down \<in> set events \<longrightarrow>
      (\<exists>pre sr h b q. events = pre @ [To_origin sr, To_guest (Passed 101 h b), Opaque up down] \<and> \<not> list_ex unread pre \<and>
         q \<in> set qs \<and> sr_host sr = gr_host q \<and> up = gr_rest q)) \<and>
    policy_of st' = policy_of st \<and> ps_contacted st' = ps_contacted st"
proof -
  have eff: "contacts (\<lambda>_. False) st st' \<and> list_all (sent_ok (policy_of st) t qs) events \<and> (\<not> list_ex unread events \<or> upgraded qs events)"
    using assms serve_inspected_effect [of vi t qs st events st'] by (cases hs) (auto simp: inspect_def sent_ok_def)
  moreover have "\<exists>pre sr h b q. events = pre @ [To_origin sr, To_guest (Passed 101 h b), Opaque up down] \<and> \<not> list_ex unread pre \<and>
         q \<in> set qs \<and> sr_host sr = gr_host q \<and> up = gr_rest q"
    if up: "Opaque up down \<in> set events" for up down
  proof -
    have "list_ex unread events" using up by (auto simp: list_ex_iff intro: bexI [OF _ up])
    then obtain pre sr h b q d where e: "events = pre @ [To_origin sr, To_guest (Passed 101 h b), Opaque (gr_rest q) d]"
        "\<not> list_ex unread pre" "q \<in> set qs" "sr_host sr = gr_host q"
      using eff unfolding upgraded_def by blast
    have "Opaque up down \<notin> set pre" using e(2) by (auto simp: list_ex_iff)
    then have "up = gr_rest q \<and> down = d" using up e(1) by auto
    with e show ?thesis by blast
  qed
  ultimately show ?thesis unfolding sent_ok_def [abs_def] contacts_none by blast
qed

definition inspector_ex :: "nat inspector" where
  "inspector_ex =
     \<lparr>vi_proxy = proxy_ex\<lparr>px_injector := injector_ex\<lparr>ij_credentials := [oauth_cred_ex]\<rparr>\<rparr>,
      vi_exchange = (\<lambda>w sr. (Response \<lparr>os_status = (if sr_path sr = ''/up'' then 101 else 200), os_header = [], os_body = ''real'',
        os_whole = True, os_close = False, os_buffered = ''hi'', os_rest = ''there''\<rparr>, w)),
      vi_decode = (\<lambda>_. None), vi_encode = (\<lambda>_. ''sentinels''), vi_fault_text = (\<lambda>_. []), vi_stale_text = (\<lambda>_. [])\<rparr>"

definition token_target_ex :: target where "token_target_ex = \<lparr>t_host = ''auth.b'', t_addr = Addr_none, t_port = 443\<rparr>"

definition token_request_ex :: "string \<Rightarrow> guest_request" where
  "token_request_ex body =
     \<lparr>gr_method = ''POST'', gr_host = ''auth.b'', gr_path = ''/token'', gr_header = [(''Content-Type'', [''application/x-www-form-urlencoded''])],
      gr_body = Some body, gr_close = True, gr_takes = True, gr_rest = []\<rparr>"

definition get_ex :: "string \<Rightarrow> string \<Rightarrow> guest_request" where
  "get_ex host path =
     \<lparr>gr_method = ''GET'', gr_host = host, gr_path = path, gr_header = [], gr_body = Some [], gr_close = False, gr_takes = True,
      gr_rest = ''frames''\<rparr>"

text \<open>The shape of an event, for the examples.\<close>

definition shape :: "flow_event \<Rightarrow> string" where
  "shape e = (case e of
     To_origin sr \<Rightarrow> sr_host sr @ sr_path sr
   | To_guest (Status_reply n _) \<Rightarrow> itoa (int n)
   | To_guest (Json_reply _ n _) \<Rightarrow> itoa (int n)
   | To_guest (Passed n _ _) \<Rightarrow> itoa (int n)
   | Opaque up down \<Rightarrow> up)"

text \<open>
  In the witness the guest asks for the target, for another host and then for an upgrade: all three go out under a policy that allows the
  other host, and what follows the upgrade is carried; under one that denies it the flow ends with the refusal.
\<close>

theorem inspected_flow_judged_witness:
  "\<exists>events st' pre sr h b down. inspect Both_done inspector_ex token_target_ex
       [get_ex ''auth.b'' ''/'', get_ex ''c.d'' ''/x'', get_ex ''auth.b'' ''/up'', get_ex ''auth.b'' ''/never''] (proxy_state_ex []) = (events, st') \<and>
     map shape events = [''auth.b/'', ''200'', ''c.d/x'', ''200'', ''auth.b/up'', ''101'', ''frames''] \<and>
     events = pre @ [To_origin sr, To_guest (Passed 101 h b), Opaque ''frames'' down] \<and>
     host_judged (policy_of (proxy_state_ex [])) token_target_ex (sr_host sr) \<and>
     map shape (fst (inspect Both_done inspector_ex token_target_ex
       [get_ex ''auth.b'' ''/'', get_ex ''c.d'' ''/x'', get_ex ''auth.b'' ''/up''] (proxy_state_ex [projr (parse_rule Deny ''c.d'')]))) =
       [''auth.b/'', ''200'', ''403'']"
proof -
  let ?qs = "[get_ex ''auth.b'' ''/'', get_ex ''c.d'' ''/x'', get_ex ''auth.b'' ''/up'', get_ex ''auth.b'' ''/never'']"
  obtain events st' where run: "inspect Both_done inspector_ex token_target_ex ?qs (proxy_state_ex []) = (events, st')"
    by (metis surj_pair)
  have "map shape (fst (inspect Both_done inspector_ex token_target_ex ?qs (proxy_state_ex []))) =
      [''auth.b/'', ''200'', ''c.d/x'', ''200'', ''auth.b/up'', ''101'', ''frames'']"
    "list_ex unread (fst (inspect Both_done inspector_ex token_target_ex ?qs (proxy_state_ex [])))" by code_simp+
  then have shapes: "map shape events = [''auth.b/'', ''200'', ''c.d/x'', ''200'', ''auth.b/up'', ''101'', ''frames'']"
    and "list_ex unread events" by (simp_all only: run fst_conv)
  then obtain up down where carried: "Opaque up down \<in> set events" using unread_Opaque by blast
  from inspected_flow_judged [OF run] carried obtain pre sr h b where
    e: "events = pre @ [To_origin sr, To_guest (Passed 101 h b), Opaque up down]" and "list_all (\<lambda>e. case e of
        To_origin sr \<Rightarrow> host_judged (policy_of (proxy_state_ex [])) token_target_ex (sr_host sr) \<and> sr_host sr \<in> gr_host ` set ?qs | _ \<Rightarrow> True) events"
    by blast
  then have "host_judged (policy_of (proxy_state_ex [])) token_target_ex (sr_host sr)" by simp
  moreover have "last (map shape events) = up" by (simp add: e shape_def)
  then have "up = ''frames''" by (simp add: shapes)
  moreover have "map shape (fst (inspect Both_done inspector_ex token_target_ex
       [get_ex ''auth.b'' ''/'', get_ex ''c.d'' ''/x'', get_ex ''auth.b'' ''/up''] (proxy_state_ex [projr (parse_rule Deny ''c.d'')]))) =
       [''auth.b/'', ''200'', ''403'']" by code_simp
  ultimately show ?thesis using run shapes e
    by (intro exI [of _ events] exI [of _ st'] exI [of _ pre] exI [of _ sr] exI [of _ h] exI [of _ b] exI [of _ down] conjI) simp_all
qed

text \<open>
  An upgrade can lose what the origin says first. The splice reads the origin's connection itself, so bytes that came
  with the response to the upgrade and are in the reader's buffer never reach the guest.
\<close>

theorem upgrade_loses_bytes:
  assumes "apply_injector (vi_injector vi) t (sr_header sr) Flow_tls (ps_injector st) = (Inr (h, used, []), ij)"
    "vi_exchange vi (is_world ij) (sr\<lparr>sr_header := h\<rparr>) = (Response resp, w)" "os_status resp = 101" "gr_takes q" "gr_body q \<noteq> None"
  shows "fst (forward_request vi t q sr st) =
    [To_origin (sr\<lparr>sr_header := h\<rparr>), To_guest (Passed 101 (os_header resp) (os_body resp)), Opaque (gr_rest q) (os_rest resp)]"
  using assms by (simp add: forward_request_def with_injector_def send_origin_def world_def set_world_def Let_def)

theorem upgrade_loses_bytes_witness:
  "\<exists>resp. os_buffered resp = ''hi'' \<and> (\<exists>h b. Opaque ''frames'' ''there'' = last (fst (forward_request inspector_ex token_target_ex (get_ex ''auth.b'' ''/up'')
     \<lparr>sr_method = ''GET'', sr_host = ''auth.b'', sr_path = ''/up'', sr_header = h, sr_body = b\<rparr> (proxy_state_ex []))) \<and>
     vi_exchange inspector_ex 0 \<lparr>sr_method = ''GET'', sr_host = ''auth.b'', sr_path = ''/up'', sr_header = h, sr_body = b\<rparr> = (Response resp, 0))"
proof -
  let ?ij = "ps_injector (proxy_state_ex [])" and ?sr = "\<lparr>sr_method = ''GET'', sr_host = ''auth.b'', sr_path = ''/up'', sr_header = [], sr_body = []\<rparr>"
  let ?resp = "\<lparr>os_status = 101, os_header = [], os_body = ''real'', os_whole = True, os_close = False, os_buffered = ''hi'', os_rest = ''there''\<rparr>"
  have "\<not> matches_resource (Some oauth_ex) token_target_ex" "cr_inject oauth_cred_ex = []" by code_simp+
  then have app: "apply_injector (vi_injector inspector_ex) token_target_ex (sr_header ?sr) Flow_tls ?ij = (Inr ([], [], []), ?ij)"
    by (simp add: apply_injector_def apply_oauth_def vi_injector_def inspector_ex_def)
  have x: "vi_exchange inspector_ex w (?sr\<lparr>sr_header := []\<rparr>) = (Response ?resp, w)" for w by (simp add: inspector_ex_def)
  have "fst (forward_request inspector_ex token_target_ex (get_ex ''auth.b'' ''/up'') ?sr (proxy_state_ex [])) =
      [To_origin (?sr\<lparr>sr_header := []\<rparr>), To_guest (Passed 101 [] ''real''), Opaque ''frames'' ''there'']"
    using upgrade_loses_bytes [OF app x, of "get_ex ''auth.b'' ''/up''"] by (simp add: get_ex_def)
  then show ?thesis using x [of 0] by (intro exI [of _ ?resp] conjI exI [of _ "[]"]) simp_all
qed

lemma exchange_reply:
  assumes "exchange_token encode ij c st = (Inr out, st')" "cr_oauth c = Some o'"
  shows "te_status out = 200 \<and> te_body out = encode (token_response o')"
  using assms by (auto simp: exchange_token_def split: prod.splits option.splits)

lemma answer_reply:
  assumes "answer_token_request vi t c st = (events, keep, st1)" "cr_oauth c = Some o'"
  shows "events = [To_guest (Json_reply False 200 (vi_encode vi (token_response o')))] \<or> (\<exists>text. events = [To_guest (Status_reply 502 text)])"
proof -
  obtain x s where x: "exchange_token (vi_encode vi) (vi_injector vi) c (ps_injector st) = (x, s)" by (metis surj_pair)
  show ?thesis
    using assms exchange_reply [of "vi_encode vi" "vi_injector vi" c "ps_injector st" _ s o'] x
    by (cases x) (auto simp: answer_token_request_def with_injector_def Let_def)
qed

text \<open>
  C35: once a credential has a token in memory, its token requests do not leave the host. A POST to its token endpoint that names
  the target or no host, whose body is at most 64 KiB and concerns the credential's client, be it a refresh with the sentinel
  or a second login, is answered here: with a body of sentinels, or with a 502 where the refresh failed. The guest's bytes go nowhere.
\<close>

theorem token_request_stays:
  assumes "gr_method q = ''POST''" "request_host (gr_host q) = [] \<or> equal_fold (request_host (gr_host q)) (t_host t)"
    "token_endpoint_for (ij_credentials (vi_injector vi)) t (gr_path q) = Some c" "cr_oauth c = Some o'"
    "gr_body q = Some b" "length b \<le> max_token_request"
    "classify_token_request (vi_decode vi) c (h_get ''Content-Type'' (inspected_header (gr_header q))) b \<noteq> Request_foreign"
    "held c (ps_injector st) = Some tok" "\<not> tokens_zero tok"
  shows "(\<exists>text. fst (serve_request vi t q st) = [To_guest (Status_reply 502 text)]) \<or>
    fst (serve_request vi t q st) = [To_guest (Json_reply False 200 (vi_encode vi (token_response o')))]"
proof -
  have no: "with_injector (needs_acquisition (vi_injector vi) c) st = (False, st\<lparr>ps_injector := ps_injector st\<rparr>)"
    using assms(8,9) by (simp add: with_injector_def needs_acquisition_def load_tokens_def)
  obtain events keep st1 where a: "answer_token_request vi t c (st\<lparr>ps_injector := ps_injector st\<rparr>) = (events, keep, st1)"
    by (metis prod_cases3)
  have "serve_request vi t q st = (events, keep, st1)"
    using unnamed_request [OF assms(1-3)] assms(5-7) no a by (simp add: token_request_def Let_def)
  then show ?thesis using answer_reply [OF a assms(4)] by auto
qed

lemma classified_ex: "classify_token_request (\<lambda>_. None) oauth_cred_ex
    (h_get ''Content-Type'' (inspected_header [(''Content-Type'', [''application/x-www-form-urlencoded''])]))
    ''grant_type=authorization_code&client_id=cli'' = Request_login"
  by code_simp

lemma token_target_host: "t_host token_target_ex = ''auth.b''"
  by (simp add: token_target_ex_def)

lemma endpoint_ex: "token_endpoint_for [oauth_cred_ex] token_target_ex ''/token'' = Some oauth_cred_ex"
  by code_simp

lemma inspector_ex_simps [simp]: "ij_credentials (vi_injector inspector_ex) = [oauth_cred_ex]" "vi_decode inspector_ex = (\<lambda>_. None)"
    "vi_encode inspector_ex = (\<lambda>_. ''sentinels'')"
  by (simp_all add: inspector_ex_def vi_injector_def)

definition held_state_ex :: "tokens \<Rightarrow> nat proxy_state" where
  "held_state_ex tok = (proxy_state_ex [])\<lparr>ps_injector := put_tokens oauth_cred_ex tok (start_state 0)\<rparr>"

theorem token_request_stays_witness:
  "list_all (\<lambda>e. \<exists>r. e = To_guest r)
     (fst (serve_request inspector_ex token_target_ex (token_request_ex ''grant_type=authorization_code&client_id=cli'') (held_state_ex new_tokens)))"
  using token_request_stays [of "token_request_ex ''grant_type=authorization_code&client_id=cli''" token_target_ex inspector_ex oauth_cred_ex oauth_ex
      "''grant_type=authorization_code&client_id=cli''" "held_state_ex new_tokens" new_tokens]
  by (auto simp: token_request_ex_def request_host_def net_host_def token_target_host endpoint_ex classified_ex max_token_request_def held_state_ex_def new_tokens_def tokens_zero_def)

text \<open>
  The one login that is relayed. For a credential that has no token the guest's request goes to the origin with the
  guest's body, asking for an answer that can be read, and the connection ends with the answer. An answer that says
  the login succeeded reaches the guest only when the tokens in it are held, and with neither of them in its body.
\<close>

theorem login_relayed:
  assumes "gr_method q = ''POST''" "request_host (gr_host q) = [] \<or> equal_fold (request_host (gr_host q)) (t_host t)"
    "token_endpoint_for (ij_credentials (vi_injector vi)) t (gr_path q) = Some c" "cr_oauth c \<noteq> None" "ij_oauth (vi_injector vi) \<noteq> None"
    "gr_body q = Some b" "length b \<le> max_token_request"
    "classify_token_request (vi_decode vi) c (h_get ''Content-Type'' (inspected_header (gr_header q))) b \<noteq> Request_foreign"
    "held c (ps_injector st) = Some tok" "tokens_zero tok"
    "serve_request vi t q st = (events, keep, st')"
  shows "\<not> keep \<and> (\<exists>sr reply. events = [To_origin sr, To_guest reply] \<and> sr_body sr = b \<and> h_values ''Accept-Encoding'' (sr_header sr) = [''identity''] \<and>
    relayed_ok c st' reply)"
proof -
  have needs: "with_injector (needs_acquisition (vi_injector vi) c) st = (True, st\<lparr>ps_injector := ps_injector st\<rparr>)"
    using assms(4,5,9,10) by (auto simp: with_injector_def needs_acquisition_def load_tokens_def)
  let ?sr = "\<lparr>sr_method = ''POST'', sr_host = gr_host q, sr_path = gr_path q, sr_header = inspected_header (gr_header q), sr_body = b\<rparr>"
  have "relay_token_request vi t c ?sr (st\<lparr>ps_injector := ps_injector st\<rparr>) = (events, keep, st')"
    using unnamed_request [OF assms(1-3), of st] assms(6-8,11) needs by (simp add: token_request_def Let_def)
  from relay_reply [OF this] show ?thesis
    by (auto simp: prepare_relay_def h_values_set)
qed

theorem login_relayed_witness:
  "\<exists>events st'. serve_request inspector_ex token_target_ex (token_request_ex ''grant_type=authorization_code&client_id=cli'') (held_state_ex zero_tokens) =
     (events, False, st') \<and> length events = 2"
proof -
  let ?q = "token_request_ex ''grant_type=authorization_code&client_id=cli''"
  obtain events keep st' where run: "serve_request inspector_ex token_target_ex ?q (held_state_ex zero_tokens) = (events, keep, st')"
    by (metis prod_cases3)
  have "\<not> keep \<and> length events = 2"
    using login_relayed [of ?q token_target_ex inspector_ex oauth_cred_ex "''grant_type=authorization_code&client_id=cli''" "held_state_ex zero_tokens"
        zero_tokens events keep st'] run
    by (auto simp: token_request_ex_def request_host_def net_host_def token_target_host endpoint_ex classified_ex max_token_request_def held_state_ex_def
        vi_injector_def inspector_ex_def proxy_ex_def)
  then show ?thesis using run by simp
qed

text \<open>
  A token request that is too long. One with a body of more than 64 KiB is taken for another client's, whatever it
  says: its first 65537 bytes are forwarded, although the decision log says it went out as the guest wrote
  it, and the origin's answer, tokens included, reaches the guest unread; the host keeps nothing.
\<close>

theorem long_login_uncaptured:
  assumes "gr_method q = ''POST''" "request_host (gr_host q) = [] \<or> equal_fold (request_host (gr_host q)) (t_host t)"
    "token_endpoint_for (ij_credentials (vi_injector vi)) t (gr_path q) = Some c"
    "gr_body q = Some b" "max_token_request < length b"
    "apply_injector (vi_injector vi) t (inspected_header (gr_header q)) Flow_tls (ps_injector st) = (Inr (h, used, []), ij)"
    "vi_exchange vi (is_world ij)
       \<lparr>sr_method = ''POST'', sr_host = gr_host q, sr_path = gr_path q, sr_header = h, sr_body = take 65537 b\<rparr> = (Response resp, w)"
    "os_status resp \<noteq> 101"
  shows "fst (serve_request vi t q st) =
      [To_origin \<lparr>sr_method = ''POST'', sr_host = gr_host q, sr_path = gr_path q, sr_header = h, sr_body = take 65537 b\<rparr>,
       To_guest (Passed (os_status resp) (os_header resp) (os_body resp))] \<and>
    is_tokens (ps_injector (snd (snd (serve_request vi t q st)))) = is_tokens ij"
proof -
  let ?sr = "\<lparr>sr_method = ''POST'', sr_host = gr_host q, sr_path = gr_path q, sr_header = inspected_header (gr_header q), sr_body = take 65537 b\<rparr>"
  have kind: "\<not> length (take 65537 b) \<le> max_token_request" using assms(5) by (simp add: max_token_request_def)
  have "\<exists>st0. serve_request vi t q st = forward_request vi t q ?sr st0 \<and> ps_injector st0 = ps_injector st"
    unfolding unnamed_request [OF assms(1-3)] token_request_def assms(4) option.case Let_def
    using kind by (intro exI conjI) (simp add: max_token_request_def, simp)
  then obtain st0 where st0: "serve_request vi t q st = forward_request vi t q ?sr st0" "ps_injector st0 = ps_injector st" by blast
  show ?thesis
    unfolding st0(1) using assms(4,6-8) st0(2)
    by (simp add: forward_request_def with_injector_def send_origin_def world_def set_world_def Let_def)
qed

theorem long_login_uncaptured_witness:
  "\<exists>sr. fst (serve_request inspector_ex token_target_ex (token_request_ex (replicate 65537 CHR ''x'')) (held_state_ex zero_tokens)) =
     [To_origin sr, To_guest (Passed 200 [] ''real'')]"
proof -
  let ?q = "token_request_ex (replicate 65537 CHR ''x'')" and ?ij = "ps_injector (held_state_ex zero_tokens)"
  let ?h = "inspected_header (gr_header ?q)"
  have "\<not> matches_resource (Some oauth_ex) token_target_ex" "cr_inject oauth_cred_ex = []" by code_simp+
  then have app: "apply_injector (vi_injector inspector_ex) token_target_ex ?h Flow_tls ?ij = (Inr (?h, [], []), ?ij)"
    by (simp add: apply_injector_def apply_oauth_def)
  have q: "gr_method ?q = ''POST''" "equal_fold (request_host (gr_host ?q)) (t_host token_target_ex)" "gr_path ?q = ''/token''" "gr_body ?q = Some (replicate 65537 CHR ''x'')"
    by (simp_all add: token_request_ex_def request_host_def net_host_def token_target_ex_def)
  have x: "sr_path sr = ''/token'' \<Longrightarrow> vi_exchange inspector_ex w sr = (Response \<lparr>os_status = 200, os_header = [], os_body = ''real'',
      os_whole = True, os_close = False, os_buffered = ''hi'', os_rest = ''there''\<rparr>, w)" for w sr
    by (simp add: inspector_ex_def)
  have big: "max_token_request < length (replicate 65537 CHR ''x'')" by (simp add: max_token_request_def)
  have c: "token_endpoint_for (ij_credentials (vi_injector inspector_ex)) token_target_ex (gr_path ?q) = Some oauth_cred_ex"
    by (simp add: q(3) endpoint_ex)
  show ?thesis
    using long_login_uncaptured [OF q(1) disjI2 [OF q(2)] c q(4) big app x] by (auto simp: q(3))
qed

end
