(* ===== verification/Network_Link.thy ===== *)
theory Network_Link
  imports Proxy_Sni
begin

section \<open>The guest link: \<open>internal/network/link.go\<close>\<close>

text \<open>
  The stream of length-prefixed frames a VM writes. The switch that reads it allocates what a length
  announces, so a length is checked before any of its four bytes is handed over, and the stream is
  otherwise passed through unchanged. A read of the socket is a function of the room offered to it, which
  returns bytes and possibly an error.
\<close>

subsection \<open>The connection\<close>

definition frame_header :: nat where "frame_header = 4"

definition min_frame :: nat where "min_frame = 14"

definition max_frame :: nat where "max_frame = 14 + 65535"

definition link_buffer :: nat where "link_buffer = 65536"

datatype link_error = Socket_error string | Bad_frame nat

record link =
  lk_buf :: bytes
  lk_r :: nat
  lk_v :: nat
  lk_w :: nat
  lk_need :: nat
  lk_err :: "link_error option"

definition new_link :: link where
  "new_link = \<lparr>lk_buf = replicate link_buffer 0, lk_r = 0, lk_v = 0, lk_w = 0, lk_need = 0, lk_err = None\<rparr>"

definition be32 :: "bytes \<Rightarrow> nat" where
  "be32 b = foldl (\<lambda>n x. 256 * n + unat x) 0 (take 4 b)"

text \<open>\<open>validate\<close>: from the validation point \<open>v\<close> with \<open>need\<close> bytes of a frame to come, over the bytes below \<open>w\<close>.\<close>

function validate_from :: "bytes \<Rightarrow> nat \<Rightarrow> nat \<Rightarrow> nat \<Rightarrow> link_error option \<times> nat \<times> nat" where
  "validate_from buf w v need =
     (if \<not> v < w then (None, v, need)
      else if 0 < need then (let n = (if need < w - v then need else w - v) in validate_from buf w (v + n) (need - n))
      else if w - v < frame_header then (None, v, need)
      else (let size = be32 (drop v buf)
        in if size < min_frame \<or> max_frame < size then (Some (Bad_frame size), v, need)
           else validate_from buf w (v + frame_header) size))"
  by pat_completeness auto
termination
  by (relation "measure (\<lambda>(buf, w, v, need). w - v)") (auto simp: frame_header_def)

declare validate_from.simps [simp del]

type_synonym reader = "nat \<Rightarrow> bytes \<times> string option"

definition make_room :: "link \<Rightarrow> link" where
  "make_room l =
     (if lk_r l = lk_w l then l\<lparr>lk_r := 0, lk_v := 0, lk_w := 0\<rparr>
      else if lk_w l = length (lk_buf l) then
        (let kept = take (lk_w l - lk_r l) (drop (lk_r l) (lk_buf l))
         in l\<lparr>lk_buf := kept @ drop (length kept) (lk_buf l), lk_w := lk_w l - lk_r l, lk_v := lk_v l - lk_r l, lk_r := 0\<rparr>)
      else l)"

definition fill :: "reader \<Rightarrow> link \<Rightarrow> link" where
  "fill rd l =
     (let l = make_room l;
          (bs, err) = rd (length (lk_buf l) - lk_w l);
          buf = take (lk_w l) (lk_buf l) @ bs @ drop (lk_w l + length bs) (lk_buf l);
          w = lk_w l + length bs
      in case validate_from buf w (lk_v l) (lk_need l) of (verr, v, need) \<Rightarrow>
           l\<lparr>lk_buf := buf, lk_w := w, lk_v := v, lk_need := need,
             lk_err := (case verr of Some e \<Rightarrow> Some e | None \<Rightarrow> map_option Socket_error err)\<rparr>)"

datatype link_result = Got bytes | Ended link_error | Waiting

text \<open>\<open>Read\<close>, into a buffer of \<open>n\<close> bytes. The socket's next reads are given; where they run out the call is still waiting.\<close>

fun link_read :: "nat \<Rightarrow> reader list \<Rightarrow> link \<Rightarrow> link_result \<times> reader list \<times> link" where
  "link_read n rds l =
     (if n = 0 then (Got [], rds, l)
      else if lk_r l = lk_v l then
        (case lk_err l of
           Some e \<Rightarrow> (Ended e, rds, l)
         | None \<Rightarrow> (case rds of [] \<Rightarrow> (Waiting, [], l) | rd # rds \<Rightarrow> link_read n rds (fill rd l)))
      else (let k = min n (lk_v l - lk_r l)
        in (Got (take k (drop (lk_r l) (lk_buf l))), rds, l\<lparr>lk_r := lk_r l + k\<rparr>)))"

declare link_read.simps [simp del]

datatype write_error = Link_write_failed string

text \<open>A write error says nothing but its text, so nothing in it can be recognised as one worth a retry.\<close>

definition link_write :: "nat \<times> string option \<Rightarrow> nat \<times> write_error option" where
  "link_write result = (fst result, map_option Link_write_failed (snd result))"

subsection \<open>The specification\<close>

text \<open>
  How far a stream is checked: the number of bytes that may be handed over, what is missing of the frame
  they end in, and the first length out of bounds.
\<close>

function scan :: "nat \<Rightarrow> bytes \<Rightarrow> nat \<times> nat \<times> nat option" where
  "scan need s =
     (if s = [] then (0, need, None)
      else if 0 < need then
        (let n = min need (length s); (k, need', bad) = scan (need - n) (drop n s) in (n + k, need', bad))
      else if length s < 4 then (0, 0, None)
      else (let size = be32 s
        in if size < min_frame \<or> max_frame < size then (0, 0, Some size)
           else (let (k, need', bad) = scan size (drop 4 s) in (4 + k, need', bad))))"
  by pat_completeness auto
termination
  by (relation "measure (\<lambda>(need, s). length s)") auto

declare scan.simps [simp del]

subsection \<open>Lemmas\<close>

lemma scan_Nil [simp]: "scan need [] = (0, need, None)"
  by (subst scan.simps) simp

lemma scan_bounds:
  "scan need s = (k, n, bad) \<Longrightarrow> k \<le> length s \<and> (bad = None \<and> k < length s \<longrightarrow> n = 0 \<and> length s - k < 4)"
proof (induction need s arbitrary: k n bad rule: scan.induct)
  case (1 need s)
  note eq = scan.simps [of need s]
  consider (nil) "s = []" | (inside) "s \<noteq> []" "0 < need" | (short) "s \<noteq> []" "need = 0" "length s < 4"
    | (frame) "s \<noteq> []" "need = 0" "\<not> length s < 4" by linarith
  then show ?case
  proof cases
    case inside
    obtain k1 n1 b1 where s1: "scan (need - min need (length s)) (drop (min need (length s)) s) = (k1, n1, b1)" by (metis prod_cases3)
    then have "k = min need (length s) + k1" "n = n1" "bad = b1" using "1.prems" inside unfolding eq by (auto simp: Let_def)
    then show ?thesis using "1.IH"(1) [OF inside refl, of k1 n1 b1] s1 by auto
  next
    case frame
    show ?thesis
    proof (cases "be32 s < min_frame \<or> max_frame < be32 s")
      case True
      then show ?thesis using "1.prems" frame unfolding eq by (auto simp: Let_def)
    next
      case False
      obtain k1 n1 b1 where s1: "scan (be32 s) (drop 4 s) = (k1, n1, b1)" by (metis prod_cases3)
      then have "k = 4 + k1" "n = n1" "bad = b1" using "1.prems" frame False unfolding eq by (auto simp: Let_def)
      then show ?thesis using "1.IH"(2) [OF frame(1) _ frame(3) refl False, of k1 n1 b1] s1 frame(2,3) by auto
    qed
  next
    case short
    then show ?thesis using "1.prems" unfolding eq by auto
  qed (use "1.prems" in simp)
qed

lemma be32_append: "4 \<le> length a \<Longrightarrow> be32 (a @ b) = be32 a"
  by (simp add: be32_def)

lemma scan_append:
  "scan need a = (k, n, bad) \<Longrightarrow>
     scan need (a @ b) = (case bad of Some x \<Rightarrow> (k, n, bad) | None \<Rightarrow> (case scan n (drop k a @ b) of (k2, n2, bad2) \<Rightarrow> (k + k2, n2, bad2)))"
proof (induction need a arbitrary: k n bad rule: scan.induct)
  case (1 need a)
  show ?case
  proof (cases "a = []")
    case True
    then show ?thesis using "1.prems" by (auto split: prod.split)
  next
    case ne: False
    show ?thesis
    proof (cases "0 < need")
      case True
      show ?thesis
      proof (cases "need \<le> length a")
        case False
        then have "k = length a" "n = need - length a" "bad = None"
          using "1.prems" ne True by (auto simp: scan.simps [of need a] Let_def)
        moreover have "scan need (a @ b) = (case scan (need - length a) b of (k2, n2, bad2) \<Rightarrow> (length a + k2, n2, bad2))"
        proof (cases "b = []")
          case True
          then show ?thesis using ne \<open>0 < need\<close> False by (auto simp: scan.simps [of need a] Let_def)
        next
          case b: False
          let ?m = "min (need - length a) (length b)"
          have "min need (length (a @ b)) = length a + ?m" using False by (auto simp: min_def)
          moreover have "need - (length a + ?m) = need - length a - ?m" "0 < need - length a" using False by auto
          ultimately show ?thesis
            using ne b True by (subst (1 2) scan.simps) (auto simp: Let_def split: prod.split)
        qed
        ultimately show ?thesis by simp
      next
        case fits: True
        obtain k1 n1 b1 where s1: "scan 0 (drop need a) = (k1, n1, b1)" by (metis prod_cases3)
        then have r: "k = need + k1" "n = n1" "bad = b1"
          using "1.prems" ne True fits by (auto simp: scan.simps [of need a] Let_def)
        have "scan need (a @ b) = (case scan 0 (drop need a @ b) of (k2, n2, bad2) \<Rightarrow> (need + k2, n2, bad2))"
          using ne True fits by (subst scan.simps) (auto simp: Let_def min_def split: prod.split)
        moreover have "scan 0 (drop need a @ b) = (case b1 of Some x \<Rightarrow> (k1, n1, b1)
            | None \<Rightarrow> (case scan n1 (drop k1 (drop need a) @ b) of (k2, n2, bad2) \<Rightarrow> (k1 + k2, n2, bad2)))"
          using "1.IH"(1) [OF ne True refl, of k1 n1 b1] s1 unfolding min_absorb1 [OF fits] by simp
        ultimately show ?thesis using r by (auto simp: add.commute split: option.split prod.split)
      qed
    next
      case zero: False
      show ?thesis
      proof (cases "length a < 4")
        case True
        then show ?thesis using "1.prems" ne zero by (auto simp: scan.simps [of need a] split: prod.split)
      next
        case False
        let ?size = "be32 a"
        have size: "be32 (a @ b) = ?size" using False by (simp add: be32_append)
        show ?thesis
        proof (cases "?size < min_frame \<or> max_frame < ?size")
          case True
          then show ?thesis using "1.prems" ne zero False size
            unfolding scan.simps [of need a] scan.simps [of need "a @ b"] by (auto simp: Let_def)
        next
          case ok: False
          obtain k1 n1 b1 where s1: "scan ?size (drop 4 a) = (k1, n1, b1)" by (metis prod_cases3)
          then have r: "k = 4 + k1" "n = n1" "bad = b1"
            using "1.prems" ne zero False ok by (auto simp: scan.simps [of need a] Let_def)
          have "scan need (a @ b) = (case scan ?size (drop 4 a @ b) of (k2, n2, bad2) \<Rightarrow> (4 + k2, n2, bad2))"
            using ne zero False ok size by (subst scan.simps) (auto simp: Let_def split: prod.split)
          moreover have "scan ?size (drop 4 a @ b) = (case b1 of Some x \<Rightarrow> (k1, n1, b1)
              | None \<Rightarrow> (case scan n1 (drop k1 (drop 4 a) @ b) of (k2, n2, bad2) \<Rightarrow> (k1 + k2, n2, bad2)))"
            using "1.IH"(2) [OF ne zero False refl ok, of k1 n1 b1] s1 by simp
          ultimately show ?thesis using r by (auto simp: add.commute split: option.split prod.split)
        qed
      qed
    qed
  qed
qed

lemma validate_scan:
  assumes "validate_from buf w v need = (err, v', need')" "v \<le> w" "w \<le> length buf" "scan need (drop v (take w buf)) = (k, n, bad)"
  shows "v' = v + k \<and> need' = n \<and> err = map_option Bad_frame bad"
  using assms
proof (induction buf w v need arbitrary: err v' need' k n bad rule: validate_from.induct)
  case (1 buf w v need)
  let ?s = "drop v (take w buf)"
  note veq = validate_from.simps [of buf w v need] and seq = scan.simps [of need ?s]
  have len: "length ?s = w - v" using "1.prems"(3) by simp
  consider (over) "v = w" | (inside) "v < w" "0 < need" | (short) "v < w" "need = 0" "w - v < 4" | (frame) "v < w" "need = 0" "\<not> w - v < 4"
    using "1.prems"(2) by linarith
  then show ?case
  proof cases
    case over
    then have "?s = []" by simp
    then show ?thesis using "1.prems"(1,4) over unfolding veq by simp
  next
    case inside
    let ?n = "if need < w - v then need else w - v"
    have ne: "?s \<noteq> []" using len inside(1) by auto
    have m: "min need (length ?s) = ?n" using len by (simp add: min_def)
    obtain k1 n1 b1 where s1: "scan (need - ?n) (drop ?n ?s) = (k1, n1, b1)" by (metis prod_cases3)
    then have r: "k = ?n + k1" "n = n1" "bad = b1"
      using "1.prems"(4) ne inside(2) unfolding seq m Let_def by auto
    have "validate_from buf w (v + ?n) (need - ?n) = (err, v', need')"
      using "1.prems"(1) inside unfolding veq Let_def by simp
    moreover have "drop ?n ?s = drop (v + ?n) (take w buf)" by (simp add: add.commute)
    ultimately have "v' = v + ?n + k1 \<and> need' = n1 \<and> err = map_option Bad_frame b1"
      using "1.IH"(1) [of ?n err v' need' k1 n1 b1] inside s1 "1.prems"(3) by (auto simp del: drop_drop)
    then show ?thesis using r by simp
  next
    case short
    then show ?thesis using "1.prems"(1,4) len unfolding veq seq by (auto simp: frame_header_def)
  next
    case frame
    have ne: "?s \<noteq> []" "\<not> length ?s < 4" using len frame(1,3) by auto
    have size: "be32 ?s = be32 (drop v buf)" using frame(3) by (simp add: be32_def drop_take)
    show ?thesis
    proof (cases "be32 ?s < min_frame \<or> max_frame < be32 ?s")
      case True
      then show ?thesis using "1.prems"(1,4) frame ne size unfolding veq seq by (auto simp: Let_def frame_header_def)
    next
      case False
      obtain k1 n1 b1 where s1: "scan (be32 ?s) (drop 4 ?s) = (k1, n1, b1)" by (metis prod_cases3)
      then have r: "k = 4 + k1" "n = n1" "bad = b1" using "1.prems"(4) frame ne False unfolding seq by (auto simp: Let_def)
      have "validate_from buf w (v + 4) (be32 ?s) = (err, v', need')"
        using "1.prems"(1) frame False size unfolding veq by (auto simp: Let_def frame_header_def)
      moreover have "drop 4 ?s = drop (v + 4) (take w buf)" by (simp add: add.commute)
      ultimately have "v' = v + 4 + k1 \<and> need' = n1 \<and> err = map_option Bad_frame b1"
        using "1.IH"(2) [of "be32 (drop v buf)" err v' need' k1 n1 b1] frame s1 "1.prems"(3) False size
        by (auto simp: frame_header_def simp del: drop_drop)
      then show ?thesis using r by simp
    qed
  qed
qed

text \<open>
  The state after \<open>received\<close> arrived and \<open>given\<close> was handed over: the window holds the rest, the pointers and
  the missing bytes are those the specification gives, and so is a framing error.
\<close>

definition link_inv :: "bytes \<Rightarrow> bytes \<Rightarrow> link \<Rightarrow> bool" where
  "link_inv received given l \<longleftrightarrow>
     length (lk_buf l) = link_buffer \<and> lk_r l \<le> lk_v l \<and> lk_v l \<le> lk_w l \<and> lk_w l \<le> link_buffer \<and>
     received = given @ drop (lk_r l) (take (lk_w l) (lk_buf l)) \<and>
     (\<exists>bad. scan 0 received = (length given + (lk_v l - lk_r l), lk_need l, bad) \<and>
        (case bad of None \<Rightarrow> (\<forall>x. lk_err l \<noteq> Some (Bad_frame x)) | Some x \<Rightarrow> lk_err l = Some (Bad_frame x)))"

lemma link_inv_new: "link_inv [] [] new_link"
  by (simp add: link_inv_def new_link_def link_buffer_def)

definition reader_ok :: "reader \<Rightarrow> bool" where
  "reader_ok rd \<longleftrightarrow> (\<forall>room. length (fst (rd room)) \<le> room)"

lemma unchecked_short:
  assumes "link_inv received given l" "lk_err l = None"
  shows "lk_w l - lk_v l < 4" "lk_v l < lk_w l \<Longrightarrow> lk_need l = 0"
proof -
  obtain bad where bad: "scan 0 received = (length given + (lk_v l - lk_r l), lk_need l, bad)" "bad = None"
    using assms by (auto simp: link_inv_def split: option.splits)
  have "length received = length given + (lk_w l - lk_r l)" using assms(1) by (auto simp: link_inv_def)
  then show "lk_w l - lk_v l < 4" "lk_v l < lk_w l \<Longrightarrow> lk_need l = 0"
    using scan_bounds [OF bad(1)] bad(2) assms(1) by (auto simp: link_inv_def)
qed

lemma make_room_inv:
  assumes "link_inv received given l" "lk_r l = lk_v l" "lk_err l = None"
  shows "link_inv received given (make_room l)" "lk_w (make_room l) < link_buffer" "lk_err (make_room l) = None"
    "lk_r (make_room l) = lk_v (make_room l)" "lk_w (make_room l) - lk_v (make_room l) = lk_w l - lk_v l" "lk_need (make_room l) = lk_need l"
proof -
  have short: "lk_w l - lk_v l < 4" by (rule unchecked_short(1) [OF assms(1,3)])
  let ?kept = "take (lk_w l - lk_r l) (drop (lk_r l) (lk_buf l))"
  have kept: "drop (lk_r l) (take (lk_w l) (lk_buf l)) = ?kept" by (simp add: drop_take)
  have len: "length ?kept = lk_w l - lk_r l" using assms(1) by (auto simp: link_inv_def)
  show "link_inv received given (make_room l)"
    using assms(1,2) len kept by (auto simp: link_inv_def make_room_def Let_def split: option.splits)
  show "lk_w (make_room l) < link_buffer" "lk_err (make_room l) = None"
    "lk_r (make_room l) = lk_v (make_room l)" "lk_w (make_room l) - lk_v (make_room l) = lk_w l - lk_v l" "lk_need (make_room l) = lk_need l"
    using assms short by (auto simp: link_inv_def make_room_def Let_def link_buffer_def)
qed

lemma fill_inv:
  assumes "link_inv received given l" "lk_r l = lk_v l" "lk_err l = None" "reader_ok rd"
  obtains room where "0 < room" "link_inv (received @ fst (rd room)) given (fill rd l)" "lk_r (fill rd l) \<le> lk_v (fill rd l)"
    "lk_w (fill rd l) = lk_w (make_room l) + length (fst (rd room))" "lk_v (make_room l) \<le> lk_v (fill rd l)" "lk_r (fill rd l) = lk_r (make_room l)"
    "snd (rd room) \<noteq> None \<longrightarrow> lk_err (fill rd l) \<noteq> None"
proof -
  let ?m = "make_room l"
  note m = make_room_inv [OF assms(1-3)]
  let ?room = "length (lk_buf ?m) - lk_w ?m"
  obtain bs err where rd: "rd ?room = (bs, err)" by (metis surj_pair)
  have len: "length (lk_buf ?m) = link_buffer" "lk_w ?m \<le> link_buffer" using m(1) by (auto simp: link_inv_def)
  have bs: "length bs \<le> ?room" using assms(4) rd by (auto simp: reader_ok_def dest: spec [of _ ?room])
  let ?buf = "take (lk_w ?m) (lk_buf ?m) @ bs @ drop (lk_w ?m + length bs) (lk_buf ?m)" and ?w = "lk_w ?m + length bs"
  obtain verr v need where val: "validate_from ?buf ?w (lk_v ?m) (lk_need ?m) = (verr, v, need)" by (metis prod_cases3)
  have new: "fill rd l = ?m\<lparr>lk_buf := ?buf, lk_w := ?w, lk_v := v, lk_need := need,
      lk_err := (case verr of Some e \<Rightarrow> Some e | None \<Rightarrow> map_option Socket_error err)\<rparr>"
    by (simp add: fill_def Let_def rd val)
  have w: "?w \<le> length ?buf" "length ?buf = link_buffer" using len bs by auto
  have win: "take ?w ?buf = take (lk_w ?m) (lk_buf ?m) @ bs" using len by simp
  obtain bad0 where before: "scan 0 received = (length given + (lk_v ?m - lk_r ?m), lk_need ?m, bad0)" "bad0 = None"
    using m(1,3) by (auto simp: link_inv_def split: option.splits)
  have rec: "received = given @ drop (lk_r ?m) (take (lk_w ?m) (lk_buf ?m))" "lk_r ?m \<le> lk_v ?m" "lk_v ?m \<le> lk_w ?m"
    using m(1) by (auto simp: link_inv_def)
  have rest: "drop (lk_v ?m) (take ?w ?buf) = drop (length given + (lk_v ?m - lk_r ?m)) (received @ bs)"
    unfolding win using rec len by (simp add: rec(1))
  obtain k n bad where k: "scan (lk_need ?m) (drop (lk_v ?m) (take ?w ?buf)) = (k, n, bad)" by (metis prod_cases3)
  have v: "v = lk_v ?m + k" "need = n" "verr = map_option Bad_frame bad"
    using validate_scan [OF val _ w(1) k] rec(3) by auto
  have vw: "v \<le> ?w" using scan_bounds [OF k] w v(1) rec(3) by auto
  have "drop (length given + (lk_v ?m - lk_r ?m)) received @ bs = drop (length given + (lk_v ?m - lk_r ?m)) (received @ bs)"
    using rec len by simp
  then have "scan 0 (received @ bs) = (length given + (lk_v ?m - lk_r ?m) + k, n, bad)"
    using scan_append [OF before(1), of bs] before(2) k rest by simp
  then have "scan 0 (received @ bs) = (length given + (v - lk_r ?m), n, bad)" using v(1) rec(2) by simp
  moreover have "received @ bs = given @ drop (lk_r ?m) (take ?w ?buf)" unfolding win using rec len by simp
  moreover have state: "lk_buf (fill rd l) = ?buf" "lk_r (fill rd l) = lk_r ?m" "lk_v (fill rd l) = v" "lk_w (fill rd l) = ?w" "lk_need (fill rd l) = n"
      "lk_err (fill rd l) = (case verr of Some e \<Rightarrow> Some e | None \<Rightarrow> map_option Socket_error err)"
    unfolding new v(2) by simp_all
  moreover have "lk_r ?m \<le> v" using v(1) rec(2) by simp
  moreover have "?w \<le> link_buffer" using w by simp
  moreover have "case bad of None \<Rightarrow> (\<forall>x. lk_err (fill rd l) \<noteq> Some (Bad_frame x)) | Some x \<Rightarrow> lk_err (fill rd l) = Some (Bad_frame x)"
    unfolding state(6) v(3) by (cases bad; cases err) simp_all
  ultimately have "link_inv (received @ bs) given (fill rd l)"
    unfolding link_inv_def state using w(2) vw by blast
  moreover have "0 < ?room" using m(2) len(1) by simp
  moreover have "err \<noteq> None \<longrightarrow> lk_err (fill rd l) \<noteq> None" unfolding state(6) by (auto split: option.split)
  ultimately show ?thesis
    using that [of ?room] rd state(2,3,4) v(1) \<open>lk_r ?m \<le> v\<close> by simp
qed


text \<open>What a list of reads brought, each offered some room.\<close>

definition arrived :: "reader list \<Rightarrow> nat list \<Rightarrow> bytes" where
  "arrived rds rooms = concat (map2 (\<lambda>rd room. fst (rd room)) rds rooms)"

lemma arrived_Cons [simp]: "arrived (rd # rds) (room # rooms) = fst (rd room) @ arrived rds rooms" "arrived rds [] = []" "arrived [] rooms = []"
  by (simp_all add: arrived_def)

lemma arrived_append: "length rooms \<le> length rds \<Longrightarrow> arrived rds (rooms @ rooms2) = arrived rds rooms @ arrived (drop (length rooms) rds) rooms2"
proof (induction rooms arbitrary: rds)
  case (Cons room rooms)
  then show ?case by (cases rds) simp_all
qed simp

definition got :: "link_result \<Rightarrow> bytes" where
  "got res = (case res of Got bs \<Rightarrow> bs | _ \<Rightarrow> [])"

lemma hand_over:
  assumes "link_inv received given l" "k \<le> lk_v l - lk_r l"
  shows "link_inv received (given @ take k (drop (lk_r l) (lk_buf l))) (l\<lparr>lk_r := lk_r l + k\<rparr>)"
proof -
  have b: "lk_r l \<le> lk_v l" "lk_v l \<le> lk_w l" "lk_w l \<le> length (lk_buf l)" using assms(1) by (auto simp: link_inv_def)
  have len: "length (take k (drop (lk_r l) (lk_buf l))) = k" using assms(2) b by simp
  let ?win = "drop (lk_r l) (take (lk_w l) (lk_buf l))"
  have "k \<le> lk_w l - lk_r l" using assms(2) b by simp
  then have "take k ?win = take k (drop (lk_r l) (lk_buf l))" by (simp add: drop_take min_absorb1)
  moreover have "drop k ?win = drop (lk_r l + k) (take (lk_w l) (lk_buf l))" by (simp add: add.commute)
  ultimately have win: "?win = take k (drop (lk_r l) (lk_buf l)) @ drop (lk_r l + k) (take (lk_w l) (lk_buf l))"
    by (metis append_take_drop_id)
  obtain bad where bad: "scan 0 received = (length given + (lk_v l - lk_r l), lk_need l, bad)"
      "case bad of None \<Rightarrow> (\<forall>x. lk_err l \<noteq> Some (Bad_frame x)) | Some x \<Rightarrow> lk_err l = Some (Bad_frame x)"
    using assms(1) by (auto simp: link_inv_def)
  have "received = (given @ take k (drop (lk_r l) (lk_buf l))) @ drop (lk_r l + k) (take (lk_w l) (lk_buf l))"
    using assms(1) win by (simp add: link_inv_def)
  moreover have "scan 0 received = (length (given @ take k (drop (lk_r l) (lk_buf l))) + (lk_v l - (lk_r l + k)), lk_need l, bad)"
    using bad(1) len assms(2) by simp
  ultimately show ?thesis
    using assms b bad(2) unfolding link_inv_def link.simps
    by (intro conjI exI [of _ bad]) (cases bad; simp add: link_inv_def)+
qed

lemma read_inv:
  assumes "link_read n rds l = (res, rds', l')" "link_inv received given l" "list_all reader_ok rds"
  shows "\<exists>rooms. length rooms + length rds' = length rds \<and> list_all ((<) 0) rooms \<and> rds' = drop (length rooms) rds \<and>
    link_inv (received @ arrived rds rooms) (given @ got res) l' \<and>
    (\<forall>e. res = Ended e \<longrightarrow> lk_err l' = Some e \<and> lk_r l' = lk_v l')"
  using assms
proof (induction n rds l arbitrary: received rule: link_read.induct)
  case (1 n rds l)
  note eq = link_read.simps [of n rds l]
  consider (zero) "n = 0" | (some) "n \<noteq> 0" "lk_r l \<noteq> lk_v l" | (ended) e where "n \<noteq> 0" "lk_r l = lk_v l" "lk_err l = Some e"
    | (out) "n \<noteq> 0" "lk_r l = lk_v l" "lk_err l = None" "rds = []"
    | (reads) rd rds1 where "n \<noteq> 0" "lk_r l = lk_v l" "lk_err l = None" "rds = rd # rds1"
    by (cases "lk_err l"; cases rds) auto
  then show ?case
  proof cases
    case some
    let ?k = "min n (lk_v l - lk_r l)"
    have r: "res = Got (take ?k (drop (lk_r l) (lk_buf l)))" "rds' = rds" "l' = l\<lparr>lk_r := lk_r l + ?k\<rparr>"
      using "1.prems"(1) some unfolding eq by (auto simp: Let_def)
    have "link_inv received (given @ got res) l'"
      using hand_over [OF "1.prems"(2), of ?k] unfolding r by (simp add: got_def)
    then show ?thesis using r by (intro exI [of _ "[]"]) simp
  next
    case (reads rd rds1)
    have rd: "reader_ok rd" "list_all reader_ok rds1" using "1.prems"(3) reads(4) by simp_all
    obtain room where room: "0 < room" "link_inv (received @ fst (rd room)) given (fill rd l)"
      by (rule fill_inv [OF "1.prems"(2) reads(2,3) rd(1)])
    have "link_read n rds1 (fill rd l) = (res, rds', l')" using "1.prems"(1) reads unfolding eq by simp
    from "1.IH" [OF reads(1-4) this room(2) rd(2)] obtain rooms where
      "length rooms + length rds' = length rds1" "list_all ((<) 0) rooms" "rds' = drop (length rooms) rds1"
      "link_inv ((received @ fst (rd room)) @ arrived rds1 rooms) (given @ got res) l'"
      "\<forall>e. res = Ended e \<longrightarrow> lk_err l' = Some e \<and> lk_r l' = lk_v l'" by blast
    then show ?thesis using room(1) reads(4) by (intro exI [of _ "room # rooms"]) simp
  next
    case zero
    then have "res = Got [] \<and> rds' = rds \<and> l' = l" using "1.prems"(1) unfolding eq by simp
    then show ?thesis using "1.prems"(2) by (intro exI [of _ "[]"]) (simp add: got_def)
  next
    case ended
    then have "res = Ended e \<and> rds' = rds \<and> l' = l" using "1.prems"(1) unfolding eq by simp
    then show ?thesis using "1.prems"(2) ended by (intro exI [of _ "[]"]) (simp add: got_def)
  next
    case out
    then have "res = Waiting \<and> rds' = rds \<and> l' = l" using "1.prems"(1) unfolding eq by simp
    then show ?thesis using "1.prems"(2) out by (intro exI [of _ "[]"]) (simp add: got_def)
  qed
qed

text \<open>
  A read returns: with at most three bytes unchecked, four more reads of at least one byte complete a length
  prefix, which is handed over or ends the link.
\<close>

lemma read_returns:
  assumes "link_inv received given l" "list_all reader_ok rds" "list_all (\<lambda>rd. \<forall>room>0. fst (rd room) \<noteq> [] \<or> snd (rd room) \<noteq> None) rds"
    "lk_r l = lk_v l \<and> lk_err l = None \<longrightarrow> 4 \<le> length rds + (lk_w l - lk_v l)"
  shows "fst (link_read n rds l) \<noteq> Waiting"
  using assms
proof (induction n rds l arbitrary: received rule: link_read.induct)
  case (1 n rds l)
  note eq = link_read.simps [of n rds l]
  show ?case
  proof (cases "n \<noteq> 0 \<and> lk_r l = lk_v l \<and> lk_err l = None")
    case False
    then show ?thesis unfolding eq by (auto simp: Let_def split: option.split)
  next
    case True
    then have t: "n \<noteq> 0" "lk_r l = lk_v l" "lk_err l = None" by auto
    have "lk_w l - lk_v l < 4" using unchecked_short(1) [OF "1.prems"(1) t(3)] .
    then obtain rd rds1 where rds: "rds = rd # rds1" using "1.prems"(4) t by (cases rds) auto
    have rd: "reader_ok rd" "\<And>room. 0 < room \<Longrightarrow> fst (rd room) \<noteq> [] \<or> snd (rd room) \<noteq> None" using "1.prems"(2,3) rds by auto
    note mr = make_room_inv [OF "1.prems"(1) t(2,3)]
    let ?f = "fill rd l"
    obtain room where room: "0 < room" "link_inv (received @ fst (rd room)) given ?f"
        "lk_w ?f = lk_w (make_room l) + length (fst (rd room))" "lk_v (make_room l) \<le> lk_v ?f" "lk_r ?f = lk_r (make_room l)"
        "snd (rd room) \<noteq> None \<longrightarrow> lk_err ?f \<noteq> None"
      by (rule fill_inv [OF "1.prems"(1) t(2,3) rd(1)])
    have "4 \<le> length rds1 + (lk_w ?f - lk_v ?f)" if "lk_r ?f = lk_v ?f" "lk_err ?f = None"
    proof -
      have "fst (rd room) \<noteq> []" using rd(2) room(1,6) that(2) by blast
      moreover have "lk_v ?f = lk_v (make_room l)" using that(1) room(5) mr(4) by simp
      ultimately have "lk_w l - lk_v l < lk_w ?f - lk_v ?f"
        using mr(5) room(3) mr(1) by (cases "fst (rd room)") (auto simp: link_inv_def)
      then show ?thesis using "1.prems"(4) t rds by simp
    qed
    then have "fst (link_read n rds1 ?f) \<noteq> Waiting"
      using "1.IH" [OF t rds room(2)] "1.prems"(2,3) rds by simp
    then show ?thesis unfolding eq using t rds by simp
  qed
qed

text \<open>A sequence of reads, up to the one that ends or waits.\<close>

fun link_run :: "nat list \<Rightarrow> reader list \<Rightarrow> link \<Rightarrow> bytes \<times> link_error option \<times> reader list \<times> link" where
  "link_run [] rds l = ([], None, rds, l)"
| "link_run (n # ns) rds l =
     (case link_read n rds l of (res, rds', l') \<Rightarrow>
       (case res of
          Got bs \<Rightarrow> (case link_run ns rds' l' of (out, e, rds2, l2) \<Rightarrow> (bs @ out, e, rds2, l2))
        | Ended e \<Rightarrow> ([], Some e, rds', l')
        | Waiting \<Rightarrow> ([], None, rds', l')))"

lemma run_inv:
  assumes "link_run ns rds l = (out, e, rds', l')" "link_inv received given l" "list_all reader_ok rds"
  shows "\<exists>rooms. length rooms + length rds' = length rds \<and> list_all ((<) 0) rooms \<and> rds' = drop (length rooms) rds \<and>
    link_inv (received @ arrived rds rooms) (given @ out) l' \<and> (\<forall>x. e = Some x \<longrightarrow> lk_err l' = Some x \<and> lk_r l' = lk_v l')"
  using assms
proof (induction ns arbitrary: rds l out e received given)
  case Nil
  then show ?case by (intro exI [of _ "[]"]) simp
next
  case (Cons n ns)
  obtain res rds1 l1 where r: "link_read n rds l = (res, rds1, l1)" by (metis prod_cases3)
  obtain rooms where rooms: "length rooms + length rds1 = length rds" "list_all ((<) 0) rooms" "rds1 = drop (length rooms) rds"
      "link_inv (received @ arrived rds rooms) (given @ got res) l1" "\<forall>e. res = Ended e \<longrightarrow> lk_err l1 = Some e \<and> lk_r l1 = lk_v l1"
    using read_inv [OF r Cons.prems(2,3)] by blast
  show ?case
  proof (cases res)
    case (Got bs)
    obtain out2 e2 rds2 l2 where rest: "link_run ns rds1 l1 = (out2, e2, rds2, l2)" by (metis prod_cases4)
    then have res: "out = bs @ out2" "e = e2" "rds' = rds2" "l' = l2" using Cons.prems(1) r Got by auto
    have "list_all reader_ok rds1" using Cons.prems(3) rooms(3) by (auto simp: list_all_iff dest: in_set_dropD)
    from Cons.IH [OF _ rooms(4) this, of out2 e2] rest res obtain rooms2 where r2:
      "length rooms2 + length rds2 = length rds1" "list_all ((<) 0) rooms2" "rds2 = drop (length rooms2) rds1"
      "link_inv ((received @ arrived rds rooms) @ arrived rds1 rooms2) ((given @ got res) @ out2) l2"
      "\<forall>x. e2 = Some x \<longrightarrow> lk_err l2 = Some x \<and> lk_r l2 = lk_v l2"
      by auto
    have "arrived rds (rooms @ rooms2) = arrived rds rooms @ arrived rds1 rooms2"
      using arrived_append [of rooms rds rooms2] rooms(1,3) by simp
    then show ?thesis using r2 rooms(1-3) res Got
      by (intro exI [of _ "rooms @ rooms2"]) (simp add: got_def add.commute)
  qed (use Cons.prems r rooms in \<open>auto simp: got_def\<close>)
qed

subsection \<open>Properties\<close>

text \<open>
  C22: the stream is passed through, checked. Whatever the peer sends and however the reads cut it, what is handed over
  is a beginning of what arrived, and lies in the part whose frame lengths are all in bounds and
  complete; a framing error is reported exactly for the first length out of bounds, after everything
  before it was handed over. The socket is never offered an empty buffer.
\<close>

theorem link_passes_checked:
  assumes "link_run ns rds new_link = (out, err, rds', l')" "list_all reader_ok rds"
  shows "\<exists>rooms. length rooms + length rds' = length rds \<and> list_all ((<) 0) rooms \<and>
    prefix out (arrived rds rooms) \<and> length out \<le> fst (scan 0 (arrived rds rooms)) \<and>
    (\<forall>size. err = Some (Bad_frame size) \<longrightarrow>
       snd (snd (scan 0 (arrived rds rooms))) = Some size \<and> length out = fst (scan 0 (arrived rds rooms)))"
proof -
  obtain rooms where r: "length rooms + length rds' = length rds" "list_all ((<) 0) rooms" "link_inv (arrived rds rooms) out l'"
      "\<forall>x. err = Some x \<longrightarrow> lk_err l' = Some x \<and> lk_r l' = lk_v l'"
    using run_inv [OF assms(1) link_inv_new assms(2)] by auto
  let ?a = "arrived rds rooms"
  obtain bad where bad: "?a = out @ drop (lk_r l') (take (lk_w l') (lk_buf l'))" "scan 0 ?a = (length out + (lk_v l' - lk_r l'), lk_need l', bad)"
      "case bad of None \<Rightarrow> (\<forall>x. lk_err l' \<noteq> Some (Bad_frame x)) | Some x \<Rightarrow> lk_err l' = Some (Bad_frame x)"
    using r(3) unfolding link_inv_def by blast
  have "prefix out ?a" using bad(1) unfolding prefix_def by blast
  moreover have "length out \<le> fst (scan 0 ?a)" unfolding bad(2) by simp
  moreover have "snd (snd (scan 0 ?a)) = Some size \<and> length out = fst (scan 0 ?a)" if "err = Some (Bad_frame size)" for size
    using r(4) that bad(3) unfolding bad(2) by (cases bad) auto
  ultimately show ?thesis using r(1,2) by blast
qed

definition runt_reader :: reader where "runt_reader = (\<lambda>room. (take room [0, 0, 0, 4], None))"

theorem link_passes_checked_witness:
  "\<exists>rooms. list_all ((<) 0) rooms \<and> prefix (fst (link_run [10] [runt_reader] new_link)) (arrived [runt_reader] rooms)"
proof -
  have ok: "list_all reader_ok [runt_reader]" by (simp add: reader_ok_def runt_reader_def)
  obtain out err rds' l' where run: "link_run [10] [runt_reader] new_link = (out, err, rds', l')" by (metis prod_cases4)
  from link_passes_checked [OF run ok] obtain rooms where "list_all ((<) 0) rooms" "prefix out (arrived [runt_reader] rooms)" by blast
  then show ?thesis by (intro exI [of _ rooms]) (simp add: run del: link_run.simps)
qed

text \<open>
  C23: reading cannot hang on the code's side. Wherever the link has got to, a read returns after at most four reads of
  the socket that bring a byte or an error.
\<close>

theorem link_read_returns:
  assumes "link_run ns rds new_link = (out, err, rds', l)" "list_all reader_ok rds"
    "list_all reader_ok next" "list_all (\<lambda>rd. \<forall>room>0. fst (rd room) \<noteq> [] \<or> snd (rd room) \<noteq> None) next" "4 \<le> length next"
  shows "fst (link_read n next l) \<noteq> Waiting"
proof -
  obtain rooms where "link_inv (arrived rds rooms) out l" using run_inv [OF assms(1) link_inv_new assms(2)] by auto
  from read_returns [OF this assms(3,4)] show ?thesis using assms(5) by simp
qed

theorem link_read_returns_witness:
  "fst (link_read 4 (replicate 4 (\<lambda>room. (take room [0], None))) (snd (snd (snd (link_run [10] [runt_reader] new_link))))) \<noteq> Waiting"
proof -
  let ?rd = "\<lambda>room :: nat. (take room [0 :: 8 word], None :: string option)"
  have ok: "list_all reader_ok [runt_reader]" "reader_ok ?rd" by (simp_all add: reader_ok_def runt_reader_def)
  obtain out err rds' l' where run: "link_run [10] [runt_reader] new_link = (out, err, rds', l')" by (metis prod_cases4)
  have "list_all (\<lambda>rd. \<forall>room>0. fst (rd room) \<noteq> [] \<or> snd (rd room) \<noteq> None) (replicate 4 ?rd)" by (simp add: list_all_iff)
  then show ?thesis using link_read_returns [OF run ok(1), of "replicate 4 ?rd" 4] ok(2)
    by (simp add: run list_all_iff del: link_run.simps)
qed

end
