(* ===== verification/Spec2Isabelle.thy ===== *)
theory Spec2Isabelle
  imports Cli_Credential Kit_Reference Update_Check Enforce_Session Enforce_Supervisor Proxy_Inspect Network_Link
begin

text \<open>
  Boks runs an agent in a virtual machine whose network ends in a process on the host. This development models the parts of it that decide what
  a sandbox may reach and which secrets it is given: the policy and its store, the proxy and the network stack that ask it, the credentials that are
  attached to requests, the ports that are forwarded, the supervisors that hold the network of a sandbox, and what a kit and the flags
  of one run contribute. All paths below are under \<open>src/internal/\<close>.

  How the parts interact. A command turns its flags, the record of the sandbox, a kit and the store into a request, and \<open>Resolve\<close> into a policy
  (\<open>Cli_Kit\<close>, \<open>Policy_Resolve\<close>). The supervisor of the sandbox opens a session with an engine that holds that policy and its log
  (\<open>Enforce_Session\<close>, \<open>Policy_Log\<close>). The guest's frames come over a link into a host stack, which asks the engine by address
  (\<open>Network_Link\<close>, \<open>Network_Stack\<close>, \<open>Network_Gateway\<close>); requests that go through the proxy are asked by name and again by address
  (\<open>Proxy_Connect\<close>), and flows to hosts with a credential are opened and judged request by request (\<open>Proxy_Inspect\<close>). The injector attaches secrets, keeps
  tokens fresh and hands the guest placeholders only (\<open>Secret_Injector\<close>). A control socket reloads the policy and publishes ports while the
  sandbox runs (\<open>Enforce_Reload\<close>, \<open>Enforce_Control\<close>, \<open>Ports_Forward\<close>). The theorem at the end of this theory follows one
  deny along that whole path.

  \<^bold>\<open>Foundations.\<close> \<open>Boks_Prelude\<close> has the strings of Go as byte lists with the functions of \<open>strings\<close> and \<open>strconv\<close> the source
  uses, checks in order, results as sums, and the collection \<open>go_string\<close> of simplification rules; \<open>Boks_Text\<close>, \<open>Boks_Path\<close>,
  \<open>Boks_Digest\<close>, \<open>Netip\<close> and \<open>Http_Header\<close> hold substrings and replacement, paths, SHA-256, addresses and prefixes at their width, and
  header maps. \<open>Named_Registry\<close> is a locale for a registry that is filled by name, interpreted by the agents and by the services.

  \<^bold>\<open>Policy.\<close> \<open>Policy_Target\<close> (\<open>policy/target.go\<close>), \<open>Policy_Pattern\<close> (\<open>policy/pattern.go\<close>), \<open>Policy_Core\<close> (\<open>policy/policy.go\<close>),
  \<open>Policy_Preset\<close> (\<open>policy/preset.go\<close>), \<open>Policy_Store\<close> (\<open>policy/store.go\<close>), \<open>Policy_Resolve\<close> (\<open>policy/resolve.go\<close>) and \<open>Policy_Log\<close>
  (\<open>policy/engine.go\<close>, \<open>policy/log.go\<close>). The lemmas give the invariant of parsed patterns and rules and the round trips of their texts, that
  deny beats allow whatever the order, which texts a resolved policy consists of, that a store stays valid, and that every decision is logged.

  \<^bold>\<open>Secrets.\<close> \<open>Secret_Rules\<close> and \<open>Secret_Credential\<close> (\<open>secret/secret.go\<close>, \<open>secret/oauth.go\<close>) hold rules, their compact form and the
  credentials; \<open>Secret_Tokens\<close> the requests and responses of token endpoints with their masking; \<open>Secret_Store\<close> the stores over a keyring or an
  encrypted file (\<open>secret/keyringstore.go\<close>, \<open>secret/file.go\<close>, \<open>secret/oauthrecord.go\<close>, \<open>secret/scope.go\<close>); \<open>Secret_Injector\<close> the injector and
  its refresh; \<open>Secret_Service\<close> the services, their placeholders and the precedence of a login over a key (\<open>secret/service.go\<close>).

  \<^bold>\<open>Proxy and network.\<close> \<open>Proxy_Sni\<close>, \<open>Proxy_Connect\<close> and \<open>Proxy_Inspect\<close> (\<open>proxy/\<close>), \<open>Network_Link\<close>, \<open>Network_Stack\<close>,
  \<open>Network_Gateway\<close> and \<open>Network_Plan\<close> (\<open>network/\<close>), \<open>Ports_Spec\<close> and \<open>Ports_Forward\<close> (\<open>ports/\<close>). Connections that were opened are
  part of the state, so that a theorem can say what was contacted; tables of flows and links are step relations with invariants by rule induction.

  \<^bold>\<open>Sessions and supervisors.\<close> \<open>Enforce_Reload\<close>, \<open>Enforce_Control\<close>, \<open>Enforce_Session\<close> and \<open>Enforce_Supervisor\<close> (\<open>enforce/\<close>), and
  \<open>Sandbox_Name\<close> (\<open>sandbox/identity.go\<close>). Opening is all or nothing, a close leaves nothing, a reload lifts no deny, and a supervisor that
  is found belongs to the directory it was started for.

  \<^bold>\<open>Kits, agents and one run.\<close> \<open>Kit_Size\<close>, \<open>Kit_Spec\<close> and \<open>Kit_V1\<close> (\<open>kit/validate.go\<close>, \<open>kit/spec.go\<close>, \<open>kit/parse.go\<close>,
  \<open>kit/decode_v1.go\<close>) have the specification of a kit, its validator against a declarative account of a well-formed kit, and the translation of the old grammar;
  \<open>Kit_Reference\<close> where a kit is read from (\<open>kit/load.go\<close>, \<open>kit/fetch.go\<close>); \<open>Agent_Registry\<close> the agents (\<open>agent/agent.go\<close>);
  \<open>Cli_Kit\<close> and \<open>Cli_Credential\<close> what the flags of a run select (\<open>cli/netflags.go\<close>, \<open>cli/kitagent.go\<close>, \<open>cli/servicecreds.go\<close>);
  \<open>Update_Version\<close> and \<open>Update_Check\<close> the order of versions and the daily check (\<open>update/\<close>).

  \<^bold>\<open>Conventions.\<close> A string is a list of bytes; a Go slice is a list, and nil and empty are one value except where the code tells them apart; a map
  is an association list with distinct keys or a function, and where the code walks one unsorted the order is an argument. Errors are constructors of a
  datatype, one for each return of the code, and not their texts. Machine integers are words where they can wrap (sizes, lengths of frames, addresses), and integers
  elsewhere. Recursion is structural or has its termination proof; the loop of a link read is bounded by the answers of its socket,
  four of which are enough, see \<open>link_read_returns\<close>; the padding of a placeholder is written with the number of rounds its loop makes.

  \<^bold>\<open>Arguments.\<close> Code that is not under \<open>src/\<close> is an argument: regular expressions with their leftmost match, the decoding of YAML and JSON documents, name resolution, dials and
  origins, keyrings and file systems with their failures, ciphers, clocks, random bytes, git, the TLS handshake, and what spawning a process gives. Nothing is assumed of
  them beyond their types, except in the few theorems that name a hypothesis, and each of these has an instance below it. Paths have a slash as their separator.

  \<^bold>\<open>Not modelled.\<close> The containerd client and its supervisor, the operations on containers and images (\<open>sandbox/\<close> apart from its names, \<open>daemon/\<close>), workspaces,
  keys and certificates (\<open>ca/\<close>), the keyrings of the platforms, probes of the host (\<open>doctor/\<close>), removal (\<open>purge/\<close>) and locks: they are calls of libraries and of the
  operating system with little logic between them. Of the command line, the text that is printed and the wiring of the commands are left out, and the tables of built-in agents
  and services are data. Concurrency appears as steps of a relation, or as the order of operations, where the code holds a lock around them; runs of the update check
  follow each other. The decision log stores a record under its lock and hands it to the sinks after the lock is released: one record alone is \<open>log_record\<close>,
  records of several goroutines are interleaved by \<open>recording\<close>.

  \<^bold>\<open>Idealised.\<close> The transport of a forwarded request dials the target the request was judged by, and a connection it kept from an earlier request of the same flow is not told
  from a new one. A supervisor that cannot be spawned leaves no state behind, where one that only answers too late may. After an upgrade the flow is
  an opaque pair of byte strings (\<open>Opaque\<close>), which are not split into the messages of the new protocol; as in the code, a request without a
  \<open>Host\<close> is sent with an empty one.
\<close>

section \<open>One deny from the command line to the wire\<close>

text \<open>What the proxy may reach for a target where \<open>d\<close> is denied: the host on an opened port, or neither a name nor an address the deny covers.\<close>

definition undenied :: "'w proxy \<Rightarrow> string \<Rightarrow> target \<Rightarrow> addr \<times> nat \<Rightarrow> bool" where
  "undenied px d t c \<longleftrightarrow>
     (if is_host t then fst c = loopback \<and> host_port_open px (t_port t)
      else \<not> text_covers Deny t d \<and> \<not> text_covers Deny (target_from_addr (fst c) (snd c)) d)"

lemma contacts_nothing: "contacts P w w' \<Longrightarrow> (\<And>c. \<not> P c) \<Longrightarrow> ps_contacted w' = ps_contacted w"
  using contacts_mono [of P w w' "\<lambda>_. False"] by (auto simp: contacts_none)

text \<open>
  C2: a deny holds end to end. From the record of a sandbox or the flags of a run, through the resolution of the
  policy and any reloads of it while the sandbox runs, a destination the deny covers is not reached. The network stack does
  not connect to an address it covers, whatever the guest connects to. The proxy contacts, for a plain request and for a tunnel,
  whatever it is asked for and whatever names resolve to, neither an address the deny covers nor anything at all on behalf
  of a name it covers; the only exception is the host itself, on its loopback and on a port opened for the sandbox.
\<close>

theorem deny_holds_end_to_end:
  assumes "flag_resolution f sandbox recorded st = Inr res" "resolution_policy res = Inr p"
    "d \<in> set (fl_deny f) \<or> (\<exists>q. recorded = Some q \<and> d \<in> set (sp_deny q))"
    "ss_engine s = Some e0" "en_policy e0 = p" "ss_engine (reloads ls s) = Some e"
    "forward_tcp now a port dialled accepted h = (x, ds, h')" "hs_engine h = Some e" "ps_engine w = e"
  shows "list_all (\<lambda>(dst, n). \<not> text_covers Deny (target_from_addr dst n) d) ds \<and>
    contacts (\<lambda>c. \<exists>t. parse_target (hq_host q) (default_port_for_scheme (hq_scheme q)) = Inr t \<and> undenied px d t c) w (snd (handle_http q px w)) \<and>
    contacts (\<lambda>c. \<exists>t. parse_target (cn_host r) 443 = Inr t \<and> undenied px d t c) w (snd (handle_connect r px w)) \<and>
    (\<forall>t. parse_target (hq_host q) (default_port_for_scheme (hq_scheme q)) = Inr t \<and> \<not> is_host t \<and> text_covers Deny t d \<longrightarrow>
       ps_contacted (snd (handle_http q px w)) = ps_contacted w) \<and>
    (\<forall>t. parse_target (cn_host r) 443 = Inr t \<and> \<not> is_host t \<and> text_covers Deny t d \<longrightarrow>
       ps_contacted (snd (handle_connect r px w)) = ps_contacted w)"
proof -
  obtain e' where "ss_engine (reloads ls s) = Some e'" "same_boundary e0 e'" using reloads_boundary [OF assms(4)] by blast
  then have same: "covers Deny (pol_rules (en_policy e)) t \<longleftrightarrow> covers Deny (pol_rules p) t" for t
    using assms(5,6) same_boundary_deny by simp
  have deny: "covers Deny (pol_rules (en_policy e)) t" if "text_covers Deny t d" for t
    unfolding same by (rule kept_deny_covers [OF assms(1-3) that])
  have "list_all (\<lambda>(dst, n). v_allowed (evaluate (en_policy e) (target_from_addr dst n))) ds"
    using forward_tcp_dials [OF assms(7)] assms(8) by (auto simp: list_all_iff)
  then have stack: "list_all (\<lambda>(dst, n). \<not> text_covers Deny (target_from_addr dst n) d) ds"
    using deny by (auto simp: list_all_iff evaluate_allowed permits_def)
  have one: "undenied px d t c" if "permitted px (policy_of w) t c" for t c
    using that deny [of t] deny [of "target_from_addr (fst c) (snd c)"] assms(9)
    by (auto simp: permitted_def undenied_def evaluate_allowed permits_def split: if_splits)
  have http: "contacts (\<lambda>c. \<exists>t. parse_target (hq_host q) (default_port_for_scheme (hq_scheme q)) = Inr t \<and> undenied px d t c)
      w (snd (handle_http q px w))"
    by (rule contacts_mono [OF conjunct1 [OF contacts_permitted]]) (use one in blast)
  have connect: "contacts (\<lambda>c. \<exists>t. parse_target (cn_host r) 443 = Inr t \<and> undenied px d t c) w (snd (handle_connect r px w))"
    by (rule contacts_mono [OF conjunct2 [OF contacts_permitted]]) (use one in blast)
  show ?thesis
    using stack http connect contacts_nothing [OF http] contacts_nothing [OF connect] by (simp add: undenied_def)
qed

text \<open>
  In the witness the flags of a run allow one name and deny its port 80: other ports are allowed, and the proxy contacts nothing for that port of
  the name, neither for a request nor for a tunnel.
\<close>

theorem deny_holds_end_to_end_witness:
  "\<exists>p w. (\<exists>res. flag_resolution flags_ex [] None (new_store []) = Inr res \<and>
       resolution_policy res = Inr p) \<and> policy_of w = p \<and>
     v_allowed (evaluate p \<lparr>t_host = ''b.com'', t_addr = Addr_none, t_port = 443\<rparr>) \<and>
     ps_contacted (snd (handle_http (Proxy_Connect.request_ex ''b.com'') proxy_ex w)) = ps_contacted w \<and>
     ps_contacted (snd (handle_connect (connect_ex ''b.com:80'') proxy_ex w)) = ps_contacted w"
proof -
  let ?f = flags_ex
  let ?t = "\<lambda>port. \<lparr>t_host = ''b.com'', t_addr = Addr_none, t_port = port\<rparr>"
  have "(case flag_resolution ?f [] None (new_store []) of Inl _ \<Rightarrow> False
    | Inr res \<Rightarrow> (case resolution_policy res of Inl _ \<Rightarrow> False | Inr p \<Rightarrow> v_allowed (evaluate p (?t 443))))" by code_simp
  then obtain res p where r: "flag_resolution ?f [] None (new_store []) = Inr res" "resolution_policy res = Inr p"
    and other: "v_allowed (evaluate p (?t 443))"
    by (auto split: sum.splits)
  let ?e = "new_engine p (Some (new_log 1))" and ?w = "(proxy_state_ex [])\<lparr>ps_engine := new_engine p (Some (new_log 1))\<rparr>"
  let ?s = "\<lparr>ss_engine = Some ?e, ss_resolution = None, ss_sandbox = []\<rparr>"
  obtain x ds h' where run: "forward_tcp 0 (Some (A4 0x01020304)) 443 None True (stack_ex p) = (x, ds, h')" by (metis prod.collapse)
  have e: "''B.com:80'' \<in> set (fl_deny ?f)" "en_policy ?e = p" "ss_engine ?s = Some ?e" "ss_engine (reloads [] ?s) = Some ?e"
    "hs_engine (stack_ex p) = Some ?e" "ps_engine ?w = ?e"
    by (simp_all add: flags_ex_def new_engine_def reloads_def stack_ex_def)
  have t: "parse_target ''b.com'' 80 = Inr (?t 80)" "parse_target ''b.com:80'' 443 = Inr (?t 80)" "default_port_for_scheme ''http'' = 80"
    "\<not> is_host (?t 80)" "text_covers Deny (?t 80) ''B.com:80''"
    by code_simp+
  note holds = deny_holds_end_to_end [OF r disjI1 [OF e(1)] e(3,2,4) run e(5,6), of "Proxy_Connect.request_ex ''b.com''" proxy_ex "connect_ex ''b.com:80''"]
  have named: "hq_host (Proxy_Connect.request_ex ''b.com'') = ''b.com''" "hq_scheme (Proxy_Connect.request_ex ''b.com'') = ''http''"
    "cn_host (connect_ex ''b.com:80'') = ''b.com:80''"
    by (simp_all add: Proxy_Connect.request_ex_def connect_ex_def)
  have plain_request: "ps_contacted (snd (handle_http (Proxy_Connect.request_ex ''b.com'') proxy_ex ?w)) = ps_contacted ?w"
    by (rule holds [THEN conjunct2, THEN conjunct2, THEN conjunct2, THEN conjunct1, rule_format, of "?t 80"])
      (simp only: named t simp_thms)
  have tunnel: "ps_contacted (snd (handle_connect (connect_ex ''b.com:80'') proxy_ex ?w)) = ps_contacted ?w"
    by (rule holds [THEN conjunct2, THEN conjunct2, THEN conjunct2, THEN conjunct2, rule_format, of "?t 80"])
      (simp only: named t simp_thms)
  have "policy_of ?w = p" by (simp add: e(2))
  then show ?thesis using r other plain_request tunnel by blast
qed

end
